(* ===== verification/Prelude.thy ===== *)
theory Prelude
  imports Complex_Main "HOL-Library.Sublist" "HOL-Library.List_Lexorder" "HOL-Library.Char_ord"
    "HOL-Library.Multiset"
begin

text \<open>
  Shared vocabulary of the development. The daemon keeps all of its durable state in SQLite
  tables; a table is modelled as the list of its rows in rowid order, and the statements the
  code prepares become list functions:
  \<^item> \<open>SELECT ... WHERE P\<close> is \<^term>\<open>filter P\<close>, a lookup by key is \<open>get_row\<close>;
  \<^item> \<open>UPDATE ... SET f WHERE P\<close> is \<open>update_rows P f\<close>, its \<open>changes\<close> the rows matching \<open>P\<close>;
  \<^item> \<open>DELETE ... WHERE P\<close> is \<open>delete_rows P\<close>;
  \<^item> \<open>ORDER BY ... LIMIT 1\<close> is \<open>first_min\<close>, the first least row of a preorder.
  The locale \<open>keyed_rows\<close> states what a primary key gives (updates that keep the key keep it
  unique and act on one row), \<open>op_system\<close> what it takes for an invariant to survive a run of
  operations, and \<open>least_pick\<close> what the \<open>ORDER BY ... LIMIT 1\<close> idiom returns.
\<close>

named_theorems table_simps \<open>rewrite rules for the table operations\<close>

section \<open>Tables\<close>

type_synonym epoch_ms = int

definition update_rows :: "('r \<Rightarrow> bool) \<Rightarrow> ('r \<Rightarrow> 'r) \<Rightarrow> 'r list \<Rightarrow> 'r list" where
  "update_rows P f rows = map (\<lambda>r. if P r then f r else r) rows"

definition delete_rows :: "('r \<Rightarrow> bool) \<Rightarrow> 'r list \<Rightarrow> 'r list" where
  "delete_rows P rows = filter (\<lambda>r. \<not> P r) rows"

definition count_rows :: "('r \<Rightarrow> bool) \<Rightarrow> 'r list \<Rightarrow> nat" where
  "count_rows P rows = length (filter P rows)"

fun get_row :: "('r \<Rightarrow> 'k) \<Rightarrow> 'k \<Rightarrow> 'r list \<Rightarrow> 'r option" where
  "get_row key k [] = None"
| "get_row key k (r # rs) = (if key r = k then Some r else get_row key k rs)"

lemma update_rows_Nil [simp]: "update_rows P f [] = []"
  by (simp add: update_rows_def)

lemma update_rows_Cons [simp]:
  "update_rows P f (r # rs) = (if P r then f r else r) # update_rows P f rs"
  by (simp add: update_rows_def)

lemma delete_rows_Nil [simp]: "delete_rows P [] = []"
  by (simp add: delete_rows_def)

lemma delete_rows_Cons [simp]:
  "delete_rows P (r # rs) = (if P r then delete_rows P rs else r # delete_rows P rs)"
  by (simp add: delete_rows_def)

lemma length_update_rows [simp]: "length (update_rows P f rows) = length rows"
  by (simp add: update_rows_def)

lemma set_update_rows [table_simps]:
  "set (update_rows P f rows) = (\<lambda>r. if P r then f r else r) ` set rows"
  by (simp add: update_rows_def)

lemma set_delete_rows [table_simps, simp]: "set (delete_rows P rows) = {r \<in> set rows. \<not> P r}"
  by (auto simp: delete_rows_def)

lemma update_rows_none [table_simps]:
  "(\<And>r. r \<in> set rows \<Longrightarrow> \<not> P r) \<Longrightarrow> update_rows P f rows = rows"
  by (induction rows) auto

lemma update_rows_append [simp]:
  "update_rows P f (xs @ ys) = update_rows P f xs @ update_rows P f ys"
  by (simp add: update_rows_def)

lemma count_rows_0_iff: "count_rows P rows = 0 \<longleftrightarrow> (\<forall>r \<in> set rows. \<not> P r)"
  by (auto simp: count_rows_def filter_empty_conv)

lemma count_rows_pos: "r \<in> set rows \<Longrightarrow> P r \<Longrightarrow> 0 < count_rows P rows"
  by (metis count_rows_0_iff gr0I)

lemma count_delete_rows: "count_rows P rows + length (delete_rows P rows) = length rows"
  by (induction rows) (auto simp: count_rows_def delete_rows_def)

lemma count_rows_update_le:
  "(\<And>r. r \<in> set rows \<Longrightarrow> Q r \<Longrightarrow> P (f r) \<Longrightarrow> P r) \<Longrightarrow> count_rows P (update_rows Q f rows) \<le> count_rows P rows"
  by (induction rows) (auto simp: count_rows_def le_SucI)

lemma count_rows_update_less:
  "(\<And>r. r \<in> set rows \<Longrightarrow> Q r \<Longrightarrow> P (f r) \<Longrightarrow> P r) \<Longrightarrow> s \<in> set rows \<Longrightarrow> Q s \<Longrightarrow> P s \<Longrightarrow> \<not> P (f s) \<Longrightarrow>
   count_rows P (update_rows Q f rows) < count_rows P rows"
proof (induction rows)
  case (Cons r rows)
  have le: "count_rows P (update_rows Q f rows) \<le> count_rows P rows"
    by (rule count_rows_update_le) (use Cons.prems in auto)
  show ?case
  proof (cases "s = r")
    case True
    with le Cons.prems show ?thesis by (auto simp: count_rows_def)
  next
    case False
    with Cons have "count_rows P (update_rows Q f rows) < count_rows P rows" by auto
    with Cons.prems show ?thesis by (auto simp: count_rows_def)
  qed
qed simp

lemma count_rows_append [simp]: "count_rows P (xs @ ys) = count_rows P xs + count_rows P ys"
  by (simp add: count_rows_def)

lemma get_row_SomeD: "get_row key k rows = Some r \<Longrightarrow> r \<in> set rows \<and> key r = k"
  by (induction rows) (auto split: if_splits)

lemma get_row_None_iff: "get_row key k rows = None \<longleftrightarrow> k \<notin> key ` set rows"
  by (induction rows) auto

lemma get_row_append:
  "get_row key k (xs @ ys) = (case get_row key k xs of None \<Rightarrow> get_row key k ys | Some r \<Rightarrow> Some r)"
  by (induction xs) auto

text \<open>
  A table with a primary key. \<open>key\<close> reads the key column; the facts below hold whenever the
  column is unique in the rows, which every table of the model keeps as part of its invariant.
\<close>

locale keyed_rows =
  fixes key :: "'r \<Rightarrow> 'k"
begin

lemma get_in: "distinct (map key rows) \<Longrightarrow> r \<in> set rows \<Longrightarrow> get_row key (key r) rows = Some r"
  by (induction rows) (auto simp: rev_image_eqI)

lemma unique: "distinct (map key rows) \<Longrightarrow> r \<in> set rows \<Longrightarrow> s \<in> set rows \<Longrightarrow> key r = key s \<Longrightarrow> r = s"
  by (metis get_in option.inject)

lemma keys_update:
  "(\<And>r. P r \<Longrightarrow> key (f r) = key r) \<Longrightarrow> map key (update_rows P f rows) = map key rows"
  by (induction rows) auto

lemma distinct_update:
  "(\<And>r. P r \<Longrightarrow> key (f r) = key r) \<Longrightarrow> distinct (map key rows) \<Longrightarrow>
   distinct (map key (update_rows P f rows))"
  by (simp add: keys_update)

lemma distinct_delete: "distinct (map key rows) \<Longrightarrow> distinct (map key (delete_rows P rows))"
  by (simp add: delete_rows_def distinct_map_filter)

lemma get_update:
  "(\<And>r. P r \<Longrightarrow> key (f r) = key r) \<Longrightarrow>
   get_row key k (update_rows P f rows) =
     map_option (\<lambda>r. if P r then f r else r) (get_row key k rows)"
  by (induction rows) auto

lemma get_update_key:
  "(\<And>r. key r = k \<Longrightarrow> key (f r) = key r) \<Longrightarrow>
   get_row key l (update_rows (\<lambda>r. key r = k) f rows) =
     (if l = k then map_option f (get_row key l rows) else get_row key l rows)"
  by (induction rows) auto

lemma get_delete_key:
  "get_row key l (delete_rows (\<lambda>r. key r = k) rows) = (if l = k then None else get_row key l rows)"
  by (induction rows) auto

lemma get_delete:
  "distinct (map key rows) \<Longrightarrow>
   get_row key k (delete_rows P rows) =
     (case get_row key k rows of None \<Rightarrow> None | Some r \<Rightarrow> if P r then None else Some r)"
proof (induction rows)
  case (Cons r rows)
  have "get_row key (key r) rows = None" using Cons.prems by (simp add: get_row_None_iff)
  with Cons show ?case by auto
qed simp

end

section \<open>The least row of an ordering\<close>

fun first_min :: "('r \<Rightarrow> 'r \<Rightarrow> bool) \<Rightarrow> 'r list \<Rightarrow> 'r option" where
  "first_min le [] = None"
| "first_min le (r # rs) =
     (case first_min le rs of
        None \<Rightarrow> Some r
      | Some s \<Rightarrow> if le r s then Some r else Some s)"

lemma first_min_None [simp]: "first_min le rs = None \<longleftrightarrow> rs = []"
  by (cases rs) (auto split: option.splits)

lemma first_min_in: "first_min le rs = Some r \<Longrightarrow> r \<in> set rs"
  by (induction rs arbitrary: r) (auto split: option.splits if_splits)

locale least_pick =
  fixes le :: "'r \<Rightarrow> 'r \<Rightarrow> bool"
  assumes le_refl: "le r r"
    and le_trans: "le r s \<Longrightarrow> le s t \<Longrightarrow> le r t"
    and le_total: "le r s \<or> le s r"
begin

lemma first_min_le: "first_min le rs = Some r \<Longrightarrow> s \<in> set rs \<Longrightarrow> le r s"
proof (induction rs arbitrary: r s)
  case (Cons x xs)
  show ?case
  proof (cases "first_min le xs")
    case None
    with Cons.prems show ?thesis by (auto intro: le_refl)
  next
    case (Some m)
    with Cons.IH have m: "\<And>s. s \<in> set xs \<Longrightarrow> le m s" by blast
    show ?thesis
    proof (cases "le x m")
      case True
      with Cons.prems(1) Some have "r = x" by simp
      with True Cons.prems(2) m show ?thesis by (auto intro: le_refl le_trans)
    next
      case False
      with Cons.prems(1) Some have "r = m" by simp
      moreover from False have "le m x" using le_total by blast
      ultimately show ?thesis using Cons.prems(2) m by auto
    qed
  qed
qed simp

end

text \<open>\<open>ORDER BY\<close> without a limit: a stable insertion sort by a comparison.\<close>

fun insert_by :: "('r \<Rightarrow> 'r \<Rightarrow> bool) \<Rightarrow> 'r \<Rightarrow> 'r list \<Rightarrow> 'r list" where
  "insert_by le x [] = [x]"
| "insert_by le x (y # ys) = (if le x y then x # y # ys else y # insert_by le x ys)"

definition sort_by :: "('r \<Rightarrow> 'r \<Rightarrow> bool) \<Rightarrow> 'r list \<Rightarrow> 'r list" where
  "sort_by le xs = foldr (insert_by le) xs []"

lemma mset_insert_by [simp]: "mset (insert_by le x xs) = add_mset x (mset xs)"
  by (induction xs) auto

lemma mset_sort_by [simp]: "mset (sort_by le xs) = mset xs"
  unfolding sort_by_def by (induction xs) auto

lemma set_sort_by [simp]: "set (sort_by le xs) = set xs"
  by (metis mset_sort_by set_mset_mset)

lemma distinct_sort_by [simp]: "distinct (map f (sort_by le xs)) = distinct (map f xs)"
  by (metis mset_sort_by mset_map mset_eq_imp_distinct_iff)

section \<open>Operations and invariants\<close>

text \<open>
  A component is a state, operations that may refuse (\<open>Inl\<close>, the exception the code throws) and
  otherwise return the new state. Every write of the code runs inside one SQLite transaction, so
  a refused operation leaves the state as it was: \<open>exec\<close>.
\<close>

definition commit :: "'s \<Rightarrow> 'e + 's \<Rightarrow> 's" where
  "commit s r = (case r of Inl _ \<Rightarrow> s | Inr s' \<Rightarrow> s')"

lemma commit_simps [simp]: "commit s (Inl e) = s" "commit s (Inr s') = s'"
  by (simp_all add: commit_def)

locale op_system =
  fixes inv :: "'s \<Rightarrow> bool"
    and step :: "'o \<Rightarrow> 's \<Rightarrow> 's"
  assumes step_inv: "inv s \<Longrightarrow> inv (step a s)"
begin

lemma run_inv: "inv s \<Longrightarrow> inv (fold step as s)"
  by (induction as arbitrary: s) (auto intro: step_inv)

lemma run_measure_mono:
  fixes m :: "'s \<Rightarrow> 'n::order"
  assumes "\<And>a s. inv s \<Longrightarrow> m s \<le> m (step a s)" and "inv s"
  shows "m s \<le> m (fold step as s)"
  using assms(2)
proof (induction as arbitrary: s)
  case (Cons a as)
  have "m s \<le> m (step a s)" using assms(1) Cons.prems by blast
  also have "\<dots> \<le> m (fold step as (step a s))" using Cons.IH step_inv Cons.prems by blast
  finally show ?case by simp
qed simp

end

text \<open>A loop over a list whose invariant speaks of the elements already seen.\<close>

locale prefix_scan =
  fixes inv :: "'a list \<Rightarrow> 's \<Rightarrow> bool"
    and step :: "'a \<Rightarrow> 's \<Rightarrow> 's"
  assumes scan_step: "inv seen s \<Longrightarrow> inv (seen @ [x]) (step x s)"
begin

lemma scan_from: "inv seen s \<Longrightarrow> inv (seen @ xs) (fold step xs s)"
proof (induction xs arbitrary: seen s)
  case (Cons x xs)
  from Cons.IH[OF scan_step[OF Cons.prems]] show ?case by simp
qed simp

lemma scan: "inv [] s \<Longrightarrow> inv xs (fold step xs s)"
  using scan_from[of "[]" s xs] by simp

end

section \<open>JavaScript values\<close>

text \<open>
  Strings are compared and searched as the code does: \<open>includes\<close> is \<^const>\<open>sublist\<close>, and
  \<open>toLowerCase\<close> is modelled on the ASCII range the code's patterns live in.
\<close>

definition js_lower_char :: "char \<Rightarrow> char" where
  "js_lower_char c = (let n = of_char c :: nat in if 65 \<le> n \<and> n \<le> 90 then char_of (n + 32) else c)"

definition js_lower :: "string \<Rightarrow> string" where
  "js_lower s = map js_lower_char s"

definition js_includes :: "string \<Rightarrow> string \<Rightarrow> bool" where
  "js_includes s pat \<longleftrightarrow> sublist pat s"

lemma js_lower_char_not_upper: "\<not> (65 \<le> (of_char (js_lower_char c) :: nat) \<and> (of_char (js_lower_char c) :: nat) \<le> 90)"
  by (auto simp: js_lower_char_def Let_def of_char_of)

lemma js_lower_no_upper: "c \<in> set (js_lower s) \<Longrightarrow> \<not> (65 \<le> (of_char c :: nat) \<and> (of_char c :: nat) \<le> 90)"
  using js_lower_char_not_upper by (auto simp: js_lower_def)

lemma js_includes_set: "js_includes s pat \<Longrightarrow> set pat \<subseteq> set s"
  by (auto simp: js_includes_def sublist_def)

text \<open>\<open>Math.round\<close> and \<open>Math.trunc\<close>.\<close>

definition js_round :: "real \<Rightarrow> int" where
  "js_round x = \<lfloor>x + 1 / 2\<rfloor>"

definition js_trunc :: "real \<Rightarrow> int" where
  "js_trunc x = (if x < 0 then \<lceil>x\<rceil> else \<lfloor>x\<rfloor>)"

lemma js_round_mono: "x \<le> y \<Longrightarrow> js_round x \<le> js_round y"
  by (simp add: js_round_def floor_mono)

lemma js_round_of_int [simp]: "js_round (of_int n) = n"
  by (simp add: js_round_def floor_eq_iff)

lemma js_round_ge: "of_int n \<le> x \<Longrightarrow> n \<le> js_round x"
  using js_round_mono[of "of_int n" x] by simp

lemma js_trunc_of_int [simp]: "js_trunc (of_int n) = n"
  by (simp add: js_trunc_def)

section \<open>Insertion-ordered maps\<close>

text \<open>
  A JavaScript object or \<open>Map\<close> iterates its keys in the order of their first insertion; assigning
  a key again keeps its place.
\<close>

fun obj_set :: "'k \<Rightarrow> 'v \<Rightarrow> ('k \<times> 'v) list \<Rightarrow> ('k \<times> 'v) list" where
  "obj_set k v [] = [(k, v)]"
| "obj_set k v ((l, w) # kvs) = (if l = k then (k, v) # kvs else (l, w) # obj_set k v kvs)"

lemma obj_set_in: "set (obj_set k v kvs) \<subseteq> insert (k, v) (set kvs)"
  by (induction k v kvs rule: obj_set.induct) (simp_all, blast)

lemma obj_set_new: "k \<notin> fst ` set kvs \<Longrightarrow> obj_set k v kvs = kvs @ [(k, v)]"
  by (induction kvs) auto

lemma fold_obj_set_in: "set (fold (\<lambda>(k, v). obj_set k v) kvs acc) \<subseteq> set kvs \<union> set acc"
proof (induction kvs arbitrary: acc)
  case (Cons kv kvs)
  have "set (obj_set (fst kv) (snd kv) acc) \<subseteq> insert kv (set acc)" using obj_set_in[of "fst kv" "snd kv" acc] by simp
  then show ?case using Cons[of "obj_set (fst kv) (snd kv) acc"] by (auto simp: case_prod_beta)
qed simp

lemma fold_obj_set_distinct:
  "distinct (map fst acc @ map fst kvs) \<Longrightarrow> fold (\<lambda>(k, v). obj_set k v) kvs acc = acc @ kvs"
proof (induction kvs arbitrary: acc)
  case (Cons kv kvs)
  then show ?case by (cases kv) (simp add: obj_set_new Cons.IH)
qed simp

lemma obj_set_keys: "map fst (obj_set k v kvs) = (if k \<in> fst ` set kvs then map fst kvs else map fst kvs @ [k])"
proof (induction k v kvs rule: obj_set.induct)
  case (2 k v l w kvs)
  then show ?case by (cases "l = k") auto
qed simp

lemma obj_set_lookup: "map_of (obj_set k v kvs) l = (if l = k then Some v else map_of kvs l)"
  by (induction kvs) auto

lemma obj_set_distinct: "distinct (map fst kvs) \<Longrightarrow> distinct (map fst (obj_set k v kvs))"
  by (simp add: obj_set_keys)

end
