(* ===== verification/Jobs.thy ===== *)
theory Jobs
  imports Prelude
begin

text \<open>
  The job queue: \<open>src/src/contracts/job.ts\<close> (kinds, states, the row) and the data-access object
  \<open>JobRepo\<close> of \<open>src/src/pipeline/job-repo.ts\<close>. The \<open>jobs\<close> table is the list of its rows in
  rowid order. Every operation takes the clock reading \<open>Date.now()\<close> it uses as an argument, and
  \<open>enqueue\<close> the id \<open>randomUUID()\<close> returned.

  The claim order divides a job's age by \<open>AGING_STEP_MS\<close> inside SQLite. Whether that quotient is
  truncated depends on how the driver binds the two parameters (as INTEGER or as REAL), which is
  not code of the repository: the quotient is the argument \<open>q\<close> of the claim, and the locale
  \<open>aging_quotient\<close> states the two laws the anti-starvation argument needs. Both the truncated
  and the real quotient satisfy them.
\<close>

section \<open>Rows and constants\<close>

datatype job_state = Pending | Running | Completed | Failed | Poison | Paused

datatype job_kind = Distill | Reembed | Cleanup | Distill_Events | Consolidate | Transcribe

record job =
  job_id :: string
  kind :: job_kind
  payload_json :: string
  state :: job_state
  attempts :: nat
  last_error :: "string option"
  priority :: int
  created_at :: epoch_ms
  updated_at :: epoch_ms

type_synonym jobs = "job list"

fun JOB_PRIORITY :: "job_kind \<Rightarrow> int option" where
  "JOB_PRIORITY Distill = Some 1"
| "JOB_PRIORITY Distill_Events = Some 1"
| "JOB_PRIORITY Reembed = Some 2"
| "JOB_PRIORITY Transcribe = Some 2"
| "JOB_PRIORITY Consolidate = Some 3"
| "JOB_PRIORITY Cleanup = Some 5"

definition DEFAULT_JOB_PRIORITY :: int where
  "DEFAULT_JOB_PRIORITY = 3"

definition LOCAL_SQLITE_KINDS :: "job_kind list" where
  "LOCAL_SQLITE_KINDS = [Cleanup]"

definition AGING_STEP_MS :: int where
  "AGING_STEP_MS = 120000"

definition POISON_JOB_RETENTION_DAYS :: int where
  "POISON_JOB_RETENTION_DAYS = 90"

text \<open>The three exceptions a statement on the table can raise: only the primary key can.\<close>

datatype sql_error = Constraint_PrimaryKey

section \<open>Operations\<close>

definition hasPendingAbovePriority :: "int \<Rightarrow> jobs \<Rightarrow> bool" where
  "hasPendingAbovePriority belowPriority js \<longleftrightarrow>
     filter (\<lambda>j. state j = Pending \<and> priority j < belowPriority) js \<noteq> []"

definition enqueue :: "string \<Rightarrow> epoch_ms \<Rightarrow> job_kind \<Rightarrow> string \<Rightarrow> jobs \<Rightarrow> sql_error + jobs" where
  "enqueue uuid now k payload js =
     (let prio = (case JOB_PRIORITY k of None \<Rightarrow> DEFAULT_JOB_PRIORITY | Some p \<Rightarrow> p)
      in if get_row job_id uuid js \<noteq> None then Inl Constraint_PrimaryKey
         else Inr (js @ [\<lparr>job_id = uuid, kind = k, payload_json = payload, state = Pending,
                          attempts = 0, last_error = None, priority = prio,
                          created_at = now, updated_at = now\<rparr>]))"

definition eff_priority :: "(int \<Rightarrow> int \<Rightarrow> real) \<Rightarrow> epoch_ms \<Rightarrow> job \<Rightarrow> real" where
  "eff_priority q now j = of_int (priority j) - q (now - created_at j) AGING_STEP_MS"

definition claims_before :: "(int \<Rightarrow> int \<Rightarrow> real) \<Rightarrow> epoch_ms \<Rightarrow> job \<Rightarrow> job \<Rightarrow> bool" where
  "claims_before q now a b \<longleftrightarrow>
     eff_priority q now a < eff_priority q now b \<or>
     (eff_priority q now a = eff_priority q now b \<and> created_at a \<le> created_at b)"

definition claim_candidate ::
  "(int \<Rightarrow> int \<Rightarrow> real) \<Rightarrow> epoch_ms \<Rightarrow> job_kind list \<Rightarrow> jobs \<Rightarrow> job option" where
  "claim_candidate q now preferKinds js =
     (let preferred =
            (if preferKinds \<noteq> []
             then first_min (claims_before q now)
                    (filter (\<lambda>j. state j = Pending \<and> kind j \<in> set preferKinds) js)
             else None)
      in case preferred of
           Some j \<Rightarrow> Some j
         | None \<Rightarrow> first_min (claims_before q now) (filter (\<lambda>j. state j = Pending) js))"

definition claimPending ::
  "(int \<Rightarrow> int \<Rightarrow> real) \<Rightarrow> epoch_ms \<Rightarrow> job_kind list \<Rightarrow> jobs \<Rightarrow> job option \<times> jobs" where
  "claimPending q now preferKinds js =
     (case claim_candidate q now preferKinds js of
        None \<Rightarrow> (None, js)
      | Some c \<Rightarrow>
          (let P = (\<lambda>j. job_id j = job_id c \<and> state j = Pending)
           in if count_rows P js = 0 then (None, js)
              else (Some (c\<lparr>state := Running, updated_at := now\<rparr>),
                    update_rows P (\<lambda>j. j\<lparr>state := Running, updated_at := now\<rparr>) js)))"

definition transition :: "string \<Rightarrow> job_state \<Rightarrow> epoch_ms \<Rightarrow> jobs \<Rightarrow> jobs" where
  "transition i st now js =
     update_rows (\<lambda>j. job_id j = i) (\<lambda>j. j\<lparr>state := st, updated_at := now\<rparr>) js"

definition complete :: "string \<Rightarrow> epoch_ms \<Rightarrow> jobs \<Rightarrow> jobs" where
  "complete i now js = transition i Completed now js"

definition fail :: "string \<Rightarrow> string \<Rightarrow> epoch_ms \<Rightarrow> jobs \<Rightarrow> jobs" where
  "fail i err now js =
     update_rows (\<lambda>j. job_id j = i)
       (\<lambda>j. j\<lparr>state := Failed, last_error := Some err, attempts := attempts j + 1,
              updated_at := now\<rparr>) js"

definition requeueForRetry :: "string \<Rightarrow> epoch_ms \<Rightarrow> jobs \<Rightarrow> jobs" where
  "requeueForRetry i now js = transition i Pending now js"

definition markPoison :: "string \<Rightarrow> epoch_ms \<Rightarrow> jobs \<Rightarrow> jobs" where
  "markPoison i now js = transition i Poison now js"

definition pause :: "string \<Rightarrow> epoch_ms \<Rightarrow> jobs \<Rightarrow> jobs" where
  "pause i now js = transition i Paused now js"

definition setLastError :: "string \<Rightarrow> string \<Rightarrow> epoch_ms \<Rightarrow> jobs \<Rightarrow> jobs" where
  "setLastError i note now js =
     update_rows (\<lambda>j. job_id j = i) (\<lambda>j. j\<lparr>last_error := Some note, updated_at := now\<rparr>) js"

definition get_job :: "string \<Rightarrow> jobs \<Rightarrow> job option" where
  "get_job i js = get_row job_id i js"

definition consolidate_poison_note :: string where
  "consolidate_poison_note =
     ''boot recovery: running consolidate job poisoned, not requeued '' @
     ''(issue #387 - the unbounded pairwise-scan setup can freeze the event loop on '' @
     ''every restart if simply requeued); re-enqueue manually once safe''"

record recovery =
  requeuedRunning :: nat
  requeuedFailed :: nat
  poisonedConsolidate :: nat

definition recoverOrphans :: "nat \<Rightarrow> epoch_ms \<Rightarrow> jobs \<Rightarrow> recovery \<times> jobs" where
  "recoverOrphans maxAttempts now js =
     (let P1 = (\<lambda>j. state j = Running \<and> kind j = Consolidate);
          js1 = update_rows P1 (\<lambda>j. j\<lparr>state := Poison, updated_at := now,
                                      last_error := Some consolidate_poison_note\<rparr>) js;
          P2 = (\<lambda>j. state j = Running \<and> kind j \<noteq> Consolidate);
          js2 = update_rows P2 (\<lambda>j. j\<lparr>state := Pending, updated_at := now\<rparr>) js1;
          P3 = (\<lambda>j. state j = Failed \<and> attempts j < maxAttempts);
          js3 = update_rows P3 (\<lambda>j. j\<lparr>state := Pending, updated_at := now\<rparr>) js2
      in (\<lparr>requeuedRunning = count_rows P2 js1, requeuedFailed = count_rows P3 js2,
           poisonedConsolidate = count_rows P1 js\<rparr>, js3))"

definition requeuePaused :: "epoch_ms \<Rightarrow> jobs \<Rightarrow> nat \<times> jobs" where
  "requeuePaused now js =
     (count_rows (\<lambda>j. state j = Paused) js,
      update_rows (\<lambda>j. state j = Paused) (\<lambda>j. j\<lparr>state := Pending, updated_at := now\<rparr>) js)"

definition purgeOld :: "int option \<Rightarrow> int option \<Rightarrow> epoch_ms \<Rightarrow> jobs \<Rightarrow> (nat \<times> nat) \<times> jobs" where
  "purgeOld completedDays poisonDays now js =
     (let dayMs = 24 * 60 * 60 * 1000;
          completedCutoff = now - (case completedDays of None \<Rightarrow> 7 | Some d \<Rightarrow> d) * dayMs;
          poisonCutoff = now - (case poisonDays of None \<Rightarrow> POISON_JOB_RETENTION_DAYS | Some d \<Rightarrow> d) * dayMs;
          P1 = (\<lambda>j. state j = Completed \<and> updated_at j < completedCutoff);
          js1 = delete_rows P1 js;
          P2 = (\<lambda>j. state j = Poison \<and> updated_at j < poisonCutoff)
      in ((count_rows P1 js, count_rows P2 js1), delete_rows P2 js1))"

definition listPoison :: "jobs \<Rightarrow> job list" where
  "listPoison js = sort_key updated_at (filter (\<lambda>j. state j = Poison) js)"

definition purgePoisonByIds :: "string list \<Rightarrow> jobs \<Rightarrow> nat \<times> jobs" where
  "purgePoisonByIds ids js =
     (if ids = [] then (0, js)
      else let P = (\<lambda>j. state j = Poison \<and> job_id j \<in> set ids)
           in (count_rows P js, delete_rows P js))"

definition stateCounts :: "jobs \<Rightarrow> job_state \<Rightarrow> nat option" where
  "stateCounts js st =
     (let n = count_rows (\<lambda>j. state j = st) js in if n = 0 then None else Some n)"

definition pendingByPriority :: "jobs \<Rightarrow> (int \<times> nat) list" where
  "pendingByPriority js =
     (let pending = filter (\<lambda>j. state j = Pending) js
      in map (\<lambda>p. (p, count_rows (\<lambda>j. priority j = p) pending)) (sort (remdups (map priority pending))))"

section \<open>The claim order\<close>

interpretation job_rows: keyed_rows job_id .

interpretation claim_order: least_pick "claims_before q now" for q now
  by unfold_locales (auto simp: claims_before_def)

text \<open>
  What the claim needs of the quotient: it grows with the age, and a whole number of aging steps
  adds exactly that number (ages are never negative).
\<close>

locale aging_quotient =
  fixes q :: "int \<Rightarrow> int \<Rightarrow> real"
  assumes q_mono: "0 < s \<Longrightarrow> a \<le> b \<Longrightarrow> q a s \<le> q b s"
    and q_steps: "0 < s \<Longrightarrow> 0 \<le> a \<Longrightarrow> 0 \<le> n \<Longrightarrow> q (a + n * s) s = q a s + of_int n"
begin

lemma waited_wins:
  assumes age: "created_at x \<le> now"
    and late: "created_at j + max 0 (priority j - priority x) * AGING_STEP_MS \<le> created_at x"
  shows "claims_before q now j x"
proof -
  let ?n = "max 0 (priority j - priority x)"
  let ?S = "AGING_STEP_MS"
  have S: "0 < ?S" by (simp add: AGING_STEP_MS_def)
  have n0: "0 \<le> ?n * ?S" using S by (intro mult_nonneg_nonneg) auto
  have a: "0 \<le> now - created_at x" "now - created_at x \<le> now - created_at j - ?n * ?S"
    using age late by auto
  have "q (now - created_at j) ?S = q (now - created_at j - ?n * ?S) ?S + of_int ?n"
    using q_steps[OF S, of "now - created_at j - ?n * ?S" ?n] a by simp
  moreover have "q (now - created_at x) ?S \<le> q (now - created_at j - ?n * ?S) ?S"
    by (rule q_mono[OF S a(2)])
  moreover have "real_of_int (priority j) - real_of_int ?n \<le> real_of_int (priority x)"
    unfolding of_int_diff[symmetric] of_int_le_iff by linarith
  ultimately have "eff_priority q now j \<le> eff_priority q now x"
    unfolding eff_priority_def by linarith
  moreover have "created_at j \<le> created_at x" using late n0 by linarith
  ultimately show ?thesis by (auto simp: claims_before_def)
qed

lemma overtaker_is_older:
  assumes "claims_before q now x j" and "created_at x \<le> now"
  shows "created_at x \<le> created_at j + max 0 (priority j - priority x) * AGING_STEP_MS"
proof (rule ccontr)
  assume "\<not> ?thesis"
  then have late: "created_at j + max 0 (priority j - priority x) * AGING_STEP_MS < created_at x"
    by simp
  then have "claims_before q now j x" using waited_wins assms(2) by simp
  with assms(1) have "created_at x \<le> created_at j" by (auto simp: claims_before_def)
  moreover have "0 \<le> max 0 (priority j - priority x) * AGING_STEP_MS"
    by (simp add: AGING_STEP_MS_def)
  ultimately show False using late by linarith
qed

end

text \<open>The two readings of the division: INTEGER operands truncate, REAL operands do not.\<close>

definition trunc_quotient :: "int \<Rightarrow> int \<Rightarrow> real" where
  "trunc_quotient a s = of_int (sgn a * sgn s * (\<bar>a\<bar> div \<bar>s\<bar>))"

definition real_quotient :: "int \<Rightarrow> int \<Rightarrow> real" where
  "real_quotient a s = of_int a / of_int s"

lemma trunc_quotient_nonneg: "0 < s \<Longrightarrow> 0 \<le> a \<Longrightarrow> trunc_quotient a s = of_int (a div s)"
  by (cases "a = 0") (simp_all add: trunc_quotient_def)

lemma trunc_quotient_neg: "0 < s \<Longrightarrow> a < 0 \<Longrightarrow> trunc_quotient a s = - of_int ((- a) div s)"
  by (simp add: trunc_quotient_def)

lemma trunc_quotient_mono:
  assumes s: "0 < s" and ab: "a \<le> b"
  shows "trunc_quotient a s \<le> trunc_quotient b s"
proof -
  consider "0 \<le> a" | "a < 0" "0 \<le> b" | "b < 0" using ab by linarith
  then show ?thesis
  proof cases
    case 1
    then show ?thesis using s ab by (simp add: trunc_quotient_nonneg zdiv_mono1)
  next
    case 2
    then have "0 \<le> (- a) div s" "0 \<le> b div s" using s by (simp_all add: pos_imp_zdiv_nonneg_iff)
    then show ?thesis using 2 s by (simp add: trunc_quotient_nonneg trunc_quotient_neg)
  next
    case 3
    then have "(- b) div s \<le> (- a) div s" using s ab by (intro zdiv_mono1) auto
    then show ?thesis using 3 s ab by (simp add: trunc_quotient_neg)
  qed
qed

interpretation truncating: aging_quotient trunc_quotient
  by unfold_locales (simp_all add: trunc_quotient_mono trunc_quotient_nonneg)

interpretation dividing: aging_quotient real_quotient
  by unfold_locales (auto simp: real_quotient_def divide_right_mono add_divide_distrib)

section \<open>An example queue\<close>

text \<open>A concrete table the applications below are evaluated on.\<close>

definition mk_job :: "string \<Rightarrow> job_kind \<Rightarrow> job_state \<Rightarrow> nat \<Rightarrow> int \<Rightarrow> epoch_ms \<Rightarrow> job" where
  "mk_job i k st n p t = \<lparr>job_id = i, kind = k, payload_json = ''{}'', state = st, attempts = n,
     last_error = None, priority = p, created_at = t, updated_at = t\<rparr>"

definition example_jobs :: jobs where
  "example_jobs =
    [mk_job ''a'' Cleanup Pending 0 5 0, mk_job ''b'' Distill Pending 1 1 400000,
     mk_job ''c'' Consolidate Running 0 3 10, mk_job ''d'' Reembed Running 2 2 20,
     mk_job ''e'' Distill Failed 2 1 30, mk_job ''f'' Distill Completed 0 1 40]"

section \<open>Claiming\<close>

definition jobs_wf :: "jobs \<Rightarrow> bool" where
  "jobs_wf js \<longleftrightarrow> distinct (map job_id js)"

lemma claim_candidate_pending:
  "claim_candidate q now pk js = Some c \<Longrightarrow> c \<in> set js \<and> state c = Pending"
  by (auto simp: claim_candidate_def Let_def split: option.splits if_splits dest!: first_min_in)

lemma claim_candidate_None:
  "claim_candidate q now pk js = None \<longleftrightarrow> (\<forall>r \<in> set js. state r \<noteq> Pending)"
proof
  assume "claim_candidate q now pk js = None"
  then show "\<forall>r \<in> set js. state r \<noteq> Pending"
    by (auto simp: claim_candidate_def Let_def filter_empty_conv split: option.splits if_splits)
next
  assume "\<forall>r \<in> set js. state r \<noteq> Pending"
  then show "claim_candidate q now pk js = None"
    using claim_candidate_pending by (cases "claim_candidate q now pk js") blast+
qed

lemma claim_candidate_least:
  assumes "claim_candidate q now pk js = Some c"
  shows "if \<exists>r \<in> set js. state r = Pending \<and> kind r \<in> set pk
         then kind c \<in> set pk \<and>
              (\<forall>r \<in> set js. state r = Pending \<longrightarrow> kind r \<in> set pk \<longrightarrow> claims_before q now c r)
         else \<forall>r \<in> set js. state r = Pending \<longrightarrow> claims_before q now c r"
proof -
  let ?pref = "filter (\<lambda>j. state j = Pending \<and> kind j \<in> set pk) js"
  let ?all = "filter (\<lambda>j. state j = Pending) js"
  show ?thesis
  proof (cases "?pref = []")
    case True
    then have "\<not> (\<exists>r \<in> set js. state r = Pending \<and> kind r \<in> set pk)" by (auto simp: filter_empty_conv)
    moreover from True assms have "first_min (claims_before q now) ?all = Some c"
      by (auto simp: claim_candidate_def split: if_splits)
    ultimately show ?thesis using claim_order.first_min_le by fastforce
  next
    case False
    then have ex: "\<exists>r \<in> set js. state r = Pending \<and> kind r \<in> set pk" by (auto simp: filter_empty_conv)
    from ex have "pk \<noteq> []" by auto
    with False assms have c: "first_min (claims_before q now) ?pref = Some c"
      by (auto simp: claim_candidate_def split: option.splits)
    then have "c \<in> set ?pref" by (rule first_min_in)
    with ex show ?thesis using claim_order.first_min_le[OF c] by simp
  qed
qed

lemma claimPending_Some_iff:
  assumes "jobs_wf js"
  shows "claimPending q now pk js = (Some j, js') \<longleftrightarrow>
    (\<exists>c. claim_candidate q now pk js = Some c \<and> j = c\<lparr>state := Running, updated_at := now\<rparr> \<and>
         js' = transition (job_id c) Running now js)"
proof (cases "claim_candidate q now pk js")
  case None
  then show ?thesis by (simp add: claimPending_def)
next
  case (Some c)
  then have c: "c \<in> set js" "state c = Pending" by (auto dest: claim_candidate_pending)
  have "update_rows (\<lambda>r. job_id r = job_id c \<and> state r = Pending) f js =
        update_rows (\<lambda>r. job_id r = job_id c) f js" for f
    using c job_rows.unique[of js] assms unfolding jobs_wf_def update_rows_def
    by (intro map_cong) auto
  moreover have "count_rows (\<lambda>r. job_id r = job_id c \<and> state r = Pending) js \<noteq> 0"
    using c by (simp add: count_rows_0_iff) blast
  ultimately show ?thesis using Some
    by (auto simp: claimPending_def transition_def Let_def)
qed

lemma claimPending_None_iff:
  assumes "jobs_wf js"
  shows "claimPending q now pk js = (None, js') \<longleftrightarrow> js' = js \<and> (\<forall>r \<in> set js. state r \<noteq> Pending)"
proof (cases "claim_candidate q now pk js")
  case None
  then show ?thesis using claim_candidate_None[of q now pk js]
    by (auto simp: claimPending_def)
next
  case (Some c)
  then have "\<exists>j. claimPending q now pk js = (Some j, transition (job_id c) Running now js)"
    using claimPending_Some_iff[OF assms] by auto
  then show ?thesis using claim_candidate_pending[OF Some] by auto
qed

lemma claimPending_eq:
  assumes "jobs_wf js"
  shows "claimPending q now pk js =
    (case claim_candidate q now pk js of
       None \<Rightarrow> (None, js)
     | Some c \<Rightarrow> (Some (c\<lparr>state := Running, updated_at := now\<rparr>), transition (job_id c) Running now js))"
proof (cases "claim_candidate q now pk js")
  case None
  then show ?thesis by (simp add: claimPending_def)
next
  case (Some c)
  then show ?thesis using claimPending_Some_iff[OF assms] by auto
qed

lemma get_transition:
  "get_job i (transition k st now js) =
     (if i = k then map_option (\<lambda>j. j\<lparr>state := st, updated_at := now\<rparr>) (get_job i js) else get_job i js)"
  unfolding get_job_def transition_def by (rule job_rows.get_update_key) simp

lemma get_fail:
  "get_job i (fail k e now js) =
     (if i = k then map_option (\<lambda>j. j\<lparr>state := Failed, last_error := Some e,
        attempts := attempts j + 1, updated_at := now\<rparr>) (get_job i js) else get_job i js)"
  unfolding get_job_def fail_def by (rule job_rows.get_update_key) simp

lemma get_setLastError:
  "get_job i (setLastError k e now js) =
     (if i = k then map_option (\<lambda>j. j\<lparr>last_error := Some e, updated_at := now\<rparr>) (get_job i js)
      else get_job i js)"
  unfolding get_job_def setLastError_def by (rule job_rows.get_update_key) simp

lemmas get_job_updates =
  get_transition get_fail get_setLastError complete_def requeueForRetry_def markPoison_def pause_def

lemma jobs_wf_update:
  "(\<And>r. P r \<Longrightarrow> job_id (f r) = job_id r) \<Longrightarrow> jobs_wf js \<Longrightarrow> jobs_wf (update_rows P f js)"
  unfolding jobs_wf_def by (rule job_rows.distinct_update)

lemma jobs_wf_delete: "jobs_wf js \<Longrightarrow> jobs_wf (delete_rows P js)"
  unfolding jobs_wf_def by (rule job_rows.distinct_delete)

lemma jobs_wf_enqueue: "jobs_wf js \<Longrightarrow> enqueue i now k p js = Inr js' \<Longrightarrow> jobs_wf js'"
  by (auto simp: enqueue_def jobs_wf_def Let_def get_row_None_iff image_iff split: if_splits)

lemma get_enqueue:
  "enqueue i now k p js = Inr js' \<Longrightarrow> l \<noteq> i \<Longrightarrow> get_job l js' = get_job l js"
  by (auto simp: enqueue_def get_job_def Let_def get_row_append split: if_splits option.splits)

lemma jobs_wf_ops [intro]:
  assumes "jobs_wf js"
  shows "jobs_wf (transition i st now js)" "jobs_wf (fail i e now js)"
    "jobs_wf (setLastError i e now js)" "jobs_wf (snd (requeuePaused now js))"
    "jobs_wf (snd (recoverOrphans m now js))" "jobs_wf (snd (purgeOld cd pd now js))"
    "jobs_wf (snd (purgePoisonByIds ids js))" "jobs_wf (snd (claimPending q now pk js))"
  using assms
  by (auto simp: transition_def fail_def setLastError_def requeuePaused_def recoverOrphans_def
      purgeOld_def purgePoisonByIds_def claimPending_def Let_def
      intro!: jobs_wf_update jobs_wf_delete split: option.splits)

text \<open>
  Claiming takes a pending job that no pending job precedes in the claim order, among the
  preferred kinds when one of those is pending and among all kinds otherwise; the returned row is
  that job in state running, exactly its table row changes, and every other row is untouched.
\<close>

lemma claimPending_takes_least:
  assumes "distinct (map job_id js)"
    and "claimPending q now pk js = (Some j, js')"
  shows "\<exists>c \<in> set js. state c = Pending \<and> j = c\<lparr>state := Running, updated_at := now\<rparr> \<and>
     (\<forall>i. get_job i js' = (if i = job_id c then Some j else get_job i js)) \<and>
     (if \<exists>r \<in> set js. state r = Pending \<and> kind r \<in> set pk
      then kind c \<in> set pk \<and>
           (\<forall>r \<in> set js. state r = Pending \<longrightarrow> kind r \<in> set pk \<longrightarrow> claims_before q now c r)
      else \<forall>r \<in> set js. state r = Pending \<longrightarrow> claims_before q now c r)"
proof -
  have wf: "jobs_wf js" using assms(1) by (simp add: jobs_wf_def)
  obtain c where c: "claim_candidate q now pk js = Some c"
    and j: "j = c\<lparr>state := Running, updated_at := now\<rparr>"
    and js': "js' = transition (job_id c) Running now js"
    using assms(2) claimPending_Some_iff[OF wf] by blast
  have cin: "c \<in> set js" "state c = Pending" using claim_candidate_pending[OF c] by auto
  have "get_job (job_id c) js = Some c"
    unfolding get_job_def using job_rows.get_in[OF assms(1)] cin by blast
  then have "\<forall>i. get_job i js' = (if i = job_id c then Some j else get_job i js)"
    by (simp add: js' j get_transition)
  with cin j claim_candidate_least[OF c] show ?thesis by blast
qed

lemma claimPending_takes_least_witness:
  "\<exists>c \<in> set example_jobs. state c = Pending \<and>
     the (fst (claimPending trunc_quotient 400001 [] example_jobs)) = c\<lparr>state := Running, updated_at := 400001\<rparr>"
proof -
  have d: "distinct (map job_id example_jobs)" by (simp add: example_jobs_def mk_job_def)
  have "fst (claimPending trunc_quotient 400001 [] example_jobs) \<noteq> None"
    using claimPending_None_iff[of example_jobs trunc_quotient 400001 "[]"] d
    by (cases "claimPending trunc_quotient 400001 [] example_jobs")
      (auto simp: jobs_wf_def example_jobs_def mk_job_def)
  then obtain j js' where c: "claimPending trunc_quotient 400001 [] example_jobs = (Some j, js')"
    by (cases "claimPending trunc_quotient 400001 [] example_jobs") auto
  from claimPending_takes_least[OF d c] show ?thesis by (auto simp: c)
qed

text \<open>
  No job is claimed twice: a second claim of the same queue, at any later time and by any
  lane, returns a different job, and a claim comes back empty exactly when nothing is pending.
\<close>

lemma claims_are_exclusive:
  assumes "distinct (map job_id js)"
    and "claimPending q now pk js = (Some j, js1)"
    and "claimPending q' now' pk' js1 = (r, js2)"
  shows "case r of Some j2 \<Rightarrow> job_id j2 \<noteq> job_id j | None \<Rightarrow> js2 = js1 \<and> (\<forall>x \<in> set js1. state x \<noteq> Pending)"
proof -
  have wf: "jobs_wf js" using assms(1) by (simp add: jobs_wf_def)
  obtain c where c: "claim_candidate q now pk js = Some c"
    and j: "j = c\<lparr>state := Running, updated_at := now\<rparr>"
    and js1: "js1 = transition (job_id c) Running now js"
    using assms(2) claimPending_Some_iff[OF wf] by blast
  have wf1: "jobs_wf js1" using wf by (auto simp: js1)
  have run: "\<forall>x \<in> set js1. job_id x = job_id c \<longrightarrow> state x = Running"
    by (auto simp: js1 transition_def set_update_rows)
  show ?thesis
  proof (cases r)
    case None
    then show ?thesis using assms(3) claimPending_None_iff[OF wf1] by auto
  next
    case (Some j2)
    then obtain d where d: "claim_candidate q' now' pk' js1 = Some d"
      and j2: "j2 = d\<lparr>state := Running, updated_at := now'\<rparr>"
      using assms(3) claimPending_Some_iff[OF wf1] by blast
    have "d \<in> set js1" "state d = Pending" using claim_candidate_pending[OF d] by auto
    with run have "job_id d \<noteq> job_id c" by auto
    then show ?thesis by (simp add: Some j j2)
  qed
qed

lemma claims_are_exclusive_witness:
  "let (r1, js1) = claimPending trunc_quotient 400001 [] example_jobs;
       (r2, js2) = claimPending trunc_quotient 400002 LOCAL_SQLITE_KINDS js1
   in job_id (the r1) = ''b'' \<and> job_id (the r2) = ''a''"
proof -
  have d: "distinct (map job_id example_jobs)" by (simp add: example_jobs_def mk_job_def)
  define js1 where "js1 = transition ''b'' Running 400001 example_jobs"
  have 1: "claimPending trunc_quotient 400001 [] example_jobs =
     (Some (mk_job ''b'' Distill Running 1 1 400000\<lparr>updated_at := 400001\<rparr>), js1)"
    by (simp add: claimPending_eq jobs_wf_def d[unfolded example_jobs_def mk_job_def] example_jobs_def
        mk_job_def claim_candidate_def claims_before_def eff_priority_def AGING_STEP_MS_def
        trunc_quotient_def js1_def)
  have wf1: "jobs_wf js1" using d by (auto simp: js1_def jobs_wf_def[symmetric])
  obtain r js2 where 2: "claimPending trunc_quotient 400002 LOCAL_SQLITE_KINDS js1 = (r, js2)"
    by fastforce
  have "r \<noteq> None"
  proof
    assume "r = None"
    with 2 have "\<forall>x \<in> set js1. state x \<noteq> Pending" by (simp add: claimPending_None_iff[OF wf1])
    then show False by (simp add: js1_def transition_def example_jobs_def mk_job_def)
  qed
  then obtain x where x: "r = Some x" by blast
  have "job_id x \<noteq> ''b''"
    using claims_are_exclusive[OF d 1 2] by (simp add: x mk_job_def)
  moreover have "job_id x \<in> {''a'', ''b''}"
    using 2 unfolding x claimPending_Some_iff[OF wf1]
    by (auto dest!: claim_candidate_pending simp: js1_def transition_def example_jobs_def mk_job_def)
  ultimately show ?thesis by (simp add: 1 2 x mk_job_def)
qed

section \<open>Anti-starvation\<close>

text \<open>
  What can happen to the queue while a job waits: new jobs arrive, workers claim (with or without
  preferred kinds) and settle what they hold. Re-queueing is left out: a job put back to pending
  competes with its original \<open>created_at\<close>, so it is one more of the bounded set of older rivals.
\<close>

datatype queue_event =
    Ev_Enqueue string job_kind string
  | Ev_Claim "job_kind list"
  | Ev_Complete string
  | Ev_Fail string string
  | Ev_Poison string
  | Ev_Pause string

fun queue_step :: "(int \<Rightarrow> int \<Rightarrow> real) \<Rightarrow> epoch_ms \<times> queue_event \<Rightarrow> jobs \<Rightarrow> jobs" where
  "queue_step q (now, Ev_Enqueue i k p) js = commit js (enqueue i now k p js)"
| "queue_step q (now, Ev_Claim pk) js = snd (claimPending q now pk js)"
| "queue_step q (now, Ev_Complete i) js = complete i now js"
| "queue_step q (now, Ev_Fail i e) js = fail i e now js"
| "queue_step q (now, Ev_Poison i) js = markPoison i now js"
| "queue_step q (now, Ev_Pause i) js = pause i now js"

fun plain_claims :: "(epoch_ms \<times> queue_event) list \<Rightarrow> nat" where
  "plain_claims [] = 0"
| "plain_claims (e # es) = (if snd e = Ev_Claim [] then 1 else 0) + plain_claims es"

text \<open>The pending jobs that can still be claimed ahead of \<open>j\<close>: those at most as young as this.\<close>

definition overtakes_until :: "job \<Rightarrow> epoch_ms" where
  "overtakes_until j = created_at j + max 0 (priority j - 1) * AGING_STEP_MS"

definition rivals :: "job \<Rightarrow> jobs \<Rightarrow> nat" where
  "rivals j js = count_rows (\<lambda>x. state x = Pending \<and> job_id x \<noteq> job_id j \<and>
                                 created_at x \<le> overtakes_until j) js"

definition waiting :: "job \<Rightarrow> jobs \<Rightarrow> bool" where
  "waiting j js \<longleftrightarrow> (\<exists>r. get_job (job_id j) js = Some r \<and> state r = Pending \<and>
     priority r = priority j \<and> created_at r = created_at j)"

definition settled_queue :: "epoch_ms \<Rightarrow> jobs \<Rightarrow> bool" where
  "settled_queue t js \<longleftrightarrow> jobs_wf js \<and> (\<forall>x \<in> set js. 1 \<le> priority x \<and> created_at x \<le> t)"

lemma settled_queue_update:
  assumes "\<And>r. P r \<Longrightarrow> job_id (f r) = job_id r \<and> priority (f r) = priority r \<and> created_at (f r) = created_at r"
    and "settled_queue t js"
  shows "settled_queue t (update_rows P f js)"
  using assms by (auto simp: settled_queue_def set_update_rows intro!: jobs_wf_update)

lemma enqueue_priority: "enqueue i now k p js = Inr js' \<Longrightarrow>
  \<exists>r. js' = js @ [r] \<and> job_id r = i \<and> created_at r = now \<and> 1 \<le> priority r \<and> get_job i js = None"
  by (cases k) (auto simp: enqueue_def get_job_def Let_def split: if_splits)

lemma settled_queue_step:
  assumes "settled_queue t js" and "t \<le> now"
  shows "settled_queue now (queue_step q (now, e) js)"
proof -
  have s: "settled_queue now js" using assms by (force simp: settled_queue_def)
  show ?thesis
  proof (cases e)
    case (Ev_Enqueue i k p)
    show ?thesis
    proof (cases "enqueue i now k p js")
      case (Inr js')
      then show ?thesis using s enqueue_priority[OF Inr] jobs_wf_enqueue[OF _ Inr]
        by (auto simp: Ev_Enqueue settled_queue_def)
    qed (simp add: Ev_Enqueue s)
  next
    case (Ev_Claim pk)
    show ?thesis using s unfolding Ev_Claim
      by (auto simp: claimPending_def Let_def intro!: settled_queue_update split: option.splits)
  qed (use s in \<open>auto simp: complete_def transition_def fail_def markPoison_def pause_def
        intro!: settled_queue_update\<close>)
qed

lemma queue_step_not_pending:
  assumes "jobs_wf js" and "get_job i js = Some r" and "state r \<noteq> Pending"
  shows "\<exists>r'. get_job i (queue_step q (now, e) js) = Some r' \<and> state r' \<noteq> Pending"
proof (cases e)
  case (Ev_Enqueue l k p)
  have "get_job i js' = Some r" if e: "enqueue l now k p js = Inr js'" for js'
    using enqueue_priority[OF e] assms(2) by (auto simp: get_job_def get_row_append)
  with assms show ?thesis by (auto simp: Ev_Enqueue commit_def split: sum.splits)
next
  case (Ev_Claim pk)
  show ?thesis using assms
    by (auto simp: Ev_Claim claimPending_eq[OF assms(1)] get_transition split: option.splits)
qed (use assms in \<open>auto simp: get_job_updates\<close>)

lemma queue_step_waiting_back:
  assumes "jobs_wf js" and "get_job (job_id j) js \<noteq> None" and "waiting j (queue_step q (now, e) js)"
  shows "\<exists>r. get_job (job_id j) js = Some r \<and> state r = Pending"
proof -
  obtain r where r: "get_job (job_id j) js = Some r" using assms(2) by blast
  show ?thesis using r queue_step_not_pending[OF assms(1) r, of q now e] assms(3)
    by (force simp: waiting_def)
qed

lemma get_row_queue_step:
  assumes "jobs_wf js" and "get_job i js = Some r"
  shows "\<exists>r'. get_job i (queue_step q (now, e) js) = Some r' \<and>
    priority r' = priority r \<and> created_at r' = created_at r"
proof (cases e)
  case (Ev_Enqueue l k p)
  have "get_job i js' = Some r" if e: "enqueue l now k p js = Inr js'" for js'
    using enqueue_priority[OF e] assms(2) by (auto simp: get_job_def get_row_append)
  with assms show ?thesis by (auto simp: Ev_Enqueue commit_def split: sum.splits)
next
  case (Ev_Claim pk)
  show ?thesis using assms
    by (auto simp: Ev_Claim claimPending_eq[OF assms(1)] get_transition split: option.splits)
qed (use assms in \<open>auto simp: get_job_updates\<close>)

lemma rivals_step:
  assumes inv: "settled_queue t js" and "t \<le> now" and late: "overtakes_until j < now"
    and w: "waiting j js" and w': "waiting j (queue_step q (now, e) js)" and q: "aging_quotient q"
  shows "rivals j (queue_step q (now, e) js) + (if e = Ev_Claim [] then 1 else 0) \<le> rivals j js"
proof -
  let ?R = "\<lambda>x. state x = Pending \<and> job_id x \<noteq> job_id j \<and> created_at x \<le> overtakes_until j"
  have wf: "jobs_wf js" and rows: "\<forall>x \<in> set js. 1 \<le> priority x \<and> created_at x \<le> now"
    using inv assms(2) by (force simp: settled_queue_def)+
  have keep: "rivals j (update_rows P f js) \<le> rivals j js"
    if "\<And>r. ?R (f r) \<Longrightarrow> ?R r" for P f
    unfolding rivals_def by (rule count_rows_update_le) (use that in blast)
  show ?thesis
  proof (cases e)
    case (Ev_Enqueue l k p)
    show ?thesis
    proof (cases "enqueue l now k p js")
      case (Inr js')
      then show ?thesis using enqueue_priority[OF Inr] late
        by (auto simp: Ev_Enqueue rivals_def) (simp add: count_rows_def)
    qed (simp add: Ev_Enqueue)
  next
    case (Ev_Claim pk)
    show ?thesis
    proof (cases "claim_candidate q now pk js")
      case None
      with w show ?thesis unfolding waiting_def get_job_def claim_candidate_None
        by (auto dest: get_row_SomeD)
    next
      case (Some c)
      have c: "c \<in> set js" "state c = Pending" using claim_candidate_pending[OF Some] by auto
      have step: "queue_step q (now, e) js = transition (job_id c) Running now js"
        by (simp add: Ev_Claim claimPending_eq[OF wf] Some)
      obtain r where r: "get_job (job_id j) js = Some r" "state r = Pending"
        "priority r = priority j" "created_at r = created_at j"
        using w by (auto simp: waiting_def)
      then have rin: "r \<in> set js" "job_id r = job_id j" by (auto simp: get_job_def dest: get_row_SomeD)
      have other: "job_id c \<noteq> job_id j"
        using w' r by (auto simp: step waiting_def get_transition)
      show ?thesis
      proof (cases "pk = []")
        case False
        then show ?thesis unfolding step by (auto simp: Ev_Claim transition_def intro!: keep)
      next
        case True
        then have "claims_before q now c r"
          using claim_candidate_least[OF Some] rin r by auto
        then have "created_at c \<le> created_at j + max 0 (priority j - priority c) * AGING_STEP_MS"
          using aging_quotient.overtaker_is_older[OF q, of now c r] rows c r by simp
        also have "\<dots> \<le> overtakes_until j"
          using rows c by (auto simp: overtakes_until_def AGING_STEP_MS_def)
        finally have "?R c" using c other by simp
        then have "rivals j (transition (job_id c) Running now js) < rivals j js"
          unfolding rivals_def transition_def
          by (intro count_rows_update_less[where s = c]) (use c in auto)
        then show ?thesis by (simp add: step)
      qed
    qed
  qed (auto simp: complete_def transition_def fail_def markPoison_def pause_def intro!: keep)
qed

lemma jobs_wf_step: "jobs_wf js \<Longrightarrow> jobs_wf (queue_step q ev js)"
proof (cases "(q, ev, js)" rule: queue_step.cases)
  case (1 q' now i k p js')
  then show "jobs_wf js \<Longrightarrow> ?thesis" using jobs_wf_enqueue by (auto simp: commit_def split: sum.splits)
qed (auto simp: complete_def markPoison_def pause_def)

interpretation queue_ops: op_system jobs_wf "queue_step q" for q
  by unfold_locales (rule jobs_wf_step)

lemma not_pending_stays:
  assumes "jobs_wf js" and "get_job i js = Some x" and "state x \<noteq> Pending"
  shows "\<exists>y. get_job i (fold (queue_step q) evs js) = Some y \<and> state y \<noteq> Pending"
  using assms
proof (induction evs arbitrary: js x)
  case (Cons f fs)
  then show ?case
    using queue_step_not_pending[of js i x q "fst f" "snd f"] jobs_wf_step[of js q f] by fastforce
qed simp

lemma waiting_run:
  assumes "aging_quotient q" and "settled_queue t js" and "waiting j js"
    and "sorted (map fst evs)" and "\<forall>e \<in> set evs. t \<le> fst e \<and> overtakes_until j < fst e"
    and "waiting j (fold (queue_step q) evs js)"
  shows "plain_claims evs \<le> rivals j js"
  using assms(2-)
proof (induction evs arbitrary: js t)
  case (Cons e es)
  obtain now ev where e: "e = (now, ev)" by fastforce
  let ?js = "queue_step q e js"
  have s': "settled_queue now ?js" using settled_queue_step Cons.prems by (simp add: e)
  obtain r where r: "get_job (job_id j) js = Some r" "state r = Pending"
    "priority r = priority j" "created_at r = created_at j"
    using Cons.prems by (auto simp: waiting_def)
  obtain r' where r': "get_job (job_id j) ?js = Some r'" "priority r' = priority j"
    "created_at r' = created_at j"
    using get_row_queue_step[of js "job_id j" r q now ev] Cons.prems r by (auto simp: e settled_queue_def)
  have w': "waiting j ?js"
  proof (rule ccontr)
    assume "\<not> waiting j ?js"
    with r' have "state r' \<noteq> Pending" by (auto simp: waiting_def)
    with not_pending_stays[of ?js "job_id j" r' q es] r' s' Cons.prems show False
      by (auto simp: settled_queue_def waiting_def)
  qed
  have "rivals j ?js + (if ev = Ev_Claim [] then 1 else 0) \<le> rivals j js"
    unfolding e by (rule rivals_step[of t]) (use Cons.prems w' assms(1) in \<open>auto simp: e\<close>)
  moreover have "plain_claims es \<le> rivals j ?js"
    by (rule Cons.IH[OF s' w']) (use Cons.prems in \<open>auto simp: e\<close>)
  ultimately show ?case by (simp add: e)
qed simp



section \<open>Boot recovery and retention\<close>

lemma get_recoverOrphans:
  "get_job i (snd (recoverOrphans m now js)) = map_option
     (\<lambda>j. if state j = Running \<and> kind j = Consolidate
            then j\<lparr>state := Poison, updated_at := now, last_error := Some consolidate_poison_note\<rparr>
          else if state j = Running \<or> (state j = Failed \<and> attempts j < m)
            then j\<lparr>state := Pending, updated_at := now\<rparr>
          else j) (get_job i js)"
proof -
  let ?P1 = "\<lambda>j. state j = Running \<and> kind j = Consolidate"
  let ?f1 = "\<lambda>j. j\<lparr>state := Poison, updated_at := now, last_error := Some consolidate_poison_note\<rparr>"
  let ?P2 = "\<lambda>j. state j = Running \<and> kind j \<noteq> Consolidate"
  let ?f2 = "\<lambda>j. j\<lparr>state := Pending, updated_at := now\<rparr>"
  let ?P3 = "\<lambda>j. state j = Failed \<and> attempts j < m"
  have "snd (recoverOrphans m now js) = update_rows ?P3 ?f2 (update_rows ?P2 ?f2 (update_rows ?P1 ?f1 js))"
    by (simp add: recoverOrphans_def Let_def)
  then have "get_job i (snd (recoverOrphans m now js)) = map_option (\<lambda>j. if ?P3 j then ?f2 j else j)
      (map_option (\<lambda>j. if ?P2 j then ?f2 j else j) (map_option (\<lambda>j. if ?P1 j then ?f1 j else j) (get_job i js)))"
    unfolding get_job_def by (simp add: job_rows.get_update)
  then show ?thesis by (auto simp: option.map_comp intro!: option.map_cong)
qed

text \<open>
  Boot recovery leaves no job running: a running consolidate job becomes poison with the
  recovery note, any other running job and every failed job below the attempt limit becomes
  pending, every other row is unchanged, attempts are preserved, and the counts it reports are the
  numbers of rows moved.
\<close>

lemma recoverOrphans_spec:
  assumes "get_job i js = Some j" and "recoverOrphans m now js = (rep, js')"
  shows "get_job i js' = Some
      (if state j = Running \<and> kind j = Consolidate
         then j\<lparr>state := Poison, updated_at := now, last_error := Some consolidate_poison_note\<rparr>
       else if state j = Running \<or> (state j = Failed \<and> attempts j < m)
         then j\<lparr>state := Pending, updated_at := now\<rparr>
       else j) \<and>
    (\<forall>x \<in> set js'. state x \<noteq> Running) \<and>
    requeuedRunning rep = count_rows (\<lambda>x. state x = Running \<and> kind x \<noteq> Consolidate) js \<and>
    requeuedFailed rep = count_rows (\<lambda>x. state x = Failed \<and> attempts x < m) js \<and>
    poisonedConsolidate rep = count_rows (\<lambda>x. state x = Running \<and> kind x = Consolidate) js"
proof -
  let ?P1 = "\<lambda>j. state j = Running \<and> kind j = Consolidate"
  let ?f1 = "\<lambda>j. j\<lparr>state := Poison, updated_at := now, last_error := Some consolidate_poison_note\<rparr>"
  let ?P2 = "\<lambda>j. state j = Running \<and> kind j \<noteq> Consolidate"
  let ?f2 = "\<lambda>j. j\<lparr>state := Pending, updated_at := now\<rparr>"
  let ?P3 = "\<lambda>j. state j = Failed \<and> attempts j < m"
  have js': "js' = update_rows ?P3 ?f2 (update_rows ?P2 ?f2 (update_rows ?P1 ?f1 js))"
    using assms(2) by (simp add: recoverOrphans_def Let_def)
  have row: "get_job i js' = Some
      (if state j = Running \<and> kind j = Consolidate then ?f1 j
       else if state j = Running \<or> ?P3 j then ?f2 j else j)"
    using get_recoverOrphans[of i m now js] assms by simp
  have none: "\<forall>x \<in> set js'. state x \<noteq> Running"
    by (auto simp: js' set_update_rows)
  have c2: "count_rows ?P2 (update_rows ?P1 ?f1 js) = count_rows ?P2 js"
    by (induction js) (auto simp: count_rows_def)
  have c3: "count_rows ?P3 (update_rows ?P2 ?f2 (update_rows ?P1 ?f1 js)) = count_rows ?P3 js"
    by (induction js) (auto simp: count_rows_def)
  have "rep = \<lparr>requeuedRunning = count_rows ?P2 js, requeuedFailed = count_rows ?P3 js,
               poisonedConsolidate = count_rows ?P1 js\<rparr>"
    using assms(2) unfolding recoverOrphans_def Let_def c2 c3 by simp
  with row none show ?thesis by simp
qed

lemma recoverOrphans_spec_witness:
  "get_job ''c'' (snd (recoverOrphans 3 100 example_jobs)) =
     Some (mk_job ''c'' Consolidate Poison 0 3 10\<lparr>updated_at := 100, last_error := Some consolidate_poison_note\<rparr>) \<and>
   requeuedRunning (fst (recoverOrphans 3 100 example_jobs)) = 1"
proof -
  have g: "get_job ''c'' example_jobs = Some (mk_job ''c'' Consolidate Running 0 3 10)"
    by (simp add: example_jobs_def get_job_def mk_job_def)
  show ?thesis
    using recoverOrphans_spec[OF g surjective_pairing, of 3 100]
    by (simp add: mk_job_def example_jobs_def count_rows_def)
qed

text \<open>
  Retention deletes only jobs that are completed or poison and whose last update is older than
  the window of their state; everything else survives with its row unchanged, and the reported
  numbers account for every deleted row.
\<close>

theorem purgeOld_spec:
  assumes "purgeOld cd pd now js = ((nc, np), js')"
  shows "js' = filter (\<lambda>j. \<not> (state j = Completed \<and> updated_at j < now - (case cd of None \<Rightarrow> 7 | Some d \<Rightarrow> d) * 86400000) \<and>
                           \<not> (state j = Poison \<and> updated_at j < now - (case pd of None \<Rightarrow> 90 | Some d \<Rightarrow> d) * 86400000)) js
      \<and> nc + np + length js' = length js"
proof -
  let ?c = "now - (case cd of None \<Rightarrow> 7 | Some d \<Rightarrow> d) * 86400000"
  let ?p = "now - (case pd of None \<Rightarrow> 90 | Some d \<Rightarrow> d) * 86400000"
  let ?P1 = "\<lambda>j. state j = Completed \<and> updated_at j < ?c"
  let ?P2 = "\<lambda>j. state j = Poison \<and> updated_at j < ?p"
  have eqs: "js' = delete_rows ?P2 (delete_rows ?P1 js)" "nc = count_rows ?P1 js"
    "np = count_rows ?P2 (delete_rows ?P1 js)"
    using assms unfolding purgeOld_def Let_def POISON_JOB_RETENTION_DAYS_def by simp_all
  have "js' = filter (\<lambda>j. \<not> ?P1 j \<and> \<not> ?P2 j) js"
    by (auto simp: eqs delete_rows_def intro: filter_cong)
  moreover have "nc + np + length js' = length js"
    using count_delete_rows[of ?P1 js] count_delete_rows[of ?P2 "delete_rows ?P1 js"] by (simp add: eqs)
  ultimately show ?thesis by blast
qed

theorem purgeOld_spec_witness:
  "length (snd (purgeOld None None 700000000 example_jobs)) = 5"
proof -
  obtain nc np js' where p: "purgeOld None None 700000000 example_jobs = ((nc, np), js')"
    by (metis surj_pair)
  have "js' = filter (\<lambda>j. \<not> (state j = Completed \<and> updated_at j < now - 7 * 86400000) \<and>
      \<not> (state j = Poison \<and> updated_at j < now - 90 * 86400000)) example_jobs" if "now = 700000000" for now
    using purgeOld_spec[OF p] that by simp
  then show ?thesis unfolding p by (simp add: example_jobs_def mk_job_def)
qed

end
