(* ===== verification/Governor.thy ===== *)
theory Governor
  imports Prelude
begin

text \<open>
  The worker-load governor of \<open>src/src/pipeline/backpressure.ts\<close>: a lane budget driven by a boot
  ramp and by the moving average of embed-heavy handler latency, and the shaping of retry delays
  (storm floor, positive jitter). JavaScript numbers are reals here, so the guards against
  non-finite values have no counterpart; the clock and the random source are arguments.
\<close>

section \<open>Constants and state\<close>

definition EMBED_HEAVY_KINDS :: "string list" where
  "EMBED_HEAVY_KINDS = [''distill'', ''reembed'']"

definition RESERVED_LOCAL_LANE_ID :: nat where "RESERVED_LOCAL_LANE_ID = 0"
definition DEFAULT_SLOW_THRESHOLD_MS :: real where "DEFAULT_SLOW_THRESHOLD_MS = 5000"
definition DEFAULT_SEVERE_THRESHOLD_MS :: real where "DEFAULT_SEVERE_THRESHOLD_MS = 20000"
definition DEFAULT_RETRY_BUDGET_PER_MIN :: real where "DEFAULT_RETRY_BUDGET_PER_MIN = 20"
definition RETRY_STORM_FLOOR_MS :: real where "RETRY_STORM_FLOOR_MS = 30000"
definition RETRY_JITTER_MAX_FRACTION :: real where "RETRY_JITTER_MAX_FRACTION = 3 / 10"
definition EWMA_ALPHA :: real where "EWMA_ALPHA = 3 / 10"
definition EWMA_SEED_MS :: real where "EWMA_SEED_MS = 1000"
definition RETRY_WINDOW_MS :: int where "RETRY_WINDOW_MS = 60000"

record governor =
  maxLanes :: int
  slowMs :: real
  severeMs :: real
  retryBudgetPerMin :: real
  ewma :: real
  retryTimestamps :: "epoch_ms list"
  rampLevels :: "int list"
  rampIndex :: nat
  rampTimer :: bool

section \<open>Operations\<close>

definition createLoadGovernor ::
  "real \<Rightarrow> real option \<Rightarrow> real option \<Rightarrow> real option \<Rightarrow> bool \<Rightarrow> governor" where
  "createLoadGovernor lanes slow severe budget bootRamp =
     (let m = max 1 (if js_trunc lanes = 0 then 1 else js_trunc lanes);
          levels = sort (remdups [1, \<lceil>real_of_int m / 2\<rceil>, m])
      in \<lparr>maxLanes = m,
          slowMs = (case slow of None \<Rightarrow> DEFAULT_SLOW_THRESHOLD_MS | Some x \<Rightarrow> x),
          severeMs = (case severe of None \<Rightarrow> DEFAULT_SEVERE_THRESHOLD_MS | Some x \<Rightarrow> x),
          retryBudgetPerMin = (case budget of None \<Rightarrow> DEFAULT_RETRY_BUDGET_PER_MIN | Some x \<Rightarrow> x),
          ewma = EWMA_SEED_MS,
          retryTimestamps = [],
          rampLevels = levels,
          rampIndex = (if bootRamp then 0 else length levels - 1),
          rampTimer = (bootRamp \<and> 1 < length levels)\<rparr>)"

definition rampTick :: "governor \<Rightarrow> governor" where
  "rampTick g =
     (if rampTimer g
      then let i = min (rampIndex g + 1) (length (rampLevels g) - 1)
           in g\<lparr>rampIndex := i, rampTimer := i \<noteq> length (rampLevels g) - 1\<rparr>
      else g)"

definition latencyMultiplier :: "governor \<Rightarrow> real" where
  "latencyMultiplier g =
     (if ewma g > severeMs g then 1 / 4 else if ewma g > slowMs g then 1 / 2 else 1)"

definition laneBudget :: "governor \<Rightarrow> int" where
  "laneBudget g =
     max 1 (min (rampLevels g ! rampIndex g) (js_round (real_of_int (maxLanes g) * latencyMultiplier g)))"

definition recordHandlerRun :: "string \<Rightarrow> real \<Rightarrow> governor \<Rightarrow> governor" where
  "recordHandlerRun kind durationMs g =
     (if kind \<notin> set EMBED_HEAVY_KINDS then g
      else if durationMs < 0 then g
      else g\<lparr>ewma := EWMA_ALPHA * durationMs + (1 - EWMA_ALPHA) * ewma g\<rparr>)"

definition pruneRetryWindow :: "epoch_ms \<Rightarrow> governor \<Rightarrow> governor" where
  "pruneRetryWindow now g =
     g\<lparr>retryTimestamps := dropWhile (\<lambda>t. t < now - RETRY_WINDOW_MS) (retryTimestamps g)\<rparr>"

definition recordRetry :: "epoch_ms \<Rightarrow> governor \<Rightarrow> governor" where
  "recordRetry now g = pruneRetryWindow now (g\<lparr>retryTimestamps := retryTimestamps g @ [now]\<rparr>)"

definition storming :: "governor \<Rightarrow> bool" where
  "storming g \<longleftrightarrow> real (length (retryTimestamps g)) > retryBudgetPerMin g"

definition shapeRetryDelay :: "epoch_ms \<Rightarrow> real \<Rightarrow> real \<Rightarrow> governor \<Rightarrow> int \<times> governor" where
  "shapeRetryDelay now rnd delayMs g =
     (let base = (if delayMs > 0 then delayMs else 1000);
          g' = pruneRetryWindow now g;
          floored = (if storming g' then max base RETRY_STORM_FLOOR_MS else base)
      in (js_round (floored * (1 + RETRY_JITTER_MAX_FRACTION * rnd)), g'))"

definition ewmaMs :: "governor \<Rightarrow> int" where
  "ewmaMs g = js_round (ewma g)"

definition stop_governor :: "governor \<Rightarrow> governor" where
  "stop_governor g = g\<lparr>rampTimer := False\<rparr>"

section \<open>The governor as a system of operations\<close>

datatype gov_event =
    G_Ramp
  | G_Handler string real
  | G_Retry epoch_ms
  | G_Shape epoch_ms real real
  | G_Stop

fun gov_step :: "gov_event \<Rightarrow> governor \<Rightarrow> governor" where
  "gov_step G_Ramp g = rampTick g"
| "gov_step (G_Handler k d) g = recordHandlerRun k d g"
| "gov_step (G_Retry t) g = recordRetry t g"
| "gov_step (G_Shape t r d) g = snd (shapeRetryDelay t r d g)"
| "gov_step G_Stop g = stop_governor g"

definition gov_inv :: "governor \<Rightarrow> bool" where
  "gov_inv g \<longleftrightarrow> 1 \<le> maxLanes g \<and> rampLevels g \<noteq> [] \<and> rampIndex g < length (rampLevels g) \<and>
     last (rampLevels g) = maxLanes g \<and> (\<forall>l \<in> set (rampLevels g). 1 \<le> l \<and> l \<le> maxLanes g)"

lemmas gov_defs = rampTick_def recordHandlerRun_def recordRetry_def pruneRetryWindow_def
  shapeRetryDelay_def stop_governor_def

lemma gov_step_inv: "gov_inv g \<Longrightarrow> gov_inv (gov_step e g)"
  by (cases e) (auto simp: gov_inv_def gov_defs Let_def)

lemma rampTick_inv: "gov_inv g \<Longrightarrow> gov_inv (rampTick g)"
  using gov_step_inv[of g G_Ramp] by simp

lemma rampTick_frame [simp]:
  "ewma (rampTick g) = ewma g" "slowMs (rampTick g) = slowMs g" "severeMs (rampTick g) = severeMs g"
  "maxLanes (rampTick g) = maxLanes g" "rampLevels (rampTick g) = rampLevels g"
  by (simp_all add: rampTick_def Let_def)

interpretation gov: op_system gov_inv gov_step
  by unfold_locales (rule gov_step_inv)

lemma half_ceiling: "1 \<le> (m::int) \<Longrightarrow> 1 \<le> \<lceil>real_of_int m / 2\<rceil> \<and> \<lceil>real_of_int m / 2\<rceil> \<le> m"
  by (simp add: ceiling_le_iff one_le_ceiling)

lemma sorted_le_last: "sorted xs \<Longrightarrow> x \<in> set xs \<Longrightarrow> x \<le> last xs"
  by (induction xs) auto

lemma last_sort_max:
  assumes "x \<in> set xs" and "\<And>y. y \<in> set xs \<Longrightarrow> y \<le> x"
  shows "last (sort xs) = (x::int)"
proof (rule antisym)
  have ne: "sort xs \<noteq> []" using assms(1) by (metis empty_iff list.set(1) set_sort)
  then have "last (sort xs) \<in> set xs" using last_in_set[OF ne] by simp
  then show "last (sort xs) \<le> x" using assms(2) by blast
  show "x \<le> last (sort xs)" by (rule sorted_le_last) (use assms(1) in simp_all)
qed

lemma createLoadGovernor_inv: "gov_inv (createLoadGovernor lanes slow severe budget ramp)"
proof -
  define m where "m = max 1 (if js_trunc lanes = 0 then 1 else js_trunc lanes)"
  let ?l = "remdups [1, \<lceil>real_of_int m / 2\<rceil>, m]"
  have m1: "1 \<le> m" by (simp add: m_def)
  have set: "set (sort ?l) = {1, \<lceil>real_of_int m / 2\<rceil>, m}"
    unfolding set_sort set_remdups by auto
  have sl: "set ?l = {1, \<lceil>real_of_int m / 2\<rceil>, m}" unfolding set_remdups by auto
  have "last (sort ?l) = m"
  proof (rule last_sort_max)
    show "m \<in> set ?l" unfolding sl by blast
    show "y \<le> m" if "y \<in> set ?l" for y
      using that half_ceiling[OF m1] m1 unfolding sl by blast
  qed
  moreover have "sort ?l \<noteq> []" using set by (metis empty_set insert_not_empty)
  ultimately show ?thesis using set half_ceiling[OF m1] m1
    by (auto simp: gov_inv_def createLoadGovernor_def Let_def m_def[symmetric])
qed

lemma latencyMultiplier_bounds: "0 < latencyMultiplier g" "latencyMultiplier g \<le> 1"
  by (simp_all add: latencyMultiplier_def)

lemma laneBudget_inv:
  assumes "gov_inv g"
  shows "1 \<le> laneBudget g \<and> laneBudget g \<le> maxLanes g"
proof -
  have "rampLevels g ! rampIndex g \<le> maxLanes g" using assms by (simp add: gov_inv_def)
  then have "min (rampLevels g ! rampIndex g) x \<le> maxLanes g" for x by linarith
  then show ?thesis using assms by (auto simp: laneBudget_def gov_inv_def)
qed

lemma maxLanes_step: "maxLanes (gov_step e g) = maxLanes g"
  by (cases e) (auto simp: gov_defs Let_def)

lemma maxLanes_run: "maxLanes (fold gov_step es g) = maxLanes g"
  by (induction es arbitrary: g) (auto simp: maxLanes_step)

text \<open>
  The lane budget is never zero and never above the configured lane count, after any sequence
  of ramp ticks, handler reports, retries and a stop: the queue slows down but never stalls.
\<close>

lemma laneBudget_bounds:
  "let g = fold gov_step es (createLoadGovernor lanes slow severe budget ramp)
   in 1 \<le> laneBudget g \<and> laneBudget g \<le> maxLanes (createLoadGovernor lanes slow severe budget ramp)"
  using laneBudget_inv[OF gov.run_inv[OF createLoadGovernor_inv]]
  by (simp add: Let_def maxLanes_run)

lemma length_rampLevels: "length (rampLevels (createLoadGovernor lanes slow severe budget ramp)) \<le> 3"
proof -
  have "length (remdups [a, b, c]) \<le> 3" for a b c :: int
    by (rule order_trans[OF length_remdups_leq]) simp
  then show ?thesis unfolding createLoadGovernor_def Let_def by simp
qed

text \<open>
  The boot ramp completes: two ramp ticks after boot, with default thresholds and no slow
  handler yet, every configured lane may claim.
\<close>

theorem boot_ramp_reaches_full:
  "laneBudget (rampTick (rampTick (createLoadGovernor lanes None None budget True))) =
   maxLanes (createLoadGovernor lanes None None budget True)"
proof -
  let ?boot = "createLoadGovernor lanes None None budget True"
  let ?g = "rampTick (rampTick ?boot)"
  have inv0: "gov_inv ?boot" by (rule createLoadGovernor_inv)
  then have inv: "gov_inv ?g" by (intro rampTick_inv)
  have len: "length (rampLevels ?boot) \<le> 3" by (rule length_rampLevels)
  have start: "rampIndex ?boot = 0" "rampTimer ?boot = (1 < length (rampLevels ?boot))"
    by (simp_all add: createLoadGovernor_def Let_def)
  have "rampIndex ?g = length (rampLevels ?boot) - 1"
    using start len inv0 by (auto simp: rampTick_def Let_def gov_inv_def min_def)
  then have top: "rampLevels ?g ! rampIndex ?g = maxLanes ?g"
    using inv last_conv_nth[of "rampLevels ?boot"] by (simp add: gov_inv_def)
  have "ewma ?g = 1000" "slowMs ?g = 5000" "severeMs ?g = 20000"
    by (simp_all add: Let_def createLoadGovernor_def EWMA_SEED_MS_def
        DEFAULT_SLOW_THRESHOLD_MS_def DEFAULT_SEVERE_THRESHOLD_MS_def)
  then have "latencyMultiplier ?g = 1" by (simp add: latencyMultiplier_def)
  then show ?thesis using top inv by (simp add: laneBudget_def gov_inv_def)
qed

lemma shape_lower:
  assumes "0 \<le> rnd" and "of_int n \<le> floored" and "0 \<le> floored"
  shows "n \<le> js_round (floored * (1 + RETRY_JITTER_MAX_FRACTION * rnd))"
proof (rule js_round_ge)
  have "floored * 1 \<le> floored * (1 + RETRY_JITTER_MAX_FRACTION * rnd)"
    using assms by (intro mult_left_mono) (auto simp: RETRY_JITTER_MAX_FRACTION_def)
  with assms(2) show "of_int n \<le> floored * (1 + RETRY_JITTER_MAX_FRACTION * rnd)" by simp
qed

text \<open>
  Shaping a retry delay never undercuts the delay asked for (a whole number of milliseconds,
  such as a server's Retry-After), lifts it to the storm floor while the retry rate is over
  budget, and adds at most thirty percent (plus rounding).
\<close>

theorem shapeRetryDelay_bounds:
  assumes "0 < n" and "0 \<le> rnd" and "rnd < 1"
    and "shapeRetryDelay now rnd (of_int n) g = (d, g')"
  shows "n \<le> d \<and> (storming g' \<longrightarrow> 30000 \<le> d) \<and>
    real_of_int d \<le> (13 / 10) * (if storming g' then max (of_int n) 30000 else of_int n) + 1 / 2"
proof -
  define fl where "fl = (if storming g' then max (of_int n) RETRY_STORM_FLOOR_MS else real_of_int n)"
  have g': "g' = pruneRetryWindow now g" and
    d: "d = js_round (fl * (1 + RETRY_JITTER_MAX_FRACTION * rnd))"
    using assms by (auto simp: shapeRetryDelay_def Let_def fl_def)
  have fl0: "0 \<le> fl" "of_int n \<le> fl" using assms by (auto simp: fl_def)
  have "n \<le> d" unfolding d by (rule shape_lower) (use assms fl0 in auto)
  moreover have "30000 \<le> d" if "storming g'"
    unfolding d by (rule shape_lower) (use assms fl0 that in \<open>auto simp: fl_def RETRY_STORM_FLOOR_MS_def\<close>)
  moreover have "fl * (1 + RETRY_JITTER_MAX_FRACTION * rnd) \<le> fl * (13 / 10)"
    using assms fl0 by (intro mult_left_mono) (auto simp: RETRY_JITTER_MAX_FRACTION_def)
  then have "real_of_int d \<le> fl * (13 / 10) + 1 / 2" unfolding d js_round_def by linarith
  ultimately show ?thesis by (auto simp: fl_def RETRY_STORM_FLOOR_MS_def mult.commute)
qed

theorem shapeRetryDelay_bounds_witness:
  "let (d, g') = shapeRetryDelay 5 (1 / 2) (of_int 90000) (createLoadGovernor 4 None None None False)
   in 90000 \<le> d"
proof -
  obtain d g' where s: "shapeRetryDelay 5 (1 / 2) (of_int 90000)
      (createLoadGovernor 4 None None None False) = (d, g')" by fastforce
  show ?thesis unfolding s using shapeRetryDelay_bounds[OF _ _ _ s] by simp
qed

end
