(* ===== verification/Worker.thy ===== *)
theory Worker
  imports Jobs Governor
begin

text \<open>
  The in-process worker of \<open>src/src/pipeline/worker.ts\<close> with the failure classifier
  (\<open>failure-classifier.ts\<close>, \<open>errors.ts\<close>): several lanes share one job table; a lane claims a
  job, awaits its handler and settles the outcome; a transient failure arms an in-memory timer
  that moves the job back to pending.

  The handlers themselves (and \<open>JSON.parse\<close>) are the environment: a lane's handler may end with
  success or with any thrown value, at any later time, while other lanes run. The synchronous
  stretches of a tick between two \<open>await\<close>s are one step of the model. A step reads the clock
  once where the code reads it at each statement.
\<close>

section \<open>Thrown values and their classification\<close>

datatype thrown =
    BudgetPaused string
  | QuotaBreakerOpen string
  | TransientError string "int option"
  | DeterministicError string
  | PlainError string
  | NonError string

fun message :: "thrown \<Rightarrow> string" where
  "message (BudgetPaused m) = m"
| "message (QuotaBreakerOpen m) = m"
| "message (TransientError m _) = m"
| "message (DeterministicError m) = m"
| "message (PlainError m) = m"
| "message (NonError m) = m"

datatype failure_kind = Transient | Deterministic

definition TRANSIENT_PATTERNS :: "string list" where
  "TRANSIENT_PATTERNS =
     [''econnrefused'', ''etimedout'', ''econnreset'', ''enetunreach'', ''ehostunreach'', ''epipe'',
      ''rate limit'', ''rate-limit'', ''ratelimit'', ''429'', ''500'', ''502'', ''503'', ''504'']"

definition DETERMINISTIC_PATTERNS :: "string list" where
  "DETERMINISTIC_PATTERNS =
     [''zod'', ''safeParse'', ''json parse'', ''json.parse'', ''unexpected token'',
      ''unexpected end of json'', ''invalid json'', ''parse error'', ''parse fail'', ''schema'',
      ''validation fail'', ''validation error'', ''400'', ''401'', ''403'', ''404'', ''422'']"

definition classifyError :: "thrown \<Rightarrow> failure_kind" where
  "classifyError err =
     (case err of
        TransientError _ _ \<Rightarrow> Transient
      | DeterministicError _ \<Rightarrow> Deterministic
      | NonError _ \<Rightarrow> Transient
      | _ \<Rightarrow>
          (let m = js_lower (message err)
           in if list_ex (js_includes m) TRANSIENT_PATTERNS then Transient
              else if list_ex (js_includes m) DETERMINISTIC_PATTERNS then Deterministic
              else Transient))"

section \<open>Concurrency\<close>

definition MAX_ATTEMPTS :: nat where "MAX_ATTEMPTS = 3"
definition MIN_CONCURRENCY :: int where "MIN_CONCURRENCY = 1"
definition MAX_CONCURRENCY :: int where "MAX_CONCURRENCY = 8"

text \<open>\<open>None\<close> is a value that is not a finite number.\<close>

definition resolveWorkerConcurrency :: "real option \<Rightarrow> int" where
  "resolveWorkerConcurrency raw =
     (case raw of
        None \<Rightarrow> MIN_CONCURRENCY
      | Some x \<Rightarrow>
          (let truncated = js_trunc x
           in min MAX_CONCURRENCY
                (max MIN_CONCURRENCY (if truncated = 0 then MIN_CONCURRENCY else truncated))))"

section \<open>Ticks\<close>

datatype run_status = Run_Success | Run_Paused | Run_Failed

record run_row =
  run_handler :: job_kind
  run_status :: run_status
  run_duration :: real
  run_error :: "(string \<times> string) option"

record worker =
  wjobs :: jobs
  lanes :: "nat \<Rightarrow> job option"
  timers :: "(epoch_ms \<times> string) list"
  gov :: "governor option"
  runs :: "run_row list"

fun kind_name :: "job_kind \<Rightarrow> string" where
  "kind_name Distill = ''distill''"
| "kind_name Distill_Events = ''distill-events''"
| "kind_name Reembed = ''reembed''"
| "kind_name Transcribe = ''transcribe''"
| "kind_name Consolidate = ''consolidate''"
| "kind_name Cleanup = ''cleanup''"

text \<open>A job that cannot be dispatched: no handler, or a payload that is not JSON.\<close>

definition settle_undispatchable :: "string \<Rightarrow> epoch_ms \<Rightarrow> job \<Rightarrow> jobs \<Rightarrow> jobs" where
  "settle_undispatchable errMsg now j js =
     (let js1 = fail (job_id j) errMsg now js
      in case get_job (job_id j) js1 of
           None \<Rightarrow> js1
         | Some updated \<Rightarrow>
             if attempts updated \<ge> MAX_ATTEMPTS then markPoison (job_id j) now js1
             else requeueForRetry (job_id j) now js1)"

definition backoffDelay :: "nat \<Rightarrow> int" where
  "backoffDelay attemptsSoFar = min (1000 * 2 ^ (attemptsSoFar - 1)) 60000"

definition baseDelay :: "thrown \<Rightarrow> nat \<Rightarrow> int" where
  "baseDelay err attemptsSoFar =
     (case err of
        TransientError _ (Some retryAfterMs) \<Rightarrow> max (backoffDelay attemptsSoFar) retryAfterMs
      | _ \<Rightarrow> backoffDelay attemptsSoFar)"

definition add_run :: "job_kind \<Rightarrow> run_status \<Rightarrow> real \<Rightarrow> (string \<times> string) option \<Rightarrow> worker \<Rightarrow> worker" where
  "add_run k st d e w =
     w\<lparr>runs := runs w @ [\<lparr>run_handler = k, run_status = st, run_duration = d, run_error = e\<rparr>]\<rparr>"

definition gov_record :: "job_kind \<Rightarrow> real \<Rightarrow> worker \<Rightarrow> worker" where
  "gov_record k d w = w\<lparr>gov := map_option (recordHandlerRun (kind_name k) d) (gov w)\<rparr>"

definition retry_delay :: "epoch_ms \<Rightarrow> real \<Rightarrow> int \<Rightarrow> governor option \<Rightarrow> int \<times> governor option" where
  "retry_delay now rnd base g =
     (case g of
        None \<Rightarrow> (base, None)
      | Some g0 \<Rightarrow>
          (let (d, g1) = shapeRetryDelay now rnd (of_int base) (recordRetry now g0) in (d, Some g1)))"

text \<open>The end of a handler: \<open>None\<close> when it returned, \<open>Some err\<close> when it threw.\<close>

definition settle :: "epoch_ms \<Rightarrow> real \<Rightarrow> real \<Rightarrow> job \<Rightarrow> thrown option \<Rightarrow> worker \<Rightarrow> worker" where
  "settle now dur rnd j outcome w =
     (let i = job_id j; k = kind j
      in case outcome of
           None \<Rightarrow>
             gov_record k dur (add_run k Run_Success dur None (w\<lparr>wjobs := complete i now (wjobs w)\<rparr>))
         | Some err \<Rightarrow>
             (let w1 = gov_record k dur w; m = message err
              in case err of
                   BudgetPaused _ \<Rightarrow>
                     add_run k Run_Paused dur (Some (''BudgetPaused'', m))
                       (w1\<lparr>wjobs := pause i now (setLastError i m now (wjobs w1))\<rparr>)
                 | QuotaBreakerOpen _ \<Rightarrow>
                     add_run k Run_Paused dur (Some (''ProviderQuotaBreakerOpen'', m))
                       (w1\<lparr>wjobs := pause i now (setLastError i m now (wjobs w1))\<rparr>)
                 | _ \<Rightarrow>
                     (case classifyError err of
                        Deterministic \<Rightarrow>
                          add_run k Run_Failed dur (Some (''deterministic'', take 500 m))
                            (w1\<lparr>wjobs := markPoison i now (fail i m now (wjobs w1))\<rparr>)
                      | Transient \<Rightarrow>
                          (let js1 = fail i m now (wjobs w1);
                               w2 = add_run k Run_Failed dur (Some (''transient'', take 500 m))
                                      (w1\<lparr>wjobs := js1\<rparr>);
                               updated = get_job i js1
                           in case updated of
                                Some u \<Rightarrow>
                                  if attempts u \<ge> MAX_ATTEMPTS
                                  then w2\<lparr>wjobs := markPoison i now js1\<rparr>
                                  else (let (d, g) = retry_delay now rnd (baseDelay err (attempts u)) (gov w2)
                                        in w2\<lparr>gov := g, timers := timers w2 @ [(now + d, i)]\<rparr>)
                              | None \<Rightarrow>
                                  (let (d, g) = retry_delay now rnd (baseDelay err 1) (gov w2)
                                   in w2\<lparr>gov := g, timers := timers w2 @ [(now + d, i)]\<rparr>)))))"

text \<open>
  The claim of a lane's tick: refused above the lane budget, local kinds first on the reserved
  lane. \<open>dispatchable\<close> says whether a handler is registered and the payload parses.
\<close>

definition tick_claim ::
  "(int \<Rightarrow> int \<Rightarrow> real) \<Rightarrow> (job \<Rightarrow> string option) \<Rightarrow> epoch_ms \<Rightarrow> nat \<Rightarrow> worker \<Rightarrow> worker" where
  "tick_claim q undispatchable now lane w =
     (if (case gov w of None \<Rightarrow> False | Some g \<Rightarrow> laneBudget g \<le> int lane) then w
      else case claimPending q now (if lane = RESERVED_LOCAL_LANE_ID then LOCAL_SQLITE_KINDS else [])
                  (wjobs w) of
             (None, js) \<Rightarrow> w\<lparr>wjobs := js\<rparr>
           | (Some j, js) \<Rightarrow>
               (case undispatchable j of
                  Some errMsg \<Rightarrow> w\<lparr>wjobs := settle_undispatchable errMsg now j js\<rparr>
                | None \<Rightarrow> w\<lparr>wjobs := js, lanes := (lanes w)(lane := Some j)\<rparr>))"

definition tick_settle :: "epoch_ms \<Rightarrow> real \<Rightarrow> real \<Rightarrow> nat \<Rightarrow> thrown option \<Rightarrow> worker \<Rightarrow> worker" where
  "tick_settle now dur rnd lane outcome w =
     (case lanes w lane of
        None \<Rightarrow> w
      | Some j \<Rightarrow> settle now dur rnd j outcome (w\<lparr>lanes := (lanes w)(lane := None)\<rparr>))"

definition fire_timer :: "epoch_ms \<Rightarrow> (epoch_ms \<times> string) \<Rightarrow> worker \<Rightarrow> worker" where
  "fire_timer now t w =
     (if t \<in> set (timers w)
      then w\<lparr>timers := remove1 t (timers w), wjobs := requeueForRetry (snd t) now (wjobs w)\<rparr>
      else w)"

text \<open>A crash loses lanes, timers and governor; boot recovery runs before the new worker.\<close>

definition restart :: "epoch_ms \<Rightarrow> governor option \<Rightarrow> worker \<Rightarrow> worker" where
  "restart now g w =
     w\<lparr>wjobs := snd (recoverOrphans MAX_ATTEMPTS now (wjobs w)), lanes := (\<lambda>_. None), timers := [], gov := g\<rparr>"

section \<open>The worker as a transition system\<close>

inductive worker_step ::
  "(int \<Rightarrow> int \<Rightarrow> real) \<Rightarrow> (job \<Rightarrow> string option) \<Rightarrow> nat \<Rightarrow> worker \<Rightarrow> worker \<Rightarrow> bool"
  for q undispatchable concurrency where
  ws_claim: "lane < concurrency \<Longrightarrow> lanes w lane = None \<Longrightarrow>
     worker_step q undispatchable concurrency w (tick_claim q undispatchable now lane w)"
| ws_settle: "lanes w lane = Some j \<Longrightarrow>
     worker_step q undispatchable concurrency w (tick_settle now dur rnd lane outcome w)"
| ws_timer: "t \<in> set (timers w) \<Longrightarrow> fst t \<le> now \<Longrightarrow>
     worker_step q undispatchable concurrency w (fire_timer now t w)"
| ws_enqueue: "enqueue uuid now k p (wjobs w) = Inr js \<Longrightarrow>
     worker_step q undispatchable concurrency w (w\<lparr>wjobs := js\<rparr>)"
| ws_purge: "worker_step q undispatchable concurrency w (w\<lparr>wjobs := snd (purgeOld cd pd now (wjobs w))\<rparr>)"
| ws_resume: "worker_step q undispatchable concurrency w (w\<lparr>wjobs := snd (requeuePaused now (wjobs w))\<rparr>)"
| ws_ramp: "worker_step q undispatchable concurrency w (w\<lparr>gov := map_option rampTick (gov w)\<rparr>)"
| ws_restart: "worker_step q undispatchable concurrency w (restart now g w)"

definition idle_worker :: "governor option \<Rightarrow> worker" where
  "idle_worker g = \<lparr>wjobs = [], lanes = (\<lambda>_. None), timers = [], gov = g, runs = []\<rparr>"

inductive worker_reachable ::
  "(int \<Rightarrow> int \<Rightarrow> real) \<Rightarrow> (job \<Rightarrow> string option) \<Rightarrow> nat \<Rightarrow> worker \<Rightarrow> bool"
  for q undispatchable concurrency where
  wr_start: "worker_reachable q undispatchable concurrency (idle_worker g)"
| wr_step: "worker_reachable q undispatchable concurrency w \<Longrightarrow>
     worker_step q undispatchable concurrency w w' \<Longrightarrow> worker_reachable q undispatchable concurrency w'"

text \<open>
  The invariant: a lane holds exactly the table row of a running job, no two lanes hold the same
  one and every running row is held; a failed row has its retry timer armed; a row that can still
  run has failed fewer than \<open>MAX_ATTEMPTS\<close> times.
\<close>

definition row_ok :: "(nat \<Rightarrow> job option) \<Rightarrow> (epoch_ms \<times> string) list \<Rightarrow> job \<Rightarrow> bool" where
  "row_ok ls ts x \<longleftrightarrow>
     (case state x of
        Failed \<Rightarrow> attempts x < MAX_ATTEMPTS \<and> job_id x \<in> snd ` set ts
      | Running \<Rightarrow> attempts x < MAX_ATTEMPTS \<and> (\<exists>l. ls l = Some x)
      | Poison \<Rightarrow> attempts x \<le> MAX_ATTEMPTS
      | _ \<Rightarrow> attempts x < MAX_ATTEMPTS)"

definition held_ok :: "(nat \<Rightarrow> job option) \<Rightarrow> jobs \<Rightarrow> bool" where
  "held_ok ls js \<longleftrightarrow>
     (\<forall>l j. ls l = Some j \<longrightarrow> get_job (job_id j) js = Some j \<and> state j = Running) \<and>
     (\<forall>l l' j. ls l = Some j \<longrightarrow> ls l' = Some j \<longrightarrow> l = l')"

definition timers_ok :: "(epoch_ms \<times> string) list \<Rightarrow> jobs \<Rightarrow> bool" where
  "timers_ok ts js \<longleftrightarrow> distinct (map snd ts) \<and>
     (\<forall>i \<in> snd ` set ts. \<exists>x. get_job i js = Some x \<and> state x = Failed)"

definition worker_inv :: "worker \<Rightarrow> bool" where
  "worker_inv w \<longleftrightarrow> jobs_wf (wjobs w) \<and> held_ok (lanes w) (wjobs w) \<and> timers_ok (timers w) (wjobs w) \<and>
     (\<forall>i x. get_job i (wjobs w) = Some x \<longrightarrow> row_ok (lanes w) (timers w) x)"

lemma get_job_id: "get_job i js = Some x \<Longrightarrow> job_id x = i"
  by (auto simp: get_job_def dest: get_row_SomeD)

lemma worker_inv_gov [simp]: "worker_inv (w\<lparr>gov := g\<rparr>) = worker_inv w"
  by (simp add: worker_inv_def)

lemma worker_inv_runs [simp]: "worker_inv (add_run k st d e w) = worker_inv w"
  by (simp add: worker_inv_def add_run_def)

lemma worker_inv_record [simp]: "worker_inv (gov_record k d w) = worker_inv w"
  by (simp add: gov_record_def)

text \<open>One table row \<open>i\<close> changes; what the other rows, lanes and timers need is unchanged.\<close>

lemma worker_inv_one_row:
  assumes "worker_inv w" and "jobs_wf js"
    and other: "\<And>k. k \<noteq> i \<Longrightarrow> get_job k js = get_job k (wjobs w)"
    and lanes: "\<And>l j. ls l = Some j \<longleftrightarrow> (lanes w l = Some j \<and> job_id j \<noteq> i) \<or> (new l \<and> get_job i js = Some j)"
    and new: "\<And>l l'. new l \<Longrightarrow> new l' \<Longrightarrow> l = l'" "\<And>l x. new l \<Longrightarrow> get_job i js = Some x \<Longrightarrow> state x = Running"
    and "distinct (map snd ts)" and ts: "snd ` set ts - {i} = snd ` set (timers w) - {i}"
    and "i \<in> snd ` set ts \<Longrightarrow> \<exists>x. get_job i js = Some x \<and> state x = Failed"
    and row: "\<And>x. get_job i js = Some x \<Longrightarrow> row_ok ls ts x"
  shows "worker_inv (w\<lparr>wjobs := js, lanes := ls, timers := ts\<rparr>)"
proof -
  have inv: "held_ok (lanes w) (wjobs w)" "timers_ok (timers w) (wjobs w)"
    "\<And>k x. get_job k (wjobs w) = Some x \<Longrightarrow> row_ok (lanes w) (timers w) x"
    using assms(1) by (auto simp: worker_inv_def)
  have "get_job (job_id j) js = Some j \<and> state j = Running" if "ls l = Some j" for l j
  proof -
    from that consider "lanes w l = Some j" "job_id j \<noteq> i" | "new l" "get_job i js = Some j"
      using lanes by blast
    then show ?thesis
      by cases (use inv(1) other new get_job_id in \<open>auto simp: held_ok_def\<close>)
  qed
  moreover have "l = l'" if "ls l = Some j" "ls l' = Some j" for l l' j
    using that lanes inv(1) new(1) get_job_id unfolding held_ok_def by metis
  ultimately have "held_ok ls js" unfolding held_ok_def by blast
  moreover have "timers_ok ts js"
    unfolding timers_ok_def
  proof (intro conjI ballI)
    fix k assume k: "k \<in> snd ` set ts"
    show "\<exists>x. get_job k js = Some x \<and> state x = Failed"
    proof (cases "k = i")
      case False
      with k ts have "k \<in> snd ` set (timers w)" by blast
      with inv(2) other False show ?thesis by (auto simp: timers_ok_def)
    qed (use k assms(9) in simp)
  qed (fact assms(7))
  moreover have "row_ok ls ts x" if g: "get_job k js = Some x" for k x
  proof (cases "k = i")
    case False
    then have g0: "get_job k (wjobs w) = Some x" using g other by simp
    have "job_id x = k" using g by (rule get_job_id)
    with inv(3)[OF g0] False ts lanes show ?thesis
      by (auto simp: row_ok_def split: job_state.splits)
  qed (use g row in simp)
  ultimately show ?thesis using assms(2) by (auto simp: worker_inv_def)
qed

text \<open>Several rows change at once, none of them running or failed.\<close>

lemma worker_inv_bulk:
  assumes "worker_inv w" and "jobs_wf js"
    and rows: "\<And>i x. get_job i js = Some x \<Longrightarrow>
      \<exists>y. get_job i (wjobs w) = Some y \<and> (x = y \<or> state y = Paused \<and> state x = Pending \<and> attempts x = attempts y)"
    and keep: "\<And>i y. get_job i (wjobs w) = Some y \<Longrightarrow> state y \<in> {Running, Failed} \<Longrightarrow> get_job i js = Some y"
  shows "worker_inv (w\<lparr>wjobs := js\<rparr>)"
proof -
  have inv: "held_ok (lanes w) (wjobs w)" "timers_ok (timers w) (wjobs w)"
    "\<And>k x. get_job k (wjobs w) = Some x \<Longrightarrow> row_ok (lanes w) (timers w) x"
    using assms(1) by (auto simp: worker_inv_def)
  have "held_ok (lanes w) js" using inv(1) keep unfolding held_ok_def by (metis insertI1)
  moreover have "timers_ok (timers w) js" using inv(2) keep unfolding timers_ok_def by blast
  moreover have "row_ok (lanes w) (timers w) x" if g: "get_job i js = Some x" for i x
  proof -
    from rows[OF g] obtain y where y: "get_job i (wjobs w) = Some y"
      "x = y \<or> state y = Paused \<and> state x = Pending \<and> attempts x = attempts y" by blast
    from inv(3)[OF y(1)] y(2) show ?thesis by (auto simp: row_ok_def)
  qed
  ultimately show ?thesis using assms(2) by (auto simp: worker_inv_def)
qed

lemma not_held: "worker_inv w \<Longrightarrow> get_job i (wjobs w) = Some x \<Longrightarrow> state x \<noteq> Running \<Longrightarrow>
    lanes w l = Some j \<Longrightarrow> job_id j \<noteq> i"
  by (auto simp: worker_inv_def held_ok_def)

lemma not_timed: "worker_inv w \<Longrightarrow> get_job i (wjobs w) = Some x \<Longrightarrow> state x \<noteq> Failed \<Longrightarrow>
    i \<notin> snd ` set (timers w)"
  by (fastforce simp: worker_inv_def timers_ok_def)

lemma inv_row: "worker_inv w \<Longrightarrow> get_job i (wjobs w) = Some x \<Longrightarrow> row_ok (lanes w) (timers w) x"
  by (simp add: worker_inv_def)

lemma inv_wf: "worker_inv w \<Longrightarrow> jobs_wf (wjobs w)"
  by (simp add: worker_inv_def)

lemma inv_held: "worker_inv w \<Longrightarrow> lanes w l = Some j \<Longrightarrow> get_job (job_id j) (wjobs w) = Some j \<and> state j = Running"
  by (simp add: worker_inv_def held_ok_def)

lemma inv_held_unique: "worker_inv w \<Longrightarrow> lanes w l = Some j \<Longrightarrow> lanes w l' = Some k \<Longrightarrow> job_id j = job_id k \<Longrightarrow> l = l'"
  unfolding worker_inv_def held_ok_def by (metis option.inject)

lemma inv_timers: "worker_inv w \<Longrightarrow> distinct (map snd (timers w))"
  by (simp add: worker_inv_def timers_ok_def)

lemma free_lane:
  assumes inv: "worker_inv w" and held: "lanes w lane = Some j"
  shows "((lanes w)(lane := None)) l = Some k \<longleftrightarrow> lanes w l = Some k \<and> job_id k \<noteq> job_id j"
proof (cases "l = lane")
  case False
  with inv_held_unique[OF inv held] have "lanes w l = Some k \<Longrightarrow> job_id k \<noteq> job_id j" by metis
  with False show ?thesis by auto
qed (use held in auto)

text \<open>A settled row: the lane is free again, the timer may be armed.\<close>

lemma worker_inv_settled:
  assumes inv: "worker_inv w" and held: "lanes w lane = Some j" and "jobs_wf js"
    and other: "\<And>k. k \<noteq> job_id j \<Longrightarrow> get_job k js = get_job k (wjobs w)"
    and row: "\<And>x. get_job (job_id j) js = Some x \<Longrightarrow> attempts x < MAX_ATTEMPTS \<and> state x \<notin> {Running, Failed} \<or>
        state x = Poison \<and> attempts x \<le> MAX_ATTEMPTS"
  shows "worker_inv (w\<lparr>wjobs := js, lanes := (lanes w)(lane := None)\<rparr>)"
proof -
  have h: "get_job (job_id j) (wjobs w) = Some j" "state j = Running" using inv_held[OF inv held] by auto
  have "worker_inv (w\<lparr>wjobs := js, lanes := (lanes w)(lane := None), timers := timers w\<rparr>)"
  proof (rule worker_inv_one_row[OF inv assms(3) other, where new = "\<lambda>_. False"])
    show "((lanes w)(lane := None)) l = Some k \<longleftrightarrow>
      lanes w l = Some k \<and> job_id k \<noteq> job_id j \<or> False \<and> get_job (job_id j) js = Some k" for l k
      using free_lane[OF inv held] by simp
    show "row_ok ((lanes w)(lane := None)) (timers w) x" if "get_job (job_id j) js = Some x" for x
      using row[OF that] by (auto simp: row_ok_def split: job_state.splits)
  qed (use inv_timers[OF inv] not_timed[OF inv h(1)] h(2) in simp_all)
  then show ?thesis by simp
qed

lemma worker_inv_retrying:
  assumes inv: "worker_inv w" and held: "lanes w lane = Some j" and "jobs_wf js"
    and other: "\<And>k. k \<noteq> job_id j \<Longrightarrow> get_job k js = get_job k (wjobs w)"
    and row: "\<exists>x. get_job (job_id j) js = Some x \<and> state x = Failed \<and> attempts x < MAX_ATTEMPTS"
  shows "worker_inv (w\<lparr>wjobs := js, lanes := (lanes w)(lane := None), timers := timers w @ [(t, job_id j)]\<rparr>)"
proof -
  have h: "get_job (job_id j) (wjobs w) = Some j" "state j = Running" using inv_held[OF inv held] by auto
  have nt: "job_id j \<notin> snd ` set (timers w)" using not_timed[OF inv h(1)] h(2) by simp
  show ?thesis
  proof (rule worker_inv_one_row[OF inv assms(3) other, where new = "\<lambda>_. False"])
    show "((lanes w)(lane := None)) l = Some k \<longleftrightarrow>
      lanes w l = Some k \<and> job_id k \<noteq> job_id j \<or> False \<and> get_job (job_id j) js = Some k" for l k
      using free_lane[OF inv held] by simp
    show "distinct (map snd (timers w @ [(t, job_id j)]))" using inv_timers[OF inv] nt by simp
    show "row_ok ((lanes w)(lane := None)) (timers w @ [(t, job_id j)]) x"
      if "get_job (job_id j) js = Some x" for x
      using row that get_job_id[OF that] by (auto simp: row_ok_def)
  qed (use row in auto)
qed

section \<open>Every step keeps the invariant\<close>

lemma inv_tick_claim:
  assumes inv: "worker_inv w" and free: "lanes w lane = None"
  shows "worker_inv (tick_claim q undispatchable now lane w)"
proof (cases "claim_candidate q now (if lane = RESERVED_LOCAL_LANE_ID then LOCAL_SQLITE_KINDS else []) (wjobs w)")
  case None
  then show ?thesis using inv by (simp add: tick_claim_def claimPending_eq[OF inv_wf[OF inv]])
next
  case (Some c)
  let ?j = "c\<lparr>state := Running, updated_at := now\<rparr>"
  let ?js = "transition (job_id c) Running now (wjobs w)"
  have c: "get_job (job_id c) (wjobs w) = Some c" "state c = Pending"
    using claim_candidate_pending[OF Some] inv_wf[OF inv] job_rows.get_in
    by (auto simp: get_job_def jobs_wf_def)
  have att: "attempts c < MAX_ATTEMPTS" using inv_row[OF inv c(1)] c(2) by (simp add: row_ok_def)
  have nh: "lanes w l = Some k \<Longrightarrow> job_id k \<noteq> job_id c" for l k using not_held[OF inv c(1)] c(2) by auto
  have nt: "job_id c \<notin> snd ` set (timers w)" using not_timed[OF inv c(1)] c(2) by simp
  have held: "worker_inv (w\<lparr>wjobs := ?js, lanes := (lanes w)(lane := Some ?j), timers := timers w\<rparr>)"
  proof (rule worker_inv_one_row[OF inv, where i = "job_id c" and new = "\<lambda>l. l = lane"])
    show "((lanes w)(lane := Some ?j)) l = Some k \<longleftrightarrow> lanes w l = Some k \<and> job_id k \<noteq> job_id c \<or>
       l = lane \<and> get_job (job_id c) ?js = Some k" for l k
      using nh free c(1) by (auto simp: get_transition)
  qed (use inv_wf[OF inv] inv_timers[OF inv] nt c(1) att in \<open>auto simp: get_transition row_ok_def\<close>)
  have undisp: "worker_inv (w\<lparr>wjobs := settle_undispatchable m now ?j ?js, lanes := lanes w, timers := timers w\<rparr>)" for m
  proof (rule worker_inv_one_row[OF inv, where i = "job_id c" and new = "\<lambda>_. False"])
    show "lanes w l = Some k \<longleftrightarrow> lanes w l = Some k \<and> job_id k \<noteq> job_id c \<or>
       False \<and> get_job (job_id c) (settle_undispatchable m now ?j ?js) = Some k" for l k
      using nh by auto
  qed (use inv_wf[OF inv] inv_timers[OF inv] nt c(1) att in
      \<open>auto simp: settle_undispatchable_def Let_def get_job_updates row_ok_def intro!: jobs_wf_ops split: if_splits\<close>)
  show ?thesis using inv held undisp
    by (auto simp: tick_claim_def claimPending_eq[OF inv_wf[OF inv]] Some split: option.splits)
qed

lemma record_frame [simp]:
  "wjobs (gov_record k d w) = wjobs w" "lanes (gov_record k d w) = lanes w"
  "timers (gov_record k d w) = timers w" "runs (gov_record k d w) = runs w"
  "wjobs (add_run k st d e w) = wjobs w" "lanes (add_run k st d e w) = lanes w"
  "timers (add_run k st d e w) = timers w" "gov (add_run k st d e w) = gov w"
  by (simp_all add: gov_record_def add_run_def)

lemma worker_inv_cong:
  "wjobs w = wjobs v \<Longrightarrow> lanes w = lanes v \<Longrightarrow> timers w = timers v \<Longrightarrow> worker_inv w = worker_inv v"
  by (simp add: worker_inv_def)

lemma settle_success:
  "wjobs (settle now dur rnd j None w) = complete (job_id j) now (wjobs w)"
  "lanes (settle now dur rnd j None w) = lanes w"
  "timers (settle now dur rnd j None w) = timers w"
  by (simp_all add: settle_def Let_def)

definition pauses :: "thrown \<Rightarrow> bool" where
  "pauses err \<longleftrightarrow> (case err of BudgetPaused _ \<Rightarrow> True | QuotaBreakerOpen _ \<Rightarrow> True | _ \<Rightarrow> False)"

lemma settle_pause:
  assumes "pauses err"
  shows "wjobs (settle now dur rnd j (Some err) w) =
      pause (job_id j) now (setLastError (job_id j) (message err) now (wjobs w))"
    "lanes (settle now dur rnd j (Some err) w) = lanes w"
    "timers (settle now dur rnd j (Some err) w) = timers w"
  using assms by (cases err; simp add: pauses_def settle_def Let_def)+

lemma settle_deterministic:
  assumes "\<not> pauses err" and "classifyError err = Deterministic"
  shows "wjobs (settle now dur rnd j (Some err) w) =
      markPoison (job_id j) now (fail (job_id j) (message err) now (wjobs w))"
    "lanes (settle now dur rnd j (Some err) w) = lanes w"
    "timers (settle now dur rnd j (Some err) w) = timers w"
  using assms by (cases err; simp add: pauses_def settle_def Let_def)+

lemma settle_transient:
  assumes "\<not> pauses err" and "classifyError err = Transient"
    and "get_job (job_id j) (wjobs w) = Some r"
  shows "lanes (settle now dur rnd j (Some err) w) = lanes w"
    "wjobs (settle now dur rnd j (Some err) w) =
      (if MAX_ATTEMPTS \<le> attempts r + 1
       then markPoison (job_id j) now (fail (job_id j) (message err) now (wjobs w))
       else fail (job_id j) (message err) now (wjobs w))"
    "timers (settle now dur rnd j (Some err) w) =
      (if MAX_ATTEMPTS \<le> attempts r + 1 then timers w
       else timers w @ [(now + fst (retry_delay now rnd (baseDelay err (attempts r + 1))
              (gov (gov_record (kind j) dur w))), job_id j)])"
  using assms by (cases err; simp add: pauses_def settle_def Let_def get_fail split: prod.splits)+

lemma inv_tick_settle:
  assumes inv: "worker_inv w"
  shows "worker_inv (tick_settle now dur rnd lane outcome w)"
proof (cases "lanes w lane")
  case None
  then show ?thesis using inv by (simp add: tick_settle_def)
next
  case (Some j)
  note held = inv_held[OF inv Some]
  have att: "attempts j < MAX_ATTEMPTS" using inv_row[OF inv, of "job_id j" j] held by (simp add: row_ok_def)
  note wf = inv_wf[OF inv]
  have fin: "worker_inv v"
    if "wjobs v \<in> {complete (job_id j) now (wjobs w),
        pause (job_id j) now (setLastError (job_id j) m now (wjobs w)),
        markPoison (job_id j) now (fail (job_id j) m now (wjobs w))}"
      "lanes v = (lanes w)(lane := None)" "timers v = timers w" for v m
  proof -
    have "worker_inv (w\<lparr>wjobs := wjobs v, lanes := (lanes w)(lane := None)\<rparr>)"
      by (rule worker_inv_settled[OF inv Some]) (use that(1) held att wf in \<open>auto simp: get_job_updates intro!: jobs_wf_ops\<close>)
    then show ?thesis by (rule worker_inv_cong[THEN iffD2, rotated 3]) (use that in simp_all)
  qed
  have retry: "worker_inv v"
    if "attempts j + 1 < MAX_ATTEMPTS" "wjobs v = fail (job_id j) m now (wjobs w)"
      "lanes v = (lanes w)(lane := None)" "timers v = timers w @ [(t, job_id j)]" for v m t
  proof -
    have "worker_inv (w\<lparr>wjobs := wjobs v, lanes := (lanes w)(lane := None), timers := timers w @ [(t, job_id j)]\<rparr>)"
      by (rule worker_inv_retrying[OF inv Some]) (use that(1,2) held att wf in \<open>auto simp: get_job_updates intro!: jobs_wf_ops\<close>)
    then show ?thesis by (rule worker_inv_cong[THEN iffD2, rotated 3]) (use that in simp_all)
  qed
  let ?w = "w\<lparr>lanes := (lanes w)(lane := None)\<rparr>"
  have t: "tick_settle now dur rnd lane out w = settle now dur rnd j out ?w" for out
    by (simp add: tick_settle_def Some)
  show ?thesis
  proof (cases outcome)
    case None
    show ?thesis unfolding t None
      by (rule fin) (auto simp: settle_success)
  next
    case o: (Some err)
    show ?thesis
    proof (cases "pauses err")
      case True
      show ?thesis unfolding t o
        by (rule fin[where m = "message err"]) (use True in \<open>auto simp: settle_pause\<close>)
    next
      case np: False
      note tr = settle_transient[OF np, of j ?w j now dur rnd]
      consider "classifyError err = Deterministic"
        | "classifyError err = Transient" "MAX_ATTEMPTS \<le> attempts j + 1"
        | "classifyError err = Transient" "attempts j + 1 < MAX_ATTEMPTS"
        by (metis failure_kind.exhaust not_le)
      then show ?thesis
      proof cases
        case 1
        show ?thesis unfolding t o
          by (rule fin[where m = "message err"]) (use 1 np in \<open>auto simp: settle_deterministic\<close>)
      next
        case 2
        show ?thesis unfolding t o
          by (rule fin[where m = "message err"]) (use 2 tr held in auto)
      next
        case 3
        show ?thesis unfolding t o
          by (rule retry) (use 3 tr held in auto)
      qed
    qed
  qed
qed

lemma inv_fire_timer:
  assumes inv: "worker_inv w"
  shows "worker_inv (fire_timer now t w)"
proof (cases "t \<in> set (timers w)")
  case True
  let ?i = "snd t" and ?ts = "remove1 t (timers w)"
  obtain x where x: "get_job ?i (wjobs w) = Some x" "state x = Failed"
    using inv True by (fastforce simp: worker_inv_def timers_ok_def)
  have att: "attempts x < MAX_ATTEMPTS" using inv_row[OF inv x(1)] x(2) by (simp add: row_ok_def)
  have d: "distinct (map snd (timers w))" by (rule inv_timers[OF inv])
  have ts: "snd ` set ?ts = snd ` set (timers w) - {?i}"
    using d True by (auto simp: distinct_map set_remove1_eq inj_on_def)
  have "worker_inv (w\<lparr>wjobs := requeueForRetry ?i now (wjobs w), lanes := lanes w, timers := ?ts\<rparr>)"
  proof (rule worker_inv_one_row[OF inv, where i = ?i and new = "\<lambda>_. False"])
    show "lanes w l = Some k \<longleftrightarrow> lanes w l = Some k \<and> job_id k \<noteq> ?i \<or>
       False \<and> get_job ?i (requeueForRetry ?i now (wjobs w)) = Some k" for l k
      using not_held[OF inv x(1)] x(2) by auto
    show "distinct (map snd ?ts)" using d by (simp add: distinct_map distinct_remove1 inj_on_def set_remove1_eq)
    show "\<exists>r. get_job ?i (requeueForRetry ?i now (wjobs w)) = Some r \<and> state r = Failed" if "?i \<in> snd ` set ?ts"
      using that unfolding ts by simp
    show "snd ` set ?ts - {?i} = snd ` set (timers w) - {?i}" unfolding ts by simp
  qed (use inv_wf[OF inv] x att in \<open>auto simp: get_job_updates row_ok_def intro!: jobs_wf_ops\<close>)
  with True show ?thesis by (simp add: fire_timer_def worker_inv_def)
qed (use inv in \<open>simp add: fire_timer_def\<close>)

lemma inv_enqueue:
  assumes inv: "worker_inv w" and e: "enqueue uuid now k p (wjobs w) = Inr js"
  shows "worker_inv (w\<lparr>wjobs := js\<rparr>)"
proof -
  have none: "get_job uuid (wjobs w) = None"
    using e by (auto simp: enqueue_def get_job_def Let_def split: if_splits)
  have nh: "job_id j \<noteq> uuid" if "lanes w l = Some j" for l j using inv_held[OF inv that] none by auto
  have nt: "uuid \<notin> snd ` set (timers w)" using inv none by (auto simp: worker_inv_def timers_ok_def)
  have new: "state x = Pending \<and> attempts x = 0" if "get_job uuid js = Some x" for x
    using e that none by (auto simp: enqueue_def get_job_def Let_def get_row_append split: if_splits)
  have "worker_inv (w\<lparr>wjobs := js, lanes := lanes w, timers := timers w\<rparr>)"
  proof (rule worker_inv_one_row[OF inv, where i = uuid and new = "\<lambda>_. False"])
    show "lanes w l = Some j \<longleftrightarrow> lanes w l = Some j \<and> job_id j \<noteq> uuid \<or> False \<and> get_job uuid js = Some j" for l j
      using nh by auto
    show "jobs_wf js" by (rule jobs_wf_enqueue[OF inv_wf[OF inv] e])
    show "row_ok (lanes w) (timers w) x" if "get_job uuid js = Some x" for x
      using new[OF that] by (simp add: row_ok_def MAX_ATTEMPTS_def)
  qed (use inv_timers[OF inv] nt get_enqueue[OF e] in auto)
  then show ?thesis by simp
qed

lemma filter_is_delete: "filter P js = delete_rows (\<lambda>x. \<not> P x) js"
  by (simp add: delete_rows_def)

lemma get_purgeOld:
  assumes "jobs_wf js"
  shows "get_job i (snd (purgeOld cd pd now js)) =
    (case get_job i js of None \<Rightarrow> None
     | Some x \<Rightarrow> if x \<in> set (snd (purgeOld cd pd now js)) then Some x else None)"
proof -
  have eq: "snd (purgeOld cd pd now js) = filter (\<lambda>x. x \<in> set (snd (purgeOld cd pd now js))) js"
    by (auto simp: purgeOld_def Let_def delete_rows_def intro!: filter_cong)
  show ?thesis
    by (subst (1) eq) (use assms in \<open>auto simp: get_job_def jobs_wf_def filter_is_delete job_rows.get_delete split: option.splits\<close>)
qed

lemma inv_purge:
  assumes inv: "worker_inv w"
  shows "worker_inv (w\<lparr>wjobs := snd (purgeOld cd pd now (wjobs w))\<rparr>)"
proof (rule worker_inv_bulk[OF inv])
  note g = get_purgeOld[OF inv_wf[OF inv]]
  show "\<exists>y. get_job i (wjobs w) = Some y \<and> (x = y \<or> state y = Paused \<and> state x = Pending \<and> attempts x = attempts y)"
    if "get_job i (snd (purgeOld cd pd now (wjobs w))) = Some x" for i x
    using that by (auto simp: g split: option.splits if_splits)
  show "get_job i (snd (purgeOld cd pd now (wjobs w))) = Some y"
    if "get_job i (wjobs w) = Some y" "state y \<in> {Running, Failed}" for i y
  proof -
    have "y \<in> set (wjobs w)" using that(1) by (auto simp: get_job_def dest: get_row_SomeD)
    with that(2) have "y \<in> set (snd (purgeOld cd pd now (wjobs w)))" by (auto simp: purgeOld_def Let_def)
    with that(1) show ?thesis by (simp add: g)
  qed
qed (rule jobs_wf_ops(6)[OF inv_wf[OF inv]])

lemma get_requeuePaused:
  "get_job i (snd (requeuePaused now js)) =
     map_option (\<lambda>j. if state j = Paused then j\<lparr>state := Pending, updated_at := now\<rparr> else j) (get_job i js)"
  unfolding get_job_def requeuePaused_def snd_conv by (rule job_rows.get_update) simp

lemma inv_resume:
  assumes inv: "worker_inv w"
  shows "worker_inv (w\<lparr>wjobs := snd (requeuePaused now (wjobs w))\<rparr>)"
  by (rule worker_inv_bulk[OF inv jobs_wf_ops(4)[OF inv_wf[OF inv]]])
    (auto simp: get_requeuePaused split: if_splits)


lemma inv_restart:
  assumes inv: "worker_inv w"
  shows "worker_inv (restart now g w)"
proof -
  let ?js = "snd (recoverOrphans MAX_ATTEMPTS now (wjobs w))"
  have "row_ok (\<lambda>_. None) [] x" if x: "get_job i ?js = Some x" for i x
  proof -
    obtain y where y: "get_job i (wjobs w) = Some y"
      using x by (auto simp: get_recoverOrphans)
    show ?thesis using inv_row[OF inv y] x y
      by (cases "state y") (auto simp: get_recoverOrphans row_ok_def split: if_splits)
  qed
  then show ?thesis using jobs_wf_ops(5)[OF inv_wf[OF inv]]
    by (simp add: worker_inv_def restart_def held_ok_def timers_ok_def)
qed

lemma worker_step_inv:
  assumes "worker_step q undispatchable concurrency w w'" and "worker_inv w"
  shows "worker_inv w'"
  using assms
proof cases
  case (ws_restart now g)
  then show ?thesis using inv_restart assms(2) by blast
qed (use assms(2) inv_tick_claim inv_tick_settle inv_fire_timer inv_enqueue inv_purge inv_resume in auto)

lemma worker_reachable_inv: "worker_reachable q undispatchable concurrency w \<Longrightarrow> worker_inv w"
proof (induction rule: worker_reachable.induct)
  case (wr_start g)
  show ?case by (simp add: idle_worker_def worker_inv_def jobs_wf_def held_ok_def timers_ok_def get_job_def)
next
  case (wr_step w w')
  then show ?case using worker_step_inv by blast
qed

section \<open>Jobs in flight\<close>

text \<open>
  C2: in every reachable state of the worker (any interleaving of lanes, timers, enqueues,
  retention and crashes) a lane holds exactly the table row of a job marked running, no job is on
  two lanes, and every row marked running is on a lane.
\<close>

theorem in_flight_jobs_are_exclusive:
  assumes "worker_reachable q undispatchable concurrency w"
  shows "(lanes w l = Some j \<longrightarrow> get_job (job_id j) (wjobs w) = Some j \<and> state j = Running) \<and>
    (lanes w l = Some j \<longrightarrow> lanes w l' = Some k \<longrightarrow> job_id j = job_id k \<longrightarrow> l = l') \<and>
    (get_job i (wjobs w) = Some x \<longrightarrow> state x = Running \<longrightarrow> (\<exists>l. lanes w l = Some x))"
proof (intro conjI impI)
  have inv: "worker_inv w" using assms by (rule worker_reachable_inv)
  show "get_job (job_id j) (wjobs w) = Some j" "state j = Running" if "lanes w l = Some j"
    using inv_held[OF inv that] by auto
  show "l = l'" if "lanes w l = Some j" "lanes w l' = Some k" "job_id j = job_id k"
    by (rule inv_held_unique[OF inv that])
  show "\<exists>l. lanes w l = Some x" if "get_job i (wjobs w) = Some x" "state x = Running"
    using inv_row[OF inv that(1)] that(2) by (simp add: row_ok_def)
qed

text \<open>A run of one lane over one job: enqueue, claim, a handler that fails with a network error.\<close>

definition demo_job :: job where
  "demo_job = \<lparr>job_id = ''j'', kind = Distill, payload_json = ''{}'', state = Pending, attempts = 0,
     last_error = None, priority = 1, created_at = 10, updated_at = 10\<rparr>"

definition demo_enqueued :: worker where
  "demo_enqueued = idle_worker None\<lparr>wjobs := [demo_job]\<rparr>"

definition demo_claimed :: worker where
  "demo_claimed = tick_claim trunc_quotient (\<lambda>_. None) 20 1 demo_enqueued"

definition demo_failed :: worker where
  "demo_failed = tick_settle 30 5 0 1 (Some (PlainError ''ECONNREFUSED'')) demo_claimed"

lemma demo_reachable:
  "worker_reachable trunc_quotient (\<lambda>_. None) 2 demo_enqueued"
  "worker_reachable trunc_quotient (\<lambda>_. None) 2 demo_claimed"
  "worker_reachable trunc_quotient (\<lambda>_. None) 2 demo_failed"
proof -
  let ?R = "worker_reachable trunc_quotient (\<lambda>_. None) 2"
  let ?S = "worker_step trunc_quotient (\<lambda>_. None) 2"
  have "?S (idle_worker None) demo_enqueued" unfolding demo_enqueued_def
    by (rule ws_enqueue[of "''j''" 10 Distill "''{}''"])
      (simp add: enqueue_def idle_worker_def demo_job_def)
  then show e: "?R demo_enqueued" by (rule wr_step[OF wr_start])
  have "?S demo_enqueued demo_claimed" unfolding demo_claimed_def
    by (rule ws_claim) (simp_all add: demo_enqueued_def idle_worker_def)
  with e show c: "?R demo_claimed" by (rule wr_step)
  have "lanes demo_claimed 1 \<noteq> None"
    by (simp add: demo_claimed_def demo_enqueued_def demo_job_def idle_worker_def tick_claim_def
        RESERVED_LOCAL_LANE_ID_def claimPending_def claim_candidate_def count_rows_def)
  then have "?S demo_claimed demo_failed" unfolding demo_failed_def by (auto intro: ws_settle)
  with c show "?R demo_failed" by (rule wr_step)
qed

lemma demo_claimed_eq:
  "demo_claimed = idle_worker None\<lparr>wjobs := [demo_job\<lparr>state := Running, updated_at := 20\<rparr>],
     lanes := (\<lambda>_. None)(1 := Some (demo_job\<lparr>state := Running, updated_at := 20\<rparr>))\<rparr>"
  by (simp add: demo_claimed_def demo_enqueued_def demo_job_def idle_worker_def tick_claim_def
        RESERVED_LOCAL_LANE_ID_def claimPending_def claim_candidate_def count_rows_def)

theorem in_flight_jobs_are_exclusive_witness:
  "\<exists>l. lanes demo_claimed l = Some (demo_job\<lparr>state := Running, updated_at := 20\<rparr>)"
  using in_flight_jobs_are_exclusive[OF demo_reachable(2), of 0 demo_job 0 demo_job "''j''"
      "demo_job\<lparr>state := Running, updated_at := 20\<rparr>"]
  by (simp add: demo_claimed_eq get_job_def demo_job_def)


lemma demo_failed_eq:
  "wjobs demo_failed = [demo_job\<lparr>state := Failed, attempts := 1, last_error := Some ''ECONNREFUSED'',
     updated_at := 30\<rparr>]" "timers demo_failed = [(1030, ''j'')]"
proof -
  have c: "classifyError (PlainError ''ECONNREFUSED'') = Transient"
    by code_simp
  show "wjobs demo_failed = [demo_job\<lparr>state := Failed, attempts := 1, last_error := Some ''ECONNREFUSED'',
     updated_at := 30\<rparr>]" "timers demo_failed = [(1030, ''j'')]"
    by (simp_all add: demo_failed_def demo_claimed_eq tick_settle_def settle_def c fail_def idle_worker_def
        demo_job_def get_job_def MAX_ATTEMPTS_def retry_delay_def gov_record_def add_run_def
        baseDelay_def backoffDelay_def Let_def)
qed





section \<open>Settling a handler\<close>

lemma retry_delay_ge:
  assumes "0 \<le> rnd" and "0 < n"
  shows "n \<le> fst (retry_delay now rnd n g)"
proof (cases g)
  case (Some g0)
  obtain d g1 where s: "shapeRetryDelay now rnd (of_int n) (recordRetry now g0) = (d, g1)" by fastforce
  have "n \<le> d"
    using s assms by (auto simp: shapeRetryDelay_def Let_def intro!: shape_lower)
  then show ?thesis by (simp add: retry_delay_def Some s)
qed (simp add: retry_delay_def)

lemma baseDelay_ge:
  "backoffDelay n \<le> baseDelay err n"
  "err = TransientError m (Some r) \<Longrightarrow> r \<le> baseDelay err n"
  by (auto simp: baseDelay_def split: thrown.splits option.splits)

lemma backoffDelay_pos: "0 < backoffDelay n"
  by (simp add: backoffDelay_def)

text \<open>
  C10: a claimed job ends exactly as the outcome of its handler says: success completes it; an
  exceeded budget or an open quota breaker pauses it without counting an attempt; a deterministic
  failure poisons it at once; a transient failure below the limit counts an attempt and arms a
  retry no earlier than the exponential backoff and no earlier than a server's Retry-After, and
  the third one poisons it.
\<close>

theorem settle_outcome:
  assumes "get_job (job_id j) (wjobs w) = Some r" and "0 \<le> rnd"
    and "settle now dur rnd j outcome w = w'"
  shows "\<exists>r'. get_job (job_id j) (wjobs w') = Some r' \<and>
    (case outcome of
       None \<Rightarrow> state r' = Completed \<and> attempts r' = attempts r \<and> timers w' = timers w
     | Some err \<Rightarrow>
         last_error r' = Some (message err) \<and>
         (if pauses err then state r' = Paused \<and> attempts r' = attempts r \<and> timers w' = timers w
          else attempts r' = attempts r + 1 \<and>
            (if classifyError err = Deterministic \<or> 3 \<le> attempts r + 1
             then state r' = Poison \<and> timers w' = timers w
             else state r' = Failed \<and>
               (\<exists>d. timers w' = timers w @ [(now + d, job_id j)] \<and>
                    min (1000 * 2 ^ attempts r) 60000 \<le> d \<and>
                    (\<forall>m ra. err = TransientError m (Some ra) \<longrightarrow> ra \<le> d)))))"
proof (cases outcome)
  case None
  then show ?thesis using assms by (auto simp: settle_success get_job_updates)
next
  case o: (Some err)
  show ?thesis
  proof (cases "pauses err")
    case True
    then show ?thesis using assms by (auto simp: o settle_pause get_job_updates)
  next
    case np: False
    show ?thesis
    proof (cases "classifyError err")
      case Deterministic
      then show ?thesis using assms np by (auto simp: o settle_deterministic get_job_updates)
    next
      case Transient
      note tr = settle_transient[OF np Transient assms(1), of now dur rnd]
      show ?thesis
      proof (cases "3 \<le> attempts r + 1")
        case True
        then show ?thesis using assms np Transient tr
          by (auto simp: o get_job_updates MAX_ATTEMPTS_def)
      next
        case False
        let ?d = "fst (retry_delay now rnd (baseDelay err (attempts r + 1)) (gov (gov_record (kind j) dur w)))"
        have b: "baseDelay err (attempts r + 1) \<le> ?d"
          by (rule retry_delay_ge[OF assms(2)])
            (use baseDelay_ge(1)[of "attempts r + 1" err] backoffDelay_pos[of "attempts r + 1"] in linarith)
        have "min (1000 * 2 ^ attempts r) 60000 \<le> ?d"
          using b baseDelay_ge(1)[of "attempts r + 1" err] by (simp add: backoffDelay_def)
        moreover have "\<forall>m ra. err = TransientError m (Some ra) \<longrightarrow> ra \<le> ?d"
          using b baseDelay_ge(2)[of err _ _ "attempts r + 1"] order_trans by blast
        ultimately show ?thesis using False assms(1,3) np Transient tr
          by (auto simp: o get_job_updates MAX_ATTEMPTS_def)
      qed
    qed
  qed
qed

theorem settle_outcome_witness:
  "\<exists>r'. get_job ''j'' (wjobs (settle 30 5 0 demo_job (Some (BudgetPaused ''cap'')) demo_enqueued)) = Some r' \<and>
     state r' = Paused \<and> attempts r' = 0"
proof -
  have g: "get_job (job_id demo_job) (wjobs demo_enqueued) = Some demo_job"
    by (simp add: demo_enqueued_def get_job_def demo_job_def)
  from settle_outcome[OF g order_refl refl, where outcome = "Some (BudgetPaused ''cap'')" and now = 30 and dur = 5]
  show ?thesis by (auto simp: demo_job_def pauses_def)
qed

section \<open>The classifier and the lane count\<close>

text \<open>
  The classifier's pattern for schema failures written \<open>safeParse\<close> never matches, because the
  message is lower-cased first: dropping the pattern changes no classification, and an error whose
  message is just that failure is retried as transient.
\<close>

lemma safeParse_pattern_is_dead:
  "list_ex (js_includes (js_lower m)) DETERMINISTIC_PATTERNS =
     list_ex (js_includes (js_lower m)) (filter (\<lambda>p. p \<noteq> ''safeParse'') DETERMINISTIC_PATTERNS) \<and>
   classifyError (PlainError ''safeParse rejected the output'') = Transient"
proof (rule conjI)
  have "\<not> js_includes (js_lower m) ''safeParse''"
  proof
    assume "js_includes (js_lower m) ''safeParse''"
    then have "CHR ''P'' \<in> set (js_lower m)" using js_includes_set by fastforce
    then have "\<not> (65 \<le> (of_char (CHR ''P'') :: nat) \<and> (of_char (CHR ''P'') :: nat) \<le> 90)"
      by (rule js_lower_no_upper)
    moreover have "65 \<le> (of_char (CHR ''P'') :: nat) \<and> (of_char (CHR ''P'') :: nat) \<le> 90" by code_simp
    ultimately show False by contradiction
  qed
  then show "list_ex (js_includes (js_lower m)) DETERMINISTIC_PATTERNS =
     list_ex (js_includes (js_lower m)) (filter (\<lambda>p. p \<noteq> ''safeParse'') DETERMINISTIC_PATTERNS)"
    by (simp add: DETERMINISTIC_PATTERNS_def)
  show "classifyError (PlainError ''safeParse rejected the output'') = Transient" by code_simp
qed

text \<open>
  A failure is retried unless something says it is deterministic: an untyped error is poisoned
  at once only when its lower-cased message contains a deterministic pattern and no transient one,
  so a rate-limit message that also mentions a 400 is retried.
\<close>

theorem classifyError_deterministic_iff:
  "classifyError err = Deterministic \<longleftrightarrow>
     (\<exists>m. err = DeterministicError m) \<or>
     ((\<exists>m. err = PlainError m \<or> err = BudgetPaused m \<or> err = QuotaBreakerOpen m) \<and>
      (\<exists>p \<in> set DETERMINISTIC_PATTERNS. js_includes (js_lower (message err)) p) \<and>
      (\<forall>p \<in> set TRANSIENT_PATTERNS. \<not> js_includes (js_lower (message err)) p))"
  by (cases err) (auto simp: classifyError_def Let_def list_ex_iff)

theorem classifyError_deterministic_iff_witness:
  "classifyError (PlainError ''HTTP 422: schema'') = Deterministic"
proof -
  have "\<exists>p \<in> set DETERMINISTIC_PATTERNS. js_includes (js_lower ''HTTP 422: schema'') p" by code_simp
  moreover have "\<forall>p \<in> set TRANSIENT_PATTERNS. \<not> js_includes (js_lower ''HTTP 422: schema'') p" by code_simp
  ultimately show ?thesis
    using classifyError_deterministic_iff[of "PlainError ''HTTP 422: schema''"] by simp
qed

text \<open>
  The lane count is between one and eight for every configured value, and a whole number in
  that range is taken as it is.
\<close>

theorem resolveWorkerConcurrency_bounds:
  "1 \<le> resolveWorkerConcurrency raw \<and> resolveWorkerConcurrency raw \<le> 8 \<and>
   (1 \<le> n \<and> n \<le> 8 \<longrightarrow> resolveWorkerConcurrency (Some (of_int n)) = n)"
  by (auto simp: resolveWorkerConcurrency_def MIN_CONCURRENCY_def MAX_CONCURRENCY_def Let_def
      split: option.splits)

theorem resolveWorkerConcurrency_bounds_witness: "resolveWorkerConcurrency (Some (of_int 5)) = 5"
  using resolveWorkerConcurrency_bounds[of None 5] by simp

end
