(* ===== verification/Memory_Store.thy ===== *)
theory Memory_Store
  imports Prelude
begin

text \<open>
  The tables of the memory store and the row-level operations on them: \<open>MemoryRepo\<close> of
  \<open>src/src/storage/memories.ts\<close>, the event log's \<open>append\<close> and \<open>listForAtom\<close>
  (\<open>storage/memory-events.ts\<close>), \<open>MemoryLinkRepo\<close> (\<open>storage/memory-links.ts\<close>), the vector
  index rows (\<open>vector/sqlite-vec.ts\<close>, which rowids have one) and \<open>chunkedIn\<close>
  (\<open>storage/sql-utils.ts\<close>).

  \<open>now\<close> is the operation's \<open>Date.now()\<close>, \<open>u k\<close> the \<open>k\<close>-th \<open>randomUUID()\<close> it draws, assumed
  fresh as documented. Event payloads are kept structured instead of as JSON text. Deleting a
  memory row cascades to the rows that reference it, as the migrations declare
  (\<open>ON DELETE CASCADE\<close>).
\<close>

section \<open>Rows\<close>

datatype mem_scope = Private | Team | Org

fun SCOPE_RANK :: "mem_scope \<Rightarrow> nat" where
  "SCOPE_RANK Private = 0"
| "SCOPE_RANK Team = 1"
| "SCOPE_RANK Org = 2"

record evidence_location =
  evidence_turn_index :: nat
  evidence_char_start :: nat
  evidence_char_end :: nat
  evidence_span :: string

record embedding_ref =
  embedding_provider :: "string option"
  embedding_model :: "string option"
  embedding_dim :: "nat option"

record insert_input =
  in_type :: string
  in_text :: string
  in_normalized :: string
  in_repo :: "string option"
  in_project :: "string option"
  in_branch :: "string option"
  in_agent :: "string option"
  in_session :: "string option"
  in_hash :: string
  in_source_hash :: "string option"
  in_importance :: "real option"
  in_confidence :: "real option"
  in_embedding :: embedding_ref
  in_evidence :: "string option"
  in_scope :: "mem_scope option"
  in_valid_from :: "epoch_ms option"
  in_valid_to :: "epoch_ms option"
  in_validity_extracted :: bool
  in_entities :: "(string \<times> string) list option"
  in_capture_source :: "string option"
  in_speaker_label :: "string option"
  in_consent :: "bool option"
  in_supported :: "bool option"
  in_location :: "evidence_location option"

record memory =
  mem_id :: string
  mem_rowid :: nat
  mem_type :: string
  mem_text :: string
  mem_normalized :: string
  mem_repo :: "string option"
  mem_project :: "string option"
  mem_branch :: "string option"
  mem_agent :: "string option"
  mem_session :: "string option"
  mem_importance :: real
  mem_confidence :: real
  mem_hash :: string
  mem_embedding :: embedding_ref
  mem_created :: epoch_ms
  mem_updated :: epoch_ms
  mem_source_hash :: "string option"
  mem_evidence :: "string option"
  mem_valid_from :: "epoch_ms option"
  mem_valid_to :: "epoch_ms option"
  superseded_by :: "string option"
  derived_from :: "string list option"
  mem_scope :: mem_scope
  archived :: bool
  archived_at :: "epoch_ms option"
  capture_source :: "string option"
  purge_batch_id :: "string option"
  validity_extracted :: bool
  needs_vec_index :: bool
  speaker_label :: "string option"
  consent_disclosed :: "bool option"
  evidence_supported :: "bool option"
  mem_location :: "evidence_location option"

datatype event_type = E_Create | E_Invalidate | E_Supersede | E_Promote_Scope | E_Erase_Request
  | E_Usefulness | E_Archive | E_Restore | E_Unsupersede | E_Purge | E_Unpurge

record supersede_provenance =
  sp_threshold :: real
  sp_similarity :: real

datatype correction_source = Consolidation_Auto | External

datatype usefulness_signal = Explicit | Heuristic

record create_payload =
  cp_text :: string
  cp_type :: string
  cp_scope :: mem_scope
  cp_importance :: real
  cp_confidence :: real
  cp_repo :: string
  cp_entities :: "(string \<times> string) list option"
  cp_evidence :: "(string \<times> string) option"
  cp_consent :: "bool option"

datatype payload =
    P_Create create_payload
  | P_Reason "string option"
  | P_Corrected string correction_source
  | P_Superseded string "supersede_provenance option"
  | P_Superseded_Bulk string "supersede_provenance option"
  | P_Conflict_Merge string
  | P_Unsuperseded string "string option"
  | P_Purge string string epoch_ms
  | P_Unpurge string
  | P_Promote mem_scope mem_scope
  | P_Erase mem_scope "string option"
  | P_Recall_Served string "real option" string "string option"
  | P_Recall_Used string usefulness_signal "string option"

record mem_event =
  seq :: nat
  event_id :: string
  event_type :: event_type
  atom_id :: string
  ev_payload :: "payload option"
  content_hash :: "string option"
  ev_created :: epoch_ms
  synced_at :: "epoch_ms option"
  rejected_at :: "epoch_ms option"

datatype batch_status = Open | Restored | Finalized

record purge_batch =
  batch_id :: string
  batch_source :: string
  requested_at :: epoch_ms
  restore_deadline_at :: epoch_ms
  atom_count :: nat
  batch_status :: batch_status
  finalized_at :: "epoch_ms option"

record memory_link =
  link_id :: string
  memory_id_a :: string
  memory_id_b :: string
  link_type :: string
  link_evidence :: string
  link_confidence :: real
  link_created :: epoch_ms

text \<open>
  \<open>relation_evidence\<close> holds the pairs (relation id, evidence memory) of \<open>entity_relations\<close>,
  \<open>memory_entities\<close> the pairs (memory, entity), \<open>memories_vec\<close> the rowids that have a vector;
  \<open>next_seq\<close> is SQLite's AUTOINCREMENT counter.
\<close>

record store =
  memories :: "memory list"
  events :: "mem_event list"
  next_seq :: nat
  purge_batches :: "purge_batch list"
  memory_entities :: "(string \<times> string) list"
  relation_evidence :: "(string \<times> string) list"
  memory_links :: "memory_link list"
  memories_vec :: "nat list"

datatype lifecycle_error =
    MemoryNotFoundError string
  | MemoryConflictError string
  | InvalidScopeTransitionError string
  | PurgeBatchNotFoundError string
  | SqliteConstraintError string

section \<open>Reading and appending\<close>

definition get_memory :: "string \<Rightarrow> store \<Rightarrow> memory option" where
  "get_memory i s = get_row mem_id i (memories s)"

definition update_memory :: "string \<Rightarrow> (memory \<Rightarrow> memory) \<Rightarrow> store \<Rightarrow> store" where
  "update_memory i f s = s\<lparr>memories := update_rows (\<lambda>m. mem_id m = i) f (memories s)\<rparr>"

definition append_event ::
  "string \<Rightarrow> epoch_ms \<Rightarrow> event_type \<Rightarrow> string \<Rightarrow> payload option \<Rightarrow> string option \<Rightarrow> store \<Rightarrow> store" where
  "append_event uuid now ty i p h s =
     s\<lparr>events := events s @ [\<lparr>seq = next_seq s, event_id = uuid, event_type = ty, atom_id = i,
          ev_payload = p, content_hash = h, ev_created = now, synced_at = None, rejected_at = None\<rparr>],
       next_seq := next_seq s + 1\<rparr>"

definition listForAtom :: "string \<Rightarrow> store \<Rightarrow> mem_event list" where
  "listForAtom i s = sort_key seq (filter (\<lambda>e. atom_id e = i) (events s))"

section \<open>Deleting a row, with the cascades of the foreign keys\<close>

definition delete_memory :: "string \<Rightarrow> store \<Rightarrow> store" where
  "delete_memory i s =
     s\<lparr>memories := delete_rows (\<lambda>m. mem_id m = i) (memories s),
       memory_entities := delete_rows (\<lambda>(m, _). m = i) (memory_entities s),
       relation_evidence := delete_rows (\<lambda>(_, m). m = i) (relation_evidence s),
       memory_links := delete_rows (\<lambda>l. memory_id_a l = i \<or> memory_id_b l = i) (memory_links s)\<rparr>"

section \<open>MemoryRepo\<close>

text \<open>The rowid SQLite gives a new row: one above the largest in use.\<close>

definition new_rowid :: "store \<Rightarrow> nat" where
  "new_rowid s = foldr max (map mem_rowid (memories s)) 0 + 1"

definition input_row :: "string \<Rightarrow> nat \<Rightarrow> epoch_ms \<Rightarrow> insert_input \<Rightarrow> memory" where
  "input_row i r now inp =
     \<lparr>mem_id = i, mem_rowid = r, mem_type = in_type inp, mem_text = in_text inp,
      mem_normalized = in_normalized inp, mem_repo = in_repo inp, mem_project = in_project inp,
      mem_branch = in_branch inp, mem_agent = in_agent inp, mem_session = in_session inp,
      mem_importance = (case in_importance inp of None \<Rightarrow> 1 / 2 | Some x \<Rightarrow> x),
      mem_confidence = (case in_confidence inp of None \<Rightarrow> 1 / 2 | Some x \<Rightarrow> x),
      mem_hash = in_hash inp, mem_embedding = in_embedding inp, mem_created = now,
      mem_updated = now, mem_source_hash = in_source_hash inp, mem_evidence = in_evidence inp,
      mem_valid_from = Some (case in_valid_from inp of None \<Rightarrow> now | Some t \<Rightarrow> t),
      mem_valid_to = in_valid_to inp, superseded_by = None, derived_from = None,
      mem_scope = (case in_scope inp of None \<Rightarrow> Private | Some sc \<Rightarrow> sc), archived = False,
      archived_at = None, capture_source = in_capture_source inp, purge_batch_id = None,
      validity_extracted = in_validity_extracted inp, needs_vec_index = False,
      speaker_label = in_speaker_label inp, consent_disclosed = in_consent inp,
      evidence_supported = in_supported inp, mem_location = in_location inp\<rparr>"

text \<open>The primary key and the unique index on \<open>hash\<close> make the statement throw.\<close>

definition insertRow :: "string \<Rightarrow> epoch_ms \<Rightarrow> insert_input \<Rightarrow> store \<Rightarrow> lifecycle_error + string \<times> store" where
  "insertRow uuid now inp s =
     (if get_memory uuid s \<noteq> None then Inl (SqliteConstraintError ''memories.id'')
      else if get_row mem_hash (in_hash inp) (memories s) \<noteq> None then Inl (SqliteConstraintError ''memories.hash'')
      else Inr (uuid, s\<lparr>memories := memories s @ [input_row uuid (new_rowid s) now inp]\<rparr>))"

definition insert_memory :: "string \<Rightarrow> epoch_ms \<Rightarrow> insert_input \<Rightarrow> store \<Rightarrow> lifecycle_error + string \<times> store" where
  "insert_memory uuid now inp s =
     (case get_row mem_hash (in_hash inp) (memories s) of
        Some existing \<Rightarrow> Inr (mem_id existing, s)
      | None \<Rightarrow> insertRow uuid now inp s)"

definition create_payload_of :: "insert_input \<Rightarrow> create_payload" where
  "create_payload_of inp =
     \<lparr>cp_text = in_text inp, cp_type = in_type inp,
      cp_scope = (case in_scope inp of None \<Rightarrow> Private | Some sc \<Rightarrow> sc),
      cp_importance = (case in_importance inp of None \<Rightarrow> 1 / 2 | Some x \<Rightarrow> x),
      cp_confidence = (case in_confidence inp of None \<Rightarrow> 1 / 2 | Some x \<Rightarrow> x),
      cp_repo = (case in_repo inp of Some r \<Rightarrow> r
                 | None \<Rightarrow> (case in_project inp of Some p \<Rightarrow> p | None \<Rightarrow> [])),
      cp_entities = in_entities inp,
      cp_evidence = map_option (\<lambda>l. (case in_source_hash inp of None \<Rightarrow> in_hash inp | Some h \<Rightarrow> h, l))
                      (in_speaker_label inp),
      cp_consent = in_consent inp\<rparr>"

definition insertWithCreateEvent ::
  "(nat \<Rightarrow> string) \<Rightarrow> epoch_ms \<Rightarrow> insert_input \<Rightarrow> store \<Rightarrow> lifecycle_error + (string \<times> bool) \<times> store" where
  "insertWithCreateEvent u now inp s =
     (case get_row mem_hash (in_hash inp) (memories s) of
        Some existing \<Rightarrow> Inr ((mem_id existing, False), s)
      | None \<Rightarrow>
          (case insertRow (u 0) now inp s of
             Inl e \<Rightarrow> Inl e
           | Inr (i, s1) \<Rightarrow>
               Inr ((i, True), append_event (u 1) now E_Create i (Some (P_Create (create_payload_of inp)))
                                 (Some (in_hash inp)) s1)))"

definition markNeedsVecIndex :: "string \<Rightarrow> store \<Rightarrow> store" where
  "markNeedsVecIndex i = update_memory i (\<lambda>m. m\<lparr>needs_vec_index := True\<rparr>)"

definition clearNeedsVecIndex :: "string \<Rightarrow> store \<Rightarrow> store" where
  "clearNeedsVecIndex i = update_memory i (\<lambda>m. m\<lparr>needs_vec_index := False\<rparr>)"

definition listNeedingVecIndex :: "nat \<Rightarrow> store \<Rightarrow> string list" where
  "listNeedingVecIndex limit s =
     take limit (map mem_id (sort_key mem_updated (filter needs_vec_index (memories s))))"

definition listOversizeNeedingVecIndex :: "nat \<Rightarrow> nat \<Rightarrow> store \<Rightarrow> string list" where
  "listOversizeNeedingVecIndex maxChars limit s =
     take limit (map mem_id (sort_key mem_updated
       (filter (\<lambda>m. needs_vec_index m \<and> maxChars < length (mem_text m)) (memories s))))"

section \<open>Batched lookups\<close>

definition CHUNK_IN_BATCH_SIZE :: nat where "CHUNK_IN_BATCH_SIZE = 900"

text \<open>The batches of a loop with a positive step \<open>Suc n\<close>.\<close>

function chunks :: "nat \<Rightarrow> 'a list \<Rightarrow> 'a list list" where
  "chunks n xs = (if xs = [] then [] else take (Suc n) xs # chunks n (drop (Suc n) xs))"
  by pat_completeness auto
termination by (relation "measure (\<lambda>(n, xs). length xs)") auto

declare chunks.simps [simp del]

definition chunkedIn :: "('a list \<Rightarrow> 'b list) \<Rightarrow> 'a list \<Rightarrow> 'b list" where
  "chunkedIn runChunk ids = concat (map runChunk (chunks (CHUNK_IN_BATCH_SIZE - 1) ids))"

definition getMany :: "string list \<Rightarrow> store \<Rightarrow> memory list" where
  "getMany ids s =
     (if ids = [] then []
      else chunkedIn (\<lambda>batch. filter (\<lambda>m. mem_id m \<in> set batch) (memories s)) ids)"

section \<open>Links and vectors\<close>

definition insert_link ::
  "string \<Rightarrow> epoch_ms \<Rightarrow> string \<Rightarrow> string \<Rightarrow> string \<Rightarrow> string \<Rightarrow> real option \<Rightarrow> store \<Rightarrow> (string \<times> bool) \<times> store" where
  "insert_link uuid now idA idB ty ev conf s =
     (if idA = idB then (([], False), s)
      else
        (let (a, b) = (if idA < idB then (idA, idB) else (idB, idA))
         in if list_ex (\<lambda>l. memory_id_a l = a \<and> memory_id_b l = b \<and> link_type l = ty) (memory_links s)
            then ((uuid, False), s)
            else ((uuid, True), s\<lparr>memory_links := memory_links s @
                   [\<lparr>link_id = uuid, memory_id_a = a, memory_id_b = b, link_type = ty, link_evidence = ev,
                     link_confidence = (case conf of None \<Rightarrow> 1 / 2 | Some c \<Rightarrow> c), link_created = now\<rparr>]\<rparr>)))"

definition getForMemory :: "string \<Rightarrow> nat \<Rightarrow> store \<Rightarrow> memory_link list" where
  "getForMemory i limit s =
     take limit (sort_key (\<lambda>l. - link_created l)
       (filter (\<lambda>l. memory_id_a l = i \<or> memory_id_b l = i) (memory_links s)))"

text \<open>
  \<open>upsert\<close> of the vector store, for a vector of length \<open>len\<close>; \<open>None\<close> is the exception for a
  wrong dimension or an unknown memory.
\<close>

definition upsert_vector :: "nat \<Rightarrow> string \<Rightarrow> nat \<Rightarrow> store \<Rightarrow> store option" where
  "upsert_vector vdim i len s =
     (if len \<noteq> vdim then None
      else case get_memory i s of
             None \<Rightarrow> None
           | Some m \<Rightarrow>
               if mem_rowid m \<in> set (memories_vec s) then Some s
               else Some (s\<lparr>memories_vec := memories_vec s @ [mem_rowid m]\<rparr>))"

end
