(* ===== verification/Lifecycle.thy ===== *)
theory Lifecycle
  imports Memory_Store
begin

text \<open>
  The lifecycle operations of \<open>MemoryEventRepo\<close> (\<open>src/src/storage/memory-events.ts\<close>) and the
  archival pass of \<open>storage/archival.ts\<close>. Every operation runs in one transaction: it either
  throws (\<open>Inl\<close>) and leaves the store as it was, or returns the new store (\<open>Inr\<close>).
\<close>

section \<open>Lifecycle operations\<close>

definition already_invalid :: "string \<Rightarrow> string" where
  "already_invalid i = ''memory '' @ i @ '' is already invalid''"

definition invalidate ::
  "(nat \<Rightarrow> string) \<Rightarrow> epoch_ms \<Rightarrow> string \<Rightarrow> string option \<Rightarrow> store \<Rightarrow> lifecycle_error + store" where
  "invalidate u now i reason s =
     (case get_memory i s of
        None \<Rightarrow> Inl (MemoryNotFoundError i)
      | Some row \<Rightarrow>
          if mem_valid_to row \<noteq> None then Inl (MemoryConflictError (already_invalid i))
          else Inr (append_event (u 1) now E_Usefulness i (Some (P_Corrected ''invalidated'' External)) None
                   (append_event (u 0) now E_Invalidate i (Some (P_Reason reason)) None
                   (update_memory i (\<lambda>m. m\<lparr>mem_valid_to := Some now, mem_updated := now\<rparr>) s))))"

definition supersede ::
  "(nat \<Rightarrow> string) \<Rightarrow> epoch_ms \<Rightarrow> string \<Rightarrow> string \<Rightarrow> supersede_provenance option \<Rightarrow> correction_source \<Rightarrow>
   store \<Rightarrow> lifecycle_error + store" where
  "supersede u now oldId newId provenance source s =
     (case get_memory oldId s of
        None \<Rightarrow> Inl (MemoryNotFoundError oldId)
      | Some oldRow \<Rightarrow>
          (case get_memory newId s of
             None \<Rightarrow> Inl (MemoryNotFoundError newId)
           | Some newRow \<Rightarrow>
               if mem_valid_to oldRow \<noteq> None then Inl (MemoryConflictError (already_invalid oldId))
               else if mem_valid_to newRow \<noteq> None
               then Inl (MemoryConflictError (''memory '' @ newId @ '' must be valid to supersede with''))
               else
                 (let s1 = update_memory oldId (\<lambda>m. m\<lparr>mem_valid_to := Some now, superseded_by := Some newId,
                                                      mem_updated := now\<rparr>) s;
                      s2 = update_memory newId (\<lambda>m. m\<lparr>mem_valid_from := Some now, mem_updated := now\<rparr>) s1;
                      s3 = s2\<lparr>memory_entities := delete_rows (\<lambda>(m, _). m = oldId) (memory_entities s2),
                              relation_evidence := delete_rows (\<lambda>(_, m). m = oldId) (relation_evidence s2)\<rparr>;
                      s4 = append_event (u 0) now E_Supersede oldId (Some (P_Superseded newId provenance)) None s3
                  in Inr (append_event (u 1) now E_Usefulness oldId
                            (Some (P_Corrected ''superseded'' source)) None s4))))"

definition archive ::
  "(nat \<Rightarrow> string) \<Rightarrow> epoch_ms \<Rightarrow> string \<Rightarrow> string option \<Rightarrow> store \<Rightarrow> lifecycle_error + store" where
  "archive u now i reason s =
     (case get_memory i s of
        None \<Rightarrow> Inl (MemoryNotFoundError i)
      | Some row \<Rightarrow>
          if mem_valid_to row \<noteq> None then Inl (MemoryConflictError (already_invalid i @ '' - cannot archive''))
          else Inr (append_event (u 0) now E_Archive i (Some (P_Reason reason)) None
                   (update_memory i (\<lambda>m. m\<lparr>mem_valid_to := Some now, archived := True,
                                           archived_at := Some now, mem_updated := now\<rparr>) s)))"

definition restore ::
  "(nat \<Rightarrow> string) \<Rightarrow> epoch_ms \<Rightarrow> string \<Rightarrow> store \<Rightarrow> lifecycle_error + store" where
  "restore u now i s =
     (case get_memory i s of
        None \<Rightarrow> Inl (MemoryNotFoundError i)
      | Some row \<Rightarrow>
          if \<not> archived row then Inl (MemoryConflictError (''memory '' @ i @ '' is not archived''))
          else Inr (append_event (u 0) now E_Restore i None None
                   (update_memory i (\<lambda>m. m\<lparr>mem_valid_to := None, archived := False,
                                           archived_at := None, mem_updated := now\<rparr>) s)))"

definition unsupersede ::
  "(nat \<Rightarrow> string) \<Rightarrow> epoch_ms \<Rightarrow> string \<Rightarrow> string option \<Rightarrow> store \<Rightarrow> lifecycle_error + store" where
  "unsupersede u now i reason s =
     (case get_memory i s of
        None \<Rightarrow> Inl (MemoryNotFoundError i)
      | Some row \<Rightarrow>
          if archived row
          then Inl (MemoryConflictError (''memory '' @ i @ '' is archived, not superseded''))
          else (case superseded_by row of
                  None \<Rightarrow> Inl (MemoryConflictError (''memory '' @ i @ '' was not superseded''))
                | Some previousWinner \<Rightarrow>
                    Inr (append_event (u 0) now E_Unsupersede i (Some (P_Unsuperseded previousWinner reason)) None
                        (update_memory i (\<lambda>m. m\<lparr>mem_valid_to := None, superseded_by := None,
                                                mem_updated := now\<rparr>) s))))"

text \<open>The loop of \<open>purgeBatch\<close>: \<open>u (k + 1)\<close> is the id of the \<open>k\<close>-th event appended.\<close>

fun purge_loop ::
  "(nat \<Rightarrow> string) \<Rightarrow> epoch_ms \<Rightarrow> string \<Rightarrow> string \<Rightarrow> epoch_ms \<Rightarrow> string list \<Rightarrow> nat \<Rightarrow> store \<Rightarrow> nat \<times> store" where
  "purge_loop u now b src deadline [] n s = (n, s)"
| "purge_loop u now b src deadline (i # is) n s =
     (case get_memory i s of
        None \<Rightarrow> purge_loop u now b src deadline is n s
      | Some row \<Rightarrow>
          if mem_valid_to row \<noteq> None then purge_loop u now b src deadline is n s
          else purge_loop u now b src deadline is (n + 1)
                 (append_event (u (n + 1)) now E_Purge i (Some (P_Purge b src deadline)) None
                   (update_memory i (\<lambda>m. m\<lparr>mem_valid_to := Some now, purge_batch_id := Some b,
                                           mem_updated := now\<rparr>) s)))"

definition purgeBatch ::
  "(nat \<Rightarrow> string) \<Rightarrow> epoch_ms \<Rightarrow> string list \<Rightarrow> string \<Rightarrow> int \<Rightarrow> store \<Rightarrow>
   lifecycle_error + (string \<times> nat) \<times> store" where
  "purgeBatch u now atomIds src restoreWindowDays s =
     (let b = u 0;
          deadline = now + restoreWindowDays * 86400000;
          (n, s1) = purge_loop u now b src deadline atomIds 0 s
      in if get_row batch_id b (purge_batches s1) \<noteq> None
         then Inl (SqliteConstraintError ''purge_batches.batch_id'')
         else Inr ((b, n), s1\<lparr>purge_batches := purge_batches s1 @
             [\<lparr>batch_id = b, batch_source = src, requested_at = now, restore_deadline_at = deadline,
               atom_count = n, batch_status = Open, finalized_at = None\<rparr>]\<rparr>))"

definition purged_ids :: "string \<Rightarrow> store \<Rightarrow> string list" where
  "purged_ids b s =
     map mem_id (filter (\<lambda>m. purge_batch_id m = Some b \<and> mem_valid_to m \<noteq> None) (memories s))"

definition unpurge_one :: "(nat \<Rightarrow> string) \<Rightarrow> epoch_ms \<Rightarrow> string \<Rightarrow> nat \<times> string \<Rightarrow> store \<Rightarrow> store" where
  "unpurge_one u now b ni s =
     append_event (u (fst ni)) now E_Unpurge (snd ni) (Some (P_Unpurge b)) None
       (update_memory (snd ni) (\<lambda>m. m\<lparr>mem_valid_to := None, purge_batch_id := None, mem_updated := now\<rparr>) s)"

definition restorePurgeBatch ::
  "(nat \<Rightarrow> string) \<Rightarrow> epoch_ms \<Rightarrow> string \<Rightarrow> store \<Rightarrow> lifecycle_error + nat \<times> store" where
  "restorePurgeBatch u now b s =
     (case get_row batch_id b (purge_batches s) of
        None \<Rightarrow> Inl (PurgeBatchNotFoundError b)
      | Some batch \<Rightarrow>
          if batch_status batch = Finalized
          then Inl (MemoryConflictError (''purge batch '' @ b @ '' is already finalized - nothing to restore''))
          else if batch_status batch = Restored
          then Inl (MemoryConflictError (''purge batch '' @ b @ '' is already restored''))
          else if restore_deadline_at batch < now
          then Inl (MemoryConflictError (''purge batch '' @ b @ '' restore window has elapsed''))
          else
            (let ids = purged_ids b s;
                 s1 = fold (unpurge_one u now b) (enumerate 0 ids) s
             in Inr (length ids, s1\<lparr>purge_batches :=
                  update_rows (\<lambda>r. batch_id r = b) (\<lambda>r. r\<lparr>batch_status := Restored\<rparr>) (purge_batches s1)\<rparr>)))"

definition promoteScope ::
  "(nat \<Rightarrow> string) \<Rightarrow> epoch_ms \<Rightarrow> string \<Rightarrow> mem_scope \<Rightarrow> store \<Rightarrow> lifecycle_error + store" where
  "promoteScope u now i toScope s =
     (case get_memory i s of
        None \<Rightarrow> Inl (MemoryNotFoundError i)
      | Some row \<Rightarrow>
          if SCOPE_RANK toScope \<le> SCOPE_RANK (mem_scope row)
          then Inl (InvalidScopeTransitionError i)
          else Inr (append_event (u 0) now E_Promote_Scope i (Some (P_Promote (mem_scope row) toScope)) None
                   (update_memory i (\<lambda>m. m\<lparr>mem_scope := toScope, mem_updated := now\<rparr>) s)))"

definition erase ::
  "(nat \<Rightarrow> string) \<Rightarrow> epoch_ms \<Rightarrow> string \<Rightarrow> string option \<Rightarrow> store \<Rightarrow> lifecycle_error + store" where
  "erase u now i reason s =
     (case get_memory i s of
        None \<Rightarrow> Inl (MemoryNotFoundError i)
      | Some row \<Rightarrow>
          (let s1 = append_event (u 0) now E_Erase_Request i (Some (P_Erase (mem_scope row) reason))
                      (Some (mem_hash row)) s;
               s2 = s1\<lparr>memories_vec := delete_rows (\<lambda>r. r = mem_rowid row) (memories_vec s1)\<rparr>
           in Inr (delete_memory i s2)))"

text \<open>The \<open>erase\<close> calls of a finalized batch; one that throws aborts the whole transaction.\<close>

fun erase_all ::
  "(nat \<Rightarrow> string) \<Rightarrow> epoch_ms \<Rightarrow> string option \<Rightarrow> (nat \<times> string) list \<Rightarrow> store \<Rightarrow> lifecycle_error + store" where
  "erase_all u now reason [] s = Inr s"
| "erase_all u now reason ((n, i) # is) s =
     (case erase (\<lambda>k. u (n + k)) now i reason s of
        Inl e \<Rightarrow> Inl e
      | Inr s1 \<Rightarrow> erase_all u now reason is s1)"

definition finalizePurgeBatch ::
  "(nat \<Rightarrow> string) \<Rightarrow> epoch_ms \<Rightarrow> string \<Rightarrow> store \<Rightarrow> lifecycle_error + nat \<times> store" where
  "finalizePurgeBatch u now b s =
     (case get_row batch_id b (purge_batches s) of
        None \<Rightarrow> Inl (PurgeBatchNotFoundError b)
      | Some batch \<Rightarrow>
          if batch_status batch = Finalized
          then Inl (MemoryConflictError (''purge batch '' @ b @ '' is already finalized''))
          else if batch_status batch = Restored
          then Inl (MemoryConflictError (''purge batch '' @ b @ '' was already restored - nothing to finalize''))
          else
            (let ids = purged_ids b s
             in case erase_all u now (Some (''purge batch '' @ b @ '' finalized'')) (enumerate 0 ids) s of
                  Inl e \<Rightarrow> Inl e
                | Inr s1 \<Rightarrow> Inr (length ids, s1\<lparr>purge_batches :=
                    update_rows (\<lambda>r. batch_id r = b)
                      (\<lambda>r. r\<lparr>batch_status := Finalized, finalized_at := Some now\<rparr>) (purge_batches s1)\<rparr>)))"

definition isErasedHash :: "string \<Rightarrow> store \<Rightarrow> bool" where
  "isErasedHash h s \<longleftrightarrow> list_ex (\<lambda>e. event_type e = E_Erase_Request \<and> content_hash e = Some h) (events s)"

section \<open>The archival pass\<close>

text \<open>
  \<open>rates\<close> is the result of \<open>perAtomUsefulnessRate7d\<close> (an id it does not mention counts as 0).
  Every \<open>archive\<close> is a transaction of its own: a throw ends the pass, the earlier ones stay.
\<close>

fun archive_loop ::
  "(string \<Rightarrow> real option) \<Rightarrow> real \<Rightarrow> (nat \<Rightarrow> string) \<Rightarrow> epoch_ms \<Rightarrow> string list \<Rightarrow> nat \<Rightarrow> store \<Rightarrow>
   lifecycle_error option \<times> nat \<times> store" where
  "archive_loop rates ufloor u now [] n s = (None, n, s)"
| "archive_loop rates ufloor u now (i # is) n s =
     (let rate = (case rates i of None \<Rightarrow> 0 | Some r \<Rightarrow> r)
      in if rate \<le> ufloor
         then (case archive (\<lambda>_. u n) now i (Some ''ttl-policy'') s of
                 Inl e \<Rightarrow> (Some e, n, s)
               | Inr s1 \<Rightarrow> archive_loop rates ufloor u now is (n + 1) s1)
         else archive_loop rates ufloor u now is n s)"

definition runArchivalPass ::
  "bool \<Rightarrow> int \<Rightarrow> real \<Rightarrow> (string \<Rightarrow> real option) \<Rightarrow> (nat \<Rightarrow> string) \<Rightarrow> epoch_ms \<Rightarrow> store \<Rightarrow>
   lifecycle_error option \<times> (nat \<times> nat) \<times> store" where
  "runArchivalPass enabled ageThresholdDays ufloor rates u now s =
     (if \<not> enabled then (None, (0, 0), s)
      else
        (let ageCutoffMs = now - ageThresholdDays * (24 * 60 * 60 * 1000);
             candidateIds = map mem_id (filter (\<lambda>m. mem_valid_to m = None \<and> \<not> archived m \<and>
                                                    mem_created m < ageCutoffMs) (memories s))
         in if candidateIds = [] then (None, (0, 0), s)
            else
              (case archive_loop rates ufloor u now candidateIds 0 s of
                 (err, n, s1) \<Rightarrow> (err, (n, length candidateIds), s1))))"

section \<open>The operations as one machine\<close>

datatype lop =
    L_Insert insert_input
  | L_Invalidate string "string option"
  | L_Supersede string string "supersede_provenance option" correction_source
  | L_Archive string "string option"
  | L_Restore string
  | L_Unsupersede string "string option"
  | L_Purge "string list" string int
  | L_RestorePurge string
  | L_FinalizePurge string
  | L_Promote string mem_scope
  | L_Erase string "string option"

fun run_op :: "(nat \<Rightarrow> string) \<Rightarrow> epoch_ms \<Rightarrow> lop \<Rightarrow> store \<Rightarrow> lifecycle_error + store" where
  "run_op u now (L_Insert inp) s = map_sum id snd (insertWithCreateEvent u now inp s)"
| "run_op u now (L_Invalidate i r) s = invalidate u now i r s"
| "run_op u now (L_Supersede i j p c) s = supersede u now i j p c s"
| "run_op u now (L_Archive i r) s = archive u now i r s"
| "run_op u now (L_Restore i) s = restore u now i s"
| "run_op u now (L_Unsupersede i r) s = unsupersede u now i r s"
| "run_op u now (L_Purge is src d) s = map_sum id snd (purgeBatch u now is src d s)"
| "run_op u now (L_RestorePurge b) s = map_sum id snd (restorePurgeBatch u now b s)"
| "run_op u now (L_FinalizePurge b) s = map_sum id snd (finalizePurgeBatch u now b s)"
| "run_op u now (L_Promote i sc) s = promoteScope u now i sc s"
| "run_op u now (L_Erase i r) s = erase u now i r s"

definition store_step :: "(nat \<Rightarrow> string) \<times> epoch_ms \<times> lop \<Rightarrow> store \<Rightarrow> store" where
  "store_step c s = commit s (run_op (fst c) (fst (snd c)) (snd (snd c)) s)"

section \<open>The invariant\<close>

text \<open>
  A memory is hidden in at most one way: the columns \<open>valid_to\<close>, \<open>superseded_by\<close>, \<open>archived\<close>,
  \<open>archived_at\<close> and \<open>purge_batch_id\<close> encode one mode.
\<close>

datatype hide_mode = Current | Bounded | Superseded string | Archived | Purged string

definition mode :: "memory \<Rightarrow> hide_mode" where
  "mode m =
     (if archived m then Archived
      else case superseded_by m of
             Some w \<Rightarrow> Superseded w
           | None \<Rightarrow> (case purge_batch_id m of
                       Some b \<Rightarrow> Purged b
                     | None \<Rightarrow> if mem_valid_to m = None then Current else Bounded))"

definition row_inv :: "purge_batch list \<Rightarrow> memory \<Rightarrow> bool" where
  "row_inv bs m \<longleftrightarrow>
     (archived m \<longleftrightarrow> archived_at m \<noteq> None) \<and>
     (archived m \<or> superseded_by m \<noteq> None \<or> purge_batch_id m \<noteq> None \<longrightarrow> mem_valid_to m \<noteq> None) \<and>
     (archived m \<longrightarrow> superseded_by m = None \<and> purge_batch_id m = None) \<and>
     (superseded_by m \<noteq> None \<longrightarrow> purge_batch_id m = None) \<and>
     (\<forall>b. purge_batch_id m = Some b \<longrightarrow> (\<exists>r. get_row batch_id b bs = Some r \<and> batch_status r = Open))"

definition keys_ok :: "memory list \<Rightarrow> bool" where
  "keys_ok ms \<longleftrightarrow> distinct (map mem_id ms) \<and> distinct (map mem_hash ms) \<and> distinct (map mem_rowid ms)"

definition log_ok :: "nat \<Rightarrow> mem_event list \<Rightarrow> bool" where
  "log_ok n es \<longleftrightarrow> sorted_wrt (<) (map seq es) \<and> (\<forall>e \<in> set es. seq e < n)"

definition refs_ok :: "store \<Rightarrow> bool" where
  "refs_ok s \<longleftrightarrow>
     (\<forall>p \<in> set (memory_entities s). fst p \<in> mem_id ` set (memories s)) \<and>
     (\<forall>p \<in> set (relation_evidence s). snd p \<in> mem_id ` set (memories s)) \<and>
     (\<forall>l \<in> set (memory_links s). memory_id_a l \<in> mem_id ` set (memories s) \<and>
                                 memory_id_b l \<in> mem_id ` set (memories s))"

definition vec_ok :: "store \<Rightarrow> bool" where
  "vec_ok s \<longleftrightarrow> set (memories_vec s) \<subseteq> mem_rowid ` set (memories s)"

definition store_inv :: "store \<Rightarrow> bool" where
  "store_inv s \<longleftrightarrow> keys_ok (memories s) \<and> log_ok (next_seq s) (events s) \<and>
     distinct (map batch_id (purge_batches s)) \<and>
     (\<forall>m \<in> set (memories s). row_inv (purge_batches s) m) \<and> refs_ok s \<and> vec_ok s"

lemma store_inv_parts:
  assumes "store_inv s"
  shows "keys_ok (memories s)" "log_ok (next_seq s) (events s)" "distinct (map batch_id (purge_batches s))"
    "m \<in> set (memories s) \<Longrightarrow> row_inv (purge_batches s) m" "refs_ok s" "vec_ok s"
    "distinct (map mem_id (memories s))"
  using assms by (auto simp: store_inv_def keys_ok_def)

interpretation mem_rows: keyed_rows mem_id .
interpretation hash_rows: keyed_rows mem_hash .
interpretation batch_rows: keyed_rows batch_id .

lemma store_inv_append [simp]: "store_inv s \<Longrightarrow> store_inv (append_event x now ty i p h s)"
  by (auto simp: store_inv_def append_event_def sorted_wrt_append log_ok_def refs_ok_def vec_ok_def less_Suc_eq)

lemma get_append [simp]: "get_memory i (append_event x now ty j p h s) = get_memory i s"
  by (simp add: get_memory_def append_event_def)

lemma get_memory_in: "get_memory i s = Some m \<Longrightarrow> m \<in> set (memories s) \<and> mem_id m = i"
  unfolding get_memory_def by (rule get_row_SomeD)

lemma get_update_memory:
  "(\<And>m. mem_id (f m) = mem_id m) \<Longrightarrow>
   get_memory j (update_memory i f s) = (if j = i then map_option f (get_memory j s) else get_memory j s)"
  unfolding get_memory_def update_memory_def by (simp add: mem_rows.get_update_key)

lemma map_update_rows_same: "(\<And>r. P r \<Longrightarrow> g (f r) = g r) \<Longrightarrow> map g (update_rows P f rows) = map g rows"
  by (induction rows) auto

lemma set_map_update_same: "(\<And>r. P r \<Longrightarrow> g (f r) = g r) \<Longrightarrow> g ` set (update_rows P f rows) = g ` set rows"
  by (metis map_update_rows_same list.set_map)

lemma store_inv_update:
  assumes "store_inv s"
    and "\<And>m. mem_id (f m) = mem_id m \<and> mem_hash (f m) = mem_hash m \<and> mem_rowid (f m) = mem_rowid m"
    and "\<And>m. get_memory i s = Some m \<Longrightarrow> row_inv (purge_batches s) m \<Longrightarrow> row_inv (purge_batches s) (f m)"
  shows "store_inv (update_memory i f s)"
proof -
  let ?ms = "update_rows (\<lambda>m. mem_id m = i) f (memories s)"
  have maps: "map mem_id ?ms = map mem_id (memories s)" "map mem_hash ?ms = map mem_hash (memories s)"
    "map mem_rowid ?ms = map mem_rowid (memories s)"
    using assms(2) by (simp_all add: map_update_rows_same)
  have imgs: "mem_id ` set ?ms = mem_id ` set (memories s)" "mem_rowid ` set ?ms = mem_rowid ` set (memories s)"
    using assms(2) by (simp_all add: set_map_update_same)
  have "get_memory i s = Some m" if "m \<in> set (memories s)" "mem_id m = i" for m
    using that store_inv_parts(7)[OF assms(1)] mem_rows.get_in by (auto simp: get_memory_def)
  then have "\<forall>m \<in> set ?ms. row_inv (purge_batches s) m"
    using store_inv_parts(4)[OF assms(1)] assms(3) by (auto simp: set_update_rows)
  then show ?thesis using assms(1)
    unfolding store_inv_def update_memory_def by (simp add: maps imgs keys_ok_def refs_ok_def vec_ok_def)
qed

lemma store_inv_row: "store_inv s \<Longrightarrow> get_memory i s = Some m \<Longrightarrow> row_inv (purge_batches s) m"
  using get_memory_in store_inv_parts(4) by blast

lemma frame_update [simp]:
  "purge_batches (update_memory i f s) = purge_batches s" "events (update_memory i f s) = events s"
  "purge_batches (append_event x now ty j p h s) = purge_batches s"
  "memories (append_event x now ty j p h s) = memories s"
  "memories_vec (append_event x now ty j p h s) = memories_vec s"
  "memory_entities (append_event x now ty j p h s) = memory_entities s"
  "relation_evidence (append_event x now ty j p h s) = relation_evidence s"
  "memory_links (append_event x now ty j p h s) = memory_links s"
  by (simp_all add: update_memory_def append_event_def)

lemma inv_invalidate: "store_inv s \<Longrightarrow> invalidate u now i r s = Inr s' \<Longrightarrow> store_inv s'"
  by (auto simp: invalidate_def row_inv_def intro!: store_inv_append store_inv_update
      split: option.splits if_splits)

lemma inv_archive: "store_inv s \<Longrightarrow> archive u now i r s = Inr s' \<Longrightarrow> store_inv s'"
  by (auto simp: archive_def row_inv_def intro!: store_inv_append store_inv_update
      split: option.splits if_splits)

lemma inv_restore: "store_inv s \<Longrightarrow> restore u now i s = Inr s' \<Longrightarrow> store_inv s'"
  by (auto simp: restore_def row_inv_def intro!: store_inv_append store_inv_update
      split: option.splits if_splits)

lemma inv_unsupersede: "store_inv s \<Longrightarrow> unsupersede u now i r s = Inr s' \<Longrightarrow> store_inv s'"
  by (auto simp: unsupersede_def row_inv_def intro!: store_inv_append store_inv_update
      split: option.splits if_splits)

lemma inv_promote: "store_inv s \<Longrightarrow> promoteScope u now i sc s = Inr s' \<Longrightarrow> store_inv s'"
  by (auto simp: promoteScope_def row_inv_def intro!: store_inv_append store_inv_update
      split: option.splits if_splits)

lemma store_inv_unlink: "store_inv s \<Longrightarrow> store_inv (s\<lparr>memory_entities := delete_rows P (memory_entities s),
    relation_evidence := delete_rows Q (relation_evidence s)\<rparr>)"
  by (auto simp: store_inv_def refs_ok_def vec_ok_def)

lemma inv_supersede:
  assumes "store_inv s" and "supersede u now i j p c s = Inr s'"
  shows "store_inv s'"
proof -
  let ?f = "\<lambda>m. m\<lparr>mem_valid_to := Some now, superseded_by := Some j, mem_updated := now\<rparr>"
  let ?g = "\<lambda>m. m\<lparr>mem_valid_from := Some now, mem_updated := now\<rparr>"
  have "store_inv (update_memory i ?f s)" if "get_memory i s = Some m" "mem_valid_to m = None" for m
    using assms(1) that by (intro store_inv_update) (auto simp: row_inv_def)
  then have "store_inv (update_memory j ?g (update_memory i ?f s))"
    if "get_memory i s = Some m" "mem_valid_to m = None" for m
    by (rule store_inv_update) (use that in \<open>auto simp: row_inv_def\<close>)
  then show ?thesis using assms
    by (auto simp: supersede_def Let_def intro!: store_inv_append store_inv_unlink split: option.splits if_splits)
qed

lemma delete_memory_frame [simp]:
  "events (delete_memory i s) = events s" "purge_batches (delete_memory i s) = purge_batches s"
  "next_seq (delete_memory i s) = next_seq s" "memories_vec (delete_memory i s) = memories_vec s"
  by (simp_all add: delete_memory_def)

lemma store_inv_delete:
  assumes inv: "store_inv s"
    and vec: "set (memories_vec s) \<subseteq> mem_rowid ` {m \<in> set (memories s). mem_id m \<noteq> i}"
  shows "store_inv (delete_memory i s)"
proof -
  let ?ms = "delete_rows (\<lambda>m. mem_id m = i) (memories s)"
  have ids: "mem_id ` set ?ms = mem_id ` set (memories s) - {i}" by auto
  have "keys_ok ?ms"
    using store_inv_parts(1)[OF inv] by (simp add: keys_ok_def delete_rows_def distinct_map_filter)
  moreover have "refs_ok (delete_memory i s)"
    using store_inv_parts(5)[OF inv] unfolding refs_ok_def delete_memory_def by (simp add: ids) force
  moreover have "\<forall>m \<in> set ?ms. row_inv (purge_batches s) m" using store_inv_parts(4)[OF inv] by simp
  moreover have "vec_ok (delete_memory i s)" using vec by (simp add: vec_ok_def delete_memory_def)
  ultimately show ?thesis using store_inv_parts(2,3)[OF inv] by (simp add: store_inv_def delete_memory_def)
qed

lemma inv_erase:
  assumes inv: "store_inv s" and "erase u now i r s = Inr s'"
  shows "store_inv s'"
proof -
  obtain row where row: "get_memory i s = Some row" and
    s': "s' = delete_memory i ((append_event (u 0) now E_Erase_Request i (Some (P_Erase (mem_scope row) r))
       (Some (mem_hash row)) s)\<lparr>memories_vec := delete_rows (\<lambda>x. x = mem_rowid row) (memories_vec s)\<rparr>)"
    using assms(2) by (auto simp: erase_def Let_def split: option.splits)
  let ?ev = "append_event (u 0) now E_Erase_Request i (Some (P_Erase (mem_scope row) r)) (Some (mem_hash row)) s"
  let ?vec = "delete_rows (\<lambda>x. x = mem_rowid row) (memories_vec s)"
  have mem: "row \<in> set (memories s)" "mem_id row = i" using get_memory_in[OF row] by auto
  have "x \<in> mem_rowid ` {m \<in> set (memories s). mem_id m \<noteq> i}" if "x \<in> set ?vec" for x
  proof -
    from that have "x \<in> set (memories_vec s)" "x \<noteq> mem_rowid row" by auto
    then obtain m where "m \<in> set (memories s)" "mem_rowid m = x" "m \<noteq> row"
      using store_inv_parts(6)[OF inv] by (auto simp: vec_ok_def)
    moreover have "mem_id m \<noteq> i" using calculation mem mem_rows.unique[OF store_inv_parts(7)[OF inv], of m row]
      by auto
    ultimately show ?thesis by blast
  qed
  moreover have "store_inv (?ev\<lparr>memories_vec := ?vec\<rparr>)"
    using store_inv_append[OF inv] by (simp add: store_inv_def vec_ok_def refs_ok_def) blast
  ultimately show ?thesis unfolding s' by (intro store_inv_delete) auto
qed


section \<open>Insertion\<close>

lemma foldr_max_le: "x \<in> set xs \<Longrightarrow> x \<le> foldr max xs (0::nat)"
  by (induction xs) auto

lemma new_rowid_fresh: "m \<in> set (memories s) \<Longrightarrow> mem_rowid m \<noteq> new_rowid s"
  using foldr_max_le[of "mem_rowid m" "map mem_rowid (memories s)"] by (auto simp: new_rowid_def)

lemma insertRow_InrD:
  "insertRow x now inp s = Inr (i, s') \<Longrightarrow> i = x \<and> get_memory x s = None \<and>
     get_row mem_hash (in_hash inp) (memories s) = None \<and>
     s' = s\<lparr>memories := memories s @ [input_row x (new_rowid s) now inp]\<rparr>"
  by (auto simp: insertRow_def split: if_splits)

lemma input_row_fields [simp]:
  "mem_id (input_row x r now inp) = x" "mem_hash (input_row x r now inp) = in_hash inp"
  "mem_rowid (input_row x r now inp) = r" "mem_valid_to (input_row x r now inp) = in_valid_to inp"
  "mode (input_row x r now inp) = (if in_valid_to inp = None then Current else Bounded)"
  "row_inv bs (input_row x r now inp)"
  by (simp_all add: input_row_def mode_def row_inv_def)

lemma inv_insertRow:
  assumes inv: "store_inv s" and "insertRow x now inp s = Inr (i, s')"
  shows "store_inv s'"
proof -
  let ?m = "input_row x (new_rowid s) now inp"
  note d = insertRow_InrD[OF assms(2)]
  have "x \<notin> mem_id ` set (memories s)" "in_hash inp \<notin> mem_hash ` set (memories s)"
    "new_rowid s \<notin> mem_rowid ` set (memories s)"
    using d new_rowid_fresh by (fastforce simp: get_memory_def get_row_None_iff)+
  then have "keys_ok (memories s @ [?m])"
    using store_inv_parts(1)[OF inv] by (simp add: keys_ok_def)
  then show ?thesis using d inv
    by (auto simp: store_inv_def refs_ok_def vec_ok_def)
qed

lemma inv_insertWithCreateEvent:
  "store_inv s \<Longrightarrow> insertWithCreateEvent u now inp s = Inr (r, s') \<Longrightarrow> store_inv s'"
  by (auto simp: insertWithCreateEvent_def intro!: store_inv_append intro: inv_insertRow
      split: option.splits sum.splits prod.splits)

section \<open>Purge batches\<close>

lemma purge_loop_batches [simp]: "purge_batches (snd (purge_loop u now b src d is n s)) = purge_batches s"
  by (induction "is" arbitrary: n s) (auto split: option.splits)

lemma with_batches [simp]:
  "(update_memory i f s)\<lparr>purge_batches := bs\<rparr> = update_memory i f (s\<lparr>purge_batches := bs\<rparr>)"
  "(append_event x now ty j p h s)\<lparr>purge_batches := bs\<rparr> = append_event x now ty j p h (s\<lparr>purge_batches := bs\<rparr>)"
  "get_memory i (s\<lparr>purge_batches := bs\<rparr>) = get_memory i s"
  by (simp_all add: update_memory_def append_event_def get_memory_def)

lemma inv_purge_loop:
  assumes "get_row batch_id b bs = Some r" and "batch_status r = Open"
    and "store_inv (s\<lparr>purge_batches := bs\<rparr>)"
  shows "store_inv ((snd (purge_loop u now b src d is n s))\<lparr>purge_batches := bs\<rparr>)"
  using assms(3)
proof (induction "is" arbitrary: n s)
  case (Cons i "is")
  show ?case
  proof (cases "get_memory i s")
    case (Some m)
    show ?thesis
    proof (cases "mem_valid_to m = None")
      case True
      have "store_inv (append_event (u (n + 1)) now E_Purge i (Some (P_Purge b src d)) None
        (update_memory i (\<lambda>m. m\<lparr>mem_valid_to := Some now, purge_batch_id := Some b, mem_updated := now\<rparr>)
          (s\<lparr>purge_batches := bs\<rparr>)))"
        using assms(1,2) Cons.prems Some True
        by (intro store_inv_append store_inv_update) (auto simp: row_inv_def)
      with Cons.IH show ?thesis by (simp add: Some True)
    qed (use Cons Some in simp)
  qed (use Cons in simp)
qed simp

lemma inv_purgeBatch:
  assumes inv: "store_inv s" and "purgeBatch u now is src d s = Inr (r, s')"
  shows "store_inv s'"
proof -
  obtain n s1 where l: "purge_loop u now (u 0) src (now + d * 86400000) is 0 s = (n, s1)" by fastforce
  let ?row = "\<lparr>batch_id = u 0, batch_source = src, requested_at = now,
    restore_deadline_at = now + d * 86400000, atom_count = n, batch_status = Open, finalized_at = None\<rparr>"
  let ?bs = "purge_batches s @ [?row]"
  have b1: "purge_batches s1 = purge_batches s" using purge_loop_batches[of u now "u 0" src _ "is" 0 s] l
    by (metis snd_conv)
  have fresh: "get_row batch_id (u 0) (purge_batches s) = None" and s': "s' = s1\<lparr>purge_batches := ?bs\<rparr>"
    using assms(2) l b1 by (auto simp: purgeBatch_def Let_def split: if_splits)
  have "row_inv ?bs m" if "row_inv (purge_batches s) m" for m
    using that by (auto simp: row_inv_def get_row_append)
  then have "store_inv (s\<lparr>purge_batches := ?bs\<rparr>)"
    using inv fresh by (auto simp: store_inv_def refs_ok_def vec_ok_def get_row_None_iff)
  then have "store_inv ((snd (purge_loop u now (u 0) src (now + d * 86400000) is 0 s))\<lparr>purge_batches := ?bs\<rparr>)"
    by (rule inv_purge_loop[where r = ?row, rotated 2]) (use fresh in \<open>simp_all add: get_row_append\<close>)
  then show ?thesis using l s' by simp
qed

lemma get_unpurge_one:
  "get_memory k (unpurge_one u now b ni s) =
     (if k = snd ni
      then map_option (\<lambda>m. m\<lparr>mem_valid_to := None, purge_batch_id := None, mem_updated := now\<rparr>) (get_memory k s)
      else get_memory k s)"
  by (simp add: unpurge_one_def get_update_memory)

lemma unpurge_one_batches [simp]: "purge_batches (unpurge_one u now b ni s) = purge_batches s"
  by (simp add: unpurge_one_def)

lemma get_unpurge:
  "get_memory k (fold (unpurge_one u now b) nis s) =
     (if k \<in> snd ` set nis
      then map_option (\<lambda>m. m\<lparr>mem_valid_to := None, purge_batch_id := None, mem_updated := now\<rparr>) (get_memory k s)
      else get_memory k s)"
proof (induction nis arbitrary: s)
  case (Cons ni nis)
  show ?case
    by (cases "get_memory k s") (auto simp: Cons.IH get_unpurge_one)
qed simp

lemma unpurge_batches [simp]: "purge_batches (fold (unpurge_one u now b) nis s) = purge_batches s"
  by (induction nis arbitrary: s) auto

lemma inv_unpurge:
  assumes "store_inv s"
    and "\<And>i m. i \<in> snd ` set nis \<Longrightarrow> get_memory i s = Some m \<Longrightarrow> \<not> archived m \<and> superseded_by m = None"
  shows "store_inv (fold (unpurge_one u now b) nis s)"
  using assms
proof (induction nis arbitrary: s)
  case (Cons ni nis)
  have "store_inv (unpurge_one u now b ni s)"
    unfolding unpurge_one_def using Cons.prems
    by (intro store_inv_append store_inv_update) (auto simp: row_inv_def)
  moreover have "\<not> archived m \<and> superseded_by m = None"
    if "i \<in> snd ` set nis" "get_memory i (unpurge_one u now b ni s) = Some m" for i m
    using that Cons.prems(2)[of i] by (auto simp: get_unpurge_one split: if_splits)
  ultimately show ?case using Cons.IH by simp
qed simp

lemma snd_enumerate [simp]: "snd ` set (enumerate n xs) = set xs"
  by (metis list.set_map map_snd_enumerate)

lemma purged_iff:
  assumes "store_inv s"
  shows "k \<in> set (purged_ids b s) \<longleftrightarrow> (\<exists>m. get_memory k s = Some m \<and> purge_batch_id m = Some b)"
proof
  assume "k \<in> set (purged_ids b s)"
  then obtain m where "m \<in> set (memories s)" "mem_id m = k" "purge_batch_id m = Some b"
    by (auto simp: purged_ids_def)
  then show "\<exists>m. get_memory k s = Some m \<and> purge_batch_id m = Some b"
    using mem_rows.get_in[OF store_inv_parts(7)[OF assms]] unfolding get_memory_def by blast
next
  assume "\<exists>m. get_memory k s = Some m \<and> purge_batch_id m = Some b"
  then obtain m where m: "get_memory k s = Some m" "purge_batch_id m = Some b" by blast
  then have "mem_valid_to m \<noteq> None" using store_inv_row[OF assms m(1)] by (auto simp: row_inv_def)
  then show "k \<in> set (purged_ids b s)"
    using m get_memory_in[OF m(1)] by (auto simp: purged_ids_def image_iff)
qed


lemma store_inv_close_batch:
  assumes inv: "store_inv s" and none: "\<And>k m. get_memory k s = Some m \<Longrightarrow> purge_batch_id m \<noteq> Some b"
    and key: "\<And>r. batch_id (f r) = batch_id r"
  shows "store_inv (s\<lparr>purge_batches := update_rows (\<lambda>r. batch_id r = b) f (purge_batches s)\<rparr>)"
proof -
  let ?bs = "update_rows (\<lambda>r. batch_id r = b) f (purge_batches s)"
  have g: "get_row batch_id c ?bs = (if c = b then map_option f (get_row batch_id c (purge_batches s))
      else get_row batch_id c (purge_batches s))" for c
    by (rule batch_rows.get_update_key) (rule key)
  have "row_inv ?bs m" if m: "m \<in> set (memories s)" for m
  proof -
    have "get_memory (mem_id m) s = Some m"
      using m mem_rows.get_in store_inv_parts(7)[OF inv] by (auto simp: get_memory_def)
    from none[OF this] show ?thesis using store_inv_parts(4)[OF inv m] g by (auto simp: row_inv_def)
  qed
  moreover have "distinct (map batch_id ?bs)"
    using store_inv_parts(3)[OF inv] key by (simp add: map_update_rows_same)
  ultimately show ?thesis using inv by (simp add: store_inv_def refs_ok_def vec_ok_def)
qed

lemma inv_restorePurgeBatch:
  assumes inv: "store_inv s" and r: "restorePurgeBatch u now b s = Inr (n, s')"
  shows "store_inv s'"
proof -
  let ?s1 = "fold (unpurge_one u now b) (enumerate 0 (purged_ids b s)) s"
  have s': "s' = ?s1\<lparr>purge_batches :=
      update_rows (\<lambda>r. batch_id r = b) (\<lambda>r. r\<lparr>batch_status := Restored\<rparr>) (purge_batches ?s1)\<rparr>"
    using r by (auto simp: restorePurgeBatch_def Let_def split: option.splits if_splits)
  have "\<not> archived m \<and> superseded_by m = None" if "i \<in> set (purged_ids b s)" "get_memory i s = Some m" for i m
    using that store_inv_row[OF inv that(2)] by (auto simp: purged_iff[OF inv] row_inv_def)
  then have inv1: "store_inv ?s1" using inv by (intro inv_unpurge) auto
  have "purge_batch_id m \<noteq> Some b" if "get_memory k ?s1 = Some m" for k m
    using that by (auto simp: get_unpurge purged_iff[OF inv] split: if_splits)
  then show ?thesis unfolding s' by (intro store_inv_close_batch[OF inv1]) auto
qed

lemma get_erase:
  assumes "erase u now i r s = Inr s'"
  shows "get_memory k s' = (if k = i then None else get_memory k s)"
    and "get_memory i s \<noteq> None" and "purge_batches s' = purge_batches s"
  using assms
  by (auto simp: erase_def Let_def delete_memory_def append_event_def get_memory_def mem_rows.get_delete_key
      split: option.splits)

lemma erase_ok: "get_memory i s = Some m \<Longrightarrow> \<exists>s'. erase u now i r s = Inr s'"
  by (simp add: erase_def Let_def)

lemma erase_all_ok:
  assumes "store_inv s" and "distinct (map snd nis)" and "\<And>i. i \<in> snd ` set nis \<Longrightarrow> get_memory i s \<noteq> None"
  shows "\<exists>s'. erase_all u now r nis s = Inr s' \<and> store_inv s' \<and> purge_batches s' = purge_batches s \<and>
    (\<forall>k. get_memory k s' = (if k \<in> snd ` set nis then None else get_memory k s))"
  using assms
proof (induction nis arbitrary: s)
  case (Cons ni nis)
  obtain n i where ni: "ni = (n, i)" by fastforce
  obtain m where "get_memory i s = Some m" using Cons.prems(3)[of i] by (auto simp: ni)
  then obtain s1 where s1: "erase (\<lambda>k. u (n + k)) now i r s = Inr s1" using erase_ok by blast
  note g = get_erase[OF s1]
  have "\<exists>s'. erase_all u now r nis s1 = Inr s' \<and> store_inv s' \<and> purge_batches s' = purge_batches s1 \<and>
    (\<forall>k. get_memory k s' = (if k \<in> snd ` set nis then None else get_memory k s1))"
  proof (rule Cons.IH)
    show "store_inv s1" by (rule inv_erase[OF Cons.prems(1) s1])
    show "distinct (map snd nis)" using Cons.prems(2) by simp
    show "get_memory k s1 \<noteq> None" if "k \<in> snd ` set nis" for k
      using that Cons.prems(2) Cons.prems(3)[of k] by (auto simp: g(1) ni)
  qed
  then show ?case using g by (auto simp: ni s1)
qed simp

lemma purged_ids_distinct: "store_inv s \<Longrightarrow> distinct (purged_ids b s)"
  using store_inv_parts(7) by (simp add: purged_ids_def distinct_map_filter)

lemma finalizePurgeBatch_erases:
  assumes inv: "store_inv s"
  obtains s1 where
    "erase_all u now r (enumerate 0 (purged_ids b s)) s = Inr s1" "store_inv s1"
    "purge_batches s1 = purge_batches s"
    "\<And>k. get_memory k s1 = (if k \<in> set (purged_ids b s) then None else get_memory k s)"
  using erase_all_ok[OF inv, where nis = "enumerate 0 (purged_ids b s)" and u = u and now = now and r = r]
  by (auto simp: purged_ids_distinct[OF inv] purged_iff[OF inv])

lemma inv_finalizePurgeBatch:
  assumes inv: "store_inv s" and r: "finalizePurgeBatch u now b s = Inr (n, s')"
  shows "store_inv s'"
proof -
  obtain s1 where s1: "erase_all u now (Some (''purge batch '' @ b @ '' finalized'')) (enumerate 0 (purged_ids b s)) s = Inr s1"
    "store_inv s1" "\<And>k. get_memory k s1 = (if k \<in> set (purged_ids b s) then None else get_memory k s)"
    using finalizePurgeBatch_erases[OF inv] by metis
  have s': "s' = s1\<lparr>purge_batches := update_rows (\<lambda>r. batch_id r = b)
      (\<lambda>r. r\<lparr>batch_status := Finalized, finalized_at := Some now\<rparr>) (purge_batches s1)\<rparr>"
    using r s1(1) by (auto simp: finalizePurgeBatch_def Let_def split: option.splits if_splits)
  have "purge_batch_id m \<noteq> Some b" if "get_memory k s1 = Some m" for k m
    using that by (auto simp: s1(3) purged_iff[OF inv] split: if_splits)
  then show ?thesis unfolding s' by (intro store_inv_close_batch[OF s1(2)]) auto
qed

lemma map_sum_Inr: "map_sum f g x = Inr y \<longleftrightarrow> (\<exists>z. x = Inr z \<and> y = g z)"
  by (cases x) auto

lemma run_op_inv: "store_inv s \<Longrightarrow> run_op u now a s = Inr s' \<Longrightarrow> store_inv s'"
  by (cases a)
    (auto simp: map_sum_Inr elim: inv_invalidate inv_supersede inv_archive inv_restore inv_unsupersede
       inv_promote inv_erase inv_purgeBatch inv_restorePurgeBatch inv_finalizePurgeBatch
       inv_insertWithCreateEvent)

interpretation lifecycle: op_system store_inv store_step
  by unfold_locales (auto simp: store_step_def commit_def intro: run_op_inv split: sum.split)

definition empty_store :: store where
  "empty_store = \<lparr>memories = [], events = [], next_seq = 1, purge_batches = [], memory_entities = [],
     relation_evidence = [], memory_links = [], memories_vec = []\<rparr>"

lemma store_inv_empty: "store_inv empty_store"
  by (simp add: empty_store_def store_inv_def keys_ok_def log_ok_def refs_ok_def vec_ok_def)


section \<open>The abstract store\<close>

text \<open>What a client relies on: per memory its mode, content hash and scope; per batch its status.\<close>

record abs_row =
  ar_mode :: hide_mode
  ar_hash :: string
  ar_scope :: mem_scope

record abs_store =
  a_rows :: "string \<Rightarrow> abs_row option"
  a_batches :: "string \<Rightarrow> (batch_status \<times> epoch_ms) option"

definition abs_row_of :: "memory \<Rightarrow> abs_row" where
  "abs_row_of m = \<lparr>ar_mode = mode m, ar_hash = mem_hash m, ar_scope = mem_scope m\<rparr>"

definition abs_of :: "store \<Rightarrow> abs_store" where
  "abs_of s = \<lparr>a_rows = (\<lambda>i. map_option abs_row_of (get_memory i s)),
     a_batches = (\<lambda>b. map_option (\<lambda>r. (batch_status r, restore_deadline_at r)) (get_row batch_id b (purge_batches s)))\<rparr>"

definition move :: "string \<Rightarrow> (hide_mode \<Rightarrow> hide_mode option) \<Rightarrow> abs_store \<Rightarrow> abs_store option" where
  "move i f a =
     (case a_rows a i of
        None \<Rightarrow> None
      | Some r \<Rightarrow> (case f (ar_mode r) of
                    None \<Rightarrow> None
                  | Some md \<Rightarrow> Some (a\<lparr>a_rows := (a_rows a)(i := Some (r\<lparr>ar_mode := md\<rparr>))\<rparr>)))"

definition from_to :: "hide_mode \<Rightarrow> hide_mode \<Rightarrow> hide_mode \<Rightarrow> hide_mode option" where
  "from_to x y md = (if md = x then Some y else None)"

fun spec_op :: "(nat \<Rightarrow> string) \<Rightarrow> epoch_ms \<Rightarrow> lop \<Rightarrow> abs_store \<Rightarrow> abs_store option" where
  "spec_op u now (L_Insert inp) a =
     (if \<exists>i r. a_rows a i = Some r \<and> ar_hash r = in_hash inp then Some a
      else if a_rows a (u 0) \<noteq> None then None
      else Some (a\<lparr>a_rows := (a_rows a)(u 0 := Some
             \<lparr>ar_mode = (if in_valid_to inp = None then Current else Bounded), ar_hash = in_hash inp,
              ar_scope = (case in_scope inp of None \<Rightarrow> Private | Some sc \<Rightarrow> sc)\<rparr>)\<rparr>))"
| "spec_op u now (L_Invalidate i _) a = move i (from_to Current Bounded) a"
| "spec_op u now (L_Supersede i j _ _) a =
     (if map_option ar_mode (a_rows a j) = Some Current then move i (from_to Current (Superseded j)) a else None)"
| "spec_op u now (L_Archive i _) a = move i (from_to Current Archived) a"
| "spec_op u now (L_Restore i) a = move i (from_to Archived Current) a"
| "spec_op u now (L_Unsupersede i _) a =
     move i (\<lambda>md. case md of Superseded _ \<Rightarrow> Some Current | _ \<Rightarrow> None) a"
| "spec_op u now (L_Purge is _ days) a =
     (if a_batches a (u 0) \<noteq> None then None
      else Some (a\<lparr>a_rows := (\<lambda>i. map_option (\<lambda>r. if i \<in> set is \<and> ar_mode r = Current
                                 then r\<lparr>ar_mode := Purged (u 0)\<rparr> else r) (a_rows a i)),
                  a_batches := (a_batches a)(u 0 := Some (Open, now + days * 86400000))\<rparr>))"
| "spec_op u now (L_RestorePurge b) a =
     (case a_batches a b of
        Some (Open, d) \<Rightarrow>
          if now \<le> d
          then Some (a\<lparr>a_rows := (\<lambda>i. map_option (\<lambda>r. if ar_mode r = Purged b
                                    then r\<lparr>ar_mode := Current\<rparr> else r) (a_rows a i)),
                       a_batches := (a_batches a)(b := Some (Restored, d))\<rparr>)
          else None
      | _ \<Rightarrow> None)"
| "spec_op u now (L_FinalizePurge b) a =
     (case a_batches a b of
        Some (Open, d) \<Rightarrow>
          Some (a\<lparr>a_rows := (\<lambda>i. case a_rows a i of None \<Rightarrow> None
                                | Some r \<Rightarrow> if ar_mode r = Purged b then None else Some r),
                  a_batches := (a_batches a)(b := Some (Finalized, d))\<rparr>)
      | _ \<Rightarrow> None)"
| "spec_op u now (L_Promote i sc) a =
     (case a_rows a i of
        None \<Rightarrow> None
      | Some r \<Rightarrow> if SCOPE_RANK (ar_scope r) < SCOPE_RANK sc
                  then Some (a\<lparr>a_rows := (a_rows a)(i := Some (r\<lparr>ar_scope := sc\<rparr>))\<rparr>) else None)"
| "spec_op u now (L_Erase i _) a =
     (if a_rows a i = None then None else Some (a\<lparr>a_rows := (a_rows a)(i := None)\<rparr>))"

definition refines :: "(nat \<Rightarrow> string) \<Rightarrow> epoch_ms \<Rightarrow> lop \<Rightarrow> store \<Rightarrow> bool" where
  "refines u now a s \<longleftrightarrow>
     spec_op u now a (abs_of s) = (case run_op u now a s of Inl _ \<Rightarrow> None | Inr s' \<Rightarrow> Some (abs_of s'))"

lemma abs_of_append [simp]: "abs_of (append_event x now ty j p h s) = abs_of s"
  by (simp add: abs_of_def)

lemma abs_of_update:
  assumes "\<And>m. mem_id (f m) = mem_id m" and "get_memory i s = Some m"
  shows "abs_of (update_memory i f s) = (abs_of s)\<lparr>a_rows := (a_rows (abs_of s))(i := Some (abs_row_of (f m)))\<rparr>"
  using assms by (auto simp: abs_of_def get_update_memory)

lemma a_rows_abs: "a_rows (abs_of s) i = map_option abs_row_of (get_memory i s)"
  by (simp add: abs_of_def)

lemma mode_simps:
  assumes "row_inv bs m"
  shows "mode m = Current \<longleftrightarrow> mem_valid_to m = None" "mode m = Archived \<longleftrightarrow> archived m"
    "mode m = Superseded w \<longleftrightarrow> superseded_by m = Some w" "mode m = Purged b \<longleftrightarrow> purge_batch_id m = Some b"
  using assms by (auto simp: mode_def row_inv_def split: option.splits if_splits)

lemma abs_row_of_simps [simp]:
  "ar_mode (abs_row_of m) = mode m" "ar_hash (abs_row_of m) = mem_hash m" "ar_scope (abs_row_of m) = mem_scope m"
  by (simp_all add: abs_row_of_def)

lemma refines_moveI:
  assumes "get_memory i s = Some m" and "spec_op u now a (abs_of s) = move i f (abs_of s)"
    and "f (mode m) = None \<Longrightarrow> \<exists>e. run_op u now a s = Inl e"
    and "\<And>md. f (mode m) = Some md \<Longrightarrow> \<exists>s'. run_op u now a s = Inr s' \<and>
      abs_of s' = (abs_of s)\<lparr>a_rows := (a_rows (abs_of s))(i := Some ((abs_row_of m)\<lparr>ar_mode := md\<rparr>))\<rparr>"
  shows "refines u now a s"
proof (cases "f (mode m)")
  case None
  with assms(1-3) show ?thesis by (auto simp: refines_def move_def a_rows_abs)
next
  case (Some md)
  with assms(1,2) assms(4)[OF Some] show ?thesis by (auto simp: refines_def move_def a_rows_abs)
qed

lemma mode_frame [simp]: "mode (m\<lparr>mem_updated := t\<rparr>) = mode m" "mode (m\<lparr>mem_scope := sc\<rparr>) = mode m"
  "mode (m\<lparr>mem_valid_from := v\<rparr>) = mode m"
  by (auto simp: mode_def split: option.split)

lemma mode_invalidated: "row_inv bs m \<Longrightarrow> mem_valid_to m = None \<Longrightarrow> mode (m\<lparr>mem_valid_to := Some t\<rparr>) = Bounded"
  by (auto simp: mode_def row_inv_def split: option.split)

lemma mode_superseded: "row_inv bs m \<Longrightarrow> mem_valid_to m = None \<Longrightarrow>
    mode (m\<lparr>mem_valid_to := Some t, superseded_by := Some j\<rparr>) = Superseded j"
  by (auto simp: mode_def row_inv_def)

lemma mode_archived: "mode (m\<lparr>mem_valid_to := t, archived := True, archived_at := a\<rparr>) = Archived"
  by (simp add: mode_def)

lemma mode_restored: "row_inv bs m \<Longrightarrow> archived m \<Longrightarrow>
    mode (m\<lparr>mem_valid_to := None, archived := False, archived_at := None\<rparr>) = Current"
  by (auto simp: mode_def row_inv_def split: option.split)

lemma mode_unsuperseded: "row_inv bs m \<Longrightarrow> superseded_by m = Some w \<Longrightarrow>
    mode (m\<lparr>mem_valid_to := None, superseded_by := None\<rparr>) = Current"
  by (auto simp: mode_def row_inv_def split: option.split)

lemma mode_purged: "row_inv bs m \<Longrightarrow> mem_valid_to m = None \<Longrightarrow>
    mode (m\<lparr>mem_valid_to := Some t, purge_batch_id := Some b\<rparr>) = Purged b"
  by (auto simp: mode_def row_inv_def split: option.split)

lemma mode_unpurged: "row_inv bs m \<Longrightarrow> purge_batch_id m = Some b \<Longrightarrow>
    mode (m\<lparr>mem_valid_to := None, purge_batch_id := None\<rparr>) = Current"
  by (auto simp: mode_def row_inv_def split: option.split)

lemma from_to_iff: "from_to x y md = Some z \<longleftrightarrow> md = x \<and> z = y" "from_to x y md = None \<longleftrightarrow> md \<noteq> x"
  by (auto simp: from_to_def)

lemma refines_invalidate:
  assumes "store_inv s" shows "refines u now (L_Invalidate i r) s"
proof (cases "get_memory i s")
  case (Some m)
  note inv = store_inv_row[OF assms Some]
  show ?thesis
    by (rule refines_moveI[OF Some, where f = "from_to Current Bounded"])
      (auto simp: from_to_iff mode_simps[OF inv] invalidate_def Some abs_of_update
         mode_invalidated[OF inv] abs_row_of_def)
qed (simp add: refines_def move_def a_rows_abs invalidate_def)

lemma refines_archive:
  assumes "store_inv s" shows "refines u now (L_Archive i r) s"
proof (cases "get_memory i s")
  case (Some m)
  note inv = store_inv_row[OF assms Some]
  show ?thesis
    by (rule refines_moveI[OF Some, where f = "from_to Current Archived"])
      (auto simp: from_to_iff mode_simps[OF inv] archive_def Some abs_of_update mode_archived abs_row_of_def)
qed (simp add: refines_def move_def a_rows_abs archive_def)

lemma refines_restore:
  assumes "store_inv s" shows "refines u now (L_Restore i) s"
proof (cases "get_memory i s")
  case (Some m)
  note inv = store_inv_row[OF assms Some]
  show ?thesis
    by (rule refines_moveI[OF Some, where f = "from_to Archived Current"])
      (auto simp: from_to_iff mode_simps[OF inv] restore_def Some abs_of_update mode_restored[OF inv] abs_row_of_def)
qed (simp add: refines_def move_def a_rows_abs restore_def)

lemma refines_unsupersede:
  assumes "store_inv s" shows "refines u now (L_Unsupersede i r) s"
proof (cases "get_memory i s")
  case (Some m)
  note inv = store_inv_row[OF assms Some]
  show ?thesis
  proof (rule refines_moveI[OF Some, where f = "\<lambda>md. case md of Superseded _ \<Rightarrow> Some Current | _ \<Rightarrow> None"])
    assume "(case mode m of Superseded _ \<Rightarrow> Some Current | _ \<Rightarrow> None) = None"
    then have "mode m \<noteq> Superseded w" for w by (cases "mode m") auto
    then have "superseded_by m = None" using mode_simps(3)[OF inv] by (metis not_None_eq)
    then show "\<exists>e. run_op u now (L_Unsupersede i r) s = Inl e" by (auto simp: unsupersede_def Some)
  next
    fix md assume "(case mode m of Superseded _ \<Rightarrow> Some Current | _ \<Rightarrow> None) = Some md"
    then obtain w where "mode m = Superseded w" and md: "md = Current" by (auto split: hide_mode.splits)
    then have w: "superseded_by m = Some w" "\<not> archived m" using mode_simps(3)[OF inv] inv by (auto simp: row_inv_def)
    then show "\<exists>s'. run_op u now (L_Unsupersede i r) s = Inr s' \<and> abs_of s' =
        (abs_of s)\<lparr>a_rows := (a_rows (abs_of s))(i := Some ((abs_row_of m)\<lparr>ar_mode := md\<rparr>))\<rparr>"
      by (simp add: unsupersede_def Some abs_of_update mode_unsuperseded[OF inv] abs_row_of_def md)
  qed simp
qed (simp add: refines_def move_def a_rows_abs unsupersede_def)

lemma refines_promote:
  assumes "store_inv s" shows "refines u now (L_Promote i sc) s"
proof (cases "get_memory i s")
  case (Some m)
  then show ?thesis
    by (auto simp: refines_def a_rows_abs promoteScope_def abs_of_update abs_row_of_def)
qed (simp add: refines_def a_rows_abs promoteScope_def)

lemma abs_of_unlink [simp]: "abs_of (s\<lparr>memory_entities := x, relation_evidence := y\<rparr>) = abs_of s"
  by (simp add: abs_of_def get_memory_def)

lemma abs_of_touch:
  assumes "\<And>m. mem_id (f m) = mem_id m" and "\<And>m. abs_row_of (f m) = abs_row_of m"
  shows "abs_of (update_memory i f s) = abs_of s"
  by (cases "get_memory i s") (auto simp: abs_of_def get_update_memory assms option.map_comp comp_def)

lemma refines_supersede:
  assumes "store_inv s" shows "refines u now (L_Supersede i j p c) s"
proof (cases "get_memory i s")
  case si: (Some m)
  note inv = store_inv_row[OF assms si]
  show ?thesis
  proof (cases "get_memory j s")
    case sj: (Some n)
    note invj = store_inv_row[OF assms sj]
    show ?thesis
    proof (cases "mem_valid_to n = None")
      case True
      show ?thesis
        by (rule refines_moveI[OF si, where f = "from_to Current (Superseded j)"])
          (use True in \<open>auto simp: from_to_iff mode_simps[OF inv] mode_simps[OF invj] supersede_def si sj Let_def
            a_rows_abs abs_of_update abs_of_touch mode_superseded[OF inv] abs_row_of_def\<close>)
    next
      case False
      then show ?thesis using si sj
        by (auto simp: refines_def a_rows_abs supersede_def mode_simps[OF invj])
    qed
  qed (simp add: refines_def a_rows_abs supersede_def si)
qed (simp add: refines_def move_def a_rows_abs supersede_def)

lemma refines_erase: "refines u now (L_Erase i r) s"
proof (cases "get_memory i s")
  case (Some m)
  then obtain s' where s': "erase u now i r s = Inr s'" using erase_ok by blast
  then show ?thesis using Some get_erase[OF s'] by (auto simp: refines_def a_rows_abs abs_of_def)
qed (simp add: refines_def a_rows_abs erase_def)

lemma live_hash_iff:
  assumes "store_inv s"
  shows "(\<exists>i r. a_rows (abs_of s) i = Some r \<and> ar_hash r = h) \<longleftrightarrow> get_row mem_hash h (memories s) \<noteq> None"
proof -
  have "(\<exists>i r. a_rows (abs_of s) i = Some r \<and> ar_hash r = h) \<longleftrightarrow> (\<exists>m \<in> set (memories s). mem_hash m = h)"
    using get_memory_in mem_rows.get_in[OF store_inv_parts(7)[OF assms]]
    unfolding a_rows_abs get_memory_def by (fastforce simp: get_memory_def)
  also have "\<dots> \<longleftrightarrow> get_row mem_hash h (memories s) \<noteq> None"
    unfolding get_row_None_iff by auto
  finally show ?thesis .
qed

lemma refines_insert:
  assumes inv: "store_inv s" shows "refines u now (L_Insert inp) s"
proof (cases "get_row mem_hash (in_hash inp) (memories s)")
  case (Some m)
  then show ?thesis using live_hash_iff[OF inv, of "in_hash inp"]
    by (simp add: refines_def insertWithCreateEvent_def)
next
  case None
  then have nolive: "\<not> (\<exists>i r. a_rows (abs_of s) i = Some r \<and> ar_hash r = in_hash inp)"
    using live_hash_iff[OF inv, of "in_hash inp"] by simp
  show ?thesis
  proof (cases "get_memory (u 0) s")
    case gn: None
    let ?m = "input_row (u 0) (new_rowid s) now inp"
    have "get_memory i (s\<lparr>memories := memories s @ [?m]\<rparr>) = (if i = u 0 then Some ?m else get_memory i s)" for i
      using gn by (auto simp: get_memory_def get_row_append split: option.splits)
    then have "abs_of (s\<lparr>memories := memories s @ [?m]\<rparr>) =
        (abs_of s)\<lparr>a_rows := (a_rows (abs_of s))(u 0 := Some (abs_row_of ?m))\<rparr>"
      by (auto simp: abs_of_def)
    moreover have "abs_row_of ?m = \<lparr>ar_mode = (if in_valid_to inp = None then Current else Bounded),
        ar_hash = in_hash inp, ar_scope = (case in_scope inp of None \<Rightarrow> Private | Some sc \<Rightarrow> sc)\<rparr>"
      by (simp add: abs_row_of_def) (simp add: input_row_def)
    ultimately show ?thesis using None gn nolive
      by (auto simp: refines_def insertWithCreateEvent_def insertRow_def a_rows_abs)
  qed (use None nolive in \<open>auto simp: refines_def insertWithCreateEvent_def insertRow_def a_rows_abs\<close>)
qed

lemma abs_batches: "a_batches (abs_of s) b =
    map_option (\<lambda>r. (batch_status r, restore_deadline_at r)) (get_row batch_id b (purge_batches s))"
  by (simp add: abs_of_def)

lemma abs_of_eqI:
  assumes "\<And>i. map_option abs_row_of (get_memory i s) = rows i"
    and "\<And>b. map_option (\<lambda>r. (batch_status r, restore_deadline_at r)) (get_row batch_id b (purge_batches s)) = bs b"
  shows "abs_of s = \<lparr>a_rows = rows, a_batches = bs\<rparr>"
  using assms by (simp add: abs_of_def)

lemma get_purge_loop:
  "get_memory k (snd (purge_loop u now b src d is n s)) =
     (case get_memory k s of
        None \<Rightarrow> None
      | Some m \<Rightarrow> Some (if k \<in> set is \<and> mem_valid_to m = None
                        then m\<lparr>mem_valid_to := Some now, purge_batch_id := Some b, mem_updated := now\<rparr> else m))"
proof (induction "is" arbitrary: n s)
  case Nil
  show ?case by (simp split: option.split)
next
  case (Cons i "is")
  let ?f = "\<lambda>m. m\<lparr>mem_valid_to := Some now, purge_batch_id := Some b, mem_updated := now\<rparr>"
  show ?case
  proof (cases "get_memory i s")
    case None
    have "get_memory k (snd (purge_loop u now b src d (i # is) n s)) =
        get_memory k (snd (purge_loop u now b src d is n s))"
      by (simp add: None)
    then show ?thesis unfolding Cons.IH using None by (cases "k = i") (simp_all split: option.splits)
  next
    case (Some m)
    show ?thesis
    proof (cases "mem_valid_to m = None")
      case True
      have "get_memory k (snd (purge_loop u now b src d (i # is) n s)) =
          get_memory k (snd (purge_loop u now b src d is (n + 1)
            (append_event (u (n + 1)) now E_Purge i (Some (P_Purge b src d)) None (update_memory i ?f s))))"
        by (simp add: Some True)
      then show ?thesis unfolding Cons.IH using Some True
        by (cases "k = i") (simp_all add: get_update_memory split: option.splits)
    next
      case False
      then obtain v where v: "mem_valid_to m = Some v" by blast
      have "get_memory k (snd (purge_loop u now b src d (i # is) n s)) =
          get_memory k (snd (purge_loop u now b src d is n s))"
        by (simp add: Some v)
      then show ?thesis unfolding Cons.IH using Some v by (cases "k = i") (simp_all split: option.splits)
    qed
  qed
qed

lemma refines_purge:
  assumes inv: "store_inv s" shows "refines u now (L_Purge is src d) s"
proof -
  obtain n s1 where l: "purge_loop u now (u 0) src (now + d * 86400000) is 0 s = (n, s1)" by fastforce
  have s1: "s1 = snd (purge_loop u now (u 0) src (now + d * 86400000) is 0 s)" using l by simp
  have b1: "purge_batches s1 = purge_batches s" unfolding s1 by simp
  have rows: "map_option abs_row_of (get_memory i s1) =
    map_option (\<lambda>r. if i \<in> set is \<and> ar_mode r = Current then r\<lparr>ar_mode := Purged (u 0)\<rparr> else r)
      (a_rows (abs_of s) i)" for i
  proof (cases "get_memory i s")
    case (Some m)
    note invm = store_inv_row[OF inv Some]
    show ?thesis
    proof (cases "i \<in> set is \<and> mem_valid_to m = None")
      case True
      then have "mode m = Current" by (simp add: mode_simps(1)[OF invm])
      with True show ?thesis
        by (simp add: s1 get_purge_loop a_rows_abs Some abs_row_of_def mode_purged[OF invm])
    next
      case False
      then have "\<not> (i \<in> set is \<and> mode m = Current)" by (simp add: mode_simps(1)[OF invm])
      moreover have "get_memory i s1 = Some m" using False unfolding s1 get_purge_loop Some by auto
      ultimately show ?thesis by (simp add: a_rows_abs Some)
    qed
  qed (simp add: s1 get_purge_loop a_rows_abs)
  show ?thesis
  proof (cases "get_row batch_id (u 0) (purge_batches s)")
    case None
    let ?row = "\<lparr>batch_id = u 0, batch_source = src, requested_at = now,
      restore_deadline_at = now + d * 86400000, atom_count = n, batch_status = Open, finalized_at = None\<rparr>"
    have "abs_of (s1\<lparr>purge_batches := purge_batches s @ [?row]\<rparr>) =
      \<lparr>a_rows = (\<lambda>i. map_option (\<lambda>r. if i \<in> set is \<and> ar_mode r = Current
                                 then r\<lparr>ar_mode := Purged (u 0)\<rparr> else r) (a_rows (abs_of s) i)),
       a_batches = (a_batches (abs_of s))(u 0 := Some (Open, now + d * 86400000))\<rparr>"
      by (rule abs_of_eqI) (use None rows in \<open>auto simp: abs_batches get_row_append split: option.splits\<close>)
    then show ?thesis using None
      by (simp add: refines_def purgeBatch_def Let_def l b1 abs_batches)
  qed (simp add: refines_def purgeBatch_def Let_def l b1 abs_batches)
qed

lemma refines_restorePurge:
  assumes inv: "store_inv s" shows "refines u now (L_RestorePurge b) s"
proof (cases "get_row batch_id b (purge_batches s)")
  case (Some r)
  show ?thesis
  proof (cases "batch_status r = Open \<and> now \<le> restore_deadline_at r")
    case True
    let ?s1 = "fold (unpurge_one u now b) (enumerate 0 (purged_ids b s)) s"
    let ?s' = "?s1\<lparr>purge_batches := update_rows (\<lambda>r. batch_id r = b) (\<lambda>r. r\<lparr>batch_status := Restored\<rparr>) (purge_batches s)\<rparr>"
    have rows: "map_option abs_row_of (get_memory i ?s') =
      map_option (\<lambda>r. if ar_mode r = Purged b then r\<lparr>ar_mode := Current\<rparr> else r) (a_rows (abs_of s) i)" for i
    proof (cases "get_memory i s")
      case sm: (Some m)
      note invm = store_inv_row[OF inv sm]
      show ?thesis
        by (auto simp: get_unpurge a_rows_abs sm purged_iff[OF inv] mode_simps(4)[OF invm]
            mode_unpurged[OF invm] abs_row_of_def)
    qed (simp add: get_unpurge a_rows_abs)
    have "abs_of ?s' = \<lparr>a_rows = (\<lambda>i. map_option (\<lambda>r. if ar_mode r = Purged b
        then r\<lparr>ar_mode := Current\<rparr> else r) (a_rows (abs_of s) i)),
        a_batches = (a_batches (abs_of s))(b := Some (Restored, restore_deadline_at r))\<rparr>"
      by (rule abs_of_eqI[OF rows]) (use Some in \<open>auto simp: abs_batches batch_rows.get_update_key\<close>)
    then show ?thesis using Some True
      by (simp add: refines_def restorePurgeBatch_def Let_def abs_batches)
  next
    case False
    then show ?thesis using Some
      by (cases "batch_status r") (auto simp: refines_def restorePurgeBatch_def Let_def abs_batches)
  qed
qed (simp add: refines_def restorePurgeBatch_def abs_batches)

lemma refines_finalizePurge:
  assumes inv: "store_inv s" shows "refines u now (L_FinalizePurge b) s"
proof (cases "get_row batch_id b (purge_batches s)")
  case (Some r)
  show ?thesis
  proof (cases "batch_status r")
    case Open
    obtain s1 where s1: "erase_all u now (Some (''purge batch '' @ b @ '' finalized'')) (enumerate 0 (purged_ids b s)) s = Inr s1"
      "purge_batches s1 = purge_batches s"
      "\<And>k. get_memory k s1 = (if k \<in> set (purged_ids b s) then None else get_memory k s)"
      using finalizePurgeBatch_erases[OF inv] by metis
    let ?s' = "s1\<lparr>purge_batches := update_rows (\<lambda>r. batch_id r = b)
        (\<lambda>r. r\<lparr>batch_status := Finalized, finalized_at := Some now\<rparr>) (purge_batches s)\<rparr>"
    have rows: "map_option abs_row_of (get_memory i ?s') =
      (case a_rows (abs_of s) i of None \<Rightarrow> None | Some r \<Rightarrow> if ar_mode r = Purged b then None else Some r)" for i
    proof (cases "get_memory i s")
      case sm: (Some m)
      note invm = store_inv_row[OF inv sm]
      show ?thesis by (auto simp: s1(3) a_rows_abs sm purged_iff[OF inv] mode_simps(4)[OF invm])
    qed (simp add: s1(3) a_rows_abs)
    have "abs_of ?s' = \<lparr>a_rows = (\<lambda>i. case a_rows (abs_of s) i of None \<Rightarrow> None
        | Some r \<Rightarrow> if ar_mode r = Purged b then None else Some r),
        a_batches = (a_batches (abs_of s))(b := Some (Finalized, restore_deadline_at r))\<rparr>"
      by (rule abs_of_eqI[OF rows]) (use Some in \<open>auto simp: abs_batches batch_rows.get_update_key\<close>)
    then show ?thesis using Some Open s1(1,2)
      by (simp add: refines_def finalizePurgeBatch_def Let_def abs_batches)
  qed (use Some in \<open>simp_all add: refines_def finalizePurgeBatch_def Let_def abs_batches\<close>)
qed (simp add: refines_def finalizePurgeBatch_def abs_batches)

text \<open>
  C1: the store implements its abstract machine: on every operation and every branch, the code
  throws exactly when the machine refuses, and otherwise its new rows and batches abstract to the
  machine's next state; in particular each reversal (restore, unsupersede, restorePurgeBatch) undoes
  only its own way of hiding.
\<close>

theorem lifecycle_refines_machine:
  assumes "store_inv s"
  shows "spec_op u now a (abs_of s) =
    (case run_op u now a s of Inl _ \<Rightarrow> None | Inr s' \<Rightarrow> Some (abs_of s'))"
  using refines_invalidate refines_archive refines_restore refines_unsupersede refines_promote
    refines_supersede refines_erase refines_insert refines_purge refines_restorePurge
    refines_finalizePurge assms
  unfolding refines_def[symmetric] by (cases a) simp_all

text \<open>A store with three memories, on which the applications below are evaluated.\<close>

definition demo_input :: "string \<Rightarrow> insert_input" where
  "demo_input h =
     \<lparr>in_type = ''note'', in_text = h, in_normalized = h, in_repo = None, in_project = None,
      in_branch = None, in_agent = None, in_session = None, in_hash = h, in_source_hash = None,
      in_importance = None, in_confidence = None,
      in_embedding = \<lparr>embedding_provider = None, embedding_model = None, embedding_dim = None\<rparr>,
      in_evidence = None, in_scope = None, in_valid_from = None, in_valid_to = None,
      in_validity_extracted = False, in_entities = None, in_capture_source = None,
      in_speaker_label = None, in_consent = None, in_supported = None, in_location = None\<rparr>"

definition demo_row :: "string \<Rightarrow> nat \<Rightarrow> epoch_ms \<Rightarrow> memory" where
  "demo_row i r t = input_row i r t (demo_input i)"

definition demo_store :: store where
  "demo_store = empty_store
     \<lparr>memories := [demo_row ''a'' 1 10, demo_row ''b'' 2 20, demo_row ''c'' 3 30],
      memory_entities := [(''a'', ''e''), (''b'', ''e'')], memories_vec := [1, 2]\<rparr>"

lemma demo_row_fields [simp]:
  "mem_id (demo_row i r t) = i" "mem_hash (demo_row i r t) = i" "mem_rowid (demo_row i r t) = r"
  "mem_valid_to (demo_row i r t) = None" "mem_scope (demo_row i r t) = Private" "row_inv bs (demo_row i r t)"
  "archived (demo_row i r t) = False" "superseded_by (demo_row i r t) = None" "mode (demo_row i r t) = Current"
  "mem_created (demo_row i r t) = t"
  by (simp_all add: demo_row_def demo_input_def) (simp_all add: input_row_def)

lemma demo_store_inv: "store_inv demo_store"
  by (simp add: demo_store_def empty_store_def store_inv_def keys_ok_def log_ok_def refs_ok_def vec_ok_def)

lemma get_demo: "get_memory ''a'' demo_store = Some (demo_row ''a'' 1 10)"
  "get_memory ''b'' demo_store = Some (demo_row ''b'' 2 20)"
  "get_memory ''c'' demo_store = Some (demo_row ''c'' 3 30)"
  by (simp_all add: demo_store_def get_memory_def)

theorem lifecycle_refines_machine_witness:
  "(case run_op (\<lambda>_. ''u'') 40 (L_Archive ''a'' None) demo_store of Inl _ \<Rightarrow> None | Inr s' \<Rightarrow> Some (abs_of s')) =
   Some ((abs_of demo_store)\<lparr>a_rows := (a_rows (abs_of demo_store))(''a'' :=
     Some \<lparr>ar_mode = Archived, ar_hash = ''a'', ar_scope = Private\<rparr>)\<rparr>)"
  unfolding lifecycle_refines_machine[OF demo_store_inv, symmetric]
  by (simp add: move_def a_rows_abs get_demo from_to_def abs_row_of_def)

section \<open>Reversals\<close>

text \<open>
  C29: hiding and its reversal are inverse on the row: archive then restore, and supersede then
  unsupersede, give back the row as it was up to its \<open>updated_at\<close>; every other row is untouched,
  except that a supersede moves the winner's validity start.
\<close>

theorem reversals_restore_the_row:
  assumes "store_inv s" and "get_memory i s = Some m" and "mode m = Current"
    and "archive u t1 i r s = Inr s1" and "restore u' t2 i s1 = Inr s2"
    and "supersede v t3 i j p c s = Inr s3" and "unsupersede v' t4 i r s3 = Inr s4" and "i \<noteq> j"
  shows "get_memory i s2 = Some (m\<lparr>mem_updated := t2\<rparr>) \<and> (\<forall>k. k \<noteq> i \<longrightarrow> get_memory k s2 = get_memory k s) \<and>
    get_memory i s4 = Some (m\<lparr>mem_updated := t4\<rparr>) \<and>
    (\<forall>k. k \<noteq> i \<longrightarrow> k \<noteq> j \<longrightarrow> get_memory k s4 = get_memory k s)"
proof -
  note inv = store_inv_row[OF assms(1,2)]
  have cur: "mem_valid_to m = None" "archived m = False" "archived_at m = None" "superseded_by m = None"
    using inv assms(3) mode_simps[OF inv] by (auto simp: row_inv_def)
  have s1: "get_memory k s1 = (if k = i then Some (m\<lparr>mem_valid_to := Some t1, archived := True,
      archived_at := Some t1, mem_updated := t1\<rparr>) else get_memory k s)" for k
    using assms(2,4) cur by (auto simp: archive_def get_update_memory)
  have s2: "get_memory k s2 = (if k = i then Some (m\<lparr>mem_updated := t2\<rparr>) else get_memory k s)" for k
    using assms(5) s1[of i] s1[of k] cur by (auto simp: restore_def get_update_memory split: if_splits)
  have s3: "get_memory k s3 = (if k = i then Some (m\<lparr>mem_valid_to := Some t3, superseded_by := Some j, mem_updated := t3\<rparr>)
      else if k = j then map_option (\<lambda>m. m\<lparr>mem_valid_from := Some t3, mem_updated := t3\<rparr>) (get_memory j s)
      else get_memory k s)" for k
    using assms(2,6,8) cur
    by (auto simp: supersede_def Let_def get_update_memory get_memory_def[of _ "_\<lparr>memory_entities := _, relation_evidence := _\<rparr>"]
        get_memory_def[symmetric] split: option.splits if_splits)
  have s4: "get_memory k s4 = (if k = i then Some (m\<lparr>mem_updated := t4\<rparr>) else get_memory k s3)" for k
    using assms(7) s3[of i] cur by (auto simp: unsupersede_def get_update_memory split: if_splits)
  show ?thesis using s2 s4 s3 by simp
qed

theorem reversals_restore_the_row_witness:
  "\<exists>s1 s2. archive (\<lambda>_. ''u'') 50 ''a'' None demo_store = Inr s1 \<and> restore (\<lambda>_. ''v'') 60 ''a'' s1 = Inr s2 \<and>
     get_memory ''a'' s2 = Some (demo_row ''a'' 1 10\<lparr>mem_updated := 60\<rparr>)"
proof -
  obtain s1 where s1: "archive (\<lambda>_. ''u'') 50 ''a'' None demo_store = Inr s1"
    by (simp add: archive_def get_demo)
  have "get_memory ''a'' s1 = Some (demo_row ''a'' 1 10\<lparr>mem_valid_to := Some 50, archived := True,
      archived_at := Some 50, mem_updated := 50\<rparr>)"
    using s1 by (auto simp: archive_def get_demo get_update_memory)
  then obtain s2 where s2: "restore (\<lambda>_. ''v'') 60 ''a'' s1 = Inr s2" by (simp add: restore_def)
  obtain s3 where s3: "supersede (\<lambda>_. ''u'') 50 ''a'' ''b'' None External demo_store = Inr s3"
    by (simp add: supersede_def get_demo Let_def)
  have "get_memory ''a'' s3 = Some (demo_row ''a'' 1 10\<lparr>mem_valid_to := Some 50, superseded_by := Some ''b'', mem_updated := 50\<rparr>)"
    using s3 by (auto simp: supersede_def Let_def get_demo get_update_memory
        get_memory_def[of _ "_\<lparr>memory_entities := _, relation_evidence := _\<rparr>"] get_memory_def[symmetric])
  then obtain s4 where s4: "unsupersede (\<lambda>_. ''v'') 60 ''a'' None s3 = Inr s4" by (simp add: unsupersede_def)
  show ?thesis
    using reversals_restore_the_row[OF demo_store_inv get_demo(1) _ s1 s2 s3 s4] s1 s2 by simp
qed

section \<open>The log\<close>

definition logged :: "store \<Rightarrow> store \<Rightarrow> bool" where
  "logged s s' \<longleftrightarrow> (\<exists>es. events s' = events s @ es \<and>
     (\<forall>k. a_rows (abs_of s') k \<noteq> a_rows (abs_of s) k \<longrightarrow> (\<exists>e \<in> set es. atom_id e = k)))"

lemma loggedI:
  "events s' = events s @ es \<Longrightarrow> (\<And>k. k \<notin> atom_id ` set es \<Longrightarrow> a_rows (abs_of s') k = a_rows (abs_of s) k) \<Longrightarrow>
   logged s s'"
  unfolding logged_def by (intro exI[of _ es] conjI allI impI) (assumption, metis imageE)

lemma logged_refl [simp]: "logged s s"
  by (auto simp: logged_def)

lemma logged_trans:
  assumes "logged s1 s2" and "logged s2 s3"
  shows "logged s1 s3"
proof -
  obtain es fs where e: "events s2 = events s1 @ es" "events s3 = events s2 @ fs"
    "\<And>k. a_rows (abs_of s2) k \<noteq> a_rows (abs_of s1) k \<Longrightarrow> \<exists>e \<in> set es. atom_id e = k"
    "\<And>k. a_rows (abs_of s3) k \<noteq> a_rows (abs_of s2) k \<Longrightarrow> \<exists>e \<in> set fs. atom_id e = k"
    using assms unfolding logged_def by metis
  have "\<exists>e \<in> set (es @ fs). atom_id e = k" if "a_rows (abs_of s3) k \<noteq> a_rows (abs_of s1) k" for k
    using that e(3,4)[of k] by (cases "a_rows (abs_of s2) k = a_rows (abs_of s1) k") auto
  then show ?thesis using e(1,2) unfolding logged_def by (intro exI[of _ "es @ fs"]) simp
qed

lemma logged_update:
  "(\<And>m. mem_id (f m) = mem_id m) \<Longrightarrow> logged s (append_event x now ty i p h (update_memory i f s))"
proof (rule loggedI)
  show "events (append_event x now ty i p h (update_memory i f s)) = events s @
    [\<lparr>seq = next_seq (update_memory i f s), event_id = x, event_type = ty, atom_id = i, ev_payload = p,
      content_hash = h, ev_created = now, synced_at = None, rejected_at = None\<rparr>]"
    by (simp add: append_event_def)
qed (simp add: a_rows_abs get_update_memory)

lemma logged_more: "logged s s' \<Longrightarrow> logged s (append_event x now ty i p h s')"
  by (auto simp: logged_def append_event_def a_rows_abs get_memory_def)

lemma logged_same_events: "logged s s' \<Longrightarrow> events s'' = events s' \<Longrightarrow> memories s'' = memories s' \<Longrightarrow> logged s s''"
  by (simp add: logged_def a_rows_abs get_memory_def)

lemma logged_purge_loop: "logged s (snd (purge_loop u now b src d is n s))"
proof (induction "is" arbitrary: n s)
  case (Cons i "is")
  let ?s = "append_event (u (n + 1)) now E_Purge i (Some (P_Purge b src d)) None
      (update_memory i (\<lambda>m. m\<lparr>mem_valid_to := Some now, purge_batch_id := Some b, mem_updated := now\<rparr>) s)"
  have "logged s ?s" by (rule logged_update) simp
  then have "logged s (snd (purge_loop u now b src d is (n + 1) ?s))" by (rule logged_trans) (rule Cons.IH)
  then show ?case using Cons.IH by (simp split: option.split)
qed simp

lemma logged_unpurge: "logged s (fold (unpurge_one u now b) nis s)"
proof (induction nis arbitrary: s)
  case (Cons ni nis)
  have "logged s (unpurge_one u now b ni s)" unfolding unpurge_one_def by (rule logged_update) simp
  then show ?case using Cons.IH logged_trans by simp
qed simp

lemma logged_erase:
  assumes "erase u now i r s = Inr s'"
  shows "logged s s'"
proof -
  have "\<exists>e. atom_id e = i \<and> events s' = events s @ [e]"
    using assms by (auto simp: erase_def Let_def delete_memory_def append_event_def split: option.splits)
  then show ?thesis using get_erase(1)[OF assms] by (auto simp: logged_def a_rows_abs)
qed

lemma logged_erase_all: "erase_all u now r nis s = Inr s' \<Longrightarrow> logged s s'"
proof (induction nis arbitrary: s)
  case (Cons ni nis)
  obtain n i where ni: "ni = (n, i)" by fastforce
  with Cons.prems obtain s1 where "erase (\<lambda>k. u (n + k)) now i r s = Inr s1" "erase_all u now r nis s1 = Inr s'"
    by (auto split: sum.splits)
  then show ?case using logged_trans[OF logged_erase Cons.IH] by blast
qed simp

lemma logged_supersede:
  assumes "supersede u now i j p c s = Inr s'"
  shows "logged s s'"
proof -
  have rows: "a_rows (abs_of s') k = a_rows (abs_of s) k" if "k \<noteq> i" for k
  proof -
    have "get_memory k s' = (if k = j then map_option (\<lambda>m. m\<lparr>mem_valid_from := Some now, mem_updated := now\<rparr>) (get_memory k s)
        else get_memory k s)"
      using assms that by (auto simp: supersede_def Let_def get_update_memory
        get_memory_def[of _ "_\<lparr>memory_entities := _, relation_evidence := _\<rparr>"] get_memory_def[symmetric]
        split: option.splits if_splits)
    then show ?thesis by (cases "get_memory k s") (auto simp: a_rows_abs abs_row_of_def)
  qed
  obtain e f where "events s' = events s @ [e, f]" "atom_id e = i"
    using assms by (auto simp: supersede_def Let_def append_event_def split: option.splits if_splits)
  then show ?thesis using rows by (intro loggedI[of _ _ "[e, f]"]) auto
qed

lemma logged_insert:
  assumes "insertWithCreateEvent u now inp s = Inr (r, s')"
  shows "logged s s'"
proof (cases "get_row mem_hash (in_hash inp) (memories s)")
  case None
  obtain e where "events s' = events s @ [e]" "atom_id e = u 0"
    using assms None by (auto simp: insertWithCreateEvent_def insertRow_def append_event_def split: if_splits)
  moreover have "a_rows (abs_of s') k = a_rows (abs_of s) k" if "k \<noteq> u 0" for k
    using assms None that by (auto simp: insertWithCreateEvent_def insertRow_def a_rows_abs get_memory_def
      get_row_append append_event_def split: if_splits option.splits)
  ultimately show ?thesis by (intro loggedI[of _ _ "[e]"]) auto
qed (use assms in \<open>simp add: insertWithCreateEvent_def\<close>)

lemma run_op_logged:
  assumes "run_op u now a s = Inr s'"
  shows "logged s s'"
proof (cases a)
  case (L_Purge "is" src d)
  obtain n s1 where l: "purge_loop u now (u 0) src (now + d * 86400000) is 0 s = (n, s1)" by fastforce
  have "logged s s1" using logged_purge_loop[of s u now "u 0" src _ "is" 0] l by (metis snd_conv)
  with assms l show ?thesis
    by (auto simp: L_Purge purgeBatch_def map_sum_Inr Let_def elim: logged_same_events split: if_splits)
next
  case (L_RestorePurge b)
  with assms show ?thesis using logged_unpurge
    by (auto simp: restorePurgeBatch_def map_sum_Inr Let_def intro!: logged_same_events[OF logged_unpurge]
        split: option.splits if_splits)
next
  case (L_FinalizePurge b)
  with assms obtain r nis s1 where "erase_all u now r nis s = Inr s1" "events s' = events s1" "memories s' = memories s1"
    by (auto simp: finalizePurgeBatch_def map_sum_Inr Let_def split: option.splits if_splits sum.splits)
  then show ?thesis using logged_erase_all logged_same_events by blast
qed (use assms in \<open>auto simp: map_sum_Inr invalidate_def archive_def restore_def unsupersede_def promoteScope_def
      elim: logged_insert logged_supersede logged_erase intro!: logged_more[OF logged_update] logged_update
      split: option.splits if_splits\<close>)

text \<open>
  C12: the log is complete and append-only: an operation only adds events at the end, and every memory
  whose mode, scope or existence it changes gets an event of its own in the same transaction.
\<close>

theorem every_change_is_logged:
  assumes "run_op u now a s = Inr s'"
  shows "\<exists>es. events s' = events s @ es \<and>
    (\<forall>k. map_option abs_row_of (get_memory k s') \<noteq> map_option abs_row_of (get_memory k s) \<longrightarrow>
         (\<exists>e \<in> set es. atom_id e = k))"
  using run_op_logged[OF assms] by (simp add: logged_def a_rows_abs)

theorem every_change_is_logged_witness:
  "\<exists>s' es. run_op (\<lambda>_. ''u'') 50 (L_Archive ''a'' None) demo_store = Inr s' \<and> events s' = events demo_store @ es"
proof -
  obtain s' where "run_op (\<lambda>_. ''u'') 50 (L_Archive ''a'' None) demo_store = Inr s'"
    by (simp add: archive_def get_demo)
  with every_change_is_logged[OF this] show ?thesis by blast
qed

lemma events_prefix: "\<exists>es. events (store_step c s) = events s @ es"
proof (cases "run_op (fst c) (fst (snd c)) (snd (snd c)) s")
  case (Inl e)
  then show ?thesis by (simp add: store_step_def)
next
  case (Inr s')
  then show ?thesis using run_op_logged[OF Inr] by (auto simp: store_step_def logged_def)
qed

lemma isErased_step: "isErasedHash h s \<Longrightarrow> isErasedHash h (store_step c s)"
  using events_prefix[of c s] by (auto simp: isErasedHash_def)

lemma isErased_run: "isErasedHash h s \<Longrightarrow> isErasedHash h (fold store_step cs s)"
  by (induction cs arbitrary: s) (auto intro: isErased_step)



section \<open>Validity windows\<close>

text \<open>
  Superseding hands the belief over without overlap: the loser's window ends exactly where the
  winner's starts, the loser points at the winner and loses its entity links and relation evidence.
  But the winner's start is moved each time: after a second memory is superseded by the same winner,
  the first loser's window ends before the winner's begins, and in the gap no generation is believed.
\<close>

lemma supersede_windows:
  assumes "supersede u t1 i j p c s = Inr s1" and "i \<noteq> j"
    and "supersede v t2 k j q d s1 = Inr s2" and "k \<noteq> j" and "k \<noteq> i" and "t1 < t2"
  shows "(\<exists>l w. get_memory i s1 = Some l \<and> get_memory j s1 = Some w \<and> superseded_by l = Some j \<and>
       mem_valid_to l = Some t1 \<and> mem_valid_from w = Some t1 \<and>
       i \<notin> fst ` set (memory_entities s1) \<and> i \<notin> snd ` set (relation_evidence s1)) \<and>
    (\<exists>l w. get_memory i s2 = Some l \<and> get_memory j s2 = Some w \<and> superseded_by l = Some j \<and>
       mem_valid_to l = Some t1 \<and> mem_valid_from w = Some t2)"
proof -
  note gd = get_memory_def[of _ "_\<lparr>memory_entities := _, relation_evidence := _\<rparr>"]
  obtain l w where lw: "get_memory i s = Some l" "get_memory j s = Some w"
    using assms(1) by (auto simp: supersede_def split: option.splits)
  have s1: "get_memory i s1 = Some (l\<lparr>mem_valid_to := Some t1, superseded_by := Some j, mem_updated := t1\<rparr>)"
    "get_memory j s1 = Some (w\<lparr>mem_valid_from := Some t1, mem_updated := t1\<rparr>)"
    using assms(1,2) lw by (auto simp: supersede_def Let_def get_update_memory gd get_memory_def[symmetric]
        split: if_splits)
  have "i \<notin> fst ` set (memory_entities s1) \<and> i \<notin> snd ` set (relation_evidence s1)"
    using assms(1) lw by (auto simp: supersede_def Let_def split: if_splits)
  moreover have "get_memory i s2 = get_memory i s1"
    "get_memory j s2 = map_option (\<lambda>m. m\<lparr>mem_valid_from := Some t2, mem_updated := t2\<rparr>) (get_memory j s1)"
    using assms(2-5) by (auto simp: supersede_def Let_def get_update_memory gd get_memory_def[symmetric]
        split: option.splits if_splits)
  ultimately show ?thesis using s1 by simp
qed

lemma supersede_windows_witness:
  "\<exists>s1 s2 w. supersede (\<lambda>_. ''u'') 50 ''a'' ''c'' None External demo_store = Inr s1 \<and>
     supersede (\<lambda>_. ''v'') 60 ''b'' ''c'' None External s1 = Inr s2 \<and>
     get_memory ''c'' s2 = Some w \<and> mem_valid_from w = Some 60"
proof -
  note gd = get_memory_def[of _ "_\<lparr>memory_entities := _, relation_evidence := _\<rparr>"]
  obtain s1 where s1: "supersede (\<lambda>_. ''u'') 50 ''a'' ''c'' None External demo_store = Inr s1"
    by (simp add: supersede_def get_demo Let_def)
  then have "get_memory ''b'' s1 = Some (demo_row ''b'' 2 20)"
    "get_memory ''c'' s1 = Some (demo_row ''c'' 3 30\<lparr>mem_valid_from := Some 50, mem_updated := 50\<rparr>)"
    by (auto simp: supersede_def get_demo Let_def get_update_memory gd get_memory_def[symmetric])
  then obtain s2 where s2: "supersede (\<lambda>_. ''v'') 60 ''b'' ''c'' None External s1 = Inr s2"
    by (simp add: supersede_def Let_def)
  show ?thesis using supersede_windows[OF s1 _ s2] s1 s2 by auto
qed

text \<open>
  Nothing stops a memory from superseding itself: on any current memory the operation succeeds
  and leaves it hidden behind itself, with an empty validity window and its entity links deleted.
\<close>

theorem self_supersede_hides:
  assumes "get_memory i s = Some m" and "mem_valid_to m = None"
  shows "\<exists>s' m'. supersede u now i i p c s = Inr s' \<and> get_memory i s' = Some m' \<and>
    superseded_by m' = Some i \<and> mem_valid_from m' = Some now \<and> mem_valid_to m' = Some now \<and>
    i \<notin> fst ` set (memory_entities s')"
  using assms
  by (auto simp: supersede_def Let_def get_update_memory
      get_memory_def[of _ "_\<lparr>memory_entities := _, relation_evidence := _\<rparr>"] get_memory_def[symmetric])

theorem self_supersede_hides_witness:
  "\<exists>s' m'. supersede (\<lambda>_. ''u'') 50 ''a'' ''a'' None External demo_store = Inr s' \<and>
     get_memory ''a'' s' = Some m' \<and> superseded_by m' = Some ''a''"
  using self_supersede_hides[OF get_demo(1), of "\<lambda>_. ''u''" 50 None External] by auto

section \<open>The archival pass\<close>

definition archive_row :: "epoch_ms \<Rightarrow> memory \<Rightarrow> memory" where
  "archive_row now m = m\<lparr>mem_valid_to := Some now, archived := True, archived_at := Some now, mem_updated := now\<rparr>"

definition stale :: "(string \<Rightarrow> real option) \<Rightarrow> real \<Rightarrow> string \<Rightarrow> bool" where
  "stale rates ufloor i \<longleftrightarrow> (case rates i of None \<Rightarrow> 0 | Some r \<Rightarrow> r) \<le> ufloor"

lemma archive_loop_Cons:
  "archive_loop rates ufloor u now (i # is) n s =
     (if stale rates ufloor i
      then (case archive (\<lambda>_. u n) now i (Some ''ttl-policy'') s of
              Inl e \<Rightarrow> (Some e, n, s)
            | Inr s1 \<Rightarrow> archive_loop rates ufloor u now is (n + 1) s1)
      else archive_loop rates ufloor u now is n s)"
  by (simp add: stale_def Let_def)

lemma current_iff: "row_inv bs m \<Longrightarrow> mem_valid_to m = None \<and> \<not> archived m \<longleftrightarrow> mode m = Current"
  by (auto simp: mode_simps) (auto simp: row_inv_def)

lemma archive_loop_ok:
  assumes "distinct is" and "\<And>i. i \<in> set is \<Longrightarrow> \<exists>m. get_memory i s = Some m \<and> mem_valid_to m = None"
  shows "\<exists>s'. archive_loop rates ufloor u now is n s = (None, n + length (filter (stale rates ufloor) is), s') \<and>
    (\<forall>k. get_memory k s' = (if k \<in> set is \<and> stale rates ufloor k
       then map_option (archive_row now) (get_memory k s) else get_memory k s))"
  using assms
proof (induction "is" arbitrary: n s)
  case (Cons i "is")
  obtain m where m: "get_memory i s = Some m" "mem_valid_to m = None" using Cons.prems(2)[of i] by auto
  show ?case
  proof (cases "stale rates ufloor i")
    case True
    obtain s1 where s1: "archive (\<lambda>_. u n) now i (Some ''ttl-policy'') s = Inr s1"
      using m by (simp add: archive_def)
    have g: "get_memory k s1 = (if k = i then map_option (archive_row now) (get_memory k s) else get_memory k s)" for k
      using s1 m by (auto simp: archive_def get_update_memory archive_row_def)
    have pre: "\<exists>m. get_memory k s1 = Some m \<and> mem_valid_to m = None" if "k \<in> set is" for k
      using that Cons.prems g[of k] by auto
    from Cons.prems(1) have d: "distinct is" by simp
    obtain s' where "archive_loop rates ufloor u now is (n + 1) s1 =
        (None, n + 1 + length (filter (stale rates ufloor) is), s')"
      "\<And>k. get_memory k s' = (if k \<in> set is \<and> stale rates ufloor k
         then map_option (archive_row now) (get_memory k s1) else get_memory k s1)"
      using Cons.IH[OF d pre] by blast
    then show ?thesis using True s1 g Cons.prems(1) by (auto simp: archive_loop_Cons simp del: archive_loop.simps)
  next
    case False
    obtain s' where "archive_loop rates ufloor u now is n s =
        (None, n + length (filter (stale rates ufloor) is), s')"
      "\<And>k. get_memory k s' = (if k \<in> set is \<and> stale rates ufloor k
         then map_option (archive_row now) (get_memory k s) else get_memory k s)"
      using Cons.IH[of s n] Cons.prems by auto
    then show ?thesis using False by (auto simp: archive_loop_Cons simp del: archive_loop.simps)
  qed
qed simp

text \<open>
  The archival pass never throws and archives exactly the current memories that are older than the
  age threshold and whose weekly usefulness is at or below the floor; every other row is unchanged,
  and the two numbers it reports are the archived and the considered rows.
\<close>

lemma archival_pass_spec:
  assumes "store_inv s" and "runArchivalPass True days ufloor rates u now s = (err, (n, c), s')"
  shows "err = None \<and>
    (\<forall>k. get_memory k s' = map_option (\<lambda>m.
       if mode m = Current \<and> mem_created m < now - days * 86400000 \<and> stale rates ufloor k
       then archive_row now m else m) (get_memory k s)) \<and>
    c = length (filter (\<lambda>m. mode m = Current \<and> mem_created m < now - days * 86400000) (memories s)) \<and>
    n = length (filter (\<lambda>m. mode m = Current \<and> mem_created m < now - days * 86400000 \<and>
                            stale rates ufloor (mem_id m)) (memories s))"
proof -
  let ?old = "\<lambda>m. mode m = Current \<and> mem_created m < now - days * 86400000"
  let ?cand = "map mem_id (filter ?old (memories s))"
  have sel: "filter (\<lambda>m. mem_valid_to m = None \<and> \<not> archived m \<and> mem_created m < now - days * (24 * 60 * 60 * 1000)) (memories s)
      = filter ?old (memories s)"
    using current_iff[OF store_inv_parts(4)[OF assms(1)]] by (intro filter_cong) auto
  have in_cand: "k \<in> set ?cand \<longleftrightarrow> (\<exists>m. get_memory k s = Some m \<and> ?old m)" for k
    using get_memory_in[of k s] mem_rows.get_in[OF store_inv_parts(7)[OF assms(1)]]
    by (force simp: get_memory_def)
  have d: "distinct ?cand" using store_inv_parts(7)[OF assms(1)] by (simp add: distinct_map_filter)
  have cur: "\<exists>m. get_memory k s = Some m \<and> mem_valid_to m = None" if "k \<in> set ?cand" for k
    using that in_cand[of k] mode_simps(1)[OF store_inv_row[OF assms(1)]] by auto
  obtain s1 where s1: "archive_loop rates ufloor u now ?cand 0 s =
      (None, length (filter (stale rates ufloor) ?cand), s1)"
    "\<And>k. get_memory k s1 = (if k \<in> set ?cand \<and> stale rates ufloor k
       then map_option (archive_row now) (get_memory k s) else get_memory k s)"
    using archive_loop_ok[OF d cur, of rates ufloor u now 0] by auto
  have len: "length (filter (stale rates ufloor) ?cand) =
      length (filter (\<lambda>m. ?old m \<and> stale rates ufloor (mem_id m)) (memories s))"
    by (simp add: filter_map comp_def conj_commute conj_left_commute)
  have rows: "get_memory k s1 = map_option (\<lambda>m. if ?old m \<and> stale rates ufloor k then archive_row now m else m)
      (get_memory k s)" for k
    unfolding s1(2) in_cand by (cases "get_memory k s") auto
  show ?thesis
  proof (cases "?cand = []")
    case True
    then have e: "filter ?old (memories s) = []" by simp
    have "s1 = s" using s1(1) unfolding True by simp
    with rows have r: "\<forall>k. get_memory k s = map_option (\<lambda>m. if ?old m \<and> stale rates ufloor k
        then archive_row now m else m) (get_memory k s)" by blast
    have q: "err = None" "n = 0" "c = 0" "s' = s"
      using assms(2) sel e by (simp_all add: runArchivalPass_def Let_def)
    have l: "length (filter (\<lambda>m. ?old m \<and> stale rates ufloor (mem_id m)) (memories s)) = 0"
      using len unfolding True by simp
    show ?thesis unfolding q e using r l by (simp add: conj_assoc)
  next
    case False
    then show ?thesis using assms(2) s1(1) rows len unfolding runArchivalPass_def Let_def sel
      by auto
  qed
qed

lemma archival_pass_spec_witness:
  "\<exists>n c s'. runArchivalPass True 1 (1 / 10) (\<lambda>i. if i = ''b'' then Some 1 else None) (\<lambda>_. ''u'') 86400025 demo_store
       = (None, (n, c), s') \<and> get_memory ''b'' s' = Some (demo_row ''b'' 2 20) \<and>
     get_memory ''a'' s' = Some (archive_row 86400025 (demo_row ''a'' 1 10))"
proof -
  obtain err n c s' where r: "runArchivalPass True 1 (1 / 10) (\<lambda>i. if i = ''b'' then Some 1 else None)
      (\<lambda>_. ''u'') 86400025 demo_store = (err, (n, c), s')" by (metis surj_pair)
  note sp = archival_pass_spec[OF demo_store_inv r]
  then show ?thesis unfolding r by (simp add: get_demo stale_def)
qed

section \<open>Insertion and batched lookups\<close>

text \<open>
  A content hash is stored at most once: inserting the same content again returns the memory that
  already holds the hash, reports it as not created, and changes neither the rows nor the log.
\<close>

theorem insert_is_idempotent:
  assumes "insertWithCreateEvent u now inp s = Inr ((i, b), s1)" and "in_hash inp' = in_hash inp"
    and "store_inv s"
  shows "insertWithCreateEvent u' now' inp' s1 = Inr ((i, False), s1) \<and> isErasedHash h s1 = isErasedHash h s \<and>
    (\<exists>m. get_memory i s1 = Some m \<and> mem_hash m = in_hash inp) \<and>
    (b \<longrightarrow> memories s1 = memories s @ [input_row i (new_rowid s) now inp]) \<and> (\<not> b \<longrightarrow> s1 = s)"
proof (cases "get_row mem_hash (in_hash inp) (memories s)")
  case (Some m)
  then have "m \<in> set (memories s)" "mem_hash m = in_hash inp" by (auto dest: get_row_SomeD)
  then have "get_memory (mem_id m) s = Some m"
    using mem_rows.get_in[OF store_inv_parts(7)[OF assms(3)]] by (simp add: get_memory_def)
  with Some assms(1,2) \<open>mem_hash m = in_hash inp\<close> show ?thesis by (auto simp: insertWithCreateEvent_def)
next
  case None
  with assms(1) have "insertRow (u 0) now inp s = Inr (u 0, s\<lparr>memories := memories s @ [input_row (u 0) (new_rowid s) now inp]\<rparr>)"
    "i = u 0" "b" "get_memory (u 0) s = None"
    "s1 = append_event (u 1) now E_Create i (Some (P_Create (create_payload_of inp))) (Some (in_hash inp))
       (s\<lparr>memories := memories s @ [input_row (u 0) (new_rowid s) now inp]\<rparr>)"
    by (auto simp: insertWithCreateEvent_def insertRow_def split: if_splits)
  then show ?thesis using None assms(2)
    by (auto simp: insertWithCreateEvent_def get_row_append get_memory_def isErasedHash_def append_event_def)
qed

theorem insert_is_idempotent_witness:
  "\<exists>s1. insertWithCreateEvent (\<lambda>_. ''n'') 50 (demo_input ''a'') demo_store = Inr ((''a'', False), s1) \<and>
     insertWithCreateEvent (\<lambda>_. ''m'') 60 (demo_input ''a'') s1 = Inr ((''a'', False), s1)"
proof -
  have h: "in_hash (demo_input ''a'') = ''a''" by (simp add: demo_input_def)
  have i: "insertWithCreateEvent (\<lambda>_. ''n'') 50 (demo_input ''a'') demo_store = Inr ((''a'', False), demo_store)"
    by (simp add: insertWithCreateEvent_def h) (simp add: demo_store_def)
  show ?thesis using insert_is_idempotent[OF i refl demo_store_inv] i by blast
qed

lemma concat_chunks: "concat (chunks n xs) = xs"
proof (induction n xs rule: chunks.induct)
  case (1 n xs)
  then show ?case by (subst chunks.simps) auto
qed

lemma chunks_bounded: "b \<in> set (chunks n xs) \<Longrightarrow> 0 < length b \<and> length b \<le> Suc n"
proof (induction n xs rule: chunks.induct)
  case (1 n xs)
  show ?case
  proof (cases "xs = []")
    case False
    with 1 show ?thesis by (subst (asm) (2) chunks.simps) auto
  qed (use 1 in \<open>simp add: chunks.simps\<close>)
qed

lemma concat_map_chunks:
  assumes "f [] = []" and "\<And>xs ys. f (xs @ ys) = f xs @ f ys"
  shows "concat (map f xss) = f (concat xss)"
  using assms by (induction xss) auto

text \<open>
  Batching is invisible: every batch is non-empty and stays within SQLite's parameter limit, the
  batches are the id list cut in order, and a lookup that distributes over concatenation gives the
  same rows batched as it would in one query.
\<close>

theorem chunkedIn_transparent:
  assumes "f [] = []" and "\<And>xs ys. f (xs @ ys) = f xs @ f ys"
  shows "chunkedIn f ids = f ids \<and> concat (chunks (CHUNK_IN_BATCH_SIZE - 1) ids) = ids \<and>
    (\<forall>b \<in> set (chunks (CHUNK_IN_BATCH_SIZE - 1) ids). b \<noteq> [] \<and> length b \<le> 900)"
proof (intro conjI ballI)
  show "chunkedIn f ids = f ids"
    unfolding chunkedIn_def using concat_map_chunks[of f, OF assms] by (simp add: concat_chunks)
  show "concat (chunks (CHUNK_IN_BATCH_SIZE - 1) ids) = ids" by (rule concat_chunks)
  show "b \<noteq> []" "length b \<le> 900" if "b \<in> set (chunks (CHUNK_IN_BATCH_SIZE - 1) ids)" for b
    using chunks_bounded[OF that] by (auto simp: CHUNK_IN_BATCH_SIZE_def)
qed

theorem chunkedIn_transparent_witness: "chunkedIn (map Suc) [1, 2, 3] = [2, 3, 4]"
  using chunkedIn_transparent[of "map Suc" "[1, 2, 3]"] by simp

end
