(* ===== verification/Sync_Merge.thy ===== *)
theory Sync_Merge
  imports Lifecycle
begin

text \<open>
  Pulling remote events: the projection recompute of \<open>src/src/sync/conflict-resolve.ts\<close> and the
  pull rounds of \<open>src/src/sync/puller.ts\<close>. The cloud is the environment: a fetch returns any
  batch, or fails.

  \<open>recomputeProjection\<close> and \<open>chainLoserToWinner\<close> call each other without a bound. The model
  gives the recursion the depth the JavaScript stack has room for: \<open>None\<close> is the \<open>RangeError\<close> of
  a call nested deeper than that, for every finite stack. Random event ids are drawn per position in
  the log: \<open>u n\<close> is the id of the event that gets sequence number \<open>n\<close>.
\<close>

section \<open>Recomputing a projection\<close>

definition tie_le :: "mem_event \<Rightarrow> mem_event \<Rightarrow> bool" where
  "tie_le a b \<longleftrightarrow> ev_created a < ev_created b \<or> (ev_created a = ev_created b \<and> event_id a \<le> event_id b)"

fun insert_event :: "mem_event \<Rightarrow> mem_event list \<Rightarrow> mem_event list" where
  "insert_event e [] = [e]"
| "insert_event e (f # fs) = (if tie_le e f then e # f # fs else f # insert_event e fs)"

text \<open>\<open>ORDER BY created_at, event_id\<close>.\<close>

definition loadEvents :: "string \<Rightarrow> store \<Rightarrow> mem_event list" where
  "loadEvents i s = foldr insert_event (filter (\<lambda>e. atom_id e = i) (events s)) []"

definition rowExists :: "string \<Rightarrow> store \<Rightarrow> bool" where
  "rowExists i s \<longleftrightarrow> get_memory i s \<noteq> None"

definition hardDeleteAtom :: "string \<Rightarrow> store \<Rightarrow> bool \<times> store" where
  "hardDeleteAtom i s =
     (case get_memory i s of
        None \<Rightarrow> (False, s)
      | Some row \<Rightarrow>
          (True, delete_memory i (s\<lparr>memories_vec := delete_rows (\<lambda>r. r = mem_rowid row) (memories_vec s)\<rparr>)))"

definition supersedeTarget :: "mem_event \<Rightarrow> string option" where
  "supersedeTarget e =
     (case ev_payload e of
        Some (P_Superseded t _) \<Rightarrow> if t = [] then None else Some t
      | Some (P_Superseded_Bulk t _) \<Rightarrow> if t = [] then None else Some t
      | Some (P_Conflict_Merge t) \<Rightarrow> if t = [] then None else Some t
      | _ \<Rightarrow> None)"

fun maxByTieBreak :: "mem_event \<Rightarrow> mem_event list \<Rightarrow> mem_event" where
  "maxByTieBreak best [] = best"
| "maxByTieBreak best (e # es) =
     maxByTieBreak
       (if ev_created e > ev_created best then e
        else if ev_created e < ev_created best then best
        else if event_id e > event_id best then e else best) es"

definition chained :: "string \<Rightarrow> string \<Rightarrow> store \<Rightarrow> bool" where
  "chained loser winner s \<longleftrightarrow>
     list_ex (\<lambda>e. atom_id e = loser \<and> event_type e = E_Supersede \<and> ev_payload e = Some (P_Conflict_Merge winner))
       (events s)"

text \<open>The event part of \<open>chainLoserToWinner\<close>; its call of \<open>recomputeProjection\<close> follows below.\<close>

definition chain_event :: "(nat \<Rightarrow> string) \<Rightarrow> string \<Rightarrow> string \<Rightarrow> epoch_ms \<Rightarrow> store \<Rightarrow> store" where
  "chain_event u loser winner t s =
     (if chained loser winner s then s
      else append_event (u (next_seq s)) t E_Supersede loser (Some (P_Conflict_Merge winner)) None s)"

definition min_created :: "mem_event list \<Rightarrow> epoch_ms" where
  "min_created es = foldr (\<lambda>e m. min (ev_created e) m) (tl es) (ev_created (hd es))"

fun recomputeProjection :: "nat \<Rightarrow> (nat \<Rightarrow> string) \<Rightarrow> epoch_ms \<Rightarrow> string \<Rightarrow> store \<Rightarrow> store option" where
  "recomputeProjection 0 u now i s = None"
| "recomputeProjection (Suc stack) u now i s =
     (let evs = loadEvents i s;
          supersedes = filter (\<lambda>e. event_type e = E_Supersede) evs;
          invalidates = filter (\<lambda>e. event_type e = E_Invalidate) evs
      in if list_ex (\<lambda>e. event_type e = E_Erase_Request) evs then Some (snd (hardDeleteAtom i s))
         else if \<not> rowExists i s then Some s
         else if supersedes = [] \<and> invalidates = [] then Some s
         else if supersedes \<noteq> [] then
           (let resolvable = filter (\<lambda>e. supersedeTarget e \<noteq> None) supersedes
            in case resolvable of
                 [] \<Rightarrow> Some s
               | r # rs \<Rightarrow>
                   (let winner = maxByTieBreak r rs;
                        winnerTarget = the (supersedeTarget winner);
                        validTo = min_created supersedes;
                        s1 = update_memory i (\<lambda>m. m\<lparr>mem_valid_to := Some validTo,
                               superseded_by := Some winnerTarget, mem_updated := now\<rparr>) s
                    in foldl (\<lambda>acc loser.
                         case acc of
                           None \<Rightarrow> None
                         | Some s2 \<Rightarrow>
                             if loser = winner \<or> supersedeTarget loser = Some winnerTarget then Some s2
                             else (let t = the (supersedeTarget loser)
                                   in recomputeProjection stack u now t
                                        (chain_event u t winnerTarget (max (ev_created loser) now) s2)))
                       (Some s1) resolvable))
         else Some (update_memory i (\<lambda>m. m\<lparr>mem_valid_to := Some (min_created invalidates), mem_updated := now\<rparr>) s))"

section \<open>Pull rounds\<close>

record atom_snapshot =
  sn_type :: string
  sn_text :: string
  sn_normalized :: string
  sn_hash :: string
  sn_scope :: mem_scope
  sn_repo :: "string option"
  sn_project :: "string option"
  sn_branch :: "string option"
  sn_agent :: "string option"
  sn_session :: "string option"
  sn_importance :: "real option"
  sn_confidence :: "real option"
  sn_source_hash :: "string option"
  sn_evidence :: "string option"

record remote_event =
  re_id :: string
  re_type :: event_type
  re_atom :: string
  re_payload :: "payload option"
  re_hash :: "string option"
  re_created :: epoch_ms
  re_snapshot :: "atom_snapshot option"

record pull_batch =
  pb_events :: "remote_event list"
  next_cursor :: "string option"

record pull_state =
  pstore :: store
  cursor :: "string option"

datatype pull_error = Fetch_Failed | Unique_Violation string | Stack_Overflow

record pull_once_result =
  fetched :: nat
  inserted :: nat
  atomsRecomputed :: nat
  pr_cursor :: "string option"
  idle :: bool

definition dedupInsertEvent :: "remote_event \<Rightarrow> store \<Rightarrow> bool \<times> store" where
  "dedupInsertEvent e s =
     (if list_ex (\<lambda>f. event_id f = re_id e) (events s) then (False, s)
      else (True, append_event (re_id e) (re_created e) (re_type e) (re_atom e) (re_payload e) (re_hash e) s))"

definition snapshot_row :: "string \<Rightarrow> nat \<Rightarrow> atom_snapshot \<Rightarrow> epoch_ms \<Rightarrow> epoch_ms \<Rightarrow> memory" where
  "snapshot_row i r sn createdAt now =
     \<lparr>mem_id = i, mem_rowid = r, mem_type = sn_type sn, mem_text = sn_text sn,
      mem_normalized = sn_normalized sn, mem_repo = sn_repo sn, mem_project = sn_project sn,
      mem_branch = sn_branch sn, mem_agent = sn_agent sn, mem_session = sn_session sn,
      mem_importance = (case sn_importance sn of None \<Rightarrow> 1 / 2 | Some x \<Rightarrow> x),
      mem_confidence = (case sn_confidence sn of None \<Rightarrow> 1 / 2 | Some x \<Rightarrow> x),
      mem_hash = sn_hash sn,
      mem_embedding = \<lparr>embedding_provider = None, embedding_model = None, embedding_dim = None\<rparr>,
      mem_created = createdAt, mem_updated = now, mem_source_hash = sn_source_hash sn,
      mem_evidence = sn_evidence sn, mem_valid_from = Some createdAt, mem_valid_to = None,
      superseded_by = None, derived_from = None, mem_scope = sn_scope sn, archived = False,
      archived_at = None, capture_source = None, purge_batch_id = None, validity_extracted = False,
      needs_vec_index = False, speaker_label = None, consent_disclosed = None,
      evidence_supported = None, mem_location = None\<rparr>"

definition materializeAtomIfMissing ::
  "string \<Rightarrow> atom_snapshot \<Rightarrow> epoch_ms \<Rightarrow> epoch_ms \<Rightarrow> store \<Rightarrow> pull_error + bool \<times> store" where
  "materializeAtomIfMissing i sn createdAt now s =
     (if get_memory i s \<noteq> None then Inr (False, s)
      else if get_row mem_hash (sn_hash sn) (memories s) \<noteq> None then Inl (Unique_Violation ''memories.hash'')
      else Inr (True, s\<lparr>memories := memories s @ [snapshot_row i (new_rowid s) sn createdAt now]\<rparr>))"

text \<open>The loop over the batch: the number inserted and the touched atoms in insertion order.\<close>

fun merge_events ::
  "epoch_ms \<Rightarrow> remote_event list \<Rightarrow> nat \<Rightarrow> string list \<Rightarrow> store \<Rightarrow> pull_error + nat \<times> string list \<times> store" where
  "merge_events now [] n touched s = Inr (n, touched, s)"
| "merge_events now (e # es) n touched s =
     (case dedupInsertEvent e s of
        (False, s1) \<Rightarrow> merge_events now es n touched s1
      | (True, s1) \<Rightarrow>
          (let touched1 = (if re_atom e \<in> set touched then touched else touched @ [re_atom e])
           in case (re_type e, re_snapshot e) of
                (E_Create, Some sn) \<Rightarrow>
                  (case materializeAtomIfMissing (re_atom e) sn (re_created e) now s1 of
                     Inl err \<Rightarrow> Inl err
                   | Inr (_, s2) \<Rightarrow> merge_events now es (n + 1) touched1 s2)
              | _ \<Rightarrow> merge_events now es (n + 1) touched1 s1))"

fun recompute_all :: "nat \<Rightarrow> (nat \<Rightarrow> string) \<Rightarrow> epoch_ms \<Rightarrow> string list \<Rightarrow> store \<Rightarrow> store option" where
  "recompute_all stack u now [] s = Some s"
| "recompute_all stack u now (i # is) s =
     (case recomputeProjection stack u now i s of
        None \<Rightarrow> None
      | Some s1 \<Rightarrow> recompute_all stack u now is s1)"

text \<open>One round on the batch the fetcher returned; \<open>None\<close> is a fetcher that threw.\<close>

definition pullOnce ::
  "nat \<Rightarrow> (nat \<Rightarrow> string) \<Rightarrow> epoch_ms \<Rightarrow> pull_batch option \<Rightarrow> pull_state \<Rightarrow> pull_error + pull_once_result \<times> pull_state" where
  "pullOnce stack u now fetch st =
     (case fetch of
        None \<Rightarrow> Inl Fetch_Failed
      | Some batch \<Rightarrow>
          if pb_events batch = []
          then Inr (\<lparr>fetched = 0, inserted = 0, atomsRecomputed = 0, pr_cursor = cursor st, idle = True\<rparr>, st)
          else
            (case merge_events now (pb_events batch) 0 [] (pstore st) of
               Inl err \<Rightarrow> Inl err
             | Inr (n, touched, s1) \<Rightarrow>
                 (case recompute_all stack u now touched s1 of
                    None \<Rightarrow> Inl Stack_Overflow
                  | Some s2 \<Rightarrow>
                      Inr (\<lparr>fetched = length (pb_events batch), inserted = n, atomsRecomputed = length touched,
                            pr_cursor = next_cursor batch, idle = False\<rparr>,
                           st\<lparr>pstore := s2, cursor := next_cursor batch\<rparr>))))"

record drain_result =
  rounds :: nat
  totalFetched :: nat
  totalInserted :: nat
  dr_cursor :: "string option"

text \<open>
  \<open>fetcher k c\<close> is what the fetcher returns in the \<open>k\<close>-th round for cursor \<open>c\<close>. \<open>left\<close> is the
  number of rounds still allowed. A throwing round ends the loop; the rounds before it are durable.
\<close>

fun drain_loop ::
  "nat \<Rightarrow> (nat \<Rightarrow> string) \<Rightarrow> epoch_ms \<Rightarrow> (nat \<Rightarrow> string option \<Rightarrow> pull_batch option) \<Rightarrow> nat \<Rightarrow>
   drain_result \<Rightarrow> pull_state \<Rightarrow> (pull_error + drain_result) \<times> pull_state" where
  "drain_loop stack u now fetcher 0 acc st = (Inr acc, st)"
| "drain_loop stack u now fetcher (Suc left) acc st =
     (case pullOnce stack u now (fetcher (rounds acc) (cursor st)) st of
        Inl err \<Rightarrow> (Inl err, st)
      | Inr (r, st1) \<Rightarrow>
          (let acc1 = \<lparr>rounds = rounds acc + 1, totalFetched = totalFetched acc + fetched r,
                       totalInserted = totalInserted acc + inserted r, dr_cursor = pr_cursor r\<rparr>
           in if idle r \<or> pr_cursor r = None then (Inr acc1, st1)
              else drain_loop stack u now fetcher left acc1 st1))"

definition drainPull ::
  "nat \<Rightarrow> (nat \<Rightarrow> string) \<Rightarrow> epoch_ms \<Rightarrow> (nat \<Rightarrow> string option \<Rightarrow> pull_batch option) \<Rightarrow> nat \<Rightarrow>
   pull_state \<Rightarrow> (pull_error + drain_result) \<times> pull_state" where
  "drainPull stack u now fetcher maxRounds st =
     drain_loop stack u now fetcher maxRounds
       \<lparr>rounds = 0, totalFetched = 0, totalInserted = 0, dr_cursor = cursor st\<rparr> st"

section \<open>What the recompute reads\<close>

declare recomputeProjection.simps(2) [simp del]

lemma set_insert_event [simp]: "set (insert_event e es) = insert e (set es)"
  by (induction es) auto

lemma set_loadEvents: "set (loadEvents i s) = {e \<in> set (events s). atom_id e = i}"
proof -
  have "set (foldr insert_event es []) = set es" for es by (induction es) auto
  then show ?thesis by (auto simp: loadEvents_def)
qed

lemma maxByTieBreak_in: "maxByTieBreak b es \<in> insert b (set es)"
  by (induction es arbitrary: b) (auto split: if_splits)

lemma maxByTieBreak_le: "x \<in> insert b (set es) \<Longrightarrow> tie_le x (maxByTieBreak b es)"
proof (induction es arbitrary: b x)
  case Nil
  then show ?case by (simp add: tie_le_def)
next
  case (Cons e es)
  let ?b = "if ev_created e > ev_created b then e
        else if ev_created e < ev_created b then b
        else if event_id e > event_id b then e else b"
  have "tie_le e ?b" "tie_le b ?b" by (auto simp: tie_le_def)
  moreover have "tie_le ?b (maxByTieBreak ?b es)" by (rule Cons.IH) simp
  moreover have "tie_le x (maxByTieBreak ?b es)" if "x \<in> set es" using Cons.IH that by blast
  ultimately show ?case using Cons.prems by (auto simp: tie_le_def) 
qed

lemma min_created_Min: "es \<noteq> [] \<Longrightarrow> min_created es = Min (ev_created ` set es)"
proof -
  have "foldr (\<lambda>e m. min (ev_created e) m) xs a = Min (insert a (ev_created ` set xs))" for xs a
  proof (induction xs)
    case (Cons x xs)
    then show ?case by (simp add: insert_commute[of a])
  qed simp
  then show "es \<noteq> [] \<Longrightarrow> ?thesis" by (cases es) (simp_all add: min_created_def)
qed

text \<open>The supersede events of an atom, and those whose target can be read.\<close>

definition supersedes_of :: "string \<Rightarrow> store \<Rightarrow> mem_event set" where
  "supersedes_of i s = {e \<in> set (events s). atom_id e = i \<and> event_type e = E_Supersede}"

definition targets_of :: "string \<Rightarrow> store \<Rightarrow> string set" where
  "targets_of i s = {t. \<exists>e \<in> supersedes_of i s. supersedeTarget e = Some t}"

definition erased_in :: "string \<Rightarrow> store \<Rightarrow> bool" where
  "erased_in i s \<longleftrightarrow> (\<exists>e \<in> set (events s). atom_id e = i \<and> event_type e = E_Erase_Request)"

definition superseded_row :: "epoch_ms \<Rightarrow> epoch_ms \<Rightarrow> string \<Rightarrow> memory \<Rightarrow> memory" where
  "superseded_row now v t m = m\<lparr>mem_valid_to := Some v, superseded_by := Some t, mem_updated := now\<rparr>"

definition chain_step ::
  "nat \<Rightarrow> (nat \<Rightarrow> string) \<Rightarrow> epoch_ms \<Rightarrow> mem_event \<Rightarrow> string \<Rightarrow> store option \<Rightarrow> mem_event \<Rightarrow> store option" where
  "chain_step stack u now winner winnerTarget acc loser =
     (case acc of
        None \<Rightarrow> None
      | Some s2 \<Rightarrow>
          if loser = winner \<or> supersedeTarget loser = Some winnerTarget then Some s2
          else (let t = the (supersedeTarget loser)
                in recomputeProjection stack u now t
                     (chain_event u t winnerTarget (max (ev_created loser) now) s2)))"

lemma recompute_fork:
  assumes "\<not> erased_in i s" and "rowExists i s" and "targets_of i s \<noteq> {}"
  shows "\<exists>ls w t. set ls = {e \<in> supersedes_of i s. supersedeTarget e \<noteq> None} \<and> w \<in> set ls \<and>
    (\<forall>e \<in> set ls. tie_le e w) \<and> supersedeTarget w = Some t \<and>
    recomputeProjection (Suc n) u now i s =
      foldl (chain_step n u now w t)
        (Some (update_memory i (superseded_row now (Min (ev_created ` supersedes_of i s)) t) s)) ls"
proof -
  let ?sup = "filter (\<lambda>e. event_type e = E_Supersede) (loadEvents i s)"
  let ?ls = "filter (\<lambda>e. supersedeTarget e \<noteq> None) ?sup"
  have sup: "set ?sup = supersedes_of i s" by (auto simp: set_loadEvents supersedes_of_def)
  have ls: "set ?ls = {e \<in> supersedes_of i s. supersedeTarget e \<noteq> None}"
    using sup by auto
  have "?ls \<noteq> []"
  proof
    assume "?ls = []"
    then have "{e \<in> supersedes_of i s. supersedeTarget e \<noteq> None} = {}" using ls by (metis list.set(1))
    then show False using assms(3) by (auto simp: targets_of_def)
  qed
  then obtain r rs where r: "?ls = r # rs" by (cases ?ls) auto
  let ?w = "maxByTieBreak r rs"
  have w: "?w \<in> set ?ls" using maxByTieBreak_in[of r rs] unfolding r by simp
  then obtain t where t: "supersedeTarget ?w = Some t" unfolding ls by auto
  have mx: "\<forall>e \<in> set ?ls. tie_le e ?w" using maxByTieBreak_le[of _ r rs] unfolding r by auto
  have ne: "?sup \<noteq> []" using w by (metis filter.simps(1) empty_iff list.set(1))
  have er: "\<not> list_ex (\<lambda>e. event_type e = E_Erase_Request) (loadEvents i s)"
    using assms(1) by (auto simp: list_ex_iff set_loadEvents erased_in_def)
  have mn: "min_created ?sup = Min (ev_created ` supersedes_of i s)"
    using min_created_Min[OF ne] unfolding sup .
  have "recomputeProjection (Suc n) u now i s =
      foldl (chain_step n u now ?w t) (Some (update_memory i (superseded_row now (min_created ?sup) t) s)) ?ls"
    using er ne assms(2) t
    by (simp only: recomputeProjection.simps Let_def r list.case if_False if_True simp_thms option.sel
        chain_step_def[abs_def] superseded_row_def[abs_def])
  then show ?thesis unfolding mn using ls w t mx by blast
qed

lemma chain_step_skip:
  "(\<And>e. e \<in> set ls \<Longrightarrow> e = w \<or> supersedeTarget e = Some t) \<Longrightarrow>
   foldl (chain_step n u now w t) acc ls = acc"
proof (induction ls arbitrary: acc)
  case (Cons e ls)
  then show ?case by (cases acc) (simp_all add: chain_step_def[abs_def])
qed simp

lemma chain_step_None [simp]: "foldl (chain_step n u now w t) None ls = None"
  by (induction ls) (simp_all add: chain_step_def[abs_def])

lemma recompute_no_fork:
  assumes "\<not> erased_in i s" and "rowExists i s" and "targets_of i s = {t}"
  shows "recomputeProjection (Suc n) u now i s =
    Some (update_memory i (superseded_row now (Min (ev_created ` supersedes_of i s)) t) s)"
proof -
  obtain ls w t' where ls: "set ls = {e \<in> supersedes_of i s. supersedeTarget e \<noteq> None}" "w \<in> set ls"
    "supersedeTarget w = Some t'"
    "recomputeProjection (Suc n) u now i s = foldl (chain_step n u now w t')
      (Some (update_memory i (superseded_row now (Min (ev_created ` supersedes_of i s)) t') s)) ls"
    using recompute_fork[OF assms(1,2), of n u now] assms(3) by blast
  have "t' = t" using ls assms(3) by (auto simp: targets_of_def)
  moreover have "supersedeTarget e = Some t" if "e \<in> set ls" for e
    using that ls(1) assms(3) by (auto simp: targets_of_def)
  ultimately show ?thesis using ls(4) by (simp add: chain_step_skip)
qed

section \<open>Erasure and invalidation\<close>

lemma recompute_erased:
  assumes "erased_in i s"
  shows "recomputeProjection (Suc n) u now i s = Some (snd (hardDeleteAtom i s))"
proof -
  have "list_ex (\<lambda>e. event_type e = E_Erase_Request) (loadEvents i s)"
    using assms by (auto simp: list_ex_iff set_loadEvents erased_in_def)
  then show ?thesis by (simp add: recomputeProjection.simps(2) Let_def)
qed

lemma get_hardDelete: "get_memory k (snd (hardDeleteAtom i s)) = (if k = i then None else get_memory k s)"
  by (auto simp: hardDeleteAtom_def delete_memory_def get_memory_def mem_rows.get_delete_key split: option.splits)

definition invalidates_of :: "string \<Rightarrow> store \<Rightarrow> mem_event set" where
  "invalidates_of i s = {e \<in> set (events s). atom_id e = i \<and> event_type e = E_Invalidate}"

lemma recompute_invalidated:
  assumes "\<not> erased_in i s" and "rowExists i s" and "supersedes_of i s = {}" and "invalidates_of i s \<noteq> {}"
  shows "recomputeProjection (Suc n) u now i s =
    Some (update_memory i (\<lambda>m. m\<lparr>mem_valid_to := Some (Min (ev_created ` invalidates_of i s)), mem_updated := now\<rparr>) s)"
proof -
  let ?inv = "filter (\<lambda>e. event_type e = E_Invalidate) (loadEvents i s)"
  have "set ?inv = invalidates_of i s" by (auto simp: set_loadEvents invalidates_of_def)
  moreover from this assms(4) have "?inv \<noteq> []" by (metis list.set(1))
  ultimately have mn: "min_created ?inv = Min (ev_created ` invalidates_of i s)" by (simp add: min_created_Min)
  have "filter (\<lambda>e. event_type e = E_Supersede) (loadEvents i s) = []"
    using assms(3) by (auto simp: filter_empty_conv set_loadEvents supersedes_of_def)
  moreover have "\<not> list_ex (\<lambda>e. event_type e = E_Erase_Request) (loadEvents i s)"
    using assms(1) by (auto simp: list_ex_iff set_loadEvents erased_in_def)
  ultimately show ?thesis using assms(2) \<open>?inv \<noteq> []\<close> by (simp add: recomputeProjection.simps(2) Let_def mn)
qed

text \<open>
  C16: on an atom without a fork the recompute is a function of the SET of its events: whatever the order in
  which two devices received them, the row ends up the same. An erase request deletes it; otherwise
  any supersede beats every invalidate, the row ends at the earliest supersede (or, without one, the
  earliest invalidate), and no other row changes.
\<close>

theorem projection_is_order_independent:
  assumes "set (events s) \<inter> {e. atom_id e = i} = E" and "get_memory i s = Some m"
    and "targets_of i s = {t} \<or> supersedes_of i s = {} \<and> invalidates_of i s \<noteq> {}"
  shows "\<exists>s'. recomputeProjection (Suc n) u now i s = Some s' \<and>
    get_memory i s' =
      (if \<exists>e \<in> E. event_type e = E_Erase_Request then None
       else if \<exists>e \<in> E. event_type e = E_Supersede
       then Some (superseded_row now (Min (ev_created ` {e \<in> E. event_type e = E_Supersede})) t m)
       else Some (m\<lparr>mem_valid_to := Some (Min (ev_created ` {e \<in> E. event_type e = E_Invalidate})),
                    mem_updated := now\<rparr>)) \<and>
    (\<forall>k. k \<noteq> i \<longrightarrow> get_memory k s' = get_memory k s)"
proof -
  have E: "supersedes_of i s = {e \<in> E. event_type e = E_Supersede}"
    "invalidates_of i s = {e \<in> E. event_type e = E_Invalidate}"
    "erased_in i s \<longleftrightarrow> (\<exists>e \<in> E. event_type e = E_Erase_Request)"
    using assms(1) by (auto simp: supersedes_of_def invalidates_of_def erased_in_def)
  have ex: "rowExists i s" using assms(2) by (simp add: rowExists_def)
  show ?thesis
  proof (cases "erased_in i s")
    case True
    then show ?thesis using E(3) by (auto simp: recompute_erased get_hardDelete)
  next
    case False
    show ?thesis
    proof (cases "targets_of i s = {t}")
      case True
      then have "supersedes_of i s \<noteq> {}" by (auto simp: targets_of_def)
      then have "\<exists>e \<in> E. event_type e = E_Supersede" using E(1) by blast
      then show ?thesis using recompute_no_fork[OF False ex True, of n u now] False E assms(2)
        by (auto simp: get_update_memory superseded_row_def)
    next
      case ns: False
      then have "supersedes_of i s = {}" "invalidates_of i s \<noteq> {}" using assms(3) by auto
      then show ?thesis using recompute_invalidated[OF False ex, of n u now] False E assms(2)
        by (auto simp: get_update_memory)
    qed
  qed
qed

section \<open>A fork on a cycle\<close>

definition later_than :: "string \<Rightarrow> string \<Rightarrow> string \<Rightarrow> store \<Rightarrow> bool" where
  "later_than i b c s \<longleftrightarrow>
     (\<exists>f \<in> supersedes_of i s. supersedeTarget f = Some c \<and>
        (\<forall>e \<in> supersedes_of i s. supersedeTarget e = Some b \<longrightarrow> ev_created e < ev_created f))"

definition entangled :: "string \<Rightarrow> string \<Rightarrow> string \<Rightarrow> store \<Rightarrow> bool" where
  "entangled a b c s \<longleftrightarrow>
     rowExists a s \<and> rowExists b s \<and> \<not> erased_in a s \<and> \<not> erased_in b s \<and>
     targets_of a s = {b, c} \<and> targets_of b s = {a, c} \<and> later_than a b c s \<and> later_than b a c s"

lemma entangled_sym: "entangled a b c s \<Longrightarrow> entangled b a c s"
  by (auto simp: entangled_def)

lemma frame_row_update:
  "(\<And>m. mem_id (f m) = mem_id m) \<Longrightarrow> rowExists k (update_memory i f s) = rowExists k s"
  "supersedes_of k (update_memory i f s) = supersedes_of k s"
  "erased_in k (update_memory i f s) = erased_in k s"
  "targets_of k (update_memory i f s) = targets_of k s"
  "later_than k b c (update_memory i f s) = later_than k b c s"
  by (simp_all add: rowExists_def get_update_memory supersedes_of_def erased_in_def targets_of_def later_than_def)

lemma chain_event_cases:
  obtains "chain_event u b c t s = s" | e where
    "chain_event u b c t s = append_event (u (next_seq s)) t E_Supersede b (Some (P_Conflict_Merge c)) None s"
    "events (chain_event u b c t s) = events s @ [e]" "atom_id e = b" "event_type e = E_Supersede"
    "ev_payload e = Some (P_Conflict_Merge c)" "ev_created e = t"
  by (cases "chained b c s") (auto simp: chain_event_def append_event_def)

lemma chain_event_frame:
  assumes "c \<noteq> []"
  shows "rowExists k (chain_event u b c t s) = rowExists k s"
    and "erased_in k (chain_event u b c t s) = erased_in k s"
    and "k \<noteq> b \<Longrightarrow> supersedes_of k (chain_event u b c t s) = supersedes_of k s"
    and "targets_of b (chain_event u b c t s) = insert c (targets_of b s)"
    and "\<exists>e \<in> supersedes_of b (chain_event u b c t s). supersedeTarget e = Some c"
    and "\<not> chained b c s \<Longrightarrow> \<exists>e \<in> supersedes_of b (chain_event u b c t s). supersedeTarget e = Some c \<and> ev_created e = t"
    and "e \<in> supersedes_of b (chain_event u b c t s) \<Longrightarrow> e \<in> supersedes_of b s \<or> supersedeTarget e = Some c"
    and "supersedes_of b s \<subseteq> supersedes_of b (chain_event u b c t s)"
proof -
  show "rowExists k (chain_event u b c t s) = rowExists k s"
    by (simp add: chain_event_def rowExists_def)
  let ?e = "\<lparr>seq = next_seq s, event_id = u (next_seq s), event_type = E_Supersede, atom_id = b,
    ev_payload = Some (P_Conflict_Merge c), content_hash = None, ev_created = t, synced_at = None, rejected_at = None\<rparr>"
  have tg: "supersedeTarget ?e = Some c" using assms by (simp add: supersedeTarget_def)
  show "erased_in k (chain_event u b c t s) = erased_in k s"
    by (auto simp: chain_event_def erased_in_def append_event_def)
  show "k \<noteq> b \<Longrightarrow> supersedes_of k (chain_event u b c t s) = supersedes_of k s"
    by (auto simp: chain_event_def supersedes_of_def append_event_def)
  have new: "supersedes_of b (chain_event u b c t s) =
      (if chained b c s then supersedes_of b s else insert ?e (supersedes_of b s))"
    by (auto simp: chain_event_def supersedes_of_def append_event_def)
  have old: "\<exists>e \<in> supersedes_of b s. supersedeTarget e = Some c" if "chained b c s"
    using that assms by (auto simp: chained_def list_ex_iff supersedes_of_def supersedeTarget_def)
  show "targets_of b (chain_event u b c t s) = insert c (targets_of b s)"
    using new old tg by (auto simp: targets_of_def)
  show "\<exists>e \<in> supersedes_of b (chain_event u b c t s). supersedeTarget e = Some c"
    using new old tg by auto
  show "\<not> chained b c s \<Longrightarrow> \<exists>e \<in> supersedes_of b (chain_event u b c t s). supersedeTarget e = Some c \<and> ev_created e = t"
    using new tg by auto
  show "e \<in> supersedes_of b (chain_event u b c t s) \<Longrightarrow> e \<in> supersedes_of b s \<or> supersedeTarget e = Some c"
    using new tg by (auto split: if_splits)
  show "supersedes_of b s \<subseteq> supersedes_of b (chain_event u b c t s)" using new by auto
qed

lemma entangled_chain:
  assumes "entangled a b c s" and "c \<noteq> []" and "a \<noteq> b" and "c \<noteq> a"
  shows "entangled a b c (chain_event u b c t s)"
proof -
  note f = chain_event_frame[OF assms(2)]
  obtain g where g: "g \<in> supersedes_of b s" "supersedeTarget g = Some c"
    "\<forall>e \<in> supersedes_of b s. supersedeTarget e = Some a \<longrightarrow> ev_created e < ev_created g"
    using assms(1) by (auto simp: entangled_def later_than_def)
  have "later_than b a c (chain_event u b c t s)"
    unfolding later_than_def using g f(7,8)[where s = s and b = b and u = u and t = t] assms(4) by (metis option.inject subsetD)
  moreover have "supersedes_of a (chain_event u b c t s) = supersedes_of a s" using f(3) assms(3) by blast
  ultimately show ?thesis using assms(1) f(1,2,4)
    by (auto simp: entangled_def later_than_def targets_of_def)
qed

lemma fork_calls_loser:
  assumes "rowExists a s" and "\<not> erased_in a s" and tg: "targets_of a s = {b, c}" and "b \<noteq> c"
    and late: "later_than a b c s"
    and rec: "\<And>v t. now \<le> t \<Longrightarrow>
      recomputeProjection n u now b (chain_event u b c t (update_memory a (superseded_row now v c) s)) = None"
  shows "recomputeProjection (Suc n) u now a s = None"
proof -
  obtain ls w t where ls: "set ls = {e \<in> supersedes_of a s. supersedeTarget e \<noteq> None}" "w \<in> set ls"
    "\<forall>e \<in> set ls. tie_le e w" "supersedeTarget w = Some t"
    "recomputeProjection (Suc n) u now a s = foldl (chain_step n u now w t)
      (Some (update_memory a (superseded_row now (Min (ev_created ` supersedes_of a s)) t) s)) ls"
    using recompute_fork[OF assms(2,1), of n u now] tg by auto
  obtain f where f: "f \<in> supersedes_of a s" "supersedeTarget f = Some c"
    "\<And>e. e \<in> supersedes_of a s \<Longrightarrow> supersedeTarget e = Some b \<Longrightarrow> ev_created e < ev_created f"
    using late by (auto simp: later_than_def)
  have "tie_le f w" using ls(1,3) f by auto
  moreover have "ev_created w < ev_created f" if "t = b" using that ls f by auto
  ultimately have tb: "t \<noteq> b" by (auto simp: tie_le_def)
  have tgt: "supersedeTarget e = Some b \<or> supersedeTarget e = Some c" if "e \<in> set ls" for e
  proof -
    from that obtain x where x: "supersedeTarget e = Some x" "e \<in> supersedes_of a s" using ls(1) by auto
    then have "x \<in> targets_of a s" by (auto simp: targets_of_def)
    with tg x show ?thesis by auto
  qed
  have tc: "t = c" using tgt[OF ls(2)] ls(4) tb by auto
  have "b \<in> targets_of a s" using tg by simp
  then have "\<exists>e \<in> set ls. supersedeTarget e = Some b" using ls(1) by (auto simp: targets_of_def)
  then obtain xs e ys where sp: "ls = xs @ e # ys" "supersedeTarget e = Some b"
    "\<forall>x \<in> set xs. supersedeTarget x \<noteq> Some b"
    using split_list_first_prop[of ls "\<lambda>e. supersedeTarget e = Some b"] by auto
  let ?s1 = "update_memory a (superseded_row now (Min (ev_created ` supersedes_of a s)) t) s"
  have "e \<noteq> w" using sp(2) ls(4) tb by auto
  then have "chain_step n u now w t (Some ?s1) e = None"
    using sp(2) tb tc assms(4) rec[of "max (ev_created e) now"] by (simp add: chain_step_def)
  moreover have "foldl (chain_step n u now w t) (Some ?s1) xs = Some ?s1"
    by (rule chain_step_skip) (use sp tgt tc in auto)
  ultimately show ?thesis using ls(5) sp(1) by simp
qed

lemma recompute_entangled:
  assumes "entangled a b c s" and "a \<noteq> b" and "c \<noteq> a" and "c \<noteq> b" and "c \<noteq> []"
  shows "recomputeProjection n u now a s = None"
  using assms
proof (induction n arbitrary: a b s)
  case (Suc n)
  note ent = Suc.prems(1)
  show ?case
  proof (rule fork_calls_loser[of a s b c])
    fix v t
    have "entangled a b c (update_memory a (superseded_row now v c) s)" using ent
      by (simp add: entangled_def frame_row_update superseded_row_def)
    then have "entangled b a c (chain_event u b c t (update_memory a (superseded_row now v c) s))"
      using Suc.prems(2,3,5) by (simp add: entangled_sym entangled_chain)
    then show "recomputeProjection n u now b (chain_event u b c t (update_memory a (superseded_row now v c) s)) = None"
      using Suc.IH[of b a] Suc.prems(2-5) by simp
  next
    show "rowExists a s" "\<not> erased_in a s" "targets_of a s = {b, c}" "later_than a b c s"
      using ent by (simp_all add: entangled_def)
    show "b \<noteq> c" using Suc.prems(4) by simp
  qed
qed simp

text \<open>
  C22: a fork that sits on a supersede cycle never returns: if \<open>a\<close> was superseded by \<open>b\<close> and later by
  \<open>c\<close>, and \<open>b\<close> by \<open>a\<close> in between (which unsupersede makes possible), recomputing \<open>a\<close> and chaining
  \<open>b\<close> call each other forever: whatever the stack depth, the call ends in a stack overflow.
\<close>

theorem fork_on_cycle_overflows:
  assumes "rowExists a s" and "rowExists b s" and "\<not> erased_in a s" and "\<not> erased_in b s"
    and "targets_of a s = {b, c}" and "targets_of b s = {a}" and "\<not> chained b c s"
    and "later_than a b c s" and "\<forall>e \<in> supersedes_of b s. ev_created e < now"
    and "a \<noteq> b" and "c \<noteq> a" and "c \<noteq> b" and "c \<noteq> []"
  shows "recomputeProjection stack u now a s = None"
proof (cases stack)
  case (Suc n)
  note f = chain_event_frame[OF assms(13)]
  have "recomputeProjection (Suc n) u now a s = None"
  proof (rule fork_calls_loser[of a s b c])
    fix v t assume t: "now \<le> t"
    let ?s1 = "update_memory a (superseded_row now v c) s"
    let ?s2 = "chain_event u b c t ?s1"
    have r1: "rowExists k ?s1 = rowExists k s" "erased_in k ?s1 = erased_in k s"
      "targets_of k ?s1 = targets_of k s" "supersedes_of k ?s1 = supersedes_of k s"
      "chained b c ?s1 = chained b c s" for k
      by (simp_all add: frame_row_update superseded_row_def chained_def)
    obtain g where g: "g \<in> supersedes_of b ?s2" "supersedeTarget g = Some c" "ev_created g = t"
      using f(6)[of b ?s1 u t] assms(7) r1(5) by blast
    have "ev_created e < ev_created g" if "e \<in> supersedes_of b ?s2" "supersedeTarget e = Some a" for e
    proof -
      have "e \<in> supersedes_of b s" using f(7)[OF that(1)] that(2) assms(11) r1(4) by auto
      with assms(9) t g(3) show ?thesis by force
    qed
    then have lb: "later_than b a c ?s2" using g(1,2) by (auto simp: later_than_def)
    have sa: "supersedes_of a ?s2 = supersedes_of a s" using f(3)[of a b u t ?s1] assms(10) r1(4) by simp
    have "entangled b a c ?s2"
      unfolding entangled_def
    proof (intro conjI)
      show "targets_of a ?s2 = {b, c}" using assms(5) sa by (simp add: targets_of_def)
      show "targets_of b ?s2 = {a, c}" using f(4)[of b u t ?s1] r1(3) assms(6) by auto
      show "later_than a b c ?s2" using assms(8) sa by (simp add: later_than_def)
    qed (use assms lb f(1,2) r1 in auto)
    then show "recomputeProjection n u now b ?s2 = None"
      by (rule recompute_entangled) (use assms in auto)
  qed (use assms in auto)
  then show ?thesis using Suc by simp
qed simp

text \<open>What a supersede and an unsupersede leave in the rows and in the supersede events.\<close>

lemma supersede_effect:
  assumes "supersede u t i j p c s = Inr s'" and "i \<noteq> j"
  shows "get_memory i s' = map_option (superseded_row t t j) (get_memory i s)"
    and "get_memory j s' = map_option (\<lambda>m. m\<lparr>mem_valid_from := Some t, mem_updated := t\<rparr>) (get_memory j s)"
    and "k \<noteq> i \<Longrightarrow> k \<noteq> j \<Longrightarrow> get_memory k s' = get_memory k s"
    and "\<exists>e f. events s' = events s @ [e, f] \<and> atom_id e = i \<and> event_type e = E_Supersede \<and>
      ev_payload e = Some (P_Superseded j p) \<and> ev_created e = t \<and> event_type f = E_Usefulness"
  using assms
  by (auto simp: supersede_def Let_def get_update_memory append_event_def superseded_row_def
      get_memory_def[of _ "_\<lparr>memory_entities := _, relation_evidence := _\<rparr>"] get_memory_def[symmetric]
      get_memory_def[of _ "_\<lparr>events := _, next_seq := _\<rparr>"]
      get_memory_def[of _ "_\<lparr>memory_entities := _, relation_evidence := _, events := _, next_seq := _\<rparr>"]
      split: option.splits if_splits)

lemma unsupersede_effect:
  assumes "unsupersede u t i r s = Inr s'"
  shows "get_memory k s' = (if k = i then map_option (\<lambda>m. m\<lparr>mem_valid_to := None, superseded_by := None, mem_updated := t\<rparr>)
      (get_memory i s) else get_memory k s)"
    and "\<exists>e. events s' = events s @ [e] \<and> event_type e = E_Unsupersede"
  using assms by (auto simp: unsupersede_def get_update_memory append_event_def
      get_memory_def[of _ "_\<lparr>events := _, next_seq := _\<rparr>"] get_memory_def[symmetric] split: option.splits if_splits)

lemma supersede_ok:
  "get_memory i s = Some l \<Longrightarrow> get_memory j s = Some w \<Longrightarrow> mem_valid_to l = None \<Longrightarrow> mem_valid_to w = None \<Longrightarrow>
   \<exists>s'. supersede u t i j p c s = Inr s'"
  by (simp add: supersede_def Let_def)

lemma unsupersede_ok:
  "get_memory i s = Some l \<Longrightarrow> superseded_by l = Some w \<Longrightarrow> \<not> archived l \<Longrightarrow> \<exists>s'. unsupersede u t i r s = Inr s'"
  by (simp add: unsupersede_def)

lemma forked_cycle_exists:
  obtains s1 s2 s3 s4 e1 f1 e2 e3 f3 e4 f4 where
    "supersede (\<lambda>_. ''1'') 50 ''a'' ''b'' None External demo_store = Inr s1"
    "unsupersede (\<lambda>_. ''2'') 51 ''a'' None s1 = Inr s2"
    "supersede (\<lambda>_. ''3'') 52 ''b'' ''a'' None External s2 = Inr s3"
    "supersede (\<lambda>_. ''4'') 53 ''a'' ''c'' None External s3 = Inr s4"
    "rowExists ''a'' s4" "rowExists ''b'' s4"
    "events s4 = [e1, f1, e2, e3, f3, e4, f4]"
    "atom_id e1 = ''a''" "event_type e1 = E_Supersede" "ev_payload e1 = Some (P_Superseded ''b'' None)" "ev_created e1 = 50"
    "atom_id e3 = ''b''" "event_type e3 = E_Supersede" "ev_payload e3 = Some (P_Superseded ''a'' None)" "ev_created e3 = 52"
    "atom_id e4 = ''a''" "event_type e4 = E_Supersede" "ev_payload e4 = Some (P_Superseded ''c'' None)" "ev_created e4 = 53"
    "event_type f1 = E_Usefulness" "event_type e2 = E_Unsupersede" "event_type f3 = E_Usefulness" "event_type f4 = E_Usefulness"
proof -
  obtain s1 where s1: "supersede (\<lambda>_. ''1'') 50 ''a'' ''b'' None External demo_store = Inr s1"
    using supersede_ok[OF get_demo(1,2)] by (meson demo_row_fields(4))
  note f1 = supersede_effect[OF s1, simplified get_demo]
  then have a1: "get_memory ''a'' s1 = Some (superseded_row 50 50 ''b'' (demo_row ''a'' 1 10))" by simp
  obtain s2 where s2: "unsupersede (\<lambda>_. ''2'') 51 ''a'' None s1 = Inr s2"
    using unsupersede_ok[OF a1, of "''b''" "\<lambda>_. ''2''" 51 None] by (auto simp: superseded_row_def)
  note f2 = unsupersede_effect[OF s2]
  have a2: "\<exists>m. get_memory ''a'' s2 = Some m \<and> mem_valid_to m = None"
    "\<exists>m. get_memory ''b'' s2 = Some m \<and> mem_valid_to m = None" "get_memory ''c'' s2 = Some (demo_row ''c'' 3 30)"
    using f1 f2 get_demo by simp_all
  then obtain s3 where s3: "supersede (\<lambda>_. ''3'') 52 ''b'' ''a'' None External s2 = Inr s3"
    using supersede_ok by meson
  note f3 = supersede_effect[OF s3, simplified]
  obtain ma mb where m2: "get_memory ''a'' s2 = Some ma" "mem_valid_to ma = None" "get_memory ''b'' s2 = Some mb"
    using a2(1,2) by blast
  have a3: "get_memory ''a'' s3 = Some (ma\<lparr>mem_valid_from := Some 52, mem_updated := 52\<rparr>)"
    "get_memory ''c'' s3 = Some (demo_row ''c'' 3 30)" "get_memory ''b'' s3 = Some (superseded_row 52 52 ''a'' mb)"
    using f3(1,2) f3(3)[of "''c''"] m2 a2(3) by simp_all
  have "mem_valid_to (ma\<lparr>mem_valid_from := Some 52, mem_updated := 52\<rparr>) = None" using m2(2) by simp
  with a3(1,2) obtain s4 where s4: "supersede (\<lambda>_. ''4'') 53 ''a'' ''c'' None External s3 = Inr s4"
    using supersede_ok demo_row_fields(4) by meson
  note f4 = supersede_effect[OF s4, simplified]
  have r4: "rowExists ''a'' s4" "rowExists ''b'' s4" using f4(1) f4(3)[of "''b''"] a3 by (simp_all add: rowExists_def)
  have e0: "events demo_store = []" by (simp add: demo_store_def empty_store_def)
  obtain e1 g1 where g1: "events s1 = events demo_store @ [e1, g1]" "atom_id e1 = ''a''" "event_type e1 = E_Supersede"
    "ev_payload e1 = Some (P_Superseded ''b'' None)" "ev_created e1 = 50" "event_type g1 = E_Usefulness"
    using f1(4) by blast
  obtain e2 where g2: "events s2 = events s1 @ [e2]" "event_type e2 = E_Unsupersede" using f2(2) by blast
  obtain e3 g3 where g3: "events s3 = events s2 @ [e3, g3]" "atom_id e3 = ''b''" "event_type e3 = E_Supersede"
    "ev_payload e3 = Some (P_Superseded ''a'' None)" "ev_created e3 = 52" "event_type g3 = E_Usefulness"
    using f3(4) by blast
  obtain e4 g4 where g4: "events s4 = events s3 @ [e4, g4]" "atom_id e4 = ''a''" "event_type e4 = E_Supersede"
    "ev_payload e4 = Some (P_Superseded ''c'' None)" "ev_created e4 = 53" "event_type g4 = E_Usefulness"
    using f4(4) by blast
  have "events s4 = [e1, g1, e2, e3, g3, e4, g4]" using e0 g1(1) g2(1) g3(1) g4(1) by simp
  from that[OF s1 s2 s3 s4 r4 this g1(2-5) g3(2-5) g4(2-5) g1(6) g2(2) g3(6) g4(6)] show ?thesis .
qed

theorem fork_on_cycle_overflows_witness:
  "\<exists>s1 s2 s3 s4. supersede (\<lambda>_. ''1'') 50 ''a'' ''b'' None External demo_store = Inr s1 \<and>
     unsupersede (\<lambda>_. ''2'') 51 ''a'' None s1 = Inr s2 \<and>
     supersede (\<lambda>_. ''3'') 52 ''b'' ''a'' None External s2 = Inr s3 \<and>
     supersede (\<lambda>_. ''4'') 53 ''a'' ''c'' None External s3 = Inr s4 \<and>
     (\<forall>stack. recomputeProjection stack (\<lambda>_. ''5'') 60 ''a'' s4 = None)"
proof -
  obtain s1 s2 s3 s4 e1 f1 e2 e3 f3 e4 f4 where steps:
    "supersede (\<lambda>_. ''1'') 50 ''a'' ''b'' None External demo_store = Inr s1"
    "unsupersede (\<lambda>_. ''2'') 51 ''a'' None s1 = Inr s2"
    "supersede (\<lambda>_. ''3'') 52 ''b'' ''a'' None External s2 = Inr s3"
    "supersede (\<lambda>_. ''4'') 53 ''a'' ''c'' None External s3 = Inr s4"
    and rows: "rowExists ''a'' s4" "rowExists ''b'' s4" and ev: "events s4 = [e1, f1, e2, e3, f3, e4, f4]"
    and e: "atom_id e1 = ''a''" "event_type e1 = E_Supersede" "ev_payload e1 = Some (P_Superseded ''b'' None)" "ev_created e1 = 50"
    "atom_id e3 = ''b''" "event_type e3 = E_Supersede" "ev_payload e3 = Some (P_Superseded ''a'' None)" "ev_created e3 = 52"
    "atom_id e4 = ''a''" "event_type e4 = E_Supersede" "ev_payload e4 = Some (P_Superseded ''c'' None)" "ev_created e4 = 53"
    "event_type f1 = E_Usefulness" "event_type e2 = E_Unsupersede" "event_type f3 = E_Usefulness" "event_type f4 = E_Usefulness"
    by (rule forked_cycle_exists)
  have sup: "supersedes_of ''a'' s4 = {e1, e4}" "supersedes_of ''b'' s4 = {e3}"
    using ev e by (auto simp: supersedes_of_def)
  have tgt: "supersedeTarget e1 = Some ''b''" "supersedeTarget e3 = Some ''a''" "supersedeTarget e4 = Some ''c''"
    using e by (simp_all add: supersedeTarget_def)
  have "recomputeProjection stack (\<lambda>_. ''5'') 60 ''a'' s4 = None" for stack
  proof (rule fork_on_cycle_overflows[where b = "''b''" and c = "''c''"])
    show "\<not> erased_in ''a'' s4" "\<not> erased_in ''b'' s4" using ev e by (auto simp: erased_in_def)
    show "targets_of ''a'' s4 = {''b'', ''c''}" "targets_of ''b'' s4 = {''a''}"
      using sup tgt by (auto simp: targets_of_def)
    show "\<not> chained ''b'' ''c'' s4" using ev e by (auto simp: chained_def)
    show "later_than ''a'' ''b'' ''c'' s4" using sup tgt e by (auto simp: later_than_def)
    show "\<forall>e \<in> supersedes_of ''b'' s4. ev_created e < 60" using sup e by simp
  qed (use rows in simp_all)
  with steps show ?thesis by blast
qed

section \<open>Pull rounds\<close>

lemma known_iff: "list_ex (\<lambda>f. event_id f = i) es \<longleftrightarrow> i \<in> event_id ` set es"
  by (induction es) auto

lemma dedup_True: "dedupInsertEvent e s = (True, s') \<Longrightarrow>
    re_id e \<notin> event_id ` set (events s) \<and> memories s' = memories s \<and>
    event_id ` set (events s') = insert (re_id e) (event_id ` set (events s))"
  by (auto simp: dedupInsertEvent_def append_event_def known_iff split: if_splits)

lemma dedup_False: "dedupInsertEvent e s = (False, s') \<longleftrightarrow> s' = s \<and> re_id e \<in> event_id ` set (events s)"
  by (auto simp: dedupInsertEvent_def known_iff split: if_splits)

lemma materialize_events: "materializeAtomIfMissing i sn c now s = Inr (b, s') \<Longrightarrow> events s' = events s"
  by (auto simp: materializeAtomIfMissing_def split: if_splits)

lemma merge_events_new:
  assumes "merge_events now (e # es) n touched s = Inr r" and d: "dedupInsertEvent e s = (True, s1)"
  shows "\<exists>t1 s2. merge_events now es (n + 1) t1 s2 = Inr r \<and> events s2 = events s1"
proof (cases "\<exists>sn. re_type e = E_Create \<and> re_snapshot e = Some sn")
  case True
  then obtain sn where sn: "re_type e = E_Create" "re_snapshot e = Some sn" by blast
  then obtain b s2 where "materializeAtomIfMissing (re_atom e) sn (re_created e) now s1 = Inr (b, s2)"
    using assms by (auto simp: Let_def split: sum.splits)
  then show ?thesis using assms sn materialize_events by (fastforce simp: Let_def)
next
  case False
  then show ?thesis using assms
    by (cases "re_type e"; cases "re_snapshot e") (auto simp: Let_def)
qed

lemma merge_events_ids:
  "merge_events now es n touched s = Inr (n', touched', s') \<Longrightarrow>
   event_id ` set (events s') = event_id ` set (events s) \<union> re_id ` set es"
proof (induction es arbitrary: n touched s)
  case (Cons e es)
  obtain b s1 where d: "dedupInsertEvent e s = (b, s1)" by fastforce
  show ?case
  proof (cases b)
    case False
    with d have "s1 = s" "re_id e \<in> event_id ` set (events s)" by (auto simp: dedup_False)
    then show ?thesis using Cons False d by auto
  next
    case True
    with d have "dedupInsertEvent e s = (True, s1)" by simp
    note ids = dedup_True[OF this]
    obtain n1 t1 s2 where "merge_events now es n1 t1 s2 = Inr (n', touched', s')" "events s2 = events s1"
      using merge_events_new[OF Cons.prems \<open>dedupInsertEvent e s = (True, s1)\<close>] by blast
    then show ?thesis using Cons.IH[of n1 t1 s2] ids by simp
  qed
qed simp

lemma merge_events_known:
  "re_id ` set es \<subseteq> event_id ` set (events s) \<Longrightarrow> merge_events now es n touched s = Inr (n, touched, s)"
proof (induction es)
  case (Cons e es)
  then have "dedupInsertEvent e s = (False, s)" by (auto simp: dedup_False)
  with Cons show ?case by simp
qed simp

text \<open>The recompute adds events only, so a pulled event stays known.\<close>

lemma recompute_keeps_events:
  "recomputeProjection n u now i s = Some s' \<Longrightarrow> set (events s) \<subseteq> set (events s')"
proof (induction n arbitrary: i s s')
  case (Suc n)
  have fold: "set (events s0) \<subseteq> set (events s')"
    if "foldl (chain_step n u now w t) (Some s0) ls = Some s'" for ls s0 w t
    using that
  proof (induction ls arbitrary: s0)
    case (Cons l ls)
    then obtain s1 where s1: "chain_step n u now w t (Some s0) l = Some s1"
      "foldl (chain_step n u now w t) (Some s1) ls = Some s'"
      by (cases "chain_step n u now w t (Some s0) l") simp_all
    have "set (events s0) \<subseteq> set (events s1)"
    proof (cases "l = w \<or> supersedeTarget l = Some t")
      case True
      then show ?thesis using s1(1) by (simp add: chain_step_def)
    next
      case False
      then have "recomputeProjection n u now (the (supersedeTarget l))
          (chain_event u (the (supersedeTarget l)) t (max (ev_created l) now) s0) = Some s1"
        using s1(1) by (simp add: chain_step_def Let_def)
      from Suc.IH[OF this] show ?thesis by (auto simp: chain_event_def append_event_def split: if_splits)
    qed
    with Cons.IH[OF s1(2)] show ?case by blast
  qed simp
  show ?case
  proof (cases "erased_in i s \<or> \<not> rowExists i s \<or> targets_of i s = {}")
    case True
    have "events s' = events s"
    proof (cases "erased_in i s")
      case True
      then show ?thesis using Suc.prems
        by (auto simp: recompute_erased hardDeleteAtom_def split: option.splits)
    next
      case False
      then have er: "\<not> list_ex (\<lambda>e. event_type e = E_Erase_Request) (loadEvents i s)"
        by (auto simp: list_ex_iff set_loadEvents erased_in_def)
      show ?thesis
      proof (cases "rowExists i s")
        case True
        with \<open>\<not> erased_in i s\<close> \<open>erased_in i s \<or> \<not> rowExists i s \<or> targets_of i s = {}\<close>
        have "targets_of i s = {}" by blast
        then have "supersedeTarget e = None" if "e \<in> supersedes_of i s" for e
          using that by (cases "supersedeTarget e") (auto simp: targets_of_def)
        then have "filter (\<lambda>e. supersedeTarget e \<noteq> None) (filter (\<lambda>e. event_type e = E_Supersede) (loadEvents i s)) = []"
          by (auto simp: supersedes_of_def filter_empty_conv set_loadEvents)
        then show ?thesis using Suc.prems er True
          by (auto simp: recomputeProjection.simps(2) Let_def split: if_splits)
      qed (use Suc.prems er in \<open>simp add: recomputeProjection.simps(2) Let_def\<close>)
    qed
    then show ?thesis by simp
  next
    case False
    then obtain ls w t where "recomputeProjection (Suc n) u now i s = foldl (chain_step n u now w t)
        (Some (update_memory i (superseded_row now (Min (ev_created ` supersedes_of i s)) t) s)) ls"
      using recompute_fork[of i s n u now] by blast
    then show ?thesis using fold Suc.prems by fastforce
  qed
qed simp

lemma recompute_all_keeps_events:
  "recompute_all n u now is s = Some s' \<Longrightarrow> set (events s) \<subseteq> set (events s')"
  by (induction "is" arbitrary: s) (auto split: option.splits dest: recompute_keeps_events)

text \<open>
  C19: a pull round is atomic and idempotent: if it throws, the store and the watermark are as before; if it
  succeeds on a non-empty batch, every event of the batch is in the log, the watermark is the batch's
  next cursor, and pulling the same batch again inserts nothing and changes no row and no event.
\<close>

theorem pull_round_atomic_idempotent:
  assumes "pullOnce stack u now (Some batch) st = Inr (r, st1)" and "pb_events batch \<noteq> []"
  shows "re_id ` set (pb_events batch) \<subseteq> event_id ` set (events (pstore st1)) \<and>
    cursor st1 = next_cursor batch \<and> inserted r \<le> fetched r \<and>
    (\<exists>r2. pullOnce stack' u' now' (Some batch) st1 = Inr (r2, st1) \<and> inserted r2 = 0 \<and> atomsRecomputed r2 = 0)"
proof -
  obtain n touched s1 s2 where m: "merge_events now (pb_events batch) 0 [] (pstore st) = Inr (n, touched, s1)"
    "recompute_all stack u now touched s1 = Some s2" "r = \<lparr>fetched = length (pb_events batch), inserted = n,
       atomsRecomputed = length touched, pr_cursor = next_cursor batch, idle = False\<rparr>"
    "st1 = st\<lparr>pstore := s2, cursor := next_cursor batch\<rparr>"
    using assms by (auto simp: pullOnce_def split: sum.splits option.splits)
  have known: "re_id ` set (pb_events batch) \<subseteq> event_id ` set (events (pstore st1))"
    using merge_events_ids[OF m(1)] recompute_all_keeps_events[OF m(2)] m(4) by auto
  have "n' \<le> k + length es" if "merge_events now es k t s = Inr (n', t', s')" for es k t s n' t' s'
    using that
  proof (induction es arbitrary: k t s)
    case (Cons e es)
    obtain b s1 where d: "dedupInsertEvent e s = (b, s1)" by fastforce
    show ?case
    proof (cases b)
      case True
      with d have "dedupInsertEvent e s = (True, s1)" by simp
      then obtain t1 s2 where "merge_events now es (k + 1) t1 s2 = Inr (n', t', s')"
        using merge_events_new[OF Cons.prems] by blast
      from Cons.IH[OF this] show ?thesis by simp
    next
      case False
      then show ?thesis using Cons d by fastforce
    qed
  qed simp
  then have "n \<le> length (pb_events batch)" using m(1) by fastforce
  moreover have "pullOnce stack' u' now' (Some batch) st1 = Inr (\<lparr>fetched = length (pb_events batch), inserted = 0,
       atomsRecomputed = 0, pr_cursor = next_cursor batch, idle = False\<rparr>, st1)"
    using assms(2) merge_events_known[OF known] m(4) by (simp add: pullOnce_def)
  ultimately show ?thesis using known m(3,4) by simp
qed

definition demo_event :: "string \<Rightarrow> event_type \<Rightarrow> string \<Rightarrow> payload option \<Rightarrow> epoch_ms \<Rightarrow> remote_event" where
  "demo_event x ty i p t =
     \<lparr>re_id = x, re_type = ty, re_atom = i, re_payload = p, re_hash = None, re_created = t, re_snapshot = None\<rparr>"

definition demo_state :: pull_state where
  "demo_state = \<lparr>pstore = demo_store, cursor = None\<rparr>"

theorem pull_round_atomic_idempotent_witness:
  "let batch = \<lparr>pb_events = [demo_event ''r1'' E_Invalidate ''a'' None 40], next_cursor = Some ''k''\<rparr>
   in \<exists>r st1 r2. pullOnce 1 (\<lambda>_. ''u'') 50 (Some batch) demo_state = Inr (r, st1) \<and>
        pullOnce 1 (\<lambda>_. ''v'') 60 (Some batch) st1 = Inr (r2, st1) \<and> inserted r = 1 \<and> inserted r2 = 0"
proof -
  let ?b = "\<lparr>pb_events = [demo_event ''r1'' E_Invalidate ''a'' None 40], next_cursor = Some ''k''\<rparr>"
  let ?e = "\<lparr>seq = 1, event_id = ''r1'', event_type = E_Invalidate, atom_id = ''a'', ev_payload = None,
    content_hash = None, ev_created = 40, synced_at = None, rejected_at = None\<rparr>"
  have "\<exists>s1. merge_events 50 (pb_events ?b) 0 [] demo_store = Inr (1, [''a''], s1) \<and>
      s1 = demo_store\<lparr>events := [?e], next_seq := 2\<rparr>"
    by (simp add: demo_event_def dedupInsertEvent_def append_event_def demo_store_def empty_store_def)
  then obtain s1 where s1: "merge_events 50 (pb_events ?b) 0 [] demo_store = Inr (1, [''a''], s1)"
    "s1 = demo_store\<lparr>events := [?e], next_seq := 2\<rparr>" by blast
  have i1: "\<not> erased_in ''a'' s1" "supersedes_of ''a'' s1 = {}" "invalidates_of ''a'' s1 \<noteq> {}"
    unfolding s1(2) by (auto simp: erased_in_def supersedes_of_def invalidates_of_def)
  have i2: "rowExists ''a'' s1"
    using get_demo(1) by (simp add: s1(2) rowExists_def get_memory_def)
  obtain s2 where s2: "recomputeProjection (Suc 0) (\<lambda>_. ''u'') 50 ''a'' s1 = Some s2"
    using recompute_invalidated[OF i1(1) i2 i1(2,3), of 0 "\<lambda>_. ''u''" 50] by blast
  obtain r st1 where p: "pullOnce 1 (\<lambda>_. ''u'') 50 (Some ?b) demo_state = Inr (r, st1)" "inserted r = 1"
    using s1(1) s2 by (auto simp: pullOnce_def demo_state_def simp del: merge_events.simps)
  have "pb_events ?b \<noteq> []" by simp
  from pull_round_atomic_idempotent[OF p(1) this, of 1 "\<lambda>_. ''v''" 60] p show ?thesis
    unfolding Let_def by blast
qed

lemma inserted_le_fetched: "pullOnce stack u now fetch st = Inr (r, st1) \<Longrightarrow> inserted r \<le> fetched r"
proof -
  have "n' \<le> k + length es" if "merge_events now es k t s = Inr (n', t', s')" for es k t s n' t' s'
    using that
  proof (induction es arbitrary: k t s)
    case (Cons e es)
    obtain b s1 where d: "dedupInsertEvent e s = (b, s1)" by fastforce
    show ?case
    proof (cases b)
      case True
      with d have "dedupInsertEvent e s = (True, s1)" by simp
      then obtain t1 s2 where "merge_events now es (k + 1) t1 s2 = Inr (n', t', s')"
        using merge_events_new[OF Cons.prems] by blast
      from Cons.IH[OF this] show ?thesis by simp
    next
      case False
      then show ?thesis using Cons d by fastforce
    qed
  qed simp
  from this[of _ 0] show "pullOnce stack u now fetch st = Inr (r, st1) \<Longrightarrow> inserted r \<le> fetched r"
    by (fastforce simp: pullOnce_def split: option.splits sum.splits if_splits)
qed

lemma drain_loop_bounds:
  assumes "drain_loop stack u now fetcher left acc st = (Inr res, st')" and "totalInserted acc \<le> totalFetched acc"
  shows "rounds res \<le> rounds acc + left \<and> totalInserted res \<le> totalFetched res"
  using assms
proof (induction left arbitrary: acc st)
  case (Suc left)
  obtain r st1 where r: "pullOnce stack u now (fetcher (rounds acc) (cursor st)) st = Inr (r, st1)"
    using Suc.prems by (auto split: sum.splits)
  let ?acc = "\<lparr>rounds = rounds acc + 1, totalFetched = totalFetched acc + fetched r,
     totalInserted = totalInserted acc + inserted r, dr_cursor = pr_cursor r\<rparr>"
  have le: "totalInserted ?acc \<le> totalFetched ?acc" using inserted_le_fetched[OF r] Suc.prems(2) by simp
  show ?case
  proof (cases "idle r \<or> pr_cursor r = None")
    case True
    then have "res = ?acc" using Suc.prems(1) r by (auto simp: Let_def)
    then show ?thesis using le by simp
  next
    case False
    then have "drain_loop stack u now fetcher left ?acc st1 = (Inr res, st')"
      using Suc.prems(1) r by (auto simp: Let_def)
    from Suc.IH[OF this le] show ?thesis by simp
  qed
qed simp

text \<open>
  Draining ends: whatever the fetcher answers, \<open>drainPull\<close> returns after at most \<open>maxRounds\<close> rounds, and
  its totals never report more insertions than fetched events.
\<close>

theorem drainPull_bounded:
  "case fst (drainPull stack u now fetcher maxRounds st) of
     Inl _ \<Rightarrow> True
   | Inr res \<Rightarrow> rounds res \<le> maxRounds \<and> totalInserted res \<le> totalFetched res"
proof (cases "drainPull stack u now fetcher maxRounds st")
  case (Pair o1 st')
  then show ?thesis
    using drain_loop_bounds[of stack u now fetcher maxRounds _ st _ st'] unfolding drainPull_def
    by (fastforce split: sum.split)
qed

text \<open>
  A pulled memory whose text is already stored under another id stops synchronisation for good: the
  unique index on the hash makes the round throw, the round is rolled back with its watermark, and the
  next drain fetches the same batch and throws again, however often it is tried.
\<close>

lemma unique_violation_blocks_pull:
  assumes "re_id e \<notin> event_id ` set (events (pstore st))" and "re_type e = E_Create"
    and "re_snapshot e = Some sn" and "get_memory (re_atom e) (pstore st) = None"
    and "get_row mem_hash (sn_hash sn) (memories (pstore st)) \<noteq> None"
    and "\<And>k. fetcher k (cursor st) = Some \<lparr>pb_events = e # es, next_cursor = c\<rparr>" and "0 < maxRounds"
  shows "drainPull stack u now fetcher maxRounds st = (Inl (Unique_Violation ''memories.hash''), st)"
proof -
  have "dedupInsertEvent e (pstore st) = (True, append_event (re_id e) (re_created e) (re_type e) (re_atom e)
      (re_payload e) (re_hash e) (pstore st))"
    using assms(1) by (simp add: dedupInsertEvent_def known_iff)
  then have "merge_events now (e # es) 0 [] (pstore st) = Inl (Unique_Violation ''memories.hash'')"
    using assms(2-5) by (simp add: materializeAtomIfMissing_def)
  then have "pullOnce stack u now (Some \<lparr>pb_events = e # es, next_cursor = c\<rparr>) st = Inl (Unique_Violation ''memories.hash'')"
    by (simp add: pullOnce_def del: merge_events.simps)
  then show ?thesis using assms(6,7) by (cases maxRounds) (simp_all add: drainPull_def)
qed

definition demo_snapshot :: "string \<Rightarrow> atom_snapshot" where
  "demo_snapshot h = \<lparr>sn_type = ''note'', sn_text = h, sn_normalized = h, sn_hash = h, sn_scope = Team,
     sn_repo = None, sn_project = None, sn_branch = None, sn_agent = None, sn_session = None,
     sn_importance = None, sn_confidence = None, sn_source_hash = None, sn_evidence = None\<rparr>"

lemma unique_violation_blocks_pull_witness:
  "drainPull 5 (\<lambda>_. ''u'') 50
     (\<lambda>_ _. Some \<lparr>pb_events = [demo_event ''r1'' E_Create ''x'' None 40\<lparr>re_snapshot := Some (demo_snapshot ''a'')\<rparr>],
                   next_cursor = Some ''k''\<rparr>) 1000 demo_state
   = (Inl (Unique_Violation ''memories.hash''), demo_state)"
proof (rule unique_violation_blocks_pull[where sn = "demo_snapshot ''a''"])
  have "sn_hash (demo_snapshot ''a'') = ''a''" by (simp add: demo_snapshot_def)
  then show "get_row mem_hash (sn_hash (demo_snapshot ''a'')) (memories (pstore demo_state)) \<noteq> None"
    by (simp add: demo_state_def demo_store_def)
qed (simp_all add: demo_event_def demo_state_def demo_store_def empty_store_def get_memory_def)

section \<open>Remote supersedes against local hiding\<close>

text \<open>
  The recompute does not know the local reversals: an atom the user has un-superseded is hidden behind
  its old winner again by the next pulled event that touches it, because the old supersede event is
  still in the log and the unsupersede event is not consulted.
\<close>

lemma unsupersede_is_undone_by_pull:
  assumes "unsupersede u t i r s = Inr s1" and "targets_of i s = {w}" and "\<not> erased_in i s"
    and "re_atom e = i" and "re_type e \<notin> {E_Supersede, E_Erase_Request, E_Create}"
    and "re_id e \<notin> event_id ` set (events s1)"
  shows "(\<exists>m. get_memory i s1 = Some m \<and> mem_valid_to m = None \<and> superseded_by m = None) \<and>
    (\<exists>res st2 m2. pullOnce (Suc stack) u' now (Some \<lparr>pb_events = [e], next_cursor = c\<rparr>) \<lparr>pstore = s1, cursor = d\<rparr> = Inr (res, st2) \<and>
       get_memory i (pstore st2) = Some m2 \<and> mem_valid_to m2 \<noteq> None \<and> superseded_by m2 = Some w)"
proof -
  note eff = unsupersede_effect[OF assms(1)]
  obtain m0 where m0: "get_memory i s = Some m0"
    using assms(1) by (auto simp: unsupersede_def split: option.splits)
  then obtain m where m: "get_memory i s1 = Some m" "mem_valid_to m = None" "superseded_by m = None"
    using eff(1)[of i] by simp
  let ?s2 = "append_event (re_id e) (re_created e) (re_type e) i (re_payload e) (re_hash e) s1"
  have dd: "dedupInsertEvent e s1 = (True, ?s2)" using assms(4,6) by (simp add: dedupInsertEvent_def known_iff)
  have mg: "merge_events now [e] 0 [] s1 = Inr (1, [i], ?s2)"
    using dd assms(4,5) by (cases "re_type e") auto
  obtain f where f: "events s1 = events s @ [f]" "event_type f = E_Unsupersede" using eff(2) by blast
  have sup: "supersedes_of i ?s2 = supersedes_of i s" and er: "\<not> erased_in i ?s2"
  proof -
    obtain g where g: "events ?s2 = events s @ [f, g]" "event_type g = re_type e"
      using f(1) by (simp add: append_event_def)
    show "supersedes_of i ?s2 = supersedes_of i s"
      unfolding supersedes_of_def g(1) using f(2) g(2) assms(5) by auto
    show "\<not> erased_in i ?s2"
      using f(2) g(2) assms(3,5) unfolding erased_in_def g(1) by auto
  qed
  have tg: "targets_of i ?s2 = {w}" using assms(2) sup by (simp add: targets_of_def)
  have ex: "rowExists i ?s2" using m(1) by (simp add: rowExists_def)
  note rc = recompute_no_fork[OF er ex tg, of stack u' now]
  let ?s3 = "update_memory i (superseded_row now (Min (ev_created ` supersedes_of i ?s2)) w) ?s2"
  have "get_memory i ?s3 = Some (superseded_row now (Min (ev_created ` supersedes_of i ?s2)) w m)"
    using m(1) by (simp add: get_update_memory superseded_row_def)
  moreover have "\<exists>res. pullOnce (Suc stack) u' now (Some \<lparr>pb_events = [e], next_cursor = c\<rparr>) \<lparr>pstore = s1, cursor = d\<rparr> =
      Inr (res, \<lparr>pstore = ?s3, cursor = c\<rparr>)"
    using mg rc by (simp add: pullOnce_def del: merge_events.simps)
  ultimately show ?thesis using m by (force simp: superseded_row_def)
qed

text \<open>
  Restoring an atom that another device has superseded resurrects it: archived here and superseded
  there, its restore succeeds and clears the validity end while the successor mark stays, so a
  superseded generation counts as current again.
\<close>

lemma restore_resurrects_superseded:
  assumes "archive u t i r s = Inr s1" and "targets_of i s1 = {w}" and "\<not> erased_in i s1"
    and "recomputeProjection (Suc stack) u' now i s1 = Some s2"
  shows "\<exists>s3 m. restore v t' i s2 = Inr s3 \<and> get_memory i s3 = Some m \<and> mem_valid_to m = None \<and>
    \<not> archived m \<and> superseded_by m = Some w"
proof -
  obtain m0 where "get_memory i s = Some m0"
    using assms(1) by (auto simp: archive_def split: option.splits)
  then obtain m where m: "get_memory i s1 = Some m" "archived m"
    using assms(1) by (auto simp: archive_def get_update_memory split: if_splits)
  then have ex: "rowExists i s1" by (simp add: rowExists_def)
  have "get_memory i s2 = Some (superseded_row now (Min (ev_created ` supersedes_of i s1)) w m)"
    using recompute_no_fork[OF assms(3) ex assms(2), of stack u' now] assms(4) m
    by (auto simp: get_update_memory superseded_row_def)
  then show ?thesis using m
    by (auto simp: restore_def get_update_memory superseded_row_def)
qed

text \<open>Applications: the supersede of a remote device against a local unsupersede and a local archive.\<close>

lemma unsupersede_is_undone_by_pull_witness:
  "\<exists>s1 res st2 m2. pullOnce 1 (\<lambda>_. ''u'') 60
     (Some \<lparr>pb_events = [demo_event ''r1'' E_Usefulness ''a'' None 55], next_cursor = None\<rparr>) \<lparr>pstore = s1, cursor = None\<rparr>
       = Inr (res, st2) \<and> get_memory ''a'' (pstore st2) = Some m2 \<and> superseded_by m2 = Some ''b''"
proof -
  obtain s0 where s0: "supersede (\<lambda>_. ''1'') 50 ''a'' ''b'' None External demo_store = Inr s0"
    using supersede_ok[OF get_demo(1,2)] by (meson demo_row_fields(4))
  note f0 = supersede_effect[OF s0, simplified get_demo]
  then have a0: "get_memory ''a'' s0 = Some (superseded_row 50 50 ''b'' (demo_row ''a'' 1 10))" by simp
  obtain s1 where s1: "unsupersede (\<lambda>_. ''2'') 51 ''a'' None s0 = Inr s1"
    using unsupersede_ok[OF a0, of "''b''" "\<lambda>_. ''2''" 51 None] by (auto simp: superseded_row_def)
  have "events demo_store = []" by (simp add: demo_store_def empty_store_def)
  with f0(4) obtain e f where ev: "events s0 = [e, f]" "atom_id e = ''a''" "event_type e = E_Supersede"
    "ev_payload e = Some (P_Superseded ''b'' None)" "event_type f = E_Usefulness" by auto
  have tg: "targets_of ''a'' s0 = {''b''}"
    using ev by (auto simp: targets_of_def supersedes_of_def supersedeTarget_def)
  have ne: "\<not> erased_in ''a'' s0" using ev by (auto simp: erased_in_def)
  have x: "re_id (demo_event ''r1'' E_Usefulness ''a'' None 55) \<notin> event_id ` set (events s1)"
    using s1 s0 by (auto simp: unsupersede_def supersede_def Let_def append_event_def demo_event_def demo_store_def
        empty_store_def split: option.splits if_splits)
  have y: "re_atom (demo_event ''r1'' E_Usefulness ''a'' None 55) = ''a''"
    "re_type (demo_event ''r1'' E_Usefulness ''a'' None 55) \<notin> {E_Supersede, E_Erase_Request, E_Create}"
    by (simp_all add: demo_event_def)
  from unsupersede_is_undone_by_pull[OF s1 tg ne y x, of 0 "\<lambda>_. ''u''" 60 None None] show ?thesis
    by (metis One_nat_def)
qed

lemma restore_resurrects_superseded_witness:
  "\<exists>s1 s2 s3 m. archive (\<lambda>_. ''1'') 50 ''a'' None demo_store = Inr s1 \<and> restore (\<lambda>_. ''2'') 70 ''a'' s2 = Inr s3 \<and>
     get_memory ''a'' s3 = Some m \<and> mem_valid_to m = None \<and> superseded_by m = Some ''b''"
proof -
  let ?s = "append_event ''r1'' 45 E_Supersede ''a'' (Some (P_Superseded ''b'' None)) None demo_store"
  have g: "get_memory ''a'' ?s = Some (demo_row ''a'' 1 10)" using get_demo(1) by simp
  obtain s1 where s1: "archive (\<lambda>_. ''1'') 50 ''a'' None ?s = Inr s1" using g by (simp add: archive_def)
  obtain s1' where s1': "archive (\<lambda>_. ''1'') 50 ''a'' None demo_store = Inr s1'"
    using get_demo(1) by (simp add: archive_def)
  obtain e f where ev: "events s1 = [e, f]" "atom_id e = ''a''" "event_type e = E_Supersede"
    "ev_payload e = Some (P_Superseded ''b'' None)" "event_type f = E_Archive"
    using s1 g by (auto simp: archive_def append_event_def demo_store_def empty_store_def split: if_splits)
  have tg: "targets_of ''a'' s1 = {''b''}"
    using ev by (auto simp: targets_of_def supersedes_of_def supersedeTarget_def)
  have ne: "\<not> erased_in ''a'' s1" using ev by (auto simp: erased_in_def)
  have ex: "rowExists ''a'' s1"
    using s1 g by (auto simp: archive_def rowExists_def get_update_memory)
  obtain s2 where s2: "recomputeProjection (Suc 0) (\<lambda>_. ''u'') 60 ''a'' s1 = Some s2"
    using recompute_no_fork[OF ne ex tg] by blast
  from restore_resurrects_superseded[OF s1 tg ne s2, of "\<lambda>_. ''2''" 70] s1' show ?thesis by blast
qed

theorem projection_is_order_independent_witness:
  "\<exists>s'. recomputeProjection 1 (\<lambda>_. ''u'') 60 ''a''
      (append_event ''r1'' 45 E_Supersede ''a'' (Some (P_Superseded ''b'' None)) None demo_store) = Some s' \<and>
     get_memory ''a'' s' = Some (superseded_row 60 45 ''b'' (demo_row ''a'' 1 10))"
proof -
  let ?e = "\<lparr>seq = 1, event_id = ''r1'', event_type = E_Supersede, atom_id = ''a'',
     ev_payload = Some (P_Superseded ''b'' None), content_hash = None, ev_created = 45, synced_at = None, rejected_at = None\<rparr>"
  let ?s = "append_event ''r1'' 45 E_Supersede ''a'' (Some (P_Superseded ''b'' None)) None demo_store"
  have ev: "events ?s = [?e]" by (simp add: append_event_def demo_store_def empty_store_def)
  have E: "set (events ?s) \<inter> {e. atom_id e = ''a''} = {?e}" by (auto simp: ev)
  have g: "get_memory ''a'' ?s = Some (demo_row ''a'' 1 10)" using get_demo(1) by simp
  have t: "targets_of ''a'' ?s = {''b''}" by (auto simp: targets_of_def supersedes_of_def ev supersedeTarget_def)
  have m: "{e \<in> {?e}. event_type e = E_Supersede} = {?e}" by auto
  from projection_is_order_independent[OF E g disjI1[OF t], of 0 "\<lambda>_. ''u''" 60] m
  show ?thesis by (auto simp del: recomputeProjection.simps)
qed

end
