(* ===== verification/Ship.thy ===== *)
theory Ship
  imports Sync_Merge "HOL-Library.Word"
begin

text \<open>
  The upload half of the sync: \<open>src/src/sync/shipper.ts\<close> (which events are eligible, the
  envelope sent to the cloud, the marking of acknowledged and rejected events, the retry loop
  and its persisted attempt state) and \<open>src/src/sync/backfill.ts\<close> (promoting private memories
  and re-queueing events that were shipped without content).

  The cloud is the environment: its answer to a batch is an argument. A shipping round reads the
  log, waits for the answer and marks the log; the store may change in between, so the round is
  split into \<open>listUnsynced\<close>/\<open>buildEnvelope\<close> and \<open>settle_ship\<close>, and \<open>shipOnce\<close> is the round with
  nothing in between. JSON strings are sequences of UTF-16 code units, \<^typ>\<open>16 word\<close>; the strings
  of the store are their Latin-1 part.
\<close>

section \<open>Strings the cloud's JSON column refuses\<close>

definition is_high :: "16 word \<Rightarrow> bool" where
  "is_high c \<longleftrightarrow> 0xD800 \<le> c \<and> c \<le> 0xDBFF"

definition is_low :: "16 word \<Rightarrow> bool" where
  "is_low c \<longleftrightarrow> 0xDC00 \<le> c \<and> c \<le> 0xDFFF"

fun replace_lone_high :: "16 word list \<Rightarrow> 16 word list" where
  "replace_lone_high [] = []"
| "replace_lone_high (c # cs) =
     (if is_high c \<and> \<not> (case cs of [] \<Rightarrow> False | d # _ \<Rightarrow> is_low d) then 0xFFFD else c)
       # replace_lone_high cs"

text \<open>The flag says whether the code unit before is a high surrogate.\<close>

fun replace_lone_low :: "bool \<Rightarrow> 16 word list \<Rightarrow> 16 word list" where
  "replace_lone_low after_high [] = []"
| "replace_lone_low after_high (c # cs) =
     (if is_low c \<and> \<not> after_high then 0xFFFD else c) # replace_lone_low (is_high c) cs"

definition sanitize_units :: "16 word list \<Rightarrow> 16 word list" where
  "sanitize_units s = replace_lone_low False (replace_lone_high (filter (\<lambda>c. c \<noteq> 0) s))"

datatype json =
    J_Null
  | J_Bool bool
  | J_Num real
  | J_Str "16 word list"
  | J_Arr "json list"
  | J_Obj "(16 word list \<times> json) list"

fun sanitizeJsonbHostile :: "json \<Rightarrow> json" where
  "sanitizeJsonbHostile (J_Str s) = J_Str (sanitize_units s)"
| "sanitizeJsonbHostile (J_Arr vs) = J_Arr (map sanitizeJsonbHostile vs)"
| "sanitizeJsonbHostile (J_Obj kvs) =
     J_Obj (fold (\<lambda>(k, v). obj_set k v)
              (map (\<lambda>(k, v). (sanitize_units k, sanitizeJsonbHostile v)) kvs) [])"
| "sanitizeJsonbHostile v = v"

text \<open>What the column accepts: no NUL, and surrogates only as pairs.\<close>

fun well_formed_utf16 :: "16 word list \<Rightarrow> bool" where
  "well_formed_utf16 [] \<longleftrightarrow> True"
| "well_formed_utf16 (c # cs) \<longleftrightarrow>
     (if is_high c then (case cs of [] \<Rightarrow> False | d # ds \<Rightarrow> is_low d \<and> well_formed_utf16 ds)
      else \<not> is_low c \<and> well_formed_utf16 cs)"

definition storable :: "16 word list \<Rightarrow> bool" where
  "storable s \<longleftrightarrow> 0 \<notin> set s \<and> well_formed_utf16 s"

fun json_storable :: "json \<Rightarrow> bool" where
  "json_storable (J_Str s) \<longleftrightarrow> storable s"
| "json_storable (J_Arr vs) \<longleftrightarrow> (\<forall>v \<in> set vs. json_storable v)"
| "json_storable (J_Obj kvs) \<longleftrightarrow> (\<forall>(k, v) \<in> set kvs. storable k \<and> json_storable v)"
| "json_storable v \<longleftrightarrow> True"

lemma replacement_plain [simp]: "\<not> is_high 0xFFFD" "\<not> is_low 0xFFFD"
  by (simp_all add: is_high_def is_low_def)

lemma low_not_high [simp]: "is_low c \<Longrightarrow> \<not> is_high c"
  by (auto simp: is_high_def is_low_def word_le_nat_alt)

lemma replaced_well_formed: "well_formed_utf16 (replace_lone_low False (replace_lone_high s))"
proof (induction s rule: induct_list012)
  case (3 c d s)
  show ?case
  proof (cases "is_high c \<and> is_low d")
    case True
    with 3(1) low_not_high[of c] show ?thesis by auto
  next
    case False
    define e where "e = (if is_high c then 0xFFFD else c)"
    define t where "t = replace_lone_high (d # s)"
    have "replace_lone_high (c # d # s) = e # t" using False by (simp add: e_def t_def)
    moreover have "\<not> is_high e" by (simp add: e_def)
    moreover have "well_formed_utf16 (replace_lone_low False t)" using 3(2) by (simp only: t_def)
    ultimately show ?thesis by simp
  qed
qed simp_all

lemma replace_lone_high_set: "set (replace_lone_high s) \<subseteq> insert 0xFFFD (set s)"
  by (induction s) auto

lemma replace_lone_low_set: "set (replace_lone_low b s) \<subseteq> insert 0xFFFD (set s)"
  by (induction s arbitrary: b) auto

lemma sanitize_units_storable [simp]: "storable (sanitize_units s)"
proof -
  let ?f = "filter (\<lambda>c. c \<noteq> 0) s"
  have "set (sanitize_units s) \<subseteq> insert 0xFFFD (set ?f)"
    using replace_lone_low_set[of False "replace_lone_high ?f"] replace_lone_high_set[of ?f]
    unfolding sanitize_units_def by blast
  moreover have "0 \<notin> insert 0xFFFD (set ?f)" by simp
  ultimately have "0 \<notin> set (sanitize_units s)" by blast
  with replaced_well_formed[of ?f] show ?thesis by (simp add: storable_def sanitize_units_def)
qed

lemma replace_fixed:
  "well_formed_utf16 s \<Longrightarrow> replace_lone_high s = s \<and> replace_lone_low False s = s"
proof (induction s rule: induct_list012)
  case (3 c d s)
  show ?case
  proof (cases "is_high c")
    case True
    with 3 low_not_high[of c] show ?thesis by auto
  next
    case False
    with 3 have "replace_lone_high (d # s) = d # s \<and> replace_lone_low False (d # s) = d # s" "\<not> is_low c" by simp_all
    with False show ?thesis by (simp del: replace_lone_high.simps(2)[of d] add: replace_lone_high.simps(2)[of c])
  qed
qed (simp_all split: if_splits)

lemma sanitize_units_id: "storable s \<Longrightarrow> sanitize_units s = s"
proof -
  assume s: "storable s"
  then have "filter (\<lambda>c. c \<noteq> 0) s = s" by (auto simp: storable_def filter_id_conv)
  with s show ?thesis by (simp add: sanitize_units_def replace_fixed storable_def)
qed

lemma sanitize_storable: "json_storable (sanitizeJsonbHostile v)"
proof (induction v rule: sanitizeJsonbHostile.induct)
  case (3 kvs)
  let ?l = "map (\<lambda>(k, v). (sanitize_units k, sanitizeJsonbHostile v)) kvs"
  have "\<forall>(k, v) \<in> set ?l. storable k \<and> json_storable v" using 3 by auto
  then show ?case using fold_obj_set_in[of ?l "[]"] by auto
qed auto

text \<open>A value whose objects have distinct keys, as every parsed object has.\<close>

fun json_keys_distinct :: "json \<Rightarrow> bool" where
  "json_keys_distinct (J_Arr vs) \<longleftrightarrow> (\<forall>v \<in> set vs. json_keys_distinct v)"
| "json_keys_distinct (J_Obj kvs) \<longleftrightarrow> distinct (map fst kvs) \<and> (\<forall>(k, v) \<in> set kvs. json_keys_distinct v)"
| "json_keys_distinct v \<longleftrightarrow> True"

lemma sanitize_id: "json_storable v \<Longrightarrow> json_keys_distinct v \<Longrightarrow> sanitizeJsonbHostile v = v"
proof (induction v rule: sanitizeJsonbHostile.induct)
  case (2 vs)
  then show ?case by (simp add: map_idI)
next
  case (3 kvs)
  have "map (\<lambda>(k, v). (sanitize_units k, sanitizeJsonbHostile v)) kvs = kvs"
  proof (rule map_idI)
    fix kv assume kv: "kv \<in> set kvs"
    obtain k v where [simp]: "kv = (k, v)" by (cases kv)
    have "sanitizeJsonbHostile v = v" using 3 kv by fastforce
    then show "(case kv of (k, v) \<Rightarrow> (sanitize_units k, sanitizeJsonbHostile v)) = kv"
      using 3 kv by (auto simp: sanitize_units_id)
  qed
  with 3(3) show ?case using fold_obj_set_distinct[of "[]" kvs] by simp
qed (simp_all add: sanitize_units_id)


section \<open>The rows that are eligible\<close>

text \<open>\<open>json_extract(payload_json, '$.scope')\<close>.\<close>

fun payload_scope :: "payload option \<Rightarrow> mem_scope option" where
  "payload_scope (Some (P_Create c)) = Some (cp_scope c)"
| "payload_scope (Some (P_Erase sc _)) = Some sc"
| "payload_scope _ = None"

fun local_only :: "event_type \<Rightarrow> bool" where
  "local_only E_Archive = True"
| "local_only E_Restore = True"
| "local_only E_Unsupersede = True"
| "local_only E_Purge = True"
| "local_only E_Unpurge = True"
| "local_only _ = False"

definition shareable :: "mem_scope option \<Rightarrow> bool" where
  "shareable sc \<longleftrightarrow> sc = Some Team \<or> sc = Some Org"

definition current_scope_of :: "store \<Rightarrow> string \<Rightarrow> mem_scope option" where
  "current_scope_of s i = map_option mem_scope (get_memory i s)"

definition unsynced :: "store \<Rightarrow> mem_event \<Rightarrow> bool" where
  "unsynced s e \<longleftrightarrow>
     synced_at e = None \<and> rejected_at e = None \<and> \<not> local_only (event_type e) \<and>
     (shareable (current_scope_of s (atom_id e)) \<or>
      event_type e = E_Erase_Request \<and> shareable (payload_scope (ev_payload e)))"

record unsynced_row =
  ur_event :: mem_event
  current_scope :: "mem_scope option"

definition listUnsynced :: "store \<Rightarrow> nat \<Rightarrow> unsynced_row list" where
  "listUnsynced s batchSize =
     map (\<lambda>e. \<lparr>ur_event = e, current_scope = current_scope_of s (atom_id e)\<rparr>)
       (take batchSize (sort_key seq (filter (unsynced s) (events s))))"

definition max_of :: "int list \<Rightarrow> int option" where
  "max_of xs = (if xs = [] then None else Some (foldr max xs (hd xs)))"

definition lastAckedSeq :: "store \<Rightarrow> int" where
  "lastAckedSeq s =
     (case max_of (map (\<lambda>e. int (seq e)) (filter (\<lambda>e. synced_at e \<noteq> None) (events s))) of
        None \<Rightarrow> 0 | Some n \<Rightarrow> n)"

definition lastShipAt :: "store \<Rightarrow> epoch_ms option" where
  "lastShipAt s = max_of (List.map_filter synced_at (events s))"

definition countUnsynced :: "store \<Rightarrow> nat" where
  "countUnsynced s = count_rows (unsynced s) (events s)"

definition countRejected :: "store \<Rightarrow> nat" where
  "countRejected s = count_rows (\<lambda>e. rejected_at e \<noteq> None) (events s)"

definition countRejectedIn :: "store \<Rightarrow> nat list \<Rightarrow> nat" where
  "countRejectedIn s seqs =
     (if seqs = [] then 0 else count_rows (\<lambda>e. rejected_at e \<noteq> None \<and> seq e \<in> set seqs) (events s))"

definition clearRejected :: "nat list option \<Rightarrow> store \<Rightarrow> nat \<times> store" where
  "clearRejected seqs s =
     (case seqs of
        Some ks \<Rightarrow>
          if ks = [] then (0, s)
          else (count_rows (\<lambda>e. seq e \<in> set ks \<and> rejected_at e \<noteq> None) (events s),
                s\<lparr>events := update_rows (\<lambda>e. seq e \<in> set ks \<and> rejected_at e \<noteq> None)
                              (\<lambda>e. e\<lparr>rejected_at := None\<rparr>) (events s)\<rparr>)
      | None \<Rightarrow>
          (count_rows (\<lambda>e. rejected_at e \<noteq> None) (events s),
           s\<lparr>events := update_rows (\<lambda>e. rejected_at e \<noteq> None) (\<lambda>e. e\<lparr>rejected_at := None\<rparr>) (events s)\<rparr>))"

section \<open>The envelope\<close>

text \<open>A string of the store as the code units it consists of, sanitized.\<close>

definition sanitize_text :: "string \<Rightarrow> string" where
  "sanitize_text s = map (\<lambda>w. char_of (unat w)) (sanitize_units (map (\<lambda>c. of_nat (of_char c)) s))"

definition sanitize_create :: "create_payload \<Rightarrow> create_payload" where
  "sanitize_create c =
     c\<lparr>cp_text := sanitize_text (cp_text c), cp_type := sanitize_text (cp_type c),
       cp_repo := sanitize_text (cp_repo c),
       cp_entities := map_option (map (map_prod sanitize_text sanitize_text)) (cp_entities c),
       cp_evidence := map_option (map_prod sanitize_text sanitize_text) (cp_evidence c)\<rparr>"

fun sanitize_payload :: "payload \<Rightarrow> payload" where
  "sanitize_payload (P_Create c) = P_Create (sanitize_create c)"
| "sanitize_payload (P_Reason r) = P_Reason (map_option sanitize_text r)"
| "sanitize_payload (P_Corrected w c) = P_Corrected (sanitize_text w) c"
| "sanitize_payload (P_Superseded w p) = P_Superseded (sanitize_text w) p"
| "sanitize_payload (P_Superseded_Bulk w p) = P_Superseded_Bulk (sanitize_text w) p"
| "sanitize_payload (P_Conflict_Merge w) = P_Conflict_Merge (sanitize_text w)"
| "sanitize_payload (P_Unsuperseded w r) = P_Unsuperseded (sanitize_text w) (map_option sanitize_text r)"
| "sanitize_payload (P_Purge b src t) = P_Purge (sanitize_text b) (sanitize_text src) t"
| "sanitize_payload (P_Unpurge b) = P_Unpurge (sanitize_text b)"
| "sanitize_payload (P_Promote a b) = P_Promote a b"
| "sanitize_payload (P_Erase sc r) = P_Erase sc (map_option sanitize_text r)"
| "sanitize_payload (P_Recall_Served h score surface md) =
     P_Recall_Served (sanitize_text h) score (sanitize_text surface) (map_option sanitize_text md)"
| "sanitize_payload (P_Recall_Used surface signal basis) =
     P_Recall_Used (sanitize_text surface) signal (map_option sanitize_text basis)"

definition withCurrentScope :: "unsynced_row \<Rightarrow> payload option \<Rightarrow> payload option" where
  "withCurrentScope r p =
     (if event_type (ur_event r) \<noteq> E_Create \<or> p = None \<or> current_scope r = None then p
      else case p of
             Some (P_Create c) \<Rightarrow> Some (P_Create (c\<lparr>cp_scope := the (current_scope r)\<rparr>))
           | _ \<Rightarrow> p)"

record wire_event =
  we_seq :: nat
  we_event_id :: string
  we_event_type :: event_type
  we_atom :: string
  we_payload :: "payload option"
  we_hash :: "string option"
  we_created :: epoch_ms

record sync_envelope =
  env_device :: string
  env_workspace :: string
  env_cursor :: int
  env_events :: "wire_event list"

definition wire :: "unsynced_row \<Rightarrow> wire_event" where
  "wire r =
     (let e = ur_event r
      in \<lparr>we_seq = seq e, we_event_id = event_id e, we_event_type = event_type e, we_atom = atom_id e,
          we_payload = map_option sanitize_payload (withCurrentScope r (ev_payload e)),
          we_hash = content_hash e, we_created = ev_created e\<rparr>)"

definition buildEnvelope :: "string \<Rightarrow> string \<Rightarrow> int \<Rightarrow> unsynced_row list \<Rightarrow> sync_envelope" where
  "buildEnvelope dev ws cur rows =
     \<lparr>env_device = dev, env_workspace = ws, env_cursor = cur, env_events = map wire rows\<rparr>"

section \<open>A shipping round\<close>

text \<open>
  The answer of the cloud: the request failed, an HTTP error status, or a body with the fields
  that had the right type (\<open>acked_seq\<close> a number, \<open>rejected_seqs\<close> an array, of which the numbers).
\<close>

datatype ship_response =
    Network_Error string
  | Http_Error nat string
  | Body "int option" "int list option"

datatype ship_error =
    Ship_Network string
  | Ship_Http nat string
  | Ship_No_Ack

record ship_once_result =
  shipped :: nat
  acked :: nat
  rejected :: nat
  idle :: bool

definition mark_rows ::
  "(mem_event \<Rightarrow> bool) \<Rightarrow> (mem_event \<Rightarrow> mem_event) \<Rightarrow> nat list \<Rightarrow> store \<Rightarrow> store" where
  "mark_rows unset f ks s =
     (if ks = [] then s
      else s\<lparr>events := update_rows (\<lambda>e. seq e \<in> set ks \<and> unset e) f (events s)\<rparr>)"

definition rejected_of :: "int list option \<Rightarrow> nat list \<Rightarrow> nat list" where
  "rejected_of rejected_seqs rowSeqs =
     (case rejected_seqs of
        None \<Rightarrow> []
      | Some ks \<Rightarrow> map nat (filter (\<lambda>k. 0 \<le> k \<and> nat k \<in> set rowSeqs) ks))"

definition acked_of :: "int \<Rightarrow> nat list \<Rightarrow> nat list \<Rightarrow> nat list" where
  "acked_of ackedSeq rejectedSeqs rowSeqs =
     filter (\<lambda>k. int k \<le> ackedSeq \<and> k \<notin> set rejectedSeqs) rowSeqs"

definition settle_ship ::
  "epoch_ms \<Rightarrow> unsynced_row list \<Rightarrow> ship_response \<Rightarrow> store \<Rightarrow> ship_error + ship_once_result \<times> store" where
  "settle_ship now rows res s =
     (case res of
        Network_Error m \<Rightarrow> Inl (Ship_Network m)
      | Http_Error st body \<Rightarrow> Inl (Ship_Http st body)
      | Body acked_seq rejected_seqs \<Rightarrow>
          (let ackedSeq = (case acked_seq of None \<Rightarrow> - 1 | Some n \<Rightarrow> n)
           in if ackedSeq < 0 then Inl Ship_No_Ack
              else
                (let rowSeqs = map (\<lambda>r. seq (ur_event r)) rows;
                     rejectedSeqs = rejected_of rejected_seqs rowSeqs;
                     shippedAcked = acked_of ackedSeq rejectedSeqs rowSeqs;
                     s1 = mark_rows (\<lambda>e. synced_at e = None) (\<lambda>e. e\<lparr>synced_at := Some now\<rparr>) shippedAcked s;
                     s2 = mark_rows (\<lambda>e. rejected_at e = None) (\<lambda>e. e\<lparr>rejected_at := Some now\<rparr>) rejectedSeqs s1
                 in Inr (\<lparr>shipped = length rows, acked = length shippedAcked,
                          rejected = length rejectedSeqs, idle = False\<rparr>, s2))))"

definition shipOnce ::
  "string \<Rightarrow> string \<Rightarrow> nat \<Rightarrow> epoch_ms \<Rightarrow> (sync_envelope \<Rightarrow> ship_response) \<Rightarrow> store \<Rightarrow>
   ship_error + ship_once_result \<times> store" where
  "shipOnce dev ws batchSize now cloud s =
     (let rows = listUnsynced s batchSize
      in if rows = [] then Inr (\<lparr>shipped = 0, acked = 0, rejected = 0, idle = True\<rparr>, s)
         else settle_ship now rows (cloud (buildEnvelope dev ws (lastAckedSeq s) rows)) s)"


section \<open>The retry loop and its persisted state\<close>

definition BACKOFF_CAP_MS :: int where "BACKOFF_CAP_MS = 15 * 60000"
definition DEFAULT_BATCH :: nat where "DEFAULT_BATCH = 25"
definition DEFAULT_INTERVAL_MS :: int where "DEFAULT_INTERVAL_MS = 30000"
definition MAX_SHIP_ERROR_LEN :: nat where "MAX_SHIP_ERROR_LEN = 500"

definition ship_backoffDelay :: "int \<Rightarrow> nat \<Rightarrow> int" where
  "ship_backoffDelay baseMs consecutiveFailures = min (baseMs * 2 ^ consecutiveFailures) BACKOFF_CAP_MS"

text \<open>\<open>message.split(token).join(replacement)\<close> for a token that is not empty.\<close>

function split_join :: "string \<Rightarrow> string \<Rightarrow> string \<Rightarrow> string" where
  "split_join tok rep s =
     (case s of
        [] \<Rightarrow> []
      | c # cs \<Rightarrow> if tok \<noteq> [] \<and> prefix tok s then rep @ split_join tok rep (drop (length tok) s)
                  else c # split_join tok rep cs)"
  by pat_completeness auto
termination by (relation "measure (\<lambda>(tok, rep, s). length s)") auto

declare split_join.simps [simp del]

text \<open>The ellipsis U+2026 is one code unit, written here with a Latin-1 control character.\<close>

definition ellipsis :: string where "ellipsis = [CHR 0x85]"

definition sanitizeShipError :: "string \<Rightarrow> string option \<Rightarrow> string" where
  "sanitizeShipError message token =
     (let msg = (case token of
                   Some t \<Rightarrow> if t \<noteq> [] then split_join t ''[redacted]'' message else message
                 | None \<Rightarrow> message)
      in if MAX_SHIP_ERROR_LEN < length msg then take MAX_SHIP_ERROR_LEN msg @ ellipsis else msg)"

datatype attempt_result = Attempt_Ok | Attempt_Error

record ship_attempt =
  last_attempt_at :: "epoch_ms option"
  last_result :: "attempt_result option"
  last_error :: "string option"
  consecutive_failures :: nat
  next_retry_at :: "epoch_ms option"

text \<open>The loop: the log, the row of \<open>sync_ship_state\<close>, its local failure counter and stop flag.\<close>

record shipper =
  sh_store :: store
  sh_row :: "ship_attempt option"
  sh_failures :: nat
  sh_stopped :: bool

definition recordShipSuccess :: "epoch_ms \<Rightarrow> ship_attempt" where
  "recordShipSuccess t =
     \<lparr>last_attempt_at = Some t, last_result = Some Attempt_Ok, last_error = None,
      consecutive_failures = 0, next_retry_at = None\<rparr>"

definition recordShipFailure :: "epoch_ms \<Rightarrow> string \<Rightarrow> nat \<Rightarrow> epoch_ms \<Rightarrow> string option \<Rightarrow> ship_attempt" where
  "recordShipFailure t raw fails nextRetryAt token =
     \<lparr>last_attempt_at = Some t, last_result = Some Attempt_Error,
      last_error = Some (sanitizeShipError raw token), consecutive_failures = fails,
      next_retry_at = Some nextRetryAt\<rparr>"

definition getShipAttemptState :: "ship_attempt option \<Rightarrow> ship_attempt" where
  "getShipAttemptState row =
     (case row of
        None \<Rightarrow> \<lparr>last_attempt_at = None, last_result = None, last_error = None,
                 consecutive_failures = 0, next_retry_at = None\<rparr>
      | Some r \<Rightarrow> r)"

record ship_config =
  sc_device :: string
  sc_workspace :: string
  sc_token :: string
  sc_batch :: nat
  sc_interval :: int

text \<open>
  One call of \<open>round\<close>, with the delay it schedules the next one after (\<open>None\<close> once stopped).
  \<open>msg\<close> renders an error as its message.
\<close>

definition ship_round ::
  "ship_config \<Rightarrow> (ship_error \<Rightarrow> string) \<Rightarrow> epoch_ms \<Rightarrow> epoch_ms \<Rightarrow> (sync_envelope \<Rightarrow> ship_response) \<Rightarrow>
   shipper \<Rightarrow> int option \<times> shipper" where
  "ship_round cfg msg attemptAt settledAt cloud sh =
     (if sh_stopped sh then (None, sh)
      else case shipOnce (sc_device cfg) (sc_workspace cfg) (sc_batch cfg) settledAt cloud (sh_store sh) of
             Inr (res, s') \<Rightarrow>
               (Some (sc_interval cfg),
                sh\<lparr>sh_store := s', sh_failures := 0, sh_row := Some (recordShipSuccess attemptAt)\<rparr>)
           | Inl err \<Rightarrow>
               (let fails = sh_failures sh + 1;
                    delay = ship_backoffDelay (sc_interval cfg) fails
                in (Some delay,
                    sh\<lparr>sh_failures := fails,
                       sh_row := Some (recordShipFailure attemptAt (msg err) fails (attemptAt + delay)
                                         (Some (sc_token cfg)))\<rparr>)))"

definition stop_shipper :: "shipper \<Rightarrow> shipper" where
  "stop_shipper sh = sh\<lparr>sh_stopped := True\<rparr>"

record shipper_gate =
  g_enabled :: bool
  g_experimental :: bool
  g_dataDir :: string
  g_isolated :: bool

definition shouldStartShipper :: "shipper_gate \<Rightarrow> bool" where
  "shouldStartShipper g \<longleftrightarrow>
     g_enabled g \<and> g_experimental g \<and> g_dataDir g \<noteq> '':memory:'' \<and> \<not> g_isolated g"

section \<open>Backfill and reship\<close>

text \<open>\<open>whereProject\<close> and \<open>whereScope\<close>; an empty project name is falsy and filters nothing.\<close>

definition whereProject :: "string option \<Rightarrow> memory \<Rightarrow> bool" where
  "whereProject project m \<longleftrightarrow> project = None \<or> project = Some [] \<or> mem_project m = project"

definition whereScope :: "mem_scope option \<Rightarrow> memory \<Rightarrow> bool" where
  "whereScope sc m \<longleftrightarrow>
     (case sc of None \<Rightarrow> shareable (Some (mem_scope m)) | Some x \<Rightarrow> mem_scope m = x)"

definition row_matches :: "(memory \<Rightarrow> bool) \<Rightarrow> store \<Rightarrow> string \<Rightarrow> bool" where
  "row_matches Q s i \<longleftrightarrow> (case get_memory i s of None \<Rightarrow> False | Some m \<Rightarrow> Q m)"

definition row_payload :: "memory \<Rightarrow> payload" where
  "row_payload m =
     P_Create \<lparr>cp_text = mem_text m, cp_type = mem_type m, cp_scope = mem_scope m,
       cp_importance = mem_importance m, cp_confidence = mem_confidence m,
       cp_repo = (case mem_repo m of Some r \<Rightarrow> r
                  | None \<Rightarrow> (case mem_project m of Some p \<Rightarrow> p | None \<Rightarrow> [])),
       cp_entities = None, cp_evidence = None, cp_consent = None\<rparr>"

definition empty_create :: "mem_event \<Rightarrow> bool" where
  "empty_create e \<longleftrightarrow> event_type e = E_Create \<and> ev_payload e = None"

record backfill_plan =
  bp_private :: nat
  bp_shareable :: nat
  bp_creates :: nat

definition planBackfill :: "string option \<Rightarrow> store \<Rightarrow> backfill_plan" where
  "planBackfill project s =
     \<lparr>bp_private = count_rows (\<lambda>m. mem_scope m = Private \<and> whereProject project m) (memories s),
      bp_shareable = count_rows (\<lambda>m. shareable (Some (mem_scope m)) \<and> whereProject project m) (memories s),
      bp_creates = count_rows (\<lambda>e. empty_create e \<and> synced_at e = None \<and>
                                 row_matches (whereProject project) s (atom_id e)) (events s)\<rparr>"

fun promote_all ::
  "(nat \<Rightarrow> string) \<Rightarrow> epoch_ms \<Rightarrow> mem_scope \<Rightarrow> nat \<Rightarrow> string list \<Rightarrow> store \<Rightarrow> lifecycle_error + store" where
  "promote_all u now sc n [] s = Inr s"
| "promote_all u now sc n (i # is') s =
     (case promoteScope (\<lambda>j. u (n + j)) now i sc s of
        Inl e \<Rightarrow> Inl e
      | Inr s1 \<Rightarrow> promote_all u now sc (n + 1) is' s1)"

definition fill_payload :: "store \<Rightarrow> mem_event \<Rightarrow> mem_event" where
  "fill_payload s e = e\<lparr>ev_payload := map_option row_payload (get_memory (atom_id e) s)\<rparr>"

text \<open>Promoted and backfilled counts, and the store.\<close>

definition applyBackfill ::
  "(nat \<Rightarrow> string) \<Rightarrow> epoch_ms \<Rightarrow> mem_scope \<Rightarrow> string option \<Rightarrow> store \<Rightarrow>
   lifecycle_error + (nat \<times> nat) \<times> store" where
  "applyBackfill u now sc project s =
     (let ids = map mem_id (filter (\<lambda>m. mem_scope m = Private \<and> whereProject project m) (memories s))
      in case promote_all u now sc 0 ids s of
           Inl e \<Rightarrow> Inl e
         | Inr s1 \<Rightarrow>
             (let P = (\<lambda>e. empty_create e \<and> synced_at e = None \<and>
                         row_matches (\<lambda>m. shareable (Some (mem_scope m)) \<and> whereProject project m) s1 (atom_id e))
              in Inr ((length ids, count_rows P (events s1)),
                      s1\<lparr>events := update_rows P (fill_payload s1) (events s1)\<rparr>)))"

definition reship_eligible :: "mem_scope option \<Rightarrow> string option \<Rightarrow> store \<Rightarrow> mem_event \<Rightarrow> bool" where
  "reship_eligible sc project s e \<longleftrightarrow>
     empty_create e \<and> synced_at e \<noteq> None \<and>
     row_matches (\<lambda>m. whereScope sc m \<and> whereProject project m) s (atom_id e)"

definition planReship :: "mem_scope option \<Rightarrow> string option \<Rightarrow> store \<Rightarrow> nat" where
  "planReship sc project s = count_rows (reship_eligible sc project s) (events s)"

definition applyReship :: "mem_scope option \<Rightarrow> string option \<Rightarrow> store \<Rightarrow> nat \<times> store" where
  "applyReship sc project s =
     (count_rows (reship_eligible sc project s) (events s),
      s\<lparr>events := update_rows (reship_eligible sc project s)
                    (\<lambda>e. (fill_payload s e)\<lparr>synced_at := None\<rparr>) (events s)\<rparr>)"

section \<open>What leaves the machine\<close>

lemma listUnsynced_rowD:
  assumes "r \<in> set (listUnsynced s n)"
  shows "ur_event r \<in> set (events s)" "unsynced s (ur_event r)"
    "current_scope r = current_scope_of s (atom_id (ur_event r))"
  using assms set_take_subset[of n "sort_key seq (filter (unsynced s) (events s))"]
  by (auto simp: listUnsynced_def)

lemma length_listUnsynced [simp]: "length (listUnsynced s n) = min n (countUnsynced s)"
  by (simp add: listUnsynced_def countUnsynced_def count_rows_def min.commute)

lemma shareable_not_private: "shareable (Some sc) \<longleftrightarrow> sc \<noteq> Private"
  by (cases sc) (simp_all add: shareable_def)

lemma unit_of_char:
  "(of_nat (of_char c) :: 16 word) = 0 \<longleftrightarrow> (of_char c :: nat) = 0"
  "unat (of_nat (of_char c) :: 16 word) = of_char c"
  "\<not> is_high (of_nat (of_char c))" "\<not> is_low (of_nat (of_char c))"
proof -
  have c: "of_char c < (256 :: nat)" by (rule nat_of_char_less_256)
  then have "of_char c mod (65536 :: nat) = of_char c" by (intro mod_less) linarith
  then show u: "unat (of_nat (of_char c) :: 16 word) = of_char c" by (simp add: unat_of_nat)
  show "(of_nat (of_char c) :: 16 word) = 0 \<longleftrightarrow> (of_char c :: nat) = 0"
    using u by (metis unat_eq_zero)
  show "\<not> is_high (of_nat (of_char c))" "\<not> is_low (of_nat (of_char c))"
    using c by (auto simp: is_high_def is_low_def word_le_nat_alt u simp del: nat_of_char_less_256)
qed

lemma sanitize_text_eq: "sanitize_text s = filter (\<lambda>c. (of_char c :: nat) \<noteq> 0) s"
proof -
  have hi: "replace_lone_high (map (\<lambda>c. of_nat (of_char c)) t) = map (\<lambda>c. of_nat (of_char c)) t" for t :: string
    by (induction t) (simp_all add: unit_of_char)
  have lo: "replace_lone_low False (map (\<lambda>c. of_nat (of_char c)) t) = map (\<lambda>c. of_nat (of_char c)) t" for t :: string
    by (induction t) (simp_all add: unit_of_char)
  show ?thesis
    by (simp add: sanitize_text_def sanitize_units_def filter_map hi lo o_def unit_of_char)
qed

lemma sanitize_text_no_nul: "CHR 0x00 \<notin> set (sanitize_text s)"
  by (simp add: sanitize_text_eq)

text \<open>Every string of a payload, and that none contains a NUL.\<close>

fun payload_strings :: "payload \<Rightarrow> string list" where
  "payload_strings (P_Create c) = cp_text c # cp_type c # cp_repo c #
     concat (map (\<lambda>(a, b). [a, b]) (case cp_entities c of None \<Rightarrow> [] | Some xs \<Rightarrow> xs)) @
     (case cp_evidence c of None \<Rightarrow> [] | Some (a, b) \<Rightarrow> [a, b])"
| "payload_strings (P_Reason r) = (case r of None \<Rightarrow> [] | Some x \<Rightarrow> [x])"
| "payload_strings (P_Corrected w c) = [w]"
| "payload_strings (P_Superseded w p) = [w]"
| "payload_strings (P_Superseded_Bulk w p) = [w]"
| "payload_strings (P_Conflict_Merge w) = [w]"
| "payload_strings (P_Unsuperseded w r) = w # (case r of None \<Rightarrow> [] | Some x \<Rightarrow> [x])"
| "payload_strings (P_Purge b src t) = [b, src]"
| "payload_strings (P_Unpurge b) = [b]"
| "payload_strings (P_Promote a b) = []"
| "payload_strings (P_Erase sc r) = (case r of None \<Rightarrow> [] | Some x \<Rightarrow> [x])"
| "payload_strings (P_Recall_Served h score surface md) = h # surface # (case md of None \<Rightarrow> [] | Some x \<Rightarrow> [x])"
| "payload_strings (P_Recall_Used surface signal basis) = surface # (case basis of None \<Rightarrow> [] | Some x \<Rightarrow> [x])"

lemma sanitize_payload_no_nul: "x \<in> set (payload_strings (sanitize_payload p)) \<Longrightarrow> CHR 0x00 \<notin> set x"
  by (cases p) (auto simp: sanitize_create_def sanitize_text_no_nul split: option.splits prod.splits)

definition wire_permitted :: "store \<Rightarrow> wire_event \<Rightarrow> bool" where
  "wire_permitted s w \<longleftrightarrow>
     \<not> local_only (we_event_type w) \<and>
     (case current_scope_of s (we_atom w) of
        Some sc \<Rightarrow> sc \<noteq> Private \<or> we_event_type w = E_Erase_Request
      | None \<Rightarrow> we_event_type w = E_Erase_Request) \<and>
     (we_event_type w = E_Erase_Request \<longrightarrow>
        current_scope_of s (we_atom w) \<in> {Some Team, Some Org} \<or>
        payload_scope (we_payload w) \<in> {Some Team, Some Org})"

definition wire_typed :: "store \<Rightarrow> wire_event \<Rightarrow> bool" where
  "wire_typed s w \<longleftrightarrow>
     (\<forall>p. we_payload w = Some p \<longrightarrow> list_all (\<lambda>x. CHR 0x00 \<notin> set x) (payload_strings p)) \<and>
     (we_event_type w = E_Create \<longrightarrow>
        (\<forall>c. we_payload w = Some (P_Create c) \<longrightarrow>
           cp_scope c \<noteq> Private \<and> current_scope_of s (we_atom w) = Some (cp_scope c)))"

lemma payload_scope_sanitize: "payload_scope (map_option sanitize_payload p) = payload_scope p"
proof (cases p)
  case (Some q)
  then show ?thesis by (cases q) (simp_all add: sanitize_create_def)
qed simp

lemma wire_fields [simp]:
  "we_event_type (wire r) = event_type (ur_event r)" "we_atom (wire r) = atom_id (ur_event r)"
  "we_seq (wire r) = seq (ur_event r)" "we_event_id (wire r) = event_id (ur_event r)"
  "we_payload (wire r) = map_option sanitize_payload (withCurrentScope r (ev_payload (ur_event r)))"
  by (simp_all add: wire_def Let_def)

lemma create_wire_scope:
  assumes "event_type (ur_event r) = E_Create" and "current_scope r = Some sc"
    and "map_option sanitize_payload (withCurrentScope r p) = Some (P_Create c)"
  shows "cp_scope c = sc"
proof (cases p)
  case (Some q)
  with assms show ?thesis by (cases q) (auto simp: withCurrentScope_def sanitize_create_def)
qed (use assms in \<open>simp add: withCurrentScope_def\<close>)

lemma wire_ok:
  assumes r: "r \<in> set (listUnsynced s n)"
  shows "wire_permitted s (wire r)" "wire_typed s (wire r)"
proof -
  note u = listUnsynced_rowD(2)[OF r, unfolded unsynced_def] and c = listUnsynced_rowD(3)[OF r]
  show "wire_permitted s (wire r)"
    using u c by (auto simp: wire_permitted_def payload_scope_sanitize withCurrentScope_def shareable_def split: option.splits)
  show "wire_typed s (wire r)"
    unfolding wire_typed_def list_all_iff wire_fields
  proof (intro conjI allI impI ballI)
    fix p x assume "map_option sanitize_payload (withCurrentScope r (ev_payload (ur_event r))) = Some p"
      and "x \<in> set (payload_strings p)"
    then show "CHR 0x00 \<notin> set x" using sanitize_payload_no_nul by auto
  next
    fix d assume e: "event_type (ur_event r) = E_Create"
      and p: "map_option sanitize_payload (withCurrentScope r (ev_payload (ur_event r))) = Some (P_Create d)"
    obtain sc where sc: "current_scope_of s (atom_id (ur_event r)) = Some sc" "sc \<noteq> Private"
      using u e by (auto simp: shareable_def)
    with create_wire_scope[OF e _ p] c
    show "cp_scope d \<noteq> Private" "current_scope_of s (atom_id (ur_event r)) = Some (cp_scope d)" by auto
  qed
qed

section \<open>Marking\<close>

lemma mark_rows_frame [simp]:
  "memories (mark_rows P f ks s) = memories s" "next_seq (mark_rows P f ks s) = next_seq s"
  "current_scope_of (mark_rows P f ks s) i = current_scope_of s i"
  by (simp_all add: mark_rows_def current_scope_of_def get_memory_def)

lemma events_mark_rows:
  "events (mark_rows P f ks s) = map (\<lambda>e. if seq e \<in> set ks \<and> P e then f e else e) (events s)"
  by (auto simp: mark_rows_def update_rows_def intro: map_idI[symmetric])

definition settled :: "epoch_ms \<Rightarrow> nat list \<Rightarrow> nat list \<Rightarrow> mem_event \<Rightarrow> mem_event" where
  "settled now A R e =
     (let e1 = (if seq e \<in> set A \<and> synced_at e = None then e\<lparr>synced_at := Some now\<rparr> else e)
      in if seq e \<in> set R \<and> rejected_at e = None then e1\<lparr>rejected_at := Some now\<rparr> else e1)"

lemma settled_simps [simp]:
  "seq (settled now A R e) = seq e" "event_type (settled now A R e) = event_type e"
  "atom_id (settled now A R e) = atom_id e" "ev_payload (settled now A R e) = ev_payload e"
  "event_id (settled now A R e) = event_id e" "content_hash (settled now A R e) = content_hash e"
  by (simp_all add: settled_def Let_def)

abbreviation row_seqs :: "unsynced_row list \<Rightarrow> nat list" where
  "row_seqs rows \<equiv> map (\<lambda>r. seq (ur_event r)) rows"

lemma rejected_of_subset: "set (rejected_of rj ks) \<subseteq> set ks"
  by (auto simp: rejected_of_def split: option.splits)

lemma rejected_of_set: "set (rejected_of (Some ks) qs) = {k \<in> set qs. int k \<in> set ks}"
proof (intro set_eqI iffI)
  fix x assume "x \<in> {k \<in> set qs. int k \<in> set ks}"
  then have "int x \<in> {k \<in> set ks. 0 \<le> k \<and> nat k \<in> set qs}" by simp
  from imageI[OF this, of nat] show "x \<in> set (rejected_of (Some ks) qs)" by (simp add: rejected_of_def)
qed (auto simp: rejected_of_def)

lemma acked_of_subset: "set (acked_of a R ks) \<subseteq> set ks - set R"
  by (auto simp: acked_of_def)

lemma settle_events:
  assumes "settle_ship now rows (Body a rj) s = Inr (res, s')"
    and R: "R = rejected_of rj (row_seqs rows)" and A: "A = acked_of (the a) R (row_seqs rows)"
  shows "events s' = map (settled now A R) (events s)" "memories s' = memories s"
    "acked res = length A" "rejected res = length R" "shipped res = length rows"
proof -
  obtain n where a: "a = Some n" "0 \<le> n" using assms(1) by (cases a) (auto simp: settle_ship_def split: if_splits)
  have s': "s' = mark_rows (\<lambda>e. rejected_at e = None) (\<lambda>e. e\<lparr>rejected_at := Some now\<rparr>) R
              (mark_rows (\<lambda>e. synced_at e = None) (\<lambda>e. e\<lparr>synced_at := Some now\<rparr>) A s)"
    and res: "res = \<lparr>shipped = length rows, acked = length A, rejected = length R, idle = False\<rparr>"
    using assms a by (simp_all add: settle_ship_def Let_def)
  have "(if seq x \<in> set R \<and> rejected_at x = None then x\<lparr>rejected_at := Some now\<rparr> else x) = settled now A R e"
    if "x = (if seq e \<in> set A \<and> synced_at e = None then e\<lparr>synced_at := Some now\<rparr> else e)" for x e
    using that by (simp add: settled_def Let_def)
  then show "events s' = map (settled now A R) (events s)"
    unfolding s' events_mark_rows map_map o_def by (intro map_cong refl) blast
  show "memories s' = memories s" by (simp add: s')
  show "acked res = length A" "rejected res = length R" "shipped res = length rows" by (simp_all add: res)
qed

lemma count_by_keys:
  assumes "distinct (map seq es)" and "X \<subseteq> seq ` set (filter P es)"
  shows "count_rows (\<lambda>e. P e \<and> seq e \<in> X) es = card X"
proof -
  let ?f = "filter (\<lambda>e. P e \<and> seq e \<in> X) es"
  have "distinct (map seq ?f)" using assms(1) by (simp add: distinct_map_filter)
  from distinct_card[OF this] have "length ?f = card (seq ` set ?f)" by simp
  moreover have "seq ` set ?f = X"
  proof
    show "X \<subseteq> seq ` set ?f"
    proof
      fix k assume k: "k \<in> X"
      with assms(2) obtain e where "e \<in> set es" "P e" "seq e = k" by fastforce
      with k show "k \<in> seq ` set ?f" by force
    qed
  qed force
  ultimately show ?thesis by (simp add: count_rows_def)
qed

lemma count_split: "count_rows P es = count_rows (\<lambda>e. P e \<and> Q e) es + count_rows (\<lambda>e. P e \<and> \<not> Q e) es"
  by (induction es) (auto simp: count_rows_def)

lemma unsynced_settled:
  assumes "memories s' = memories s"
  shows "unsynced s' (settled now A R e) \<longleftrightarrow> unsynced s e \<and> seq e \<notin> set A \<union> set R"
  using assms by (auto simp: unsynced_def settled_def Let_def current_scope_of_def get_memory_def)

lemma count_map: "count_rows P (map f es) = count_rows (\<lambda>e. P (f e)) es"
  by (induction es) (auto simp: count_rows_def)

lemma rows_seqs_distinct:
  assumes "distinct (map seq (events s))"
  shows "distinct (map (\<lambda>r. seq (ur_event r)) (listUnsynced s n))"
proof -
  have "distinct (map seq (sort_key seq (filter (unsynced s) (events s))))"
    using assms by (metis distinct_map distinct_map_filter distinct_sort set_sort)
  then show ?thesis by (simp add: listUnsynced_def o_def take_map[symmetric])
qed

lemma settle_accounting:
  assumes d: "distinct (map seq (events s))" and "distinct (case rj of None \<Rightarrow> [] | Some ks \<Rightarrow> ks)"
    and ok: "settle_ship now (listUnsynced s n) (Body a rj) s = Inr (res, s')"
  shows "countUnsynced s' + acked res + rejected res = countUnsynced s"
    and "map seq (events s') = map seq (events s)"
proof -
  let ?ks = "row_seqs (listUnsynced s n)"
  define R where "R = rejected_of rj ?ks"
  define A where "A = acked_of (the a) R ?ks"
  note s' = settle_events[OF ok R_def A_def]
  have AR: "set A \<inter> set R = {}" "set A \<union> set R \<subseteq> set ?ks"
    using acked_of_subset[of "the a" R ?ks] rejected_of_subset[of rj ?ks] by (auto simp: A_def R_def)
  have "distinct A" unfolding A_def acked_of_def by (rule distinct_filter[OF rows_seqs_distinct[OF d]])
  moreover have "distinct R"
    using assms(2) by (auto simp: R_def rejected_of_def distinct_map inj_on_def split: option.splits)
  ultimately have card: "card (set A \<union> set R) = length A + length R"
    using AR(1) by (simp add: card_Un_disjoint distinct_card)
  have "set A \<union> set R \<subseteq> seq ` set (filter (unsynced s) (events s))"
  proof
    fix k assume "k \<in> set A \<union> set R"
    then obtain r where r: "r \<in> set (listUnsynced s n)" "k = seq (ur_event r)" using AR(2) by auto
    from listUnsynced_rowD(1,2)[OF r(1)] r(2) show "k \<in> seq ` set (filter (unsynced s) (events s))" by auto
  qed
  from count_by_keys[OF d this] card
  have "count_rows (\<lambda>e. unsynced s e \<and> seq e \<in> set A \<union> set R) (events s) = length A + length R" by simp
  moreover have "countUnsynced s' = count_rows (\<lambda>e. unsynced s e \<and> seq e \<notin> set A \<union> set R) (events s)"
    by (simp only: countUnsynced_def s'(1) count_map unsynced_settled[OF s'(2)])
  moreover have "countUnsynced s =
      count_rows (\<lambda>e. unsynced s e \<and> seq e \<in> set A \<union> set R) (events s) +
      count_rows (\<lambda>e. unsynced s e \<and> seq e \<notin> set A \<union> set R) (events s)"
    unfolding countUnsynced_def by (rule count_split)
  ultimately show "countUnsynced s' + acked res + rejected res = countUnsynced s"
    unfolding s'(3,4) by linarith
  show "map seq (events s') = map seq (events s)" by (simp add: s'(1))
qed


section \<open>Shipping rounds\<close>

text \<open>A cloud that acknowledges every batch it gets up to the last event.\<close>

definition full_ack :: "sync_envelope \<Rightarrow> ship_response" where
  "full_ack env = Body (max_of (map (\<lambda>w. int (we_seq w)) (env_events env))) None"

lemma max_of_ge: "x \<in> set xs \<Longrightarrow> \<exists>m. max_of xs = Some m \<and> x \<le> m"
proof -
  have "x \<in> set xs \<Longrightarrow> x \<le> foldr max xs y" for y by (induction xs) auto
  then show "x \<in> set xs \<Longrightarrow> ?thesis" by (auto simp: max_of_def)
qed

lemma ship_full_ack:
  assumes d: "distinct (map seq (events s))"
  obtains res s' where "shipOnce dev ws n now full_ack s = Inr (res, s')"
    "countUnsynced s' = countUnsynced s - n" "map seq (events s') = map seq (events s)"
proof (cases "listUnsynced s n = []")
  case True
  then have "min n (countUnsynced s) = 0" by (metis length_listUnsynced list.size(3))
  with True that[of _ s] show ?thesis by (auto simp: shipOnce_def)
next
  case False
  let ?rows = "listUnsynced s n"
  let ?env = "buildEnvelope dev ws (lastAckedSeq s) ?rows"
  have ks: "map (\<lambda>w. int (we_seq w)) (env_events ?env) = map int (row_seqs ?rows)"
    by (simp add: buildEnvelope_def)
  obtain a where a: "max_of (map int (row_seqs ?rows)) = Some a" and ge: "\<And>k. k \<in> set (row_seqs ?rows) \<Longrightarrow> int k \<le> a"
  proof -
    obtain a where "max_of (map int (row_seqs ?rows)) = Some a" using False by (simp add: max_of_def)
    moreover have "int k \<le> a" if "k \<in> set (row_seqs ?rows)" for k
      using max_of_ge[of "int k" "map int (row_seqs ?rows)"] that calculation by auto
    ultimately show ?thesis using that by blast
  qed
  obtain r where "r \<in> set ?rows" using False by (cases ?rows) auto
  with ge have "0 \<le> a" by fastforce
  with a ks have "\<exists>res s'. shipOnce dev ws n now full_ack s = Inr (res, s')"
    using False by (simp add: shipOnce_def full_ack_def settle_ship_def Let_def)
  then obtain res s' where r: "shipOnce dev ws n now full_ack s = Inr (res, s')" by blast
  then have ok: "settle_ship now ?rows (Body (Some a) None) s = Inr (res, s')"
    using False a ks by (simp add: shipOnce_def full_ack_def)
  have "acked_of a [] (row_seqs ?rows) = row_seqs ?rows"
    using ge by (auto simp: acked_of_def filter_id_conv)
  then have "acked res = min n (countUnsynced s)"
    using settle_events(3)[OF ok refl refl] by (simp add: rejected_of_def)
  moreover have "rejected res = 0"
    using settle_events(4)[OF ok refl refl] by (simp add: rejected_of_def)
  moreover note settle_accounting[OF d _ ok]
  ultimately show ?thesis using that[OF r] by simp
qed


section \<open>Redaction\<close>

lemma split_join_simps [simp]:
  "split_join tok rep [] = []"
  "tok \<noteq> [] \<Longrightarrow> prefix tok (c # cs) \<Longrightarrow>
     split_join tok rep (c # cs) = rep @ split_join tok rep (drop (length tok) (c # cs))"
  "\<not> prefix tok (c # cs) \<Longrightarrow> split_join tok rep (c # cs) = c # split_join tok rep cs"
  by (simp_all add: split_join.simps[of tok rep "[]"] split_join.simps[of tok rep "c # cs"])

lemma prefix_split_join:
  assumes "tok \<noteq> []" and "rep = b # rep'" and "b \<notin> set t" and "prefix t (split_join tok rep s)"
  shows "prefix t s"
  using assms(3,4)
proof (induction s arbitrary: t)
  case (Cons c cs)
  show ?case
  proof (cases "prefix tok (c # cs)")
    case True
    with Cons.prems assms(1,2) have "t = []" by (cases t) auto
    then show ?thesis by simp
  next
    case False
    with Cons show ?thesis by (cases t) auto
  qed
qed simp

lemma sublist_split_join:
  assumes tok: "tok \<noteq> []" and b: "b \<notin> set tok" "b' \<notin> set tok" and rep: "rep = b # mid @ [b']"
    and mid: "\<not> sublist tok mid"
  shows "\<not> sublist tok (split_join tok rep s)"
proof (induction s rule: length_induct)
  case (1 s)
  show ?case
  proof (cases s)
    case Nil
    then show ?thesis using tok by simp
  next
    case (Cons c cs)
    show ?thesis
    proof (cases "prefix tok s")
      case True
      let ?out = "split_join tok rep (drop (length tok) s)"
      have "length (drop (length tok) s) < length s" using tok Cons by (cases tok) auto
      then have IH: "\<not> sublist tok ?out" using 1 by blast
      have no: "\<not> sublist tok rep"
      proof
        assume "sublist tok rep"
        then have "sublist tok (mid @ [b'])" using rep tok b by (cases tok) (auto simp: sublist_Cons_right)
        then obtain xs ys where x: "mid @ [b'] = xs @ tok @ ys" by (auto simp: sublist_def)
        have "ys \<noteq> []"
        proof
          assume "ys = []"
          then have "last (mid @ [b']) = last tok" using x tok by simp
          then show False using b(2) tok by simp
        qed
        then obtain zs z where "ys = zs @ [z]" by (metis rev_exhaust)
        then have "mid = xs @ tok @ zs" using x by simp
        then show False using mid by (auto simp: sublist_def)
      qed
      have "\<not> sublist tok (rep @ ?out)"
      proof
        assume "sublist tok (rep @ ?out)"
        then consider "sublist tok rep" | "sublist tok ?out"
          | xs ys where "tok = xs @ ys" "suffix xs rep" "prefix ys ?out"
          by (auto simp: sublist_append)
        then show False
        proof cases
          case 3
          show False
          proof (cases "xs = []")
            case True
            with 3 IH show False by auto
          next
            case False
            then have "last xs = last rep" using 3(2) by (auto simp: suffix_def)
            then have "b' \<in> set xs" using rep False by (metis last_ConsR last_in_set last_snoc append_Cons snoc_eq_iff_butlast)
            then show False using b(2) 3(1) by simp
          qed
        qed (use no IH in auto)
      qed
      then show ?thesis using True Cons tok by simp
    next
      case False
      have IH: "\<not> sublist tok (split_join tok rep cs)" using 1 Cons by simp
      have "\<not> prefix tok (c # split_join tok rep cs)"
      proof
        assume "prefix tok (c # split_join tok rep cs)"
        then obtain t where t: "tok = c # t" "prefix t (split_join tok rep cs)" using tok by (cases tok) auto
        have "prefix t cs" by (rule prefix_split_join[OF tok rep _ t(2)]) (use b t(1) in auto)
        then show False using False t(1) Cons by simp
      qed
      then show ?thesis using False Cons IH by (simp add: sublist_Cons_right)
    qed
  qed
qed

lemma sanitized_error_is_clean:
  assumes "tok \<noteq> []" "CHR ''['' \<notin> set tok" "CHR '']'' \<notin> set tok" "CHR 0x85 \<notin> set tok"
    "\<not> sublist tok ''redacted''"
  shows "\<not> sublist tok (sanitizeShipError m (Some tok))" "length (sanitizeShipError m (Some tok)) \<le> 501"
proof -
  let ?m = "split_join tok ''[redacted]'' m"
  have m: "\<not> sublist tok ?m" by (rule sublist_split_join[OF assms(1-3) _ assms(5)]) simp
  have "\<not> sublist tok (take MAX_SHIP_ERROR_LEN ?m @ ellipsis)"
  proof
    assume "sublist tok (take MAX_SHIP_ERROR_LEN ?m @ ellipsis)"
    then obtain xs ys where x: "take MAX_SHIP_ERROR_LEN ?m @ ellipsis = xs @ tok @ ys" by (auto simp: sublist_def)
    have "ys \<noteq> []"
    proof
      assume "ys = []"
      then have "last (take MAX_SHIP_ERROR_LEN ?m @ ellipsis) = last tok" using x assms(1) by simp
      then show False using assms(1,4) by (simp add: ellipsis_def)
    qed
    then obtain zs z where "ys = zs @ [z]" by (metis rev_exhaust)
    then have "take MAX_SHIP_ERROR_LEN ?m = xs @ tok @ zs" using x by (simp add: ellipsis_def)
    then have "sublist tok (take MAX_SHIP_ERROR_LEN ?m)" by (auto simp: sublist_def)
    moreover have "sublist (take MAX_SHIP_ERROR_LEN ?m) ?m" by (simp add: take_is_prefix prefix_imp_sublist)
    ultimately show False using m sublist_order.order_trans by blast
  qed
  with m assms(1) show "\<not> sublist tok (sanitizeShipError m (Some tok))"
    by (simp add: sanitizeShipError_def Let_def)
  show "length (sanitizeShipError m (Some tok)) \<le> 501"
    by (auto simp: sanitizeShipError_def Let_def ellipsis_def MAX_SHIP_ERROR_LEN_def)
qed


section \<open>Backfill\<close>

lemma promoted_row:
  "get_memory i s = Some m \<Longrightarrow> mem_scope m = Private \<Longrightarrow> sc \<noteq> Private \<Longrightarrow>
   promoteScope u now i sc s =
     Inr (append_event (u 0) now E_Promote_Scope i (Some (P_Promote Private sc)) None
            (update_memory i (\<lambda>m. m\<lparr>mem_scope := sc, mem_updated := now\<rparr>) s))"
  by (cases sc) (simp_all add: promoteScope_def)

lemma get_promote:
  assumes "promoteScope u now i sc s = Inr s'"
  shows "get_memory j s' =
    (if j = i then map_option (\<lambda>m. m\<lparr>mem_scope := sc, mem_updated := now\<rparr>) (get_memory j s) else get_memory j s)"
    "map mem_id (memories s') = map mem_id (memories s)"
    "\<exists>e. events s' = events s @ [e] \<and> event_type e = E_Promote_Scope"
proof -
  obtain m where m: "get_memory i s = Some m" and s': "s' = append_event (u 0) now E_Promote_Scope i
      (Some (P_Promote (mem_scope m) sc)) None (update_memory i (\<lambda>m. m\<lparr>mem_scope := sc, mem_updated := now\<rparr>) s)"
    using assms by (auto simp: promoteScope_def split: option.splits if_splits)
  show "get_memory j s' =
    (if j = i then map_option (\<lambda>m. m\<lparr>mem_scope := sc, mem_updated := now\<rparr>) (get_memory j s) else get_memory j s)"
    by (simp add: s' get_update_memory)
  show "map mem_id (memories s') = map mem_id (memories s)"
    by (simp add: s' append_event_def update_memory_def map_update_rows_same)
  show "\<exists>e. events s' = events s @ [e] \<and> event_type e = E_Promote_Scope"
    by (simp add: s' append_event_def update_memory_def)
qed

definition promoted :: "mem_scope \<Rightarrow> epoch_ms \<Rightarrow> memory \<Rightarrow> memory" where
  "promoted sc now m = m\<lparr>mem_scope := sc, mem_updated := now\<rparr>"

lemma promote_all_spec:
  assumes "distinct ids" and "sc \<noteq> Private"
    and "\<And>i. i \<in> set ids \<Longrightarrow> \<exists>m. get_memory i s = Some m \<and> mem_scope m = Private"
  shows "\<exists>s' es. promote_all u now sc n ids s = Inr s' \<and> events s' = events s @ es \<and>
      (\<forall>e \<in> set es. event_type e = E_Promote_Scope) \<and> map mem_id (memories s') = map mem_id (memories s) \<and>
      (\<forall>j. get_memory j s' = (if j \<in> set ids then map_option (promoted sc now) (get_memory j s) else get_memory j s))"
  using assms
proof (induction ids arbitrary: s n)
  case (Cons i ids)
  obtain m where "get_memory i s = Some m" "mem_scope m = Private" using Cons.prems(3)[of i] by auto
  then obtain s1 where s1: "promoteScope (\<lambda>j. u (n + j)) now i sc s = Inr s1"
    using promoted_row Cons.prems(2) by blast
  note g = get_promote[OF s1]
  obtain e where e: "events s1 = events s @ [e]" "event_type e = E_Promote_Scope" using g(3) by blast
  have "\<exists>s' es. promote_all u now sc (n + 1) ids s1 = Inr s' \<and> events s' = events s1 @ es \<and>
      (\<forall>e \<in> set es. event_type e = E_Promote_Scope) \<and> map mem_id (memories s') = map mem_id (memories s1) \<and>
      (\<forall>j. get_memory j s' = (if j \<in> set ids then map_option (promoted sc now) (get_memory j s1) else get_memory j s1))"
    by (rule Cons.IH) (use Cons.prems g(1) in auto)
  then obtain s' es where s': "promote_all u now sc (n + 1) ids s1 = Inr s'" "events s' = events s1 @ es"
      "\<forall>e \<in> set es. event_type e = E_Promote_Scope" "map mem_id (memories s') = map mem_id (memories s1)"
      "\<And>j. get_memory j s' = (if j \<in> set ids then map_option (promoted sc now) (get_memory j s1) else get_memory j s1)"
    by blast
  have "get_memory j s' =
      (if j \<in> set (i # ids) then map_option (promoted sc now) (get_memory j s) else get_memory j s)" for j
    using Cons.prems(1) by (auto simp: s'(5) g(1) promoted_def[abs_def])
  with s' s1 e g(2) show ?case by (intro exI[of _ s'] exI[of _ "e # es"]) simp
qed simp

lemma count_rows_cong: "(\<And>r. r \<in> set rows \<Longrightarrow> P r \<longleftrightarrow> Q r) \<Longrightarrow> count_rows P rows = count_rows Q rows"
  by (simp add: count_rows_def cong: filter_cong)

lemma count_after_update: "(\<And>r. P r \<Longrightarrow> \<not> P (f r)) \<Longrightarrow> count_rows P (update_rows P f rows) = 0"
  by (auto simp: count_rows_0_iff set_update_rows)

lemma private_rows:
  assumes inv: "store_inv s"
    and "i \<in> set (map mem_id (filter (\<lambda>m. mem_scope m = Private \<and> whereProject project m) (memories s)))"
  shows "\<exists>m. get_memory i s = Some m \<and> mem_scope m = Private \<and> whereProject project m"
  using assms mem_rows.get_in[OF store_inv_parts(7)[OF inv]] by (auto simp: get_memory_def)

lemma get_memory_of_row:
  assumes "distinct (map mem_id (memories s))" and "m \<in> set (memories s)"
  shows "get_memory (mem_id m) s = Some m"
  using mem_rows.get_in[OF assms] by (simp add: get_memory_def)

lemma row_matches_events: "row_matches Q (s\<lparr>events := es\<rparr>) i = row_matches Q s i"
  by (simp add: row_matches_def get_memory_def)

lemma reship_again:
  "reship_eligible sc project (snd (applyReship sc project s)) e \<Longrightarrow> e \<in> set (events (snd (applyReship sc project s))) \<Longrightarrow> False"
  by (auto simp: applyReship_def reship_eligible_def set_update_rows fill_payload_def row_matches_def
      get_memory_def empty_create_def split: if_splits option.splits)


section \<open>Properties of the shipper\<close>

text \<open>A log with two events of a team memory around one of a private memory.\<close>

definition ship_event :: "nat \<Rightarrow> event_type \<Rightarrow> string \<Rightarrow> mem_event" where
  "ship_event k ty i =
     \<lparr>seq = k, event_id = i, event_type = ty, atom_id = i, ev_payload = None, content_hash = None,
      ev_created = 10, synced_at = None, rejected_at = None\<rparr>"

definition ship_demo :: store where
  "ship_demo = empty_store
     \<lparr>memories := [demo_row ''a'' 1 10\<lparr>mem_scope := Team\<rparr>, demo_row ''b'' 2 20],
      events := [ship_event 5 E_Create ''a'', ship_event 6 E_Create ''b'', ship_event 8 E_Usefulness ''a''],
      next_seq := 9\<rparr>"

lemma ship_event_fields [simp]:
  "seq (ship_event k ty i) = k" "event_type (ship_event k ty i) = ty" "atom_id (ship_event k ty i) = i"
  "ev_payload (ship_event k ty i) = None" "synced_at (ship_event k ty i) = None"
  "rejected_at (ship_event k ty i) = None"
  by (simp_all add: ship_event_def)

lemma ship_demo_facts:
  "store_inv ship_demo" "countUnsynced ship_demo = 2" "distinct (map seq (events ship_demo))"
  "listUnsynced ship_demo 2 =
     [\<lparr>ur_event = ship_event 5 E_Create ''a'', current_scope = Some Team\<rparr>,
      \<lparr>ur_event = ship_event 8 E_Usefulness ''a'', current_scope = Some Team\<rparr>]"
  "shareable (current_scope_of ship_demo ''a'')" "next_seq ship_demo = 9"
proof -
  have g: "get_memory ''a'' ship_demo = Some (demo_row ''a'' 1 10\<lparr>mem_scope := Team\<rparr>)"
    "get_memory ''b'' ship_demo = Some (demo_row ''b'' 2 20)"
    by (simp_all add: ship_demo_def get_memory_def)
  then have u: "unsynced ship_demo (ship_event 5 E_Create ''a'')" "\<not> unsynced ship_demo (ship_event 6 E_Create ''b'')"
    "unsynced ship_demo (ship_event 8 E_Usefulness ''a'')"
    by (simp_all add: unsynced_def current_scope_of_def shareable_def)
  have e: "events ship_demo = [ship_event 5 E_Create ''a'', ship_event 6 E_Create ''b'', ship_event 8 E_Usefulness ''a'']"
    by (simp add: ship_demo_def)
  show "countUnsynced ship_demo = 2" by (simp add: countUnsynced_def count_rows_def e u)
  show "distinct (map seq (events ship_demo))" by (simp add: e)
  show "listUnsynced ship_demo 2 =
     [\<lparr>ur_event = ship_event 5 E_Create ''a'', current_scope = Some Team\<rparr>,
      \<lparr>ur_event = ship_event 8 E_Usefulness ''a'', current_scope = Some Team\<rparr>]"
    by (simp add: listUnsynced_def e u current_scope_of_def g)
  show "shareable (current_scope_of ship_demo ''a'')" by (simp add: current_scope_of_def g shareable_def)
  show "next_seq ship_demo = 9" by (simp add: ship_demo_def)
  show "store_inv ship_demo"
    by (simp add: store_inv_def keys_ok_def log_ok_def refs_ok_def vec_ok_def ship_demo_def empty_store_def row_inv_def)
       (simp add: demo_row_def input_row_def)
qed

text \<open>
  C15: everything in an envelope is permitted to leave the machine: its memory is currently team-
  or org-scoped (an erase request may instead record such a scope for a memory that is gone), no
  archive, restore, unsupersede, purge or unpurge event ships, a create carries the memory's
  current scope and never \<open>private\<close>, and no string of a payload contains a NUL.
\<close>

theorem envelope_respects_scopes:
  "list_all (\<lambda>w. wire_permitted s w \<and> wire_typed s w) (env_events (buildEnvelope dev ws cur (listUnsynced s n)))"
  by (auto simp: list_all_iff buildEnvelope_def wire_ok)



text \<open>
  C25: the books of a shipping round balance. When the cloud answers, the acknowledged and the
  rejected events are exactly the ones of the batch it named (a rejection wins over an
  acknowledgement), they leave the queue for good, everything else stays in it, and no memory
  changes.
\<close>

theorem ship_accounting:
  assumes "store_inv s" and "distinct ks" and "listUnsynced s n \<noteq> []"
    and "shipOnce dev ws n now (\<lambda>_. Body (Some a) (Some ks)) s = Inr (res, s')"
  shows "countUnsynced s' + acked res + rejected res = countUnsynced s \<and> memories s' = memories s \<and>
    (\<exists>A R. events s' = map (settled now A R) (events s) \<and>
       set R = {k \<in> set (row_seqs (listUnsynced s n)). int k \<in> set ks} \<and>
       set A = {k \<in> set (row_seqs (listUnsynced s n)). int k \<le> a \<and> int k \<notin> set ks})"
proof -
  have d: "distinct (map seq (events s))"
    using assms(1) by (auto simp: store_inv_def log_ok_def strict_sorted_iff)
  have ok: "settle_ship now (listUnsynced s n) (Body (Some a) (Some ks)) s = Inr (res, s')"
    using assms(3,4) by (simp add: shipOnce_def)
  let ?seqs = "row_seqs (listUnsynced s n)"
  let ?R = "rejected_of (Some ks) ?seqs" and ?A = "acked_of a (rejected_of (Some ks) ?seqs) ?seqs"
  have R: "set ?R = {k \<in> set ?seqs. int k \<in> set ks}"
    by (rule rejected_of_set)
  then have A: "set ?A = {k \<in> set ?seqs. int k \<le> a \<and> int k \<notin> set ks}"
    unfolding acked_of_def by auto
  show ?thesis
    using settle_accounting(1)[OF d _ ok] settle_events(1,2)[OF ok refl refl] R A assms(2) by auto
qed

theorem ship_accounting_witness:
  "\<exists>res s'. shipOnce ''d'' ''w'' 2 50 (\<lambda>_. Body (Some 5) (Some [8])) ship_demo = Inr (res, s') \<and>
     countUnsynced s' + acked res + rejected res = 2 \<and> memories s' = memories ship_demo"
proof -
  have "\<exists>res s'. shipOnce ''d'' ''w'' 2 50 (\<lambda>_. Body (Some 5) (Some [8])) ship_demo = Inr (res, s')"
    by (simp add: shipOnce_def ship_demo_facts settle_ship_def Let_def)
  then obtain res s' where r: "shipOnce ''d'' ''w'' 2 50 (\<lambda>_. Body (Some 5) (Some [8])) ship_demo = Inr (res, s')"
    by blast
  have "listUnsynced ship_demo 2 \<noteq> []" by (simp add: ship_demo_facts)
  from ship_accounting[OF ship_demo_facts(1) _ this r] r show ?thesis by (simp add: ship_demo_facts)
qed

text \<open>
  C30: the log drains. With a cloud that acknowledges what it is sent, \<open>k\<close> rounds of the loop take
  \<open>k\<close> batches off the queue, so \<open>countUnsynced\<close> reaches 0 after as many rounds as there are
  batches, and stays there.
\<close>

theorem ship_drains_log:
  assumes "distinct (map seq (events (sh_store sh)))" and "\<not> sh_stopped sh"
  shows "countUnsynced (sh_store (((\<lambda>sh. snd (ship_round cfg msg t t' full_ack sh)) ^^ k) sh)) =
    countUnsynced (sh_store sh) - k * sc_batch cfg"
proof -
  let ?step = "\<lambda>sh. snd (ship_round cfg msg t t' full_ack sh)"
  have "countUnsynced (sh_store ((?step ^^ k) sh)) = countUnsynced (sh_store sh) - k * sc_batch cfg \<and>
    map seq (events (sh_store ((?step ^^ k) sh))) = map seq (events (sh_store sh)) \<and> \<not> sh_stopped ((?step ^^ k) sh)"
  proof (induction k)
    case (Suc k)
    let ?sh = "(?step ^^ k) sh"
    have "distinct (map seq (events (sh_store ?sh)))" using Suc assms(1) by simp
    then obtain res s' where "shipOnce (sc_device cfg) (sc_workspace cfg) (sc_batch cfg) t' full_ack (sh_store ?sh) = Inr (res, s')"
      "countUnsynced s' = countUnsynced (sh_store ?sh) - sc_batch cfg"
      "map seq (events s') = map seq (events (sh_store ?sh))" by (rule ship_full_ack)
    with Suc show ?case by (simp add: ship_round_def)
  qed (use assms in simp)
  then show ?thesis by blast
qed

definition ship_demo_config :: ship_config where
  "ship_demo_config = \<lparr>sc_device = ''d'', sc_workspace = ''w'', sc_token = ''k1'', sc_batch = 2, sc_interval = 30000\<rparr>"

definition ship_demo_loop :: shipper where
  "ship_demo_loop = \<lparr>sh_store = ship_demo, sh_row = None, sh_failures = 0, sh_stopped = False\<rparr>"

theorem ship_drains_log_witness:
  "countUnsynced (sh_store (((\<lambda>sh. snd (ship_round ship_demo_config (\<lambda>_. []) 40 50 full_ack sh)) ^^ 3) ship_demo_loop)) = 0"
  by (subst ship_drains_log) (simp_all only: ship_demo_loop_def shipper.simps ship_demo_facts, simp_all add: ship_demo_config_def)

text \<open>
  A failed round loses nothing. The log is untouched, the next attempt is scheduled with
  exponential backoff capped at 15 minutes, and the error that is persisted never contains the
  bearer token.
\<close>

lemma failed_ship_is_retried:
  assumes "shipOnce (sc_device cfg) (sc_workspace cfg) (sc_batch cfg) t' cloud (sh_store sh) = Inl err"
    and "\<not> sh_stopped sh" and "sc_token cfg \<noteq> []"
    and "set (sc_token cfg) \<inter> {CHR ''['', CHR '']'', CHR 0x85} = {}" and "\<not> sublist (sc_token cfg) ''redacted''"
  shows "\<exists>m. ship_round cfg msg t t' cloud sh =
     (Some (min (sc_interval cfg * 2 ^ (sh_failures sh + 1)) 900000),
      sh\<lparr>sh_failures := sh_failures sh + 1,
         sh_row := Some \<lparr>last_attempt_at = Some t, last_result = Some Attempt_Error, last_error = Some m,
            consecutive_failures = sh_failures sh + 1,
            next_retry_at = Some (t + min (sc_interval cfg * 2 ^ (sh_failures sh + 1)) 900000)\<rparr>\<rparr>) \<and>
     \<not> sublist (sc_token cfg) m \<and> length m \<le> 501"
proof -
  have "\<not> sublist (sc_token cfg) (sanitizeShipError (msg err) (Some (sc_token cfg))) \<and>
      length (sanitizeShipError (msg err) (Some (sc_token cfg))) \<le> 501"
    by (intro conjI sanitized_error_is_clean) (use assms in auto)
  with assms(1,2) show ?thesis
    by (intro exI[of _ "sanitizeShipError (msg err) (Some (sc_token cfg))"])
       (simp add: ship_round_def Let_def ship_backoffDelay_def BACKOFF_CAP_MS_def recordShipFailure_def)
qed

lemma failed_ship_is_retried_witness:
  "\<exists>sh'. ship_round ship_demo_config (\<lambda>_. ''refused k1'') 40 50 (\<lambda>_. Body None None) ship_demo_loop = (Some 60000, sh') \<and>
     sh_store sh' = ship_demo \<and> sh_failures sh' = 1"
proof -
  have e: "shipOnce (sc_device ship_demo_config) (sc_workspace ship_demo_config) (sc_batch ship_demo_config) 50
      (\<lambda>_. Body None None) (sh_store ship_demo_loop) = Inl Ship_No_Ack"
  proof -
    show ?thesis by (simp add: shipOnce_def ship_demo_loop_def ship_demo_config_def settle_ship_def ship_demo_facts)
  qed
  have "\<not> sublist ''k1'' ''redacted''" by code_simp
  with failed_ship_is_retried[OF e, of "\<lambda>_. ''refused k1''" 40] show ?thesis
    by (auto simp: ship_demo_config_def ship_demo_loop_def)
qed

text \<open>
  Pulled events go back up. An event the puller inserts for a team- or org-scoped memory is
  unsynced, like a local one, so the next envelope that reaches it sends it to the cloud again,
  under this device's id and a sequence number of its own.
\<close>

lemma pulled_events_are_echoed:
  assumes "dedupInsertEvent e s = (True, s')" and "\<not> local_only (re_type e)"
    and "shareable (current_scope_of s (re_atom e))" and "countUnsynced s' \<le> n"
  shows "\<exists>w \<in> set (env_events (buildEnvelope dev ws cur (listUnsynced s' n))).
     we_event_id w = re_id e \<and> we_seq w = next_seq s"
proof -
  let ?ev = "\<lparr>seq = next_seq s, event_id = re_id e, event_type = re_type e, atom_id = re_atom e,
     ev_payload = re_payload e, content_hash = re_hash e, ev_created = re_created e,
     synced_at = None, rejected_at = None\<rparr>"
  have s': "s' = append_event (re_id e) (re_created e) (re_type e) (re_atom e) (re_payload e) (re_hash e) s"
    using assms(1) by (auto simp: dedupInsertEvent_def split: if_splits)
  then have "?ev \<in> set (filter (unsynced s') (events s'))"
    using assms(2,3) by (simp add: append_event_def unsynced_def current_scope_of_def get_memory_def)
  moreover have "length (filter (unsynced s') (events s')) \<le> n"
    using assms(4) by (simp add: countUnsynced_def count_rows_def)
  ultimately have "\<lparr>ur_event = ?ev, current_scope = current_scope_of s' (re_atom e)\<rparr> \<in> set (listUnsynced s' n)"
    unfolding listUnsynced_def by (auto simp: image_iff intro!: bexI[of _ ?ev])
  then show ?thesis unfolding buildEnvelope_def by force
qed

lemma pulled_events_are_echoed_witness:
  "\<exists>s'. dedupInsertEvent (demo_event ''r1'' E_Usefulness ''a'' None 55) ship_demo = (True, s') \<and>
     (\<exists>w \<in> set (env_events (buildEnvelope ''d'' ''w'' 0 (listUnsynced s' (countUnsynced s')))). we_event_id w = ''r1'' \<and> we_seq w = 9)"
proof -
  have "\<exists>s'. dedupInsertEvent (demo_event ''r1'' E_Usefulness ''a'' None 55) ship_demo = (True, s')"
    by (simp add: dedupInsertEvent_def demo_event_def ship_demo_def ship_event_def)
  then obtain s' where s': "dedupInsertEvent (demo_event ''r1'' E_Usefulness ''a'' None 55) ship_demo = (True, s')" by blast
  from pulled_events_are_echoed[OF s' _ _ order.refl, of "''d''" "''w''" 0] s' show ?thesis
    by (simp add: demo_event_def ship_demo_facts)
qed

text \<open>
  \<open>planBackfill\<close> predicts \<open>applyBackfill\<close>: applied to a team or org target it succeeds, promotes
  exactly the private memories and fills exactly the empty, not yet shipped creates the plan
  counted, and leaves none of either behind. A second reship finds nothing to do.
\<close>

lemma backfill_plan_is_exact:
  assumes "store_inv s" and "sc \<noteq> Private"
  shows "\<exists>s'. applyBackfill u now sc project s = Inr ((bp_private (planBackfill project s), bp_creates (planBackfill project s)), s') \<and>
     bp_private (planBackfill project s') = 0 \<and> bp_creates (planBackfill project s') = 0 \<and>
     (let (n, s2) = applyReship tier project s' in n = planReship tier project s' \<and> planReship tier project s2 = 0)"
proof -
  let ?ids = "map mem_id (filter (\<lambda>m. mem_scope m = Private \<and> whereProject project m) (memories s))"
  have d: "distinct (map mem_id (memories s))" by (rule store_inv_parts(7)[OF assms(1)])
  have ids: "distinct ?ids" using d by (simp add: distinct_map_filter)
  obtain s1 es where s1: "promote_all u now sc 0 ?ids s = Inr s1" "events s1 = events s @ es"
      "\<forall>e \<in> set es. event_type e = E_Promote_Scope" "map mem_id (memories s1) = map mem_id (memories s)"
      "\<And>j. get_memory j s1 = (if j \<in> set ?ids then map_option (promoted sc now) (get_memory j s) else get_memory j s)"
    using promote_all_spec[OF ids assms(2), of s u now 0] private_rows[OF assms(1), of _ project] by blast
  have proj: "whereProject project (promoted sc now m) = whereProject project m" for m
    by (simp add: promoted_def whereProject_def)
  have share: "row_matches (\<lambda>m. shareable (Some (mem_scope m)) \<and> whereProject project m) s1 i =
      row_matches (whereProject project) s i" for i
  proof (cases "get_memory i s")
    case (Some m)
    then have "i \<in> set ?ids \<longleftrightarrow> mem_scope m = Private \<and> whereProject project m"
      using private_rows[OF assms(1), of i project] get_memory_in[OF Some] by auto
    then show ?thesis
      using Some assms(2) by (auto simp: row_matches_def s1(5) proj shareable_not_private) (auto simp: promoted_def)
  qed (simp add: row_matches_def s1(5))
  let ?P = "\<lambda>e. empty_create e \<and> synced_at e = None \<and>
      row_matches (\<lambda>m. shareable (Some (mem_scope m)) \<and> whereProject project m) s1 (atom_id e)"
  let ?s' = "s1\<lparr>events := update_rows ?P (fill_payload s1) (events s1)\<rparr>"
  have count: "count_rows ?P (events s1) = bp_creates (planBackfill project s)"
    using s1(3) by (simp add: planBackfill_def s1(2) share count_rows_0_iff empty_create_def)
  have res: "applyBackfill u now sc project s = Inr ((length ?ids, count_rows ?P (events s1)), ?s')"
    by (simp add: applyBackfill_def s1(1) Let_def)
  have same: "get_memory i ?s' = get_memory i s1" for i by (simp add: get_memory_def)
  have d1: "distinct (map mem_id (memories s1))" using d s1(4) by simp
  have no_private: "\<not> (mem_scope m = Private \<and> whereProject project m)" if "m \<in> set (memories s1)" for m
  proof -
    have "get_memory (mem_id m) s1 = Some m" by (rule get_memory_of_row[OF d1 that])
    then show ?thesis
      using assms(2) private_rows[OF assms(1), of "mem_id m" project] get_memory_in[of "mem_id m" s m]
      by (auto simp: s1(5) promoted_def split: if_splits)
  qed
  have "bp_creates (planBackfill project ?s') = 0"
  proof -
    have "row_matches (whereProject project) ?s' i = row_matches (\<lambda>m. shareable (Some (mem_scope m)) \<and> whereProject project m) s1 i" for i
    proof (cases "get_memory i s1")
      case (Some m)
      with no_private[of m] get_memory_in[OF Some] show ?thesis
        by (simp add: row_matches_events) (auto simp: row_matches_def shareable_not_private)
    qed (simp add: row_matches_events, simp add: row_matches_def)
    then have "bp_creates (planBackfill project ?s') = count_rows ?P (update_rows ?P (fill_payload s1) (events s1))"
      by (simp add: planBackfill_def)
    also have "\<dots> = 0"
      by (rule count_after_update) (auto simp: empty_create_def fill_payload_def row_matches_def split: option.splits)
    finally show ?thesis .
  qed
  moreover have "bp_private (planBackfill project ?s') = 0"
    using no_private by (simp add: planBackfill_def count_rows_0_iff)
  moreover have "planReship tier project (snd (applyReship tier project ?s')) = 0"
    unfolding planReship_def count_rows_0_iff using reship_again by blast
  moreover have "length ?ids = bp_private (planBackfill project s)"
    by (simp add: planBackfill_def count_rows_def)
  ultimately show ?thesis
    using res count by (auto simp: case_prod_beta) (simp add: applyReship_def planReship_def)
qed

lemma backfill_plan_is_exact_witness:
  "\<exists>s'. applyBackfill (\<lambda>_. ''u'') 60 Team None ship_demo = Inr ((1, 2), s')"
proof -
  have "bp_private (planBackfill None ship_demo) = 1 \<and> bp_creates (planBackfill None ship_demo) = 2"
    by (simp add: planBackfill_def ship_demo_def count_rows_def whereProject_def empty_create_def row_matches_def get_memory_def)
  with backfill_plan_is_exact[OF ship_demo_facts(1), of Team "\<lambda>_. ''u''" 60 None None] show ?thesis by auto
qed

end
