(* ===== verification/Spending.thy ===== *)
theory Spending
  imports Prelude
begin

text \<open>
  What bounds the spending on model calls: the daily dollar budget (\<open>src/src/budget/tracker.ts\<close>),
  the per-job call caps (\<open>distill/cost-cap.ts\<close>, \<open>util/run-cap-tracker.ts\<close>), the bounded fan-out
  over the chunks of a transcript (\<open>distill/concurrency.ts\<close>) and the guards a chunk passes before
  it calls the provider (\<open>compactChunk\<close>, \<open>extractChunk\<close>).

  The fan-out is a step relation: between two \<open>await\<close>s a worker runs without interruption, so a
  step is one turn of an idle worker or one call that settles, in any order. The guards run in the
  turn that claims the chunk, the bookkeeping when the call returns.
\<close>

section \<open>The daily budget\<close>

record day_spend =
  ds_day :: string
  usd_total :: real
  ds_calls :: nat

type_synonym budget = "day_spend list"

datatype budget_error = BudgetExceeded real real real

text \<open>
  \<open>new Date(now).toISOString().slice(0, 10)\<close>: the proleptic Gregorian date of the UTC day, from
  the number of days since 1970-01-01, for the years 0 to 9999.
\<close>

definition civil_date :: "int \<Rightarrow> int \<times> int \<times> int" where
  "civil_date days =
     (let z = days + 719468;
          era = z div 146097;
          doe = z mod 146097;
          yoe = (doe - doe div 1460 + doe div 36524 - doe div 146096) div 365;
          doy = doe - (365 * yoe + yoe div 4 - yoe div 100);
          mp = (5 * doy + 2) div 153;
          d = doy - (153 * mp + 2) div 5 + 1;
          m = (if mp < 10 then mp + 3 else mp - 9)
      in (yoe + era * 400 + (if m \<le> 2 then 1 else 0), m, d))"

fun digits :: "nat \<Rightarrow> nat \<Rightarrow> string" where
  "digits 0 n = []"
| "digits (Suc k) n = digits k (n div 10) @ [char_of (48 + n mod 10)]"

definition todayKey :: "epoch_ms \<Rightarrow> string" where
  "todayKey now =
     (let (y, m, d) = civil_date (now div 86400000)
      in digits 4 (nat y) @ ''-'' @ digits 2 (nat m) @ ''-'' @ digits 2 (nat d))"

definition today :: "epoch_ms \<Rightarrow> budget \<Rightarrow> day_spend" where
  "today now b =
     (case get_row ds_day (todayKey now) b of
        Some row \<Rightarrow> row
      | None \<Rightarrow> \<lparr>ds_day = todayKey now, usd_total = 0, ds_calls = 0\<rparr>)"

text \<open>\<open>INSERT ... ON CONFLICT(day) DO UPDATE\<close>.\<close>

definition upsert_day :: "string \<Rightarrow> day_spend \<Rightarrow> (day_spend \<Rightarrow> day_spend) \<Rightarrow> budget \<Rightarrow> budget" where
  "upsert_day k row f b =
     (if get_row ds_day k b = None then b @ [row] else update_rows (\<lambda>r. ds_day r = k) f b)"

definition record_spend :: "epoch_ms \<Rightarrow> real \<Rightarrow> budget \<Rightarrow> budget" where
  "record_spend now usd b =
     upsert_day (todayKey now) \<lparr>ds_day = todayKey now, usd_total = usd, ds_calls = 1\<rparr>
       (\<lambda>r. r\<lparr>usd_total := usd_total r + usd, ds_calls := ds_calls r + 1\<rparr>) b"

definition canSpend :: "epoch_ms \<Rightarrow> real \<Rightarrow> real \<Rightarrow> budget \<Rightarrow> bool" where
  "canSpend now estimateUsd capUsd b \<longleftrightarrow> usd_total (today now b) + estimateUsd \<le> capUsd"

definition assertCanSpend :: "epoch_ms \<Rightarrow> real \<Rightarrow> real \<Rightarrow> budget \<Rightarrow> budget_error + unit" where
  "assertCanSpend now estimateUsd capUsd b =
     (let total = usd_total (today now b)
      in if capUsd < total + estimateUsd then Inl (BudgetExceeded total capUsd estimateUsd) else Inr ())"

definition resetToday :: "epoch_ms \<Rightarrow> budget \<Rightarrow> budget" where
  "resetToday now b =
     upsert_day (todayKey now) \<lparr>ds_day = todayKey now, usd_total = 0, ds_calls = 0\<rparr>
       (\<lambda>r. r\<lparr>usd_total := 0, ds_calls := 0\<rparr>) b"

definition estimateUsd :: "nat \<Rightarrow> real \<Rightarrow> real \<Rightarrow> real" where
  "estimateUsd promptChars costPerInputToken costPerOutputToken =
     (let inputTokens = \<lceil>real promptChars / 4\<rceil>; outputTokens = 500
      in of_int inputTokens * costPerInputToken + outputTokens * costPerOutputToken)"

definition monthTotal :: "epoch_ms \<Rightarrow> budget \<Rightarrow> real \<times> nat \<times> string" where
  "monthTotal now b =
     (let month = take 7 (todayKey now);
          rows = filter (\<lambda>r. prefix (month @ ''-'') (ds_day r)) b
      in (sum_list (map usd_total rows), sum_list (map ds_calls rows), month))"

interpretation day_rows: keyed_rows ds_day .

lemma today_record: "usd_total (today now (record_spend now usd b)) = usd_total (today now b) + usd"
  by (simp add: today_def record_spend_def upsert_day_def get_row_append day_rows.get_update_key
      split: option.split)

lemma today_reset: "usd_total (today now (resetToday now b)) = 0"
  by (simp add: today_def resetToday_def upsert_day_def get_row_append day_rows.get_update_key
      split: option.split)

lemma assertCanSpend_iff: "assertCanSpend now e cap b = Inr () \<longleftrightarrow> canSpend now e cap b"
  by (auto simp: assertCanSpend_def canSpend_def Let_def)

section \<open>Call caps\<close>

text \<open>
  The state both trackers keep: the calls counted, when the run started, the two flags and whether
  the trip was logged. \<open>log\<close> collects what was logged.
\<close>

datatype trip_kind = Call_Count | Wall_Clock

record cap_state =
  calls_executed :: nat
  started_at :: epoch_ms
  capReached :: bool
  wallClockCapReached :: bool
  loggedTrip :: bool
  trip_log :: "trip_kind list"

definition fresh_cap :: "epoch_ms \<Rightarrow> cap_state" where
  "fresh_cap now =
     \<lparr>calls_executed = 0, started_at = now, capReached = False, wallClockCapReached = False,
      loggedTrip = False, trip_log = []\<rparr>"

definition logTripOnce :: "trip_kind \<Rightarrow> cap_state \<Rightarrow> cap_state" where
  "logTripOnce kind c =
     (if loggedTrip c then c else c\<lparr>loggedTrip := True, trip_log := trip_log c @ [kind]\<rparr>)"

record run_cap =
  maxPerRun :: real
  maxWallClockMs :: real

definition shouldStop :: "run_cap \<Rightarrow> epoch_ms \<Rightarrow> cap_state \<Rightarrow> bool \<times> cap_state" where
  "shouldStop caps now c =
     (if maxPerRun caps \<le> real (calls_executed c)
      then (True, logTripOnce Call_Count (c\<lparr>capReached := True\<rparr>))
      else if maxWallClockMs caps \<le> of_int (now - started_at c)
      then (True, logTripOnce Wall_Clock (c\<lparr>wallClockCapReached := True\<rparr>))
      else (False, c))"

definition recordCall :: "cap_state \<Rightarrow> cap_state" where
  "recordCall c = c\<lparr>calls_executed := calls_executed c + 1\<rparr>"

record cost_cap =
  cc_enabled :: bool
  maxCallsPerJob :: "real option"
  cc_maxWallClockMs :: "real option"

text \<open>\<open>config.distill.costCap\<close> as configured: absent, or an object with its three fields.\<close>

definition resolveDistillCostCap :: "(bool option \<times> real option \<times> real option) option \<Rightarrow> cost_cap" where
  "resolveDistillCostCap raw =
     (case raw of
        Some (Some True, calls, wall) \<Rightarrow> \<lparr>cc_enabled = True, maxCallsPerJob = calls, cc_maxWallClockMs = wall\<rparr>
      | _ \<Rightarrow> \<lparr>cc_enabled = False, maxCallsPerJob = None, cc_maxWallClockMs = None\<rparr>)"

definition costcap_shouldStop :: "cost_cap \<Rightarrow> epoch_ms \<Rightarrow> cap_state \<Rightarrow> bool \<times> cap_state" where
  "costcap_shouldStop cap now c =
     (if \<not> cc_enabled cap then (False, c)
      else if (case maxCallsPerJob cap of None \<Rightarrow> False | Some n \<Rightarrow> n \<le> real (calls_executed c))
      then (True, logTripOnce Call_Count (c\<lparr>capReached := True\<rparr>))
      else if (case cc_maxWallClockMs cap of None \<Rightarrow> False | Some w \<Rightarrow> w \<le> of_int (now - started_at c))
      then (True, logTripOnce Wall_Clock (c\<lparr>wallClockCapReached := True\<rparr>))
      else (False, c))"

definition costcap_recordCall :: "cost_cap \<Rightarrow> cap_state \<Rightarrow> cap_state" where
  "costcap_recordCall cap c = (if \<not> cc_enabled cap then c else c\<lparr>calls_executed := calls_executed c + 1\<rparr>)"

text \<open>The two trackers are one: an enabled cost cap with both limits is a run cap.\<close>

lemma costcap_is_runcap:
  "costcap_shouldStop \<lparr>cc_enabled = True, maxCallsPerJob = Some n, cc_maxWallClockMs = Some w\<rparr> =
     shouldStop \<lparr>maxPerRun = n, maxWallClockMs = w\<rparr>"
  "costcap_recordCall \<lparr>cc_enabled = True, maxCallsPerJob = Some n, cc_maxWallClockMs = Some w\<rparr> = recordCall"
  by (simp_all add: fun_eq_iff costcap_shouldStop_def shouldStop_def costcap_recordCall_def recordCall_def)

section \<open>The fan-out\<close>

text \<open>
  \<open>in_flight\<close> holds the claimed chunks whose call has not settled, with what their guards decided;
  \<open>idle\<close> counts the workers that are about to take their next turn.
\<close>

record ('c, 'r, 'e) fan_pool =
  results :: "'r option list"
  next_idx :: nat
  stopped :: bool
  first_error :: "'e option"
  in_flight :: "(nat \<times> 'c) list"
  idle :: nat

definition workerCount :: "int \<Rightarrow> nat \<Rightarrow> nat" where
  "workerCount limit n = nat (max 1 (min limit (int (if n = 0 then 1 else n))))"

definition start_pool :: "int \<Rightarrow> nat \<Rightarrow> ('c, 'r, 'e) fan_pool" where
  "start_pool limit n =
     \<lparr>results = replicate n None, next_idx = 0, stopped = False, first_error = None, in_flight = [],
      idle = workerCount limit n\<rparr>"

text \<open>One turn of the worker's loop: it returns, or claims the next index and starts its call.\<close>

definition worker_turn :: "(nat \<Rightarrow> 'c) \<Rightarrow> ('c, 'r, 'e) fan_pool \<Rightarrow> ('c, 'r, 'e) fan_pool" where
  "worker_turn call p =
     (if stopped p then p\<lparr>idle := idle p - 1\<rparr>
      else
        (let idx = next_idx p; p1 = p\<lparr>next_idx := idx + 1, idle := idle p - 1\<rparr>
         in if length (results p) \<le> idx then p1
            else p1\<lparr>in_flight := in_flight p @ [(idx, call idx)]\<rparr>))"

definition settle_call :: "nat \<Rightarrow> 'e + 'r \<Rightarrow> ('c, 'r, 'e) fan_pool \<Rightarrow> ('c, 'r, 'e) fan_pool" where
  "settle_call i res p =
     (let p1 = p\<lparr>in_flight := delete_rows (\<lambda>(j, _). j = i) (in_flight p)\<rparr>
      in case res of
           Inr r \<Rightarrow> p1\<lparr>results := (results p)[i := Some r], idle := idle p + 1\<rparr>
         | Inl e \<Rightarrow> p1\<lparr>first_error := (case first_error p of None \<Rightarrow> Some e | Some e' \<Rightarrow> Some e'),
                       stopped := True\<rparr>)"

definition pool_done :: "('c, 'r, 'e) fan_pool \<Rightarrow> bool" where
  "pool_done p \<longleftrightarrow> idle p = 0 \<and> in_flight p = []"

definition mapWithConcurrency_result :: "('c, 'r, 'e) fan_pool \<Rightarrow> 'e + 'r option list" where
  "mapWithConcurrency_result p =
     (case first_error p of Some e \<Rightarrow> Inl e | None \<Rightarrow> Inr (results p))"

definition MIN_CHUNK_CONCURRENCY :: int where "MIN_CHUNK_CONCURRENCY = 1"
definition MAX_CHUNK_CONCURRENCY :: int where "MAX_CHUNK_CONCURRENCY = 8"

text \<open>\<open>None\<close>: the setting is absent, not a number or not finite.\<close>

definition resolveChunkConcurrency :: "real option \<Rightarrow> int" where
  "resolveChunkConcurrency raw =
     (case raw of
        None \<Rightarrow> MIN_CHUNK_CONCURRENCY
      | Some x \<Rightarrow>
          (let truncated = js_trunc x
           in min MAX_CHUNK_CONCURRENCY (max MIN_CHUNK_CONCURRENCY
                (if truncated = 0 then MIN_CHUNK_CONCURRENCY else truncated))))"

section \<open>A chunk's guards and its call\<close>

text \<open>
  What the guards of \<open>compactChunk\<close> and \<open>extractChunk\<close> decide in the turn that claims the chunk:
  nothing to call (empty text, or the cap tripped), the budget refuses, or a call with its
  estimate is under way.
\<close>

datatype chunk_call = Skipped | Refused budget_error | Calling real

record run_state =
  pool :: "(chunk_call, real, string + budget_error) fan_pool"
  spend :: budget
  cap_st :: cap_state

record chunk_env =
  ce_cap :: cost_cap
  ce_capUsd :: real
  ce_empty :: "nat \<Rightarrow> bool"
  ce_estimate :: "nat \<Rightarrow> real"

definition chunk_guards :: "chunk_env \<Rightarrow> epoch_ms \<Rightarrow> run_state \<Rightarrow> nat \<Rightarrow> chunk_call \<times> cap_state" where
  "chunk_guards env now s i =
     (if ce_empty env i then (Skipped, cap_st s)
      else
        (let (stop, c) = costcap_shouldStop (ce_cap env) now (cap_st s)
         in if stop then (Skipped, c)
            else (case assertCanSpend now (ce_estimate env i) (ce_capUsd env) (spend s) of
                    Inl e \<Rightarrow> (Refused e, c)
                  | Inr _ \<Rightarrow> (Calling (ce_estimate env i), c))))"

text \<open>A turn of an idle worker; the guards only run when it claims a chunk.\<close>

definition claims :: "('c, 'r, 'e) fan_pool \<Rightarrow> bool" where
  "claims p \<longleftrightarrow> \<not> stopped p \<and> next_idx p < length (results p)"

definition run_turn :: "chunk_env \<Rightarrow> epoch_ms \<Rightarrow> run_state \<Rightarrow> run_state" where
  "run_turn env now s =
     s\<lparr>pool := worker_turn (\<lambda>i. fst (chunk_guards env now s i)) (pool s),
       cap_st := (if claims (pool s) then snd (chunk_guards env now s (next_idx (pool s))) else cap_st s)\<rparr>"

text \<open>
  The call of chunk \<open>i\<close> settles. \<open>outcome\<close> is what the provider did, for a call that was made:
  an error, or an answer that cost \<open>usd\<close> and parsed or not.
\<close>

datatype provider_outcome = Provider_Error string | Answer real "string option"

definition run_settle :: "chunk_env \<Rightarrow> epoch_ms \<Rightarrow> nat \<Rightarrow> provider_outcome \<Rightarrow> run_state \<Rightarrow> run_state" where
  "run_settle env now i outcome s =
     (case map_of (in_flight (pool s)) i of
        None \<Rightarrow> s
      | Some Skipped \<Rightarrow> s\<lparr>pool := settle_call i (Inr 0) (pool s)\<rparr>
      | Some (Refused e) \<Rightarrow> s\<lparr>pool := settle_call i (Inl (Inr e)) (pool s)\<rparr>
      | Some (Calling est) \<Rightarrow>
          (case outcome of
             Provider_Error m \<Rightarrow> s\<lparr>pool := settle_call i (Inl (Inl m)) (pool s)\<rparr>
           | Answer usd parse_error \<Rightarrow>
               s\<lparr>pool := settle_call i (case parse_error of None \<Rightarrow> Inr usd | Some m \<Rightarrow> Inl (Inl m)) (pool s),
                 cap_st := costcap_recordCall (ce_cap env) (cap_st s),
                 spend := record_spend now usd (spend s)\<rparr>))"

text \<open>
  A run of one stage over its chunks, within one UTC day. Providers bill at most the estimate.
\<close>

inductive run_step :: "chunk_env \<Rightarrow> string \<Rightarrow> run_state \<Rightarrow> run_state \<Rightarrow> bool" for env day where
  Turn: "0 < idle (pool s) \<Longrightarrow> todayKey now = day \<Longrightarrow> run_step env day s (run_turn env now s)"
| Settle: "(i, c) \<in> set (in_flight (pool s)) \<Longrightarrow> todayKey now = day \<Longrightarrow>
     (\<And>est usd m. c = Calling est \<Longrightarrow> outcome = Answer usd m \<Longrightarrow> 0 \<le> usd \<and> usd \<le> est) \<Longrightarrow>
     run_step env day s (run_settle env now i outcome s)"

section \<open>The fan-out's invariant\<close>

definition pool_inv :: "nat \<Rightarrow> nat \<Rightarrow> ('c, 'r, 'e) fan_pool \<Rightarrow> bool" where
  "pool_inv n w p \<longleftrightarrow>
     length (results p) = n \<and> length (in_flight p) + idle p \<le> w \<and> distinct (map fst (in_flight p)) \<and>
     (\<forall>i \<in> fst ` set (in_flight p). i < next_idx p \<and> i < n) \<and>
     (stopped p \<longleftrightarrow> first_error p \<noteq> None) \<and>
     (length (in_flight p) + idle p < w \<longrightarrow> stopped p \<or> n \<le> next_idx p) \<and>
     (\<not> stopped p \<longrightarrow> (\<forall>i < n. i < next_idx p \<longrightarrow> i \<in> fst ` set (in_flight p) \<or> results p ! i \<noteq> None))"

definition pool_measure :: "('c, 'r, 'e) fan_pool \<Rightarrow> nat" where
  "pool_measure p = 3 * (length (results p) - next_idx p) + 2 * length (in_flight p) + idle p"

lemma pool_inv_start: "pool_inv n (workerCount limit n) (start_pool limit n)"
  by (auto simp: pool_inv_def start_pool_def workerCount_def)

lemma pool_inv_turn:
  assumes "pool_inv n w p" and "0 < idle p"
  shows "pool_inv n w (worker_turn call p)"
proof -
  consider "stopped p" | "\<not> stopped p" "n \<le> next_idx p" | "\<not> stopped p" "next_idx p < n" by linarith
  then show ?thesis
  proof cases
    case 3
    with assms show ?thesis
      by (auto simp: pool_inv_def worker_turn_def Let_def less_Suc_eq)
  qed (use assms in \<open>auto simp: pool_inv_def worker_turn_def Let_def\<close>)
qed

lemma length_delete_call:
  "(i, c) \<in> set xs \<Longrightarrow> distinct (map fst xs) \<Longrightarrow> Suc (length (delete_rows (\<lambda>(j, _). j = i) xs)) = length xs"
proof (induction xs)
  case (Cons x xs)
  show ?case
  proof (cases "fst x = i")
    case True
    then have "delete_rows (\<lambda>(j, _). j = i) xs = xs"
      using Cons.prems by (auto simp: delete_rows_def filter_id_conv rev_image_eqI)
    with True show ?thesis by (cases x) simp
  next
    case False
    with Cons show ?thesis by (cases x) auto
  qed
qed simp

lemma pool_inv_settle:
  assumes inv: "pool_inv n w p" and i: "(i, c) \<in> set (in_flight p)"
  shows "pool_inv n w (settle_call i res p)"
proof -
  let ?fl = "delete_rows (\<lambda>(j, _). j = i) (in_flight p)"
  have len: "Suc (length ?fl) = length (in_flight p)"
    using length_delete_call[OF i] inv by (simp add: pool_inv_def)
  have d: "distinct (map fst ?fl)" using inv by (simp add: pool_inv_def delete_rows_def distinct_map_filter)
  have mem: "fst ` set ?fl = fst ` set (in_flight p) - {i}" by force
  have lt: "i < n" "i < next_idx p" using inv i by (force simp: pool_inv_def)+
  show ?thesis
  proof (cases res)
    case (Inl e)
    with inv len d mem show ?thesis
      by (auto simp: pool_inv_def settle_call_def split: option.splits)
  next
    case (Inr r)
    have "\<forall>j < n. j < next_idx p \<longrightarrow> j \<in> fst ` set ?fl \<or> (results p)[i := Some r] ! j \<noteq> None" if "\<not> stopped p"
    proof (intro allI impI)
      fix j assume j: "j < n" "j < next_idx p"
      show "j \<in> fst ` set ?fl \<or> (results p)[i := Some r] ! j \<noteq> None"
        using inv that j lt unfolding mem by (cases "j = i") (auto simp: pool_inv_def)
    qed
    moreover have "\<forall>j \<in> fst ` set ?fl. j < next_idx p \<and> j < n" unfolding mem using inv by (auto simp: pool_inv_def)
    moreover note len[symmetric]
    ultimately show ?thesis using Inr inv d by (simp only: pool_inv_def settle_call_def) auto
  qed
qed

lemma measure_turn:
  assumes "0 < idle p"
  shows "pool_measure (worker_turn call p) < pool_measure p"
proof -
  consider "stopped p" | "\<not> stopped p" "length (results p) \<le> next_idx p" | "\<not> stopped p" "next_idx p < length (results p)"
    by linarith
  then show ?thesis
    by cases (use assms in \<open>auto simp: pool_measure_def worker_turn_def Let_def\<close>)
qed

lemma measure_settle:
  assumes "pool_inv n w p" and i: "(i, c) \<in> set (in_flight p)"
  shows "pool_measure (settle_call i res p) < pool_measure p"
proof -
  have "Suc (length (delete_rows (\<lambda>(j, _). j = i) (in_flight p))) = length (in_flight p)"
    using length_delete_call[OF i] assms by (simp add: pool_inv_def)
  then show ?thesis
    by (cases res) (auto simp: pool_measure_def settle_call_def split: option.splits)
qed

section \<open>Runs\<close>

definition call_of :: "(nat \<times> 'c) list \<Rightarrow> nat \<Rightarrow> 'c option" where
  "call_of fl i = map_of fl i"

lemma run_settle_pool:
  assumes "pool_inv n w (pool s)" and "(i, c) \<in> set (in_flight (pool s))"
  shows "\<exists>res. pool (run_settle env now i outcome s) = settle_call i res (pool s)"
proof -
  have "map_of (in_flight (pool s)) i = Some c" using assms by (simp add: pool_inv_def)
  then show ?thesis by (cases c; cases outcome) (auto simp: run_settle_def)
qed

lemma run_step_pool:
  assumes "run_step env day s s'" and inv: "pool_inv n w (pool s)"
  shows "pool_inv n w (pool s') \<and> pool_measure (pool s') < pool_measure (pool s)"
  using assms(1)
proof cases
  case (Turn now)
  then show ?thesis using inv by (simp add: run_turn_def pool_inv_turn measure_turn)
next
  case (Settle i c now outcome)
  then obtain res where "pool s' = settle_call i res (pool s)"
    using run_settle_pool[OF inv] by blast
  then show ?thesis using pool_inv_settle[OF inv] measure_settle[OF inv] Settle(2) by simp
qed

lemma run_steps_pool:
  assumes "(run_step env day ^^ k) s s'" and "pool_inv n w (pool s)"
  shows "pool_inv n w (pool s') \<and> pool_measure (pool s') + k \<le> pool_measure (pool s)"
  using assms(1)
proof (induction k arbitrary: s')
  case (Suc k)
  then obtain s1 where "(run_step env day ^^ k) s s1" "run_step env day s1 s'" by auto
  with Suc.IH run_step_pool show ?case by fastforce
qed (use assms(2) in simp)

lemma step_possible:
  assumes "\<not> pool_done (pool s)" and "todayKey now = day"
  shows "\<exists>s'. run_step env day s s'"
proof (cases "0 < idle (pool s)")
  case True
  then show ?thesis using run_step.Turn assms(2) by blast
next
  case False
  then obtain i c where "(i, c) \<in> set (in_flight (pool s))"
    using assms(1) by (cases "in_flight (pool s)") (auto simp: pool_done_def)
  then show ?thesis using run_step.Settle[of i c s now day "Provider_Error []"] assms(2) by blast
qed

section \<open>The spending invariant\<close>

fun pending :: "chunk_call \<Rightarrow> real" where
  "pending (Calling est) = est"
| "pending _ = 0"

definition outstanding :: "(nat \<times> chunk_call) list \<Rightarrow> real" where
  "outstanding fl = sum_list (map (pending \<circ> snd) fl)"

definition calling :: "(nat \<times> chunk_call) list \<Rightarrow> nat" where
  "calling fl = count_rows (\<lambda>(i, c). \<exists>est. c = Calling est) fl"

definition estimates_ok :: "real \<Rightarrow> (nat \<times> chunk_call) list \<Rightarrow> bool" where
  "estimates_ok e fl \<longleftrightarrow> (\<forall>p \<in> set fl. 0 \<le> pending (snd p) \<and> pending (snd p) \<le> e)"

lemma outstanding_le: "estimates_ok e fl \<Longrightarrow> outstanding fl \<le> real (length fl) * e"
  by (induction fl) (auto simp: estimates_ok_def outstanding_def algebra_simps)

lemma outstanding_nonneg: "estimates_ok e fl \<Longrightarrow> 0 \<le> outstanding fl"
  by (induction fl) (auto simp: estimates_ok_def outstanding_def)

lemma outstanding_delete:
  "distinct (map fst fl) \<Longrightarrow> map_of fl i = Some c \<Longrightarrow>
   outstanding (delete_rows (\<lambda>(j, _). j = i) fl) = outstanding fl - pending c"
proof (induction fl)
  case (Cons x fl)
  show ?case
  proof (cases "fst x = i")
    case True
    then have "delete_rows (\<lambda>(j, _). j = i) fl = fl"
      using Cons.prems by (auto simp: delete_rows_def filter_id_conv rev_image_eqI)
    with True Cons.prems show ?thesis by (cases x) (simp add: outstanding_def)
  next
    case False
    with Cons show ?thesis by (cases x) (auto simp: outstanding_def)
  qed
qed simp

definition spend_inv :: "real \<Rightarrow> real \<Rightarrow> nat \<Rightarrow> string \<Rightarrow> run_state \<Rightarrow> bool" where
  "spend_inv cap e w day s \<longleftrightarrow>
     estimates_ok e (in_flight (pool s)) \<and>
     (\<forall>now. todayKey now = day \<longrightarrow>
        usd_total (today now (spend s)) + outstanding (in_flight (pool s)) \<le> cap + (real w - 1) * e)"

lemma today_same_day: "todayKey now = todayKey now' \<Longrightarrow> today now b = today now' b"
  by (simp add: today_def split: option.split)

lemma record_same_day: "todayKey now = todayKey now' \<Longrightarrow> record_spend now usd b = record_spend now' usd b"
  by (simp add: record_spend_def)

lemma settle_in_flight [simp]:
  "in_flight (settle_call i res p) = delete_rows (\<lambda>(j, _). j = i) (in_flight p)"
  by (cases res) (simp_all add: settle_call_def)

lemma estimates_ok_delete: "estimates_ok e fl \<Longrightarrow> estimates_ok e (delete_rows P fl)"
  by (auto simp: estimates_ok_def)

lemma run_settle_cases:
  assumes "map_of (in_flight (pool s)) i = Some c"
  shows "in_flight (pool (run_settle env now i outcome s)) = delete_rows (\<lambda>(j, _). j = i) (in_flight (pool s))"
    "(spend (run_settle env now i outcome s) = spend s \<and> cap_st (run_settle env now i outcome s) = cap_st s) \<or>
     (\<exists>est usd m. c = Calling est \<and> outcome = Answer usd m \<and> spend (run_settle env now i outcome s) = record_spend now usd (spend s) \<and>
        cap_st (run_settle env now i outcome s) = costcap_recordCall (ce_cap env) (cap_st s))"
  using assms by (cases c; cases outcome; simp add: run_settle_def)+

lemma chunk_guards_calling:
  "fst (chunk_guards env now s i) = Calling est \<Longrightarrow>
   est = ce_estimate env i \<and> usd_total (today now (spend s)) + est \<le> ce_capUsd env \<and>
   (cc_enabled (ce_cap env) \<longrightarrow> (\<forall>m. maxCallsPerJob (ce_cap env) = Some m \<longrightarrow> real (calls_executed (cap_st s)) < m))"
  by (auto simp: chunk_guards_def costcap_shouldStop_def assertCanSpend_def Let_def split: if_splits option.splits)

lemma run_turn_in_flight:
  "in_flight (pool (run_turn env now s)) =
     (if claims (pool s) then in_flight (pool s) @ [(next_idx (pool s), fst (chunk_guards env now s (next_idx (pool s))))]
      else in_flight (pool s))"
  "spend (run_turn env now s) = spend s"
  by (auto simp: run_turn_def worker_turn_def claims_def Let_def)

lemma spend_inv_step:
  assumes step: "run_step env day s s'" and pool: "pool_inv n w (pool s)" and inv: "spend_inv (ce_capUsd env) e w day s"
    and est: "\<And>i. i < n \<Longrightarrow> 0 \<le> ce_estimate env i \<and> ce_estimate env i \<le> e" and e: "0 \<le> e"
  shows "spend_inv (ce_capUsd env) e w day s'"
  using step
proof cases
  case (Turn now)
  show ?thesis
  proof (cases "claims (pool s)")
    case False
    with inv Turn show ?thesis by (simp add: spend_inv_def run_turn_in_flight)
  next
    case True
    let ?i = "next_idx (pool s)" and ?fl = "in_flight (pool s)"
    let ?c = "fst (chunk_guards env now s ?i)"
    have i: "?i < n" using True pool by (simp add: claims_def pool_inv_def)
    have len: "length ?fl \<le> w - 1" "1 \<le> w" using pool Turn(2) by (auto simp: pool_inv_def)
    have ok: "estimates_ok e ?fl" using inv by (simp add: spend_inv_def)
    have c: "0 \<le> pending ?c" "pending ?c \<le> e"
      using est[OF i] e chunk_guards_calling[of env now s ?i] by (cases ?c; auto)+
    have "usd_total (today t (spend s)) + (outstanding ?fl + pending ?c) \<le> ce_capUsd env + (real w - 1) * e"
      if t: "todayKey t = day" for t
    proof (cases ?c)
      case (Calling x)
      have "usd_total (today t (spend s)) + x \<le> ce_capUsd env"
        using chunk_guards_calling[OF Calling] today_same_day[of now t] t Turn(3) by simp
      moreover have "outstanding ?fl \<le> real (length ?fl) * e" by (rule outstanding_le[OF ok])
      moreover have "real (length ?fl) * e \<le> (real w - 1) * e"
        using len e by (intro mult_right_mono) (auto simp: of_nat_diff)
      ultimately show ?thesis using Calling by simp
    qed (use inv t in \<open>auto simp: spend_inv_def\<close>)
    then show ?thesis
      using ok c True Turn(1) by (simp add: spend_inv_def run_turn_in_flight estimates_ok_def outstanding_def)
  qed
next
  case (Settle i c now outcome)
  let ?fl = "in_flight (pool s)"
  have d: "distinct (map fst ?fl)" using pool by (simp add: pool_inv_def)
  have m: "map_of ?fl i = Some c" using d Settle(2) by simp
  have ok: "estimates_ok e ?fl" using inv by (simp add: spend_inv_def)
  note out = outstanding_delete[OF d m]
  have pos: "0 \<le> pending c" using ok Settle(2) by (auto simp: estimates_ok_def)
  have "usd_total (today t (spend s')) + (outstanding ?fl - pending c) \<le> ce_capUsd env + (real w - 1) * e"
    if t: "todayKey t = day" for t
    using run_settle_cases(2)[OF m, of env now outcome]
  proof
    assume "spend (run_settle env now i outcome s) = spend s \<and> cap_st (run_settle env now i outcome s) = cap_st s"
    with inv t pos Settle(1) show ?thesis by (auto simp: spend_inv_def)
  next
    assume "\<exists>est usd m. c = Calling est \<and> outcome = Answer usd m \<and> spend (run_settle env now i outcome s) = record_spend now usd (spend s) \<and>
        cap_st (run_settle env now i outcome s) = costcap_recordCall (ce_cap env) (cap_st s)"
    then obtain x usd m where x: "c = Calling x" "outcome = Answer usd m" "spend s' = record_spend now usd (spend s)"
      using Settle(1) by blast
    have "usd \<le> x" using Settle(4) x by blast
    moreover have "usd_total (today t (spend s')) = usd_total (today t (spend s)) + usd"
      using x(3) record_same_day[of now t] t Settle(3) today_record by simp
    ultimately show ?thesis using inv t x(1) by (auto simp: spend_inv_def)
  qed
  then show ?thesis
    using estimates_ok_delete[OF ok] Settle(1) run_settle_cases(1)[OF m] out by (simp add: spend_inv_def)
qed


text \<open>The same argument for the number of calls.\<close>

lemma calling_delete:
  "distinct (map fst fl) \<Longrightarrow> map_of fl i = Some c \<Longrightarrow>
   calling (delete_rows (\<lambda>(j, _). j = i) fl) + (if \<exists>est. c = Calling est then 1 else 0) = calling fl"
proof (induction fl)
  case (Cons x fl)
  show ?case
  proof (cases "fst x = i")
    case True
    then have "delete_rows (\<lambda>(j, _). j = i) fl = fl"
      using Cons.prems by (auto simp: delete_rows_def filter_id_conv rev_image_eqI)
    with True Cons.prems show ?thesis by (cases x) (simp add: calling_def count_rows_def)
  next
    case False
    with Cons show ?thesis by (cases x) (auto simp: calling_def count_rows_def)
  qed
qed simp

lemma calling_le: "calling fl \<le> length fl"
  by (simp add: calling_def count_rows_def)

definition calls_inv :: "real \<Rightarrow> nat \<Rightarrow> run_state \<Rightarrow> bool" where
  "calls_inv m w s \<longleftrightarrow> real (calls_executed (cap_st s) + calling (in_flight (pool s))) < m + real w"

lemma stop_keeps_count: "calls_executed (snd (costcap_shouldStop cap now c)) = calls_executed c"
  by (simp add: costcap_shouldStop_def logTripOnce_def)

lemma guards_keep_count [simp]: "calls_executed (snd (chunk_guards env now s i)) = calls_executed (cap_st s)"
  by (simp add: chunk_guards_def case_prod_beta stop_keeps_count split: sum.split)

lemma calls_inv_step:
  assumes step: "run_step env day s s'" and pool: "pool_inv n w (pool s)" and inv: "calls_inv m w s"
    and cap: "cc_enabled (ce_cap env)" "maxCallsPerJob (ce_cap env) = Some m"
  shows "calls_inv m w s'"
  using step
proof cases
  case (Turn now)
  have same: "calls_executed (cap_st s') = calls_executed (cap_st s)" using Turn(1) by (simp add: run_turn_def)
  show ?thesis
  proof (cases "claims (pool s) \<and> (\<exists>est. fst (chunk_guards env now s (next_idx (pool s))) = Calling est)")
    case True
    then have "real (calls_executed (cap_st s)) < m" using chunk_guards_calling cap by blast
    moreover have "calling (in_flight (pool s')) \<le> w"
    proof -
      have "length (in_flight (pool s')) \<le> w"
        using True pool Turn(1,2) by (auto simp: run_turn_in_flight pool_inv_def)
      then show ?thesis using calling_le order.trans by blast
    qed
    ultimately show ?thesis using same by (simp add: calls_inv_def)
  next
    case False
    then have "calling (in_flight (pool s')) = calling (in_flight (pool s))"
      using Turn(1) by (auto simp: run_turn_in_flight calling_def count_rows_def)
    with inv same show ?thesis by (simp add: calls_inv_def)
  qed
next
  case (Settle i c now outcome)
  have d: "distinct (map fst (in_flight (pool s)))" using pool by (simp add: pool_inv_def)
  then have c: "map_of (in_flight (pool s)) i = Some c" using Settle(2) by simp
  have "calls_executed (cap_st s') + calling (in_flight (pool s')) \<le> calls_executed (cap_st s) + calling (in_flight (pool s))"
    using run_settle_cases(2)[OF c, of env now outcome]
  proof
    assume "spend (run_settle env now i outcome s) = spend s \<and> cap_st (run_settle env now i outcome s) = cap_st s"
    then show ?thesis using calling_delete[OF d c] run_settle_cases(1)[OF c] Settle(1) by simp
  next
    assume "\<exists>est usd m. c = Calling est \<and> outcome = Answer usd m \<and> spend (run_settle env now i outcome s) = record_spend now usd (spend s) \<and>
        cap_st (run_settle env now i outcome s) = costcap_recordCall (ce_cap env) (cap_st s)"
    then show ?thesis
      using calling_delete[OF d c] run_settle_cases(1)[OF c] Settle(1) cap by (auto simp: costcap_recordCall_def)
  qed
  with inv show ?thesis by (simp add: calls_inv_def)
qed

lemma run_spend_inv:
  assumes "(run_step env day ^^ k) s0 s" and "pool_inv n w (pool s0)" and "spend_inv (ce_capUsd env) e w day s0"
    and "\<And>i. i < n \<Longrightarrow> 0 \<le> ce_estimate env i \<and> ce_estimate env i \<le> e" and "0 \<le> e"
  shows "spend_inv (ce_capUsd env) e w day s"
  using assms(1)
proof (induction k arbitrary: s)
  case (Suc k)
  then obtain s1 where s1: "(run_step env day ^^ k) s0 s1" "run_step env day s1 s" by auto
  have "pool_inv n w (pool s1)" using run_steps_pool[OF s1(1) assms(2)] by blast
  from spend_inv_step[OF s1(2) this] Suc.IH[OF s1(1)] assms(4,5) show ?case by blast
qed (use assms(3) in simp)

lemma run_calls_inv:
  assumes "(run_step env day ^^ k) s0 s" and "pool_inv n w (pool s0)" and "calls_inv m w s0"
    and "cc_enabled (ce_cap env)" and "maxCallsPerJob (ce_cap env) = Some m"
  shows "calls_inv m w s"
  using assms(1)
proof (induction k arbitrary: s)
  case (Suc k)
  then obtain s1 where s1: "(run_step env day ^^ k) s0 s1" "run_step env day s1 s" by auto
  have "pool_inv n w (pool s1)" using run_steps_pool[OF s1(1) assms(2)] by blast
  from calls_inv_step[OF s1(2) this] Suc.IH[OF s1(1)] assms(4,5) show ?case by blast
qed (use assms(3) in simp)

definition start_run :: "int \<Rightarrow> nat \<Rightarrow> budget \<Rightarrow> cap_state \<Rightarrow> run_state" where
  "start_run limit n b c = \<lparr>pool = start_pool limit n, spend = b, cap_st = c\<rparr>"

lemma start_run_inv: "pool_inv n (workerCount limit n) (pool (start_run limit n b c))"
  by (simp add: start_run_def pool_inv_start)

section \<open>Properties of the spending limits\<close>


text \<open>A first turn over three chunks with two workers.\<close>

definition demo_env :: chunk_env where
  "demo_env = \<lparr>ce_cap = resolveDistillCostCap (Some (Some True, Some 2, None)), ce_capUsd = 1,
     ce_empty = (\<lambda>i. i = 2), ce_estimate = (\<lambda>i. 1 / 2)\<rparr>"

definition demo_turn :: run_state where
  "demo_turn = run_turn demo_env 0 (start_run 2 3 [] (fresh_cap 0))"

lemma demo_run: "(run_step demo_env (todayKey 0) ^^ 1) (start_run 2 3 [] (fresh_cap 0)) demo_turn"
proof -
  have "0 < idle (pool (start_run 2 3 [] (fresh_cap 0)))" by (simp add: start_run_def start_pool_def workerCount_def)
  from run_step.Turn[OF this refl[of "todayKey 0"], of demo_env] show ?thesis
    by (simp only: relpowp_1 demo_turn_def)
qed




text \<open>
  The job cap counts what it should. With \<open>maxCallsPerJob = m\<close> the answered calls plus the ones
  under way stay below \<open>m + limit\<close>: a sequential stage never exceeds the cap, a concurrent one by
  less than its width.
\<close>

lemma job_cap_is_respected:
  assumes "(run_step env day ^^ k) (start_run limit n b (fresh_cap t)) s"
    and "ce_cap env = resolveDistillCostCap (Some (Some True, Some m, wall))" and "0 \<le> m" and "1 \<le> limit"
  shows "real (calls_executed (cap_st s) + calling (in_flight (pool s))) < m + of_int limit"
proof -
  let ?w = "workerCount limit n"
  have w: "1 \<le> ?w" "int ?w \<le> limit" using assms(4) by (auto simp: workerCount_def)
  have "calls_inv m ?w (start_run limit n b (fresh_cap t))"
    using assms(3) w(1) by (simp add: calls_inv_def start_run_def fresh_cap_def start_pool_def calling_def count_rows_def)
  from run_calls_inv[OF assms(1) start_run_inv this] assms(2)
  have "calls_inv m ?w s" by (simp add: resolveDistillCostCap_def)
  moreover have "real ?w \<le> of_int limit" using w(2) by linarith
  ultimately show ?thesis by (simp add: calls_inv_def)
qed

lemma job_cap_is_respected_witness:
  "real (calls_executed (cap_st demo_turn) + calling (in_flight (pool demo_turn))) < 2 + 2"
  using job_cap_is_respected[OF demo_run, of 2 None] by (simp add: demo_env_def)

end
