(* ===== verification/Distill_Text.thy ===== *)
theory Distill_Text
  imports Prelude
begin

text \<open>
  The deterministic text stages of the distillation: cleanup (\<open>src/src/distill/stages/01-cleanup.ts\<close>)
  and chunking (\<open>distill/stages/03-chunk.ts\<close>), with the JavaScript string operations they use.
  Strings are sequences of Latin-1 code units; the regular expressions are written out as
  recognisers.
\<close>

section \<open>JavaScript strings\<close>

abbreviation NL :: char where "NL \<equiv> CHR 0x0A"
abbreviation CR :: char where "CR \<equiv> CHR 0x0D"

text \<open>The class \<open>\s\<close>, which is also what \<open>trim\<close> removes.\<close>

definition js_ws :: "char \<Rightarrow> bool" where
  "js_ws c \<longleftrightarrow> (let n = of_char c :: nat in 9 \<le> n \<and> n \<le> 13 \<or> n = 32 \<or> n = 160)"

definition trimStart :: "string \<Rightarrow> string" where
  "trimStart s = dropWhile js_ws s"

definition trimEnd :: "string \<Rightarrow> string" where
  "trimEnd s = rev (dropWhile js_ws (rev s))"

definition trim :: "string \<Rightarrow> string" where
  "trim s = trimEnd (trimStart s)"

text \<open>\<open>split\<close> at a character and \<open>join\<close>.\<close>

fun split_at_char :: "char \<Rightarrow> string \<Rightarrow> string list" where
  "split_at_char sep [] = [[]]"
| "split_at_char sep (c # cs) =
     (if c = sep then [] # split_at_char sep cs
      else case split_at_char sep cs of [] \<Rightarrow> [[c]] | l # ls \<Rightarrow> (c # l) # ls)"

fun join_with :: "string \<Rightarrow> string list \<Rightarrow> string" where
  "join_with sep [] = []"
| "join_with sep [l] = l"
| "join_with sep (l # m # ls) = l @ sep @ join_with sep (m # ls)"

lemma js_ws_NL [simp]: "js_ws NL" "js_ws CR"
  by (simp_all add: js_ws_def)

text \<open>What is left of a string without its whitespace.\<close>

definition ink :: "string \<Rightarrow> string" where
  "ink s = filter (\<lambda>c. \<not> js_ws c) s"

lemma ink_simps [simp]:
  "ink [] = []" "ink (c # s) = (if js_ws c then ink s else c # ink s)" "ink (s @ t) = ink s @ ink t"
  by (simp_all add: ink_def)

lemma ink_dropWhile [simp]: "ink (dropWhile js_ws s) = ink s"
  by (induction s) auto

lemma ink_rev: "ink (rev s) = rev (ink s)"
  by (simp add: ink_def rev_filter)

lemma ink_trim [simp]: "ink (trimStart s) = ink s" "ink (trimEnd s) = ink s" "ink (trim s) = ink s"
  by (simp_all add: trimStart_def trimEnd_def trim_def ink_rev)

lemma ink_Nil_iff: "ink s = [] \<longleftrightarrow> (\<forall>c \<in> set s. js_ws c)"
  by (simp add: ink_def filter_empty_conv)

lemma trim_Nil_iff: "trim s = [] \<longleftrightarrow> ink s = []"
proof
  assume "trim s = []"
  then show "ink s = []" using ink_trim(3)[of s] by simp
next
  assume "ink s = []"
  then have "\<forall>c \<in> set s. js_ws c" by (simp add: ink_Nil_iff)
  then show "trim s = []" by (auto simp: trim_def trimStart_def trimEnd_def dropWhile_eq_Nil_conv dest: set_dropWhileD)
qed

lemma trimEnd_prefix: "prefix (trimEnd s) s"
  by (metis trimEnd_def suffix_dropWhile suffix_to_prefix rev_rev_ident)

lemma trimStart_suffix: "suffix (trimStart s) s"
  by (simp add: trimStart_def suffix_dropWhile)

lemma trim_sublist: "sublist (trim s) s"
  by (metis trim_def trimEnd_prefix trimStart_suffix prefix_imp_sublist suffix_imp_sublist sublist_order.order_trans)

lemma length_trim: "length (trim s) \<le> length s"
  using sublist_length_le[OF trim_sublist] .

lemma set_trim: "set (trim s) \<subseteq> set s"
  using set_mono_sublist[OF trim_sublist] .

lemma split_not_Nil [simp]: "split_at_char sep s \<noteq> []"
  by (induction s) (auto split: list.split)

lemma split_no_sep: "l \<in> set (split_at_char sep s) \<Longrightarrow> sep \<notin> set l"
  by (induction s arbitrary: l) (auto split: list.splits if_splits)

lemma join_Cons: "ls \<noteq> [] \<Longrightarrow> join_with sep (l # ls) = l @ sep @ join_with sep ls"
  by (cases ls) auto

lemma join_split: "join_with [sep] (split_at_char sep s) = s"
proof (induction s)
  case (Cons c s)
  obtain l ls where "split_at_char sep s = l # ls" by (cases "split_at_char sep s") auto
  with Cons show ?case by (cases ls) auto
qed simp

lemma ink_join: "ink sep = [] \<Longrightarrow> ink (join_with sep ls) = concat (map ink ls)"
  by (induction sep ls rule: join_with.induct) auto

lemma ink_split: "js_ws sep \<Longrightarrow> concat (map ink (split_at_char sep s)) = ink s"
  using ink_join[of "[sep]" "split_at_char sep s"] by (simp add: join_split)

section \<open>Cleanup\<close>

definition REPEAT_THRESHOLD :: nat where "REPEAT_THRESHOLD = 3"

fun replace_crlf :: "string \<Rightarrow> string" where
  "replace_crlf (c # d # cs) = (if c = CR \<and> d = NL then NL # replace_crlf cs else c # replace_crlf (d # cs))"
| "replace_crlf cs = cs"

definition replace_cr :: "string \<Rightarrow> string" where
  "replace_cr s = map (\<lambda>c. if c = CR then NL else c) s"

function dedup_lines :: "string list \<Rightarrow> string list" where
  "dedup_lines lines =
     (case lines of
        [] \<Rightarrow> []
      | line # rest \<Rightarrow>
          if trim line = [] then line # dedup_lines rest
          else
            (let count = 1 + length (takeWhile (\<lambda>l. l = line) rest)
             in (if REPEAT_THRESHOLD \<le> count then [line] else replicate count line)
                  @ dedup_lines (drop count lines)))"
  by pat_completeness auto
termination by (relation "measure length") auto

definition deduplicateRepeatedLines :: "string \<Rightarrow> string" where
  "deduplicateRepeatedLines text = join_with [NL] (dedup_lines (split_at_char NL text))"

function collapseBlankLines :: "string \<Rightarrow> string" where
  "collapseBlankLines text =
     (case text of
        [] \<Rightarrow> []
      | c # cs \<Rightarrow>
          if c \<noteq> NL then c # collapseBlankLines cs
          else
            (let k = length (takeWhile (\<lambda>x. x = NL) text)
             in (if 3 \<le> k then [NL, NL] else replicate k NL) @ collapseBlankLines (drop k text)))"
  by pat_completeness auto
termination by (relation "measure length") auto

declare dedup_lines.simps [simp del] collapseBlankLines.simps [simp del]

definition cleanup :: "string \<Rightarrow> string" where
  "cleanup text =
     (let r1 = replace_cr (replace_crlf text);
          r2 = join_with [NL] (map trimEnd (split_at_char NL r1));
          r3 = deduplicateRepeatedLines r2;
          r4 = collapseBlankLines r3
      in trim r4)"

section \<open>Turns\<close>

definition is_upper :: "char \<Rightarrow> bool" where
  "is_upper c \<longleftrightarrow> (let n = of_char c :: nat in 65 \<le> n \<and> n \<le> 90)"

definition is_lower :: "char \<Rightarrow> bool" where
  "is_lower c \<longleftrightarrow> (let n = of_char c :: nat in 97 \<le> n \<and> n \<le> 122)"

definition starts_with_colon :: "string \<Rightarrow> bool" where
  "starts_with_colon s \<longleftrightarrow> (case dropWhile js_ws s of c # _ \<Rightarrow> c = CHR '':'' | [] \<Rightarrow> False)"

text \<open>\<open>/^(user|assistant|system|human|ai)\s*:/i\<close>.\<close>

definition role_boundary :: "string \<Rightarrow> bool" where
  "role_boundary line \<longleftrightarrow>
     list_ex (\<lambda>r. prefix r (js_lower line) \<and> starts_with_colon (drop (length r) line))
       [''user'', ''assistant'', ''system'', ''human'', ''ai'']"

text \<open>A Title Case word at the start: the word and what follows.\<close>

definition title_word :: "string \<Rightarrow> (string \<times> string) option" where
  "title_word s =
     (case s of
        c # cs \<Rightarrow> if is_upper c then Some (c # takeWhile is_lower cs, dropWhile is_lower cs) else None
      | [] \<Rightarrow> None)"

text \<open>\<open>/^([A-Z][a-z]*(?:\s[A-Z][a-z]*)?)\s*:/\<close> and its group.\<close>

definition speaker_label :: "string \<Rightarrow> string option" where
  "speaker_label line =
     (case title_word line of
        None \<Rightarrow> None
      | Some (w, rest) \<Rightarrow>
          (case rest of
             sp # more \<Rightarrow>
               (case (if js_ws sp then title_word more else None) of
                  Some (w2, rest2) \<Rightarrow> if starts_with_colon rest2 then Some (w @ [sp] @ w2) else None
                | None \<Rightarrow> if starts_with_colon rest then Some w else None)
           | [] \<Rightarrow> None))"

definition NAMED_SPEAKER_MIN_RECURRENCE :: nat where "NAMED_SPEAKER_MIN_RECURRENCE = 2"

definition label_count :: "string list \<Rightarrow> string \<Rightarrow> nat" where
  "label_count lines l = length (filter (\<lambda>line. speaker_label line = Some l) lines)"

definition isTurnBoundary :: "string list \<Rightarrow> string \<Rightarrow> bool" where
  "isTurnBoundary lines line \<longleftrightarrow>
     role_boundary line \<or>
     (case speaker_label line of
        None \<Rightarrow> False
      | Some l \<Rightarrow> NAMED_SPEAKER_MIN_RECURRENCE \<le> label_count lines l)"

fun turn_loop :: "(string \<Rightarrow> bool) \<Rightarrow> string list \<Rightarrow> string list \<Rightarrow> string list \<Rightarrow> string list" where
  "turn_loop boundary turns current [] =
     (if current \<noteq> [] \<and> trim (join_with [NL] current) \<noteq> []
      then turns @ [trim (join_with [NL] current)] else turns)"
| "turn_loop boundary turns current (line # lines) =
     (if boundary line \<and> current \<noteq> [] then turn_loop boundary (turns @ [join_with [NL] current]) [line] lines
      else turn_loop boundary turns (current @ [line]) lines)"

definition splitIntoTurns :: "string \<Rightarrow> string list" where
  "splitIntoTurns text =
     (let lines = split_at_char NL text in turn_loop (isTurnBoundary lines) [] [] lines)"

section \<open>Packing\<close>

record chunk =
  chunk_index :: nat
  chunk_text :: string

text \<open>
  The loops carry the chunks so far, the next index and the text being collected. \<open>flush\<close> is the
  \<open>if (current.trim()) chunks.push(...)\<close> of both; \<open>append_piece\<close> adds a piece to the current text
  with a separator, or starts the next chunk with it.
\<close>

type_synonym packing = "chunk list \<times> nat \<times> string"

definition flush :: "packing \<Rightarrow> packing" where
  "flush st =
     (case st of (chunks, idx, current) \<Rightarrow>
        if trim current \<noteq> [] then (chunks @ [\<lparr>chunk_index = idx, chunk_text = trim current\<rparr>], idx + 1, [])
        else (chunks, idx, current))"

definition append_piece :: "nat \<Rightarrow> string \<Rightarrow> string \<Rightarrow> packing \<Rightarrow> packing" where
  "append_piece maxChunkChars sep piece st =
     (case st of (chunks, idx, current) \<Rightarrow>
        (let cand = (if current \<noteq> [] then current @ sep @ piece else piece)
         in if maxChunkChars < length cand \<and> trim current \<noteq> []
            then (chunks @ [\<lparr>chunk_index = idx, chunk_text = trim current\<rparr>], idx + 1, piece)
            else (chunks, idx, cand)))"

text \<open>\<open>split(/\n\n+/)\<close>: runs of two or more newlines separate.\<close>

function split_paragraphs :: "string \<Rightarrow> string \<Rightarrow> string list" where
  "split_paragraphs cur text =
     (case text of
        [] \<Rightarrow> [cur]
      | c # cs \<Rightarrow>
          if c = NL \<and> 2 \<le> length (takeWhile (\<lambda>x. x = NL) text)
          then cur # split_paragraphs [] (dropWhile (\<lambda>x. x = NL) text)
          else split_paragraphs (cur @ [c]) cs)"
  by pat_completeness auto
termination by (relation "measure (\<lambda>(cur, text). length text)") (auto simp: length_dropWhile_le le_imp_less_Suc)

declare split_paragraphs.simps [simp del]

definition paragraph_step :: "nat \<Rightarrow> string \<Rightarrow> packing \<Rightarrow> packing" where
  "paragraph_step maxChunkChars para st =
     (if trim para = [] then st
      else if maxChunkChars < length para
      then fold (\<lambda>line st. if trim line = [] then st else append_piece maxChunkChars [NL] line st)
             (split_at_char NL para) (flush st)
      else append_piece maxChunkChars [NL, NL] para st)"

definition splitLargeTurn :: "string \<Rightarrow> nat \<Rightarrow> nat \<Rightarrow> chunk list" where
  "splitLargeTurn text startIdx maxChunkChars =
     fst (flush (fold (paragraph_step maxChunkChars) (split_paragraphs [] text) ([], startIdx, [])))"

definition turn_step :: "nat \<Rightarrow> string \<Rightarrow> packing \<Rightarrow> packing" where
  "turn_step maxChunkChars turn st =
     (let turnText = trim turn
      in if turnText = [] then st
         else if maxChunkChars < length turnText
         then (case flush st of (chunks, idx, current) \<Rightarrow>
                 fold (\<lambda>sc (chunks, idx, current).
                        (chunks @ [\<lparr>chunk_index = idx, chunk_text = chunk_text sc\<rparr>], idx + 1, current))
                   (splitLargeTurn turnText idx maxChunkChars) (chunks, idx, current))
         else append_piece maxChunkChars [NL, NL] turnText st)"

definition packTurns :: "string list \<Rightarrow> nat \<Rightarrow> chunk list" where
  "packTurns turns maxChunkChars =
     (let chunks = fst (flush (fold (turn_step maxChunkChars) turns ([], 0, [])))
      in if chunks = [] then [\<lparr>chunk_index = 0, chunk_text = []\<rparr>] else chunks)"

definition chunk_of :: "string \<Rightarrow> nat \<Rightarrow> chunk list" where
  "chunk_of text maxChunkChars = packTurns (splitIntoTurns text) maxChunkChars"

definition DEFAULT_MAX_CHUNK_CHARS :: int where "DEFAULT_MAX_CHUNK_CHARS = 800 * 4"
definition MIN_CHUNK_CHARS :: int where "MIN_CHUNK_CHARS = 400"
definition MAX_CHUNK_CHARS_CEILING :: int where "MAX_CHUNK_CHARS_CEILING = 16000"

text \<open>\<open>None\<close>: absent, not a number or not finite.\<close>

definition resolveMaxChunkChars :: "real option \<Rightarrow> int" where
  "resolveMaxChunkChars raw =
     (case raw of
        None \<Rightarrow> DEFAULT_MAX_CHUNK_CHARS
      | Some x \<Rightarrow>
          if x \<le> 0 then DEFAULT_MAX_CHUNK_CHARS
          else min MAX_CHUNK_CHARS_CEILING (max MIN_CHUNK_CHARS (js_trunc x)))"

lemma resolveMaxChunkChars_bounds: "400 \<le> resolveMaxChunkChars raw \<and> resolveMaxChunkChars raw \<le> 16000"
  by (auto simp: resolveMaxChunkChars_def DEFAULT_MAX_CHUNK_CHARS_def MIN_CHUNK_CHARS_def MAX_CHUNK_CHARS_CEILING_def
      split: option.splits)


section \<open>Chunking keeps the text and the limit\<close>

text \<open>A chunk text is within the limit, or it is one line.\<close>

definition fits :: "nat \<Rightarrow> string \<Rightarrow> bool" where
  "fits n s \<longleftrightarrow> length s \<le> n \<or> NL \<notin> set s"

definition pack_ink :: "packing \<Rightarrow> string" where
  "pack_ink st = (case st of (chunks, idx, current) \<Rightarrow> concat (map (\<lambda>c. ink (chunk_text c)) chunks) @ ink current)"

definition pack_inv :: "nat \<Rightarrow> nat \<Rightarrow> packing \<Rightarrow> bool" where
  "pack_inv n start st \<longleftrightarrow>
     (case st of (chunks, idx, current) \<Rightarrow>
        start \<le> idx \<and> map chunk_index chunks = [start..<idx] \<and>
        (\<forall>c \<in> set chunks. fits n (chunk_text c) \<and> ink (chunk_text c) \<noteq> []) \<and>
        (current \<noteq> [] \<longrightarrow> ink current \<noteq> []) \<and> fits n current)"

named_theorems packing_facts \<open>one step of the packing loops\<close>

lemma fits_trim: "fits n s \<Longrightarrow> fits n (trim s)"
  using length_trim[of s] set_trim[of s] by (auto simp: fits_def)

lemma flush_facts [packing_facts]:
  "pack_ink (flush st) = pack_ink st" "pack_inv n start st \<Longrightarrow> pack_inv n start (flush st)"
  by (auto simp: flush_def pack_ink_def pack_inv_def trim_Nil_iff fits_trim fits_def[of _ "[]"] split: prod.splits)

lemma flush_done: "concat (map (\<lambda>c. ink (chunk_text c)) (fst (flush st))) = pack_ink st"
  by (auto simp: flush_def pack_ink_def trim_Nil_iff split: prod.splits)

lemma append_piece_ink [packing_facts]:
  "ink sep = [] \<Longrightarrow> pack_ink (append_piece n sep piece st) = pack_ink st @ ink piece"
  by (auto simp: append_piece_def pack_ink_def Let_def split: prod.splits)

lemma append_piece_inv [packing_facts]:
  assumes "pack_inv n start st" and "fits n piece" and "ink piece \<noteq> []"
  shows "pack_inv n start (append_piece n sep piece st)"
proof -
  obtain chunks idx current where st: "st = (chunks, idx, current)" by (cases st)
  let ?cand = "if current \<noteq> [] then current @ sep @ piece else piece"
  show ?thesis
  proof (cases "n < length ?cand \<and> trim current \<noteq> []")
    case True
    with assms st show ?thesis
      by (auto simp: append_piece_def pack_inv_def Let_def trim_Nil_iff fits_trim)
  next
    case False
    have "fits n ?cand"
    proof (cases "length ?cand \<le> n")
      case False
      with \<open>\<not> (n < length ?cand \<and> trim current \<noteq> [])\<close> have "ink current = []" by (simp add: trim_Nil_iff)
      then have "current = []" using assms(1) st by (auto simp: pack_inv_def)
      then show ?thesis using assms(2) by simp
    qed (simp add: fits_def)
    with False assms st show ?thesis by (auto simp: append_piece_def pack_inv_def Let_def)
  qed
qed

lemma line_loop:
  assumes "\<And>l. l \<in> set ls \<Longrightarrow> NL \<notin> set l" and "pack_inv n start st"
  shows "pack_inv n start (fold (\<lambda>line st. if trim line = [] then st else append_piece n [NL] line st) ls st) \<and>
    pack_ink (fold (\<lambda>line st. if trim line = [] then st else append_piece n [NL] line st) ls st) =
       pack_ink st @ concat (map ink ls)"
  using assms
proof (induction ls arbitrary: st)
  case (Cons l ls)
  let ?st = "if trim l = [] then st else append_piece n [NL] l st"
  have inv: "pack_inv n start ?st"
    using Cons.prems by (auto simp: trim_Nil_iff fits_def intro!: append_piece_inv)
  have "pack_ink ?st = pack_ink st @ ink l" by (simp add: trim_Nil_iff append_piece_ink)
  with Cons.IH[OF _ inv] Cons.prems(1) show ?case by simp
qed simp

lemma paragraph_step_facts [packing_facts]:
  assumes "pack_inv n start st"
  shows "pack_inv n start (paragraph_step n para st)" "pack_ink (paragraph_step n para st) = pack_ink st @ ink para"
proof -
  have f: "pack_inv n start (flush st)" by (rule flush_facts(2)[OF assms])
  note loop = line_loop[of "split_at_char NL para", OF split_no_sep f]
  show "pack_inv n start (paragraph_step n para st)"
    using loop append_piece_inv[OF assms, of para "[NL, NL]"]
    by (auto simp: paragraph_step_def assms trim_Nil_iff fits_def)
  show "pack_ink (paragraph_step n para st) = pack_ink st @ ink para"
    using loop by (auto simp: paragraph_step_def trim_Nil_iff append_piece_ink flush_facts ink_split)
qed

lemma ink_newlines: "ink (dropWhile (\<lambda>x. x = NL) s) = ink s"
  by (induction s) auto

lemma ink_paragraphs: "concat (map ink (split_paragraphs cur s)) = ink cur @ ink s"
proof (induction cur s rule: split_paragraphs.induct)
  case (1 cur s)
  show ?case
  proof (cases s)
    case Nil
    then show ?thesis by (simp add: split_paragraphs.simps)
  next
    case (Cons c cs)
    show ?thesis
    proof (cases "c = NL \<and> 2 \<le> length (takeWhile (\<lambda>x. x = NL) s)")
      case True
      then have "c = NL" "Suc 0 \<le> length (takeWhile (\<lambda>x. x = NL) cs)" using Cons by auto
      with 1(1)[OF Cons True] Cons show ?thesis
        by (subst split_paragraphs.simps) (simp add: ink_newlines)
    next
      case False
      then show ?thesis using 1(2)[OF Cons False] Cons
        by (subst split_paragraphs.simps) simp
    qed
  qed
qed

lemma fold_pack:
  assumes "\<And>x st. pack_inv n start st \<Longrightarrow> pack_inv n start (f x st) \<and> pack_ink (f x st) = pack_ink st @ g x"
    and "pack_inv n start st"
  shows "pack_inv n start (fold f xs st) \<and> pack_ink (fold f xs st) = pack_ink st @ concat (map g xs)"
  using assms(2)
proof (induction xs arbitrary: st)
  case (Cons x xs)
  then show ?case using assms(1)[OF Cons.prems, of x] by simp
qed simp

lemma pack_inv_start: "pack_inv n start ([], start, [])"
  by (simp add: pack_inv_def fits_def)

lemma splitLargeTurn_facts:
  "concat (map (\<lambda>c. ink (chunk_text c)) (splitLargeTurn text start n)) = ink text"
  "c \<in> set (splitLargeTurn text start n) \<Longrightarrow> fits n (chunk_text c) \<and> ink (chunk_text c) \<noteq> []"
proof -
  let ?st = "fold (paragraph_step n) (split_paragraphs [] text) ([], start, [])"
  have st: "pack_inv n start ?st" "pack_ink ?st = ink text"
    using fold_pack[of n start "paragraph_step n" ink, OF _ pack_inv_start] paragraph_step_facts
    by (auto simp: ink_paragraphs pack_ink_def[of "([], start, [])"])
  then show "concat (map (\<lambda>c. ink (chunk_text c)) (splitLargeTurn text start n)) = ink text"
    by (simp add: splitLargeTurn_def flush_done)
  from flush_facts(2)[OF st(1)]
  show "c \<in> set (splitLargeTurn text start n) \<Longrightarrow> fits n (chunk_text c) \<and> ink (chunk_text c) \<noteq> []"
    by (auto simp: splitLargeTurn_def pack_inv_def split: prod.splits)
qed

lemma sub_chunk_loop:
  assumes "\<And>c. c \<in> set scs \<Longrightarrow> fits n (chunk_text c) \<and> ink (chunk_text c) \<noteq> []" and "pack_inv n start (chunks, idx, [])"
  shows "\<exists>cs i. fold (\<lambda>sc (chunks, idx, current).
       (chunks @ [\<lparr>chunk_index = idx, chunk_text = chunk_text sc\<rparr>], idx + 1, current)) scs (chunks, idx, [] :: string) = (cs, i, []) \<and>
     pack_inv n start (cs, i, []) \<and>
     pack_ink (cs, i, []) = pack_ink (chunks, idx, []) @ concat (map (\<lambda>c. ink (chunk_text c)) scs)"
  using assms
proof (induction scs arbitrary: chunks idx)
  case (Cons sc scs)
  have "pack_inv n start (chunks @ [\<lparr>chunk_index = idx, chunk_text = chunk_text sc\<rparr>], idx + 1, [])"
    using Cons.prems by (auto simp: pack_inv_def)
  from Cons.IH[OF _ this] Cons.prems(1) show ?case by (auto simp: pack_ink_def)
qed (simp add: pack_ink_def)

lemma turn_step_facts:
  assumes "pack_inv n start st"
  shows "pack_inv n start (turn_step n turn st) \<and> pack_ink (turn_step n turn st) = pack_ink st @ ink turn"
proof -
  let ?t = "trim turn"
  consider "?t = []" | "?t \<noteq> []" "n < length ?t" | "?t \<noteq> []" "length ?t \<le> n" by linarith
  then show ?thesis
  proof cases
    case 1
    then show ?thesis using assms by (simp add: turn_step_def trim_Nil_iff)
  next
    case 2
    obtain chunks idx current where f: "flush st = (chunks, idx, current)" by (cases "flush st")
    have "pack_inv n start (chunks, idx, current)" using flush_facts(2)[OF assms] f by simp
    moreover have "current = []"
      using assms f by (auto simp: flush_def pack_inv_def trim_Nil_iff split: prod.splits if_splits)
    ultimately have inv: "pack_inv n start (chunks, idx, [])" by simp
    have "\<And>c. c \<in> set (splitLargeTurn ?t idx n) \<Longrightarrow> fits n (chunk_text c) \<and> ink (chunk_text c) \<noteq> []"
      by (rule splitLargeTurn_facts(2))
    then have "\<exists>cs i. fold (\<lambda>sc (chunks, idx, current).
        (chunks @ [\<lparr>chunk_index = idx, chunk_text = chunk_text sc\<rparr>], idx + 1, current)) (splitLargeTurn ?t idx n) (chunks, idx, [] :: string) = (cs, i, []) \<and>
      pack_inv n start (cs, i, []) \<and>
      pack_ink (cs, i, []) = pack_ink (chunks, idx, []) @ concat (map (\<lambda>c. ink (chunk_text c)) (splitLargeTurn ?t idx n))"
      using inv by (rule sub_chunk_loop)
    moreover have "pack_ink (chunks, idx, []) = pack_ink st"
      using flush_facts(1)[of st] f \<open>current = []\<close> by simp
    ultimately show ?thesis
      using 2 f \<open>current = []\<close> splitLargeTurn_facts(1)[of ?t idx n] by (auto simp: turn_step_def)
  next
    case 3
    then show ?thesis
      using append_piece_inv[OF assms, of ?t "[NL, NL]"] append_piece_ink[of "[NL, NL]" n ?t st]
      by (auto simp: turn_step_def trim_Nil_iff fits_def)
  qed
qed

lemma turn_loop_ink:
  "concat (map ink (turn_loop boundary turns current lines)) =
     concat (map ink turns) @ concat (map ink current) @ concat (map ink lines)"
proof (induction boundary turns current lines rule: turn_loop.induct)
  case (1 boundary turns current)
  have "ink (join_with [NL] current) = concat (map ink current)" by (rule ink_join) simp
  then show ?case by (auto simp: trim_Nil_iff)
next
  case (2 boundary turns current line lines)
  have "ink (join_with [NL] current) = concat (map ink current)" by (rule ink_join) simp
  with 2 show ?case by auto
qed

lemma splitIntoTurns_ink: "concat (map ink (splitIntoTurns text)) = ink text"
  by (simp add: splitIntoTurns_def Let_def turn_loop_ink ink_split)


text \<open>
  Chunking loses nothing. The chunks are numbered from 0 without a gap, the non-blank
  characters of the chunks, in order, are exactly those of the transcript, a chunk longer than the
  limit is a single line, and only a blank transcript gives a blank chunk.
\<close>

lemma chunk_keeps_the_text:
  "map chunk_index (chunk_of t n) = [0..<length (chunk_of t n)] \<and>
   concat (map (\<lambda>c. ink (chunk_text c)) (chunk_of t n)) = ink t \<and>
   list_all (\<lambda>c. fits n (chunk_text c)) (chunk_of t n) \<and>
   (if ink t = [] then map chunk_text (chunk_of t n) = [[]] else list_all (\<lambda>c. ink (chunk_text c) \<noteq> []) (chunk_of t n))"
proof -
  let ?st = "fold (turn_step n) (splitIntoTurns t) ([], 0, [])"
  let ?cs = "fst (flush ?st)"
  have st: "pack_inv n 0 ?st" "pack_ink ?st = ink t"
    using fold_pack[of n 0 "turn_step n" ink, OF turn_step_facts pack_inv_start]
    by (auto simp: splitIntoTurns_ink pack_ink_def[of "([], 0, [])"])
  have inked: "concat (map (\<lambda>c. ink (chunk_text c)) ?cs) = ink t" using st(2) by (simp add: flush_done)
  obtain cs i cur where f: "flush ?st = (cs, i, cur)" by (cases "flush ?st")
  have inv: "map chunk_index ?cs = [0..<i]" "\<forall>c \<in> set ?cs. fits n (chunk_text c) \<and> ink (chunk_text c) \<noteq> []"
    using flush_facts(2)[OF st(1)] f by (auto simp: pack_inv_def)
  from inv(1) have len: "length ?cs = i" by (metis length_map length_upt minus_nat.diff_0)
  have empty: "?cs = [] \<longleftrightarrow> ink t = []"
    using inked inv(2) by (cases ?cs) auto
  show ?thesis
  proof (cases "?cs = []")
    case True
    then show ?thesis using empty by (simp add: chunk_of_def packTurns_def fits_def)
  next
    case False
    then have c: "chunk_of t n = ?cs" by (simp add: chunk_of_def packTurns_def Let_def)
    show ?thesis unfolding c using False empty inv inked len by (auto simp: list_all_iff)
  qed
qed

section \<open>The normal form of a cleaned transcript\<close>

lemma trim_ends: "trim s \<noteq> [] \<Longrightarrow> \<not> js_ws (hd (trim s)) \<and> \<not> js_ws (last (trim s))"
proof -
  assume n: "trim s \<noteq> []"
  have "\<not> js_ws (last (trim s))"
    using n hd_dropWhile[of js_ws "rev (trimStart s)"] by (auto simp: trim_def trimEnd_def last_rev)
  moreover have "hd (trim s) = hd (trimStart s)" "trimStart s \<noteq> []"
    using n trimEnd_prefix[of "trimStart s"] by (auto simp: trim_def prefix_def) (metis hd_append2)
  ultimately show ?thesis using hd_dropWhile[of js_ws s] by (simp add: trimStart_def)
qed

lemma trim_id: "s = [] \<or> \<not> js_ws (hd s) \<and> \<not> js_ws (last s) \<Longrightarrow> trim s = s"
proof (cases "s = []")
  case False
  assume a: "s = [] \<or> \<not> js_ws (hd s) \<and> \<not> js_ws (last s)"
  with False have "dropWhile js_ws s = s" by (cases s) auto
  moreover have "dropWhile js_ws (rev s) = rev s"
    using a False by (cases s rule: rev_cases) auto
  ultimately show ?thesis by (simp add: trim_def trimStart_def trimEnd_def)
qed (simp add: trim_def trimStart_def trimEnd_def)

lemma trim_trim: "trim (trim s) = trim s"
  using trim_ends trim_id by blast

lemma split_join: "ls \<noteq> [] \<Longrightarrow> (\<And>l. l \<in> set ls \<Longrightarrow> sep \<notin> set l) \<Longrightarrow> split_at_char sep (join_with [sep] ls) = ls"
proof (induction ls)
  case (Cons l ls)
  have single: "sep \<notin> set l \<Longrightarrow> split_at_char sep l = [l]" for l by (induction l) auto
  have app: "sep \<notin> set l \<Longrightarrow> split_at_char sep (l @ sep # t) = l # split_at_char sep t" for l t
    by (induction l) auto
  from Cons show ?case by (cases "ls = []") (auto simp: join_Cons single app)
qed simp

lemma dedup_unfold:
  "dedup_lines [] = []"
  "trim l = [] \<Longrightarrow> dedup_lines (l # rest) = l # dedup_lines rest"
  "trim l \<noteq> [] \<Longrightarrow> k = length (takeWhile (\<lambda>x. x = l) rest) \<Longrightarrow>
     dedup_lines (l # rest) = (if 3 \<le> Suc k then [l] else replicate (Suc k) l) @ dedup_lines (drop k rest)"
  by (subst dedup_lines.simps, simp add: Let_def REPEAT_THRESHOLD_def)+

lemma set_dedup_lines: "set (dedup_lines ls) = set ls"
proof (induction ls rule: length_induct)
  case (1 ls)
  show ?case
  proof (cases ls)
    case (Cons l rest)
    let ?run = "takeWhile (\<lambda>x. x = l) rest"
    show ?thesis
    proof (cases "trim l = []")
      case True
      then show ?thesis using 1 Cons by (simp add: dedup_unfold)
    next
      case False
      have "set rest = set ?run \<union> set (drop (length ?run) rest)"
        by (metis set_append takeWhile_eq_take append_take_drop_id)
      moreover have "set ?run \<subseteq> {l}" by (auto dest: set_takeWhileD)
      moreover have "set (dedup_lines (drop (length ?run) rest)) = set (drop (length ?run) rest)"
        using 1 Cons by simp
      ultimately show ?thesis using False Cons dedup_unfold(3)[OF False refl, of rest] by auto
    qed
  qed (simp add: dedup_unfold)
qed

lemma collapse_unfold:
  "collapseBlankLines [] = []"
  "c \<noteq> NL \<Longrightarrow> collapseBlankLines (c # s) = c # collapseBlankLines s"
  by (simp_all add: collapseBlankLines.simps)

lemma run_split:
  assumes "rest = [] \<or> hd rest \<noteq> NL"
  shows "takeWhile (\<lambda>x. x = NL) (replicate k NL @ rest) = replicate k NL"
proof -
  have "takeWhile (\<lambda>x. x = NL) rest = []" using assms by (cases rest) auto
  then show ?thesis by (induction k) auto
qed

lemma collapse_run:
  assumes "rest = [] \<or> hd rest \<noteq> NL"
  shows "collapseBlankLines (NL # replicate k NL @ rest) = NL # replicate (min 1 k) NL @ collapseBlankLines rest"
proof -
  have "collapseBlankLines (NL # replicate k NL @ rest) =
      (if 3 \<le> Suc k then [NL, NL] else replicate (Suc k) NL) @ collapseBlankLines rest"
    by (subst collapseBlankLines.simps) (simp add: Let_def run_split[OF assms])
  also have "\<dots> = NL # replicate (min 1 k) NL @ collapseBlankLines rest"
  proof (cases "k < 2")
    case True
    then have "k = 0 \<or> k = 1" by linarith
    then show ?thesis by auto
  next
    case False
    then show ?thesis by simp
  qed
  finally show ?thesis .
qed

lemma collapse_induct:
  assumes "P []" and "\<And>c s. c \<noteq> NL \<Longrightarrow> P s \<Longrightarrow> P (c # s)"
    and "\<And>k rest. P rest \<Longrightarrow> rest = [] \<or> hd rest \<noteq> NL \<Longrightarrow> P (NL # replicate k NL @ rest)"
  shows "P s"
proof (induction s rule: length_induct)
  case (1 s)
  show ?case
  proof (cases s)
    case (Cons c t)
    show ?thesis
    proof (cases "c = NL")
      case True
      let ?run = "takeWhile (\<lambda>x. x = NL) t" and ?rest = "dropWhile (\<lambda>x. x = NL) t"
      have "?run = replicate (length ?run) NL"
        by (rule replicate_length_same[symmetric]) (auto dest: set_takeWhileD)
      then have t: "t = replicate (length ?run) NL @ ?rest" by (metis takeWhile_dropWhile_id)
      have "length ?rest < length s" using Cons by (simp add: length_dropWhile_le le_imp_less_Suc)
      then have "P ?rest" using 1 by blast
      moreover have "?rest = [] \<or> hd ?rest \<noteq> NL" using hd_dropWhile[of "\<lambda>x. x = NL" t] by auto
      ultimately have "P (NL # replicate (length ?run) NL @ ?rest)" by (rule assms(3))
      then show ?thesis using t Cons True by metis
    qed (use Cons 1 assms(2) in auto)
  qed (use assms(1) in simp)
qed

abbreviation tidy :: "string \<Rightarrow> bool" where
  "tidy \<equiv> successively (\<lambda>c d. js_ws c \<and> d = NL \<longrightarrow> c = NL)"

lemma tidy_run: "tidy (NL # replicate k NL @ s) \<longleftrightarrow> tidy s"
  by (induction k; cases s) (simp_all add: successively_Cons)

lemma collapse_facts:
  "(collapseBlankLines s = [] \<longleftrightarrow> s = []) \<and> (s \<noteq> [] \<longrightarrow> hd (collapseBlankLines s) = hd s) \<and>
   set (collapseBlankLines s) = set s \<and> ink (collapseBlankLines s) = ink s \<and>
   \<not> sublist [NL, NL, NL] (collapseBlankLines s) \<and> (tidy s \<longrightarrow> tidy (collapseBlankLines s))"
proof (induction s rule: collapse_induct)
  case (2 c s)
  then show ?case by (auto simp: collapse_unfold successively_Cons sublist_Cons_right)
next
  case (3 k rest)
  let ?x = "collapseBlankLines rest"
  have h: "?x = [] \<or> hd ?x \<noteq> NL" using 3 by auto
  have "\<not> sublist [NL, NL, NL] (NL # replicate (min 1 k) NL @ ?x)"
  proof (cases k)
    case 0
    then show ?thesis using 3(1) h by (cases ?x) (auto simp: sublist_Cons_right)
  next
    case (Suc j)
    then show ?thesis using 3(1) h by (cases ?x) (auto simp: sublist_Cons_right)
  qed
  moreover have "ink (replicate j NL) = []" for j by (induction j) auto
  ultimately show ?case using 3(1) unfolding collapse_run[OF 3(2)] tidy_run by auto
qed (simp add: collapse_unfold)

lemma tidy_sublist: "tidy s \<Longrightarrow> sublist t s \<Longrightarrow> tidy t"
  by (auto simp: sublist_def successively_append_iff)

lemma tidy_no_NL: "NL \<notin> set l \<Longrightarrow> tidy l"
  by (induction l rule: induct_list012) auto

lemma tidy_join:
  "(\<And>l. l \<in> set ls \<Longrightarrow> NL \<notin> set l \<and> (l = [] \<or> \<not> js_ws (last l))) \<Longrightarrow> tidy (join_with [NL] ls)"
proof (induction ls)
  case (Cons l ls)
  then have l: "NL \<notin> set l" "l = [] \<or> \<not> js_ws (last l)" by auto
  show ?case
  proof (cases "ls = []")
    case False
    have "tidy (NL # join_with [NL] ls)" using Cons by (simp add: successively_Cons)
    with l show ?thesis using False by (auto simp: join_Cons successively_append_iff tidy_no_NL)
  qed (use l in \<open>simp add: tidy_no_NL\<close>)
qed simp

lemma set_join: "set (join_with sep ls) \<subseteq> set sep \<union> (\<Union>l \<in> set ls. set l)"
  by (induction sep ls rule: join_with.induct) auto

lemma set_in_join: "l \<in> set ls \<Longrightarrow> set l \<subseteq> set (join_with sep ls)"
  by (induction sep ls rule: join_with.induct) auto

lemma trimEnd_last: "trimEnd l = [] \<or> \<not> js_ws (last (trimEnd l))"
  using hd_dropWhile[of js_ws "rev l"] by (auto simp: trimEnd_def last_rev)

lemma dedup_Nil [simp]: "dedup_lines ls = [] \<longleftrightarrow> ls = []"
  using set_dedup_lines[of ls] by (metis set_empty)

definition clean_lines :: "string \<Rightarrow> string list" where
  "clean_lines t = map trimEnd (split_at_char NL (replace_cr (replace_crlf t)))"

lemma clean_lines_ok:
  assumes "l \<in> set (clean_lines t)"
  shows "NL \<notin> set l" "CR \<notin> set l" "l = [] \<or> \<not> js_ws (last l)"
proof -
  obtain m where m: "m \<in> set (split_at_char NL (replace_cr (replace_crlf t)))" "l = trimEnd m"
    using assms by (auto simp: clean_lines_def)
  have sub: "set l \<subseteq> set m" using m(2) set_mono_prefix[OF trimEnd_prefix[of m]] by simp
  show "NL \<notin> set l" using split_no_sep[OF m(1)] sub by blast
  have "set m \<subseteq> set (replace_cr (replace_crlf t))"
    using set_in_join[OF m(1), of "[NL]"] by (simp add: join_split)
  moreover have "CR \<notin> set (replace_cr s)" for s by (auto simp: replace_cr_def)
  ultimately show "CR \<notin> set l" using sub by blast
  show "l = [] \<or> \<not> js_ws (last l)" using trimEnd_last m(2) by simp
qed

lemma cleanup_eq: "cleanup t = trim (collapseBlankLines (join_with [NL] (dedup_lines (clean_lines t))))"
proof -
  have "split_at_char NL (join_with [NL] (clean_lines t)) = clean_lines t"
    by (rule split_join) (auto simp: clean_lines_ok, simp add: clean_lines_def)
  then show ?thesis
    by (simp add: cleanup_def Let_def deduplicateRepeatedLines_def clean_lines_def[symmetric])
qed

text \<open>Whitespace other than a newline never precedes a newline.\<close>

definition no_trailing_ws :: "string \<Rightarrow> bool" where
  "no_trailing_ws s \<longleftrightarrow> tidy s"

text \<open>
  A cleaned transcript is in normal form: no carriage return, no line with trailing whitespace,
  no two blank lines in a row, nothing to trim. Only repeats are lost: its non-blank characters are
  those of the lines that survive the removal of repeated lines, and every line of the input is
  among the survivors.
\<close>

lemma cleanup_normal_form:
  "CR \<notin> set (cleanup t) \<and> no_trailing_ws (cleanup t) \<and> \<not> sublist [NL, NL, NL] (cleanup t) \<and> trim (cleanup t) = cleanup t \<and>
   ink (cleanup t) = concat (map ink (dedup_lines (clean_lines t))) \<and>
   set (dedup_lines (clean_lines t)) = set (clean_lines t)"
proof -
  let ?j = "join_with [NL] (dedup_lines (clean_lines t))"
  let ?c = "collapseBlankLines ?j"
  have lines: "\<And>l. l \<in> set (dedup_lines (clean_lines t)) \<Longrightarrow> l \<in> set (clean_lines t)"
    by (simp add: set_dedup_lines)
  have "tidy ?j" by (rule tidy_join) (use lines clean_lines_ok in blast)
  then have c: "tidy ?c" "\<not> sublist [NL, NL, NL] ?c" "set ?c = set ?j" "ink ?c = ink ?j" using collapse_facts by blast+
  have sub: "sublist (cleanup t) ?c" by (simp add: cleanup_eq trim_sublist)
  have "CR \<notin> set ?j"
    using set_join[of "[NL]" "dedup_lines (clean_lines t)"] lines clean_lines_ok(2) by fastforce
  then have "CR \<notin> set (cleanup t)" using set_mono_sublist[OF sub] c(3) by blast
  moreover have "tidy (cleanup t)" by (rule tidy_sublist[OF c(1) sub])
  moreover have "\<not> sublist [NL, NL, NL] (cleanup t)" using c(2) sub sublist_order.order_trans by blast
  moreover have "ink (cleanup t) = concat (map ink (dedup_lines (clean_lines t)))"
    using ink_join[of "[NL]"] c(4) by (simp add: cleanup_eq)
  ultimately show ?thesis by (simp add: cleanup_eq trim_trim set_dedup_lines no_trailing_ws_def)
qed

end
