(* ===== verification/Distill_Atoms.thy ===== *)
theory Distill_Atoms
  imports Distill_Text "HOL-Library.Multiset"
begin

text \<open>
  What happens to the extracted atoms before they are stored: the merge of the two extraction
  passes (\<open>src/src/distill/dedup-merge.ts\<close>), the reduction across chunks
  (\<open>distill/stages/06-reduce.ts\<close>) and the verification of an evidence quote
  (\<open>distill/evidence-verify.ts\<close>). SHA-256 is a parameter; characters are those of Latin-1.
\<close>

section \<open>Merging two extraction passes\<close>

text \<open>Letters and numbers of the Latin-1 range (\<open>\p{L}\<close>, \<open>\p{N}\<close>), and its lower case.\<close>

definition letter_or_number :: "char \<Rightarrow> bool" where
  "letter_or_number c \<longleftrightarrow>
     (let n = of_char c :: nat
      in 48 \<le> n \<and> n \<le> 57 \<or> 65 \<le> n \<and> n \<le> 90 \<or> 97 \<le> n \<and> n \<le> 122 \<or>
         n \<in> {170, 178, 179, 181, 185, 186, 188, 189, 190} \<or> 192 \<le> n \<and> n \<noteq> 215 \<and> n \<noteq> 247)"

definition latin_lower :: "string \<Rightarrow> string" where
  "latin_lower s =
     map (\<lambda>c. let n = of_char c :: nat
              in if 65 \<le> n \<and> n \<le> 90 \<or> 192 \<le> n \<and> n \<le> 222 \<and> n \<noteq> 215 then char_of (n + 32) else c) s"

definition normalizeAtomText :: "string \<Rightarrow> string" where
  "normalizeAtomText t = filter letter_or_number (latin_lower t)"

text \<open>\<open>'a\<close> is the atom, \<open>tx\<close> its text; a kept entry is an atom with its normalised text.\<close>

definition overlaps :: "string \<Rightarrow> string \<Rightarrow> bool" where
  "overlaps existing nt \<longleftrightarrow> existing \<noteq> [] \<and> (js_includes existing nt \<or> js_includes nt existing)"

text \<open>The scan: the first kept entry that equals or overlaps the new text, with which of the two.\<close>

datatype match = Exact nat | Overlap nat | No_Match

fun find_match :: "nat \<Rightarrow> string \<Rightarrow> ('a \<times> string) list \<Rightarrow> match" where
  "find_match i nt [] = No_Match"
| "find_match i nt (e # es) =
     (if snd e = nt then Exact i
      else if overlaps (snd e) nt then Overlap i
      else find_match (i + 1) nt es)"

definition merge_step :: "('a \<Rightarrow> string) \<Rightarrow> 'a \<Rightarrow> ('a \<times> string) list \<times> nat \<Rightarrow> ('a \<times> string) list \<times> nat" where
  "merge_step tx atom st =
     (let (kept, dedupedAway) = st; nt = normalizeAtomText (tx atom)
      in if nt = [] then (kept @ [(atom, nt)], dedupedAway)
         else case find_match 0 nt kept of
                Exact i \<Rightarrow> (kept, dedupedAway + 1)
              | Overlap i \<Rightarrow>
                  (if length (snd (kept ! i)) < length nt then kept[i := (atom, nt)] else kept, dedupedAway + 1)
              | No_Match \<Rightarrow> (kept @ [(atom, nt)], dedupedAway))"

definition mergeDualPassAtoms :: "('a \<Rightarrow> string) \<Rightarrow> 'a list \<Rightarrow> 'a list \<Rightarrow> 'a list \<times> nat" where
  "mergeDualPassAtoms tx passA passB =
     (let (kept, dedupedAway) = fold (merge_step tx) (passA @ passB) ([], 0)
      in (map fst kept, dedupedAway))"

text \<open>
  What the kept list satisfies: texts normalised, no text twice, and no entry contained in a later
  one; \<open>seen\<close> are the atoms already merged.
\<close>

definition kept_inv :: "('a \<Rightarrow> string) \<Rightarrow> 'a list \<Rightarrow> ('a \<times> string) list \<Rightarrow> nat \<Rightarrow> bool" where
  "kept_inv tx seen kept n \<longleftrightarrow>
     length kept + n = length seen \<and>
     (\<forall>e \<in> set kept. fst e \<in> set seen \<and> snd e = normalizeAtomText (tx (fst e))) \<and>
     (\<forall>i j. i < j \<longrightarrow> j < length kept \<longrightarrow> snd (kept ! i) \<noteq> [] \<longrightarrow> snd (kept ! j) \<noteq> [] \<longrightarrow>
        \<not> sublist (snd (kept ! i)) (snd (kept ! j))) \<and>
     (\<forall>a \<in> set seen. \<exists>e \<in> set kept. sublist (normalizeAtomText (tx a)) (snd e))"

lemma find_match_Exact: "find_match k nt es = Exact i \<Longrightarrow> \<exists>j < length es. i = k + j \<and> snd (es ! j) = nt"
proof (induction k nt es rule: find_match.induct)
  case (2 k nt e es)
  then show ?case by (auto split: if_splits)
qed simp

lemma find_match_Overlap:
  "find_match k nt es = Overlap i \<Longrightarrow>
   \<exists>j < length es. i = k + j \<and> overlaps (snd (es ! j)) nt \<and> snd (es ! j) \<noteq> nt \<and>
     (\<forall>l < j. snd (es ! l) \<noteq> nt \<and> \<not> overlaps (snd (es ! l)) nt)"
proof (induction k nt es rule: find_match.induct)
  case (2 k nt e es)
  show ?case
  proof (cases "snd e = nt \<or> overlaps (snd e) nt")
    case True
    with 2(2) show ?thesis by (intro exI[of _ 0]) (auto split: if_splits)
  next
    case False
    with 2 obtain j where j: "j < length es" "i = k + 1 + j" "overlaps (snd (es ! j)) nt" "snd (es ! j) \<noteq> nt"
      "\<forall>l < j. snd (es ! l) \<noteq> nt \<and> \<not> overlaps (snd (es ! l)) nt" by auto
    have "\<forall>l < Suc j. snd ((e # es) ! l) \<noteq> nt \<and> \<not> overlaps (snd ((e # es) ! l)) nt"
      using j(5) False by (auto simp: less_Suc_eq_0_disj)
    with j show ?thesis by (intro exI[of _ "Suc j"]) auto
  qed
qed simp

lemma find_match_None: "find_match k nt es = No_Match \<Longrightarrow> e \<in> set es \<Longrightarrow> snd e \<noteq> nt \<and> \<not> overlaps (snd e) nt"
  by (induction k nt es rule: find_match.induct) (auto split: if_splits)

lemma sublist_longer:
  assumes "sublist xs ys" "\<not> length xs < length ys"
  shows "sublist ys xs"
proof -
  obtain ps ss where ys: "ys = ps @ xs @ ss" using assms(1) by (auto simp: sublist_def)
  then have "ps = []" "ss = []" using assms(2) by auto
  then show ?thesis using ys by simp
qed

lemma kept_inv_chain:
  "kept_inv tx seen kept n \<Longrightarrow> i < j \<Longrightarrow> j < length kept \<Longrightarrow> snd (kept ! i) \<noteq> [] \<Longrightarrow> snd (kept ! j) \<noteq> [] \<Longrightarrow>
   \<not> sublist (snd (kept ! i)) (snd (kept ! j))"
  unfolding kept_inv_def by blast

lemma kept_inv_step:
  assumes inv: "kept_inv tx seen kept n"
  shows "case merge_step tx a (kept, n) of (kept', n') \<Rightarrow> kept_inv tx (seen @ [a]) kept' n'"
proof -
  let ?nt = "normalizeAtomText (tx a)"
  show ?thesis
  proof (cases "?nt = []")
    case True
    with inv show ?thesis
      by (auto simp: merge_step_def kept_inv_def nth_append less_Suc_eq)
  next
    case False
    show ?thesis
    proof (cases "find_match 0 ?nt kept")
      case (Exact i)
      from find_match_Exact[OF this] obtain j where "j < length kept" "snd (kept ! j) = ?nt" by auto
      then have "\<exists>e \<in> set kept. sublist ?nt (snd e)" by (metis nth_mem sublist_order.order_refl)
      with Exact False inv show ?thesis by (auto simp: merge_step_def kept_inv_def)
    next
      case No_Match
      note no = find_match_None[OF this]
      have "\<not> sublist (snd (kept ! i)) ?nt" if "i < length kept" "snd (kept ! i) \<noteq> []" for i
        using no[of "kept ! i"] that by (auto simp: overlaps_def js_includes_def)
      with No_Match False inv show ?thesis
        by (auto simp: merge_step_def kept_inv_def nth_append less_Suc_eq)
    next
      case (Overlap i)
      from find_match_Overlap[OF this] have i: "i < length kept" "overlaps (snd (kept ! i)) ?nt" "snd (kept ! i) \<noteq> ?nt"
        and before: "\<And>l. l < i \<Longrightarrow> \<not> overlaps (snd (kept ! l)) ?nt" by auto
      show ?thesis
      proof (cases "length (snd (kept ! i)) < length ?nt")
        case True
        then have sub: "sublist (snd (kept ! i)) ?nt"
          using i(2) sublist_length_le by (fastforce simp: overlaps_def js_includes_def)
        let ?kept = "kept[i := (a, ?nt)]"
        have chain: "\<not> sublist (snd (?kept ! p)) (snd (?kept ! q))"
          if "p < q" "q < length kept" "snd (?kept ! p) \<noteq> []" "snd (?kept ! q) \<noteq> []" for p q
        proof -
          consider "p = i" | "q = i" | "p \<noteq> i" "q \<noteq> i" by blast
          then show ?thesis
          proof cases
            case 1
            then have "\<not> sublist (snd (kept ! i)) (snd (kept ! q))"
              using inv that i(2) by (auto simp: kept_inv_def overlaps_def)
            then have "\<not> sublist ?nt (snd (kept ! q))" using sub sublist_order.order_trans by blast
            then show ?thesis using 1 that i(1) by simp
          next
            case 2
            then show ?thesis using before[of p] that by (auto simp: overlaps_def js_includes_def)
          next
            case 3
            then show ?thesis using inv that by (auto simp: kept_inv_def)
          qed
        qed
        have cover: "\<exists>e \<in> set ?kept. sublist (normalizeAtomText (tx b)) (snd e)" if b: "b \<in> set (seen @ [a])" for b
        proof -
          have new: "(a, ?nt) \<in> set ?kept" using i(1) by (rule set_update_memI)
          show ?thesis
          proof (cases "b = a")
            case True
            then show ?thesis using new by (metis snd_conv sublist_order.order_refl)
          next
            case False
            then have "b \<in> set seen" using b by simp
            then obtain e where e: "e \<in> set kept" "sublist (normalizeAtomText (tx b)) (snd e)"
              using inv unfolding kept_inv_def by blast
            then obtain l where l: "l < length kept" "kept ! l = e" by (auto simp: in_set_conv_nth)
            show ?thesis
            proof (cases "l = i")
              case True
              then have "sublist (normalizeAtomText (tx b)) ?nt" using e l sub sublist_order.order_trans by blast
              then show ?thesis using new by (metis snd_conv)
            next
              case False
              then have "?kept ! l = e" using l by simp
              then have "e \<in> set ?kept" using l by (metis length_list_update nth_mem)
              then show ?thesis using e(2) by blast
            qed
          qed
        qed
        have entries: "\<forall>e \<in> set ?kept. fst e \<in> set (seen @ [a]) \<and> snd e = normalizeAtomText (tx (fst e))"
          using inv set_update_subset_insert[of kept i "(a, ?nt)"] by (auto simp: kept_inv_def)
        have "merge_step tx a (kept, n) = (?kept, n + 1)"
          using Overlap True False by (simp add: merge_step_def)
        then show ?thesis using inv chain cover entries by (auto simp: kept_inv_def)
      next
        case longer: False
        then have "sublist ?nt (snd (kept ! i))"
          using i(2) sublist_longer[of "snd (kept ! i)" ?nt] by (auto simp: overlaps_def js_includes_def)
        then have "\<exists>e \<in> set kept. sublist ?nt (snd e)" using i(1) nth_mem by blast
        with longer Overlap False inv show ?thesis by (auto simp: merge_step_def kept_inv_def)
      qed
    qed
  qed
qed


lemma kept_inv_empty: "kept_inv tx [] [] 0"
  by (simp add: kept_inv_def)

interpretation merge_scan: prefix_scan "\<lambda>seen st. kept_inv tx seen (fst st) (snd st)" "merge_step tx" for tx
proof unfold_locales
  fix seen st and x :: 'a
  assume "kept_inv tx seen (fst st) (snd st)"
  from kept_inv_step[OF this, of x]
  show "kept_inv tx (seen @ [x]) (fst (merge_step tx x st)) (snd (merge_step tx x st))" by (simp add: case_prod_beta)
qed

text \<open>
  Merging the two passes loses no statement and keeps none twice. Every atom of either pass has
  its normalised text inside that of a merged atom, the merged atoms are atoms of the passes with
  pairwise different normalised texts, none of which is contained in a later one, and the number of
  duplicates is exactly what is missing.
\<close>

lemma merge_loses_nothing:
  fixes tx :: "'a \<Rightarrow> string"
  defines "nt \<equiv> \<lambda>a. normalizeAtomText (tx a)"
  shows "case mergeDualPassAtoms tx passA passB of (merged, dedupedAway) \<Rightarrow>
    set merged \<subseteq> set passA \<union> set passB \<and> length merged + dedupedAway = length passA + length passB \<and>
    list_all (\<lambda>a. list_ex (\<lambda>b. sublist (nt a) (nt b)) merged) (passA @ passB) \<and>
    distinct (filter (\<lambda>t. t \<noteq> []) (map nt merged)) \<and>
    sorted_wrt (\<lambda>t u. \<not> sublist t u) (filter (\<lambda>t. t \<noteq> []) (map nt merged))"
proof -
  obtain kept n where st: "fold (merge_step tx) (passA @ passB) ([], 0) = (kept, n)" by fastforce
  have inv: "kept_inv tx (passA @ passB) kept n"
    using merge_scan.scan[of tx "([], 0)" "passA @ passB"] kept_inv_empty[of tx] unfolding st by simp
  have entry: "\<forall>e \<in> set kept. snd e = nt (fst e)" using inv unfolding kept_inv_def nt_def by blast
  then have texts: "map nt (map fst kept) = map snd kept" by simp
  have "sorted_wrt (\<lambda>t u. t \<noteq> [] \<longrightarrow> u \<noteq> [] \<longrightarrow> \<not> sublist t u) (map snd kept)"
    using kept_inv_chain[OF inv] by (simp add: sorted_wrt_iff_nth_less)
  then have "sorted_wrt (\<lambda>t u. t \<noteq> [] \<longrightarrow> u \<noteq> [] \<longrightarrow> \<not> sublist t u) (filter (\<lambda>t. t \<noteq> []) (map snd kept))"
    by (rule sorted_wrt_filter)
  then have sorted: "sorted_wrt (\<lambda>t u. \<not> sublist t u) (filter (\<lambda>t. t \<noteq> []) (map snd kept))"
    by (rule sorted_wrt_mono_rel[rotated]) auto
  have dist: "distinct ts" if "sorted_wrt (\<lambda>t u. \<not> sublist t u) ts" for ts :: "string list"
    using that by (induction ts) auto
  have "\<exists>b \<in> set (map fst kept). sublist (nt a) (nt b)" if a: "a \<in> set (passA @ passB)" for a
  proof -
    obtain e where "e \<in> set kept" "sublist (nt a) (snd e)" using inv a unfolding kept_inv_def nt_def by blast
    then show ?thesis using entry by auto
  qed
  then have cover: "list_all (\<lambda>a. list_ex (\<lambda>b. sublist (nt a) (nt b)) (map fst kept)) (passA @ passB)"
    unfolding list_all_iff list_ex_iff by blast
  have m: "mergeDualPassAtoms tx passA passB = (map fst kept, n)"
    using st by (simp add: mergeDualPassAtoms_def)
  have from_passes: "set (map fst kept) \<subseteq> set passA \<union> set passB" using inv unfolding kept_inv_def by auto
  have count: "length (map fst kept) + n = length passA + length passB" using inv unfolding kept_inv_def by simp
  show ?thesis
    unfolding m prod.case texts using from_passes count cover dist[OF sorted] sorted by blast
qed

text \<open>
  The list can still contain a text inside another: an atom that replaces one it contains is not
  compared with the entries after it.
\<close>

lemma merge_keeps_contained_text:
  "mergeDualPassAtoms id [''likes tea'', ''likes jam''] [''likes tea and likes jam''] =
     ([''likes tea and likes jam'', ''likes jam''], 1)"
  by code_simp

section \<open>Whitespace\<close>

text \<open>\<open>replace(/\s+/g, ' ')\<close>; the flag says that the character before was whitespace.\<close>

fun collapse_ws :: "bool \<Rightarrow> string \<Rightarrow> string" where
  "collapse_ws after_ws [] = []"
| "collapse_ws after_ws (c # cs) =
     (if js_ws c then (if after_ws then collapse_ws True cs else CHR '' '' # collapse_ws True cs)
      else c # collapse_ws False cs)"

lemma ink_collapse_ws: "ink (collapse_ws b s) = ink s"
  by (induction b s rule: collapse_ws.induct) (auto simp: js_ws_def)

lemma collapse_ws_no_NL: "NL \<notin> set (collapse_ws b s)"
  by (induction b s rule: collapse_ws.induct) (auto simp: js_ws_def)

section \<open>Reducing across chunks\<close>

definition contentHash :: "(string \<Rightarrow> string) \<Rightarrow> string \<Rightarrow> string" where
  "contentHash sha256 t = sha256 (collapse_ws False (latin_lower (trim t)))"

text \<open>The atoms by their hash, in the order of the first atom with it.\<close>

definition reduce_step :: "(string \<Rightarrow> string) \<Rightarrow> ('a \<Rightarrow> string) \<Rightarrow> ('a \<Rightarrow> real) \<Rightarrow> 'a \<Rightarrow> (string \<times> 'a) list \<Rightarrow> (string \<times> 'a) list" where
  "reduce_step sha256 tx importance atom byHash =
     (let h = contentHash sha256 (tx atom)
      in case map_of byHash h of
           None \<Rightarrow> obj_set h atom byHash
         | Some existing \<Rightarrow> if importance existing < importance atom then obj_set h atom byHash else byHash)"

definition reduce :: "(string \<Rightarrow> string) \<Rightarrow> ('a \<Rightarrow> string) \<Rightarrow> ('a \<Rightarrow> real) \<Rightarrow> 'a list \<Rightarrow> (string \<times> 'a) list" where
  "reduce sha256 tx importance atoms = fold (reduce_step sha256 tx importance) atoms []"

definition reduced :: "(string \<Rightarrow> string) \<Rightarrow> ('a \<Rightarrow> string) \<Rightarrow> ('a \<Rightarrow> real) \<Rightarrow> 'a list \<Rightarrow> (string \<times> 'a) list \<Rightarrow> bool" where
  "reduced sha256 tx importance atoms m \<longleftrightarrow>
     distinct (map fst m) \<and> fst ` set m = (\<lambda>a. contentHash sha256 (tx a)) ` set atoms \<and>
     (\<forall>h a. map_of m h = Some a \<longrightarrow> a \<in> set atoms \<and> contentHash sha256 (tx a) = h \<and>
        (\<forall>b \<in> set atoms. contentHash sha256 (tx b) = h \<longrightarrow> importance b \<le> importance a))"

lemma reduced_step:
  assumes "reduced sha256 tx importance atoms m"
  shows "reduced sha256 tx importance (atoms @ [x]) (reduce_step sha256 tx importance x m)"
proof -
  let ?h = "contentHash sha256 (tx x)"
  have keys: "fst ` set (obj_set ?h x m) = insert ?h (fst ` set m)"
    using arg_cong[OF obj_set_keys[of ?h x m], of set] by (auto split: if_splits)
  show ?thesis
  proof (cases "map_of m ?h")
    case None
    then have "?h \<notin> (\<lambda>a. contentHash sha256 (tx a)) ` set atoms"
      using assms by (simp add: reduced_def map_of_eq_None_iff)
    then have "contentHash sha256 (tx b) \<noteq> ?h" if "b \<in> set atoms" for b using that by (metis image_eqI)
    with None assms keys show ?thesis
      by (auto simp: reduce_step_def reduced_def obj_set_lookup obj_set_distinct split: if_splits)
  next
    case (Some e)
    then have "?h \<in> fst ` set m" by (metis map_of_SomeD image_eqI fst_conv)
    then have keys': "insert ?h (fst ` set m) = fst ` set m" "?h \<in> (\<lambda>a. contentHash sha256 (tx a)) ` set atoms"
      using assms by (auto simp: reduced_def)
    have e: "e \<in> set atoms" "contentHash sha256 (tx e) = ?h"
      "\<And>b. b \<in> set atoms \<Longrightarrow> contentHash sha256 (tx b) = ?h \<Longrightarrow> importance b \<le> importance e"
      using assms Some by (auto simp: reduced_def)
    show ?thesis
    proof (cases "importance e < importance x")
      case True
      have "map_of (obj_set ?h x m) h = Some a \<Longrightarrow> a \<in> set (atoms @ [x]) \<and> contentHash sha256 (tx a) = h \<and>
          (\<forall>b \<in> set (atoms @ [x]). contentHash sha256 (tx b) = h \<longrightarrow> importance b \<le> importance a)" for h a
        using assms e(3) True by (fastforce simp: reduced_def obj_set_lookup split: if_splits)
      moreover have "distinct (map fst (obj_set ?h x m))" using assms by (simp add: reduced_def obj_set_distinct)
      moreover have "fst ` set (obj_set ?h x m) = (\<lambda>a. contentHash sha256 (tx a)) ` set (atoms @ [x])"
        using keys keys' assms by (simp add: reduced_def insert_absorb)
      ultimately show ?thesis using Some True by (simp add: reduce_step_def reduced_def)
    next
      case False
      have "map_of m h = Some a \<Longrightarrow> contentHash sha256 (tx b) = h \<Longrightarrow> b \<in> set (atoms @ [x]) \<Longrightarrow> importance b \<le> importance a" for h a b
        using assms Some False e(3) by (cases "b = x") (auto simp: reduced_def)
      then show ?thesis using assms Some False keys'(2) by (simp add: reduce_step_def reduced_def insert_absorb)
    qed
  qed
qed

interpretation reduce_scan: prefix_scan "reduced sha256 tx importance" "reduce_step sha256 tx importance"
  for sha256 tx importance
  by unfold_locales (rule reduced_step)

text \<open>
  The reduced atoms have pairwise different hashes, cover the hashes of the input, and each is an
  atom of the input of the greatest importance among those with its hash.
\<close>

lemma reduce_keeps_best: "reduced sha256 tx importance atoms (reduce sha256 tx importance atoms)"
  unfolding reduce_def by (rule reduce_scan.scan) (simp add: reduced_def)

section \<open>Verifying a quote\<close>

definition normalizeWhitespace :: "string \<Rightarrow> string" where
  "normalizeWhitespace s = collapse_ws False (trim s)"

definition FUZZY_TOKEN_OVERLAP_MIN :: real where "FUZZY_TOKEN_OVERLAP_MIN = 9 / 10"

definition tokenize :: "string \<Rightarrow> string list" where
  "tokenize normalized = (if normalized = [] then [] else split_at_char (CHR '' '') normalized)"

definition window_overlap :: "string list \<Rightarrow> string list \<Rightarrow> nat" where
  "window_overlap quote window =
     sum_list (map (\<lambda>tok. min (count_list quote tok) (count_list window tok)) (remdups quote))"

definition fuzzyTokenWindowMatch :: "string list \<Rightarrow> string list \<Rightarrow> bool" where
  "fuzzyTokenWindowMatch quoteTokens transcriptTokens =
     (let n = length quoteTokens
      in if n = 0 \<or> length transcriptTokens < n then False
         else list_ex (\<lambda>start. FUZZY_TOKEN_OVERLAP_MIN \<le>
                real (window_overlap quoteTokens (take n (drop start transcriptTokens))) / real n)
                [0..<length transcriptTokens - n + 1])"

datatype evidence_tier = Tier_Exact | Tier_Fuzzy | Tier_None

definition verifyEvidenceQuoteTier :: "string \<Rightarrow> string \<Rightarrow> evidence_tier" where
  "verifyEvidenceQuoteTier evidence transcriptText =
     (let normQuote = normalizeWhitespace evidence
      in if normQuote = [] then Tier_None
         else let normTranscript = normalizeWhitespace transcriptText
              in if js_includes normTranscript normQuote then Tier_Exact
                 else if fuzzyTokenWindowMatch (tokenize normQuote) (tokenize normTranscript) then Tier_Fuzzy
                 else Tier_None)"

definition verifyEvidenceQuote :: "string \<Rightarrow> string \<Rightarrow> bool" where
  "verifyEvidenceQuote evidence transcriptText \<longleftrightarrow> verifyEvidenceQuoteTier evidence transcriptText \<noteq> Tier_None"

text \<open>The counting loop computes the size of the multiset intersection.\<close>

lemma window_overlap_mset: "window_overlap q w = size (mset q \<inter># mset w)"
proof -
  have "window_overlap q w = (\<Sum>tok \<in> set q. min (count (mset q) tok) (count (mset w) tok))"
    by (simp add: window_overlap_def sum_list_distinct_conv_sum_set count_mset)
  also have "\<dots> = (\<Sum>tok \<in> set_mset (mset q \<inter># mset w). count (mset q \<inter># mset w) tok)"
    by (rule sum.mono_neutral_cong_right) (auto simp: not_in_iff)
  finally show ?thesis by (simp add: size_multiset_overloaded_eq)
qed

text \<open>Whether the text so far ends in whitespace, given whether what came before did.\<close>

fun ends_ws :: "bool \<Rightarrow> string \<Rightarrow> bool" where
  "ends_ws b [] = b"
| "ends_ws b (c # cs) = ends_ws (js_ws c) cs"

lemma collapse_ws_append: "collapse_ws b (xs @ ys) = collapse_ws b xs @ collapse_ws (ends_ws b xs) ys"
  by (induction b xs rule: collapse_ws.induct) auto

lemma collapse_ws_solid: "s \<noteq> [] \<Longrightarrow> \<not> js_ws (hd s) \<Longrightarrow> collapse_ws b s = collapse_ws b' s"
  by (cases s) auto

definition solid :: "string \<Rightarrow> bool" where
  "solid s \<longleftrightarrow> s \<noteq> [] \<and> \<not> js_ws (hd s) \<and> \<not> js_ws (last s)"

lemma solid_rev [simp]: "solid (rev s) = solid s"
  by (auto simp: solid_def hd_rev last_rev)

lemma solid_hd: "solid s \<Longrightarrow> \<exists>c cs. s = c # cs \<and> \<not> js_ws c"
  by (cases s) (auto simp: solid_def)

lemma solid_trim: "ink s \<noteq> [] \<Longrightarrow> solid (trim s)"
proof -
  assume s: "ink s \<noteq> []"
  then have ne: "trim s \<noteq> []" by (simp add: trim_Nil_iff)
  then have "\<not> js_ws (last (trim s))"
    by (metis hd_dropWhile last_rev rev_is_Nil_conv trimEnd_def trim_def)
  moreover have "trimStart s \<noteq> []" using ne by (auto simp: trim_def trimEnd_def)
  then have "\<not> js_ws (hd (trimStart s))" by (simp add: trimStart_def hd_dropWhile)
  moreover have "hd (trim s) = hd (trimStart s)"
    using trimEnd_prefix[of "trimStart s"] ne by (cases "trim s") (auto simp: trim_def prefix_def)
  ultimately show ?thesis using ne by (simp add: solid_def)
qed

lemma trimStart_keeps_solid: "solid q \<Longrightarrow> sublist q t \<Longrightarrow> sublist q (trimStart t)"
proof -
  assume q: "solid q" and "sublist q t"
  then obtain ps ss where t: "t = ps @ q @ ss" by (auto simp: sublist_def)
  from solid_hd[OF q] obtain c cs where c: "q = c # cs" "\<not> js_ws c" by blast
  show ?thesis
  proof (cases "\<forall>x \<in> set ps. js_ws x")
    case True
    then have "trimStart t = q @ ss" using c by (simp add: t trimStart_def dropWhile_append2)
    then show ?thesis by simp
  next
    case False
    then have "trimStart t = dropWhile js_ws ps @ q @ ss" by (auto simp: t trimStart_def dropWhile_append1)
    then show ?thesis by (auto simp: sublist_def)
  qed
qed

lemma trim_keeps_solid:
  assumes "solid q" "sublist q t"
  shows "sublist q (trim t)"
proof -
  have "sublist (rev q) (trimStart (rev (trimStart t)))"
    using trimStart_keeps_solid[OF assms] assms(1) by (intro trimStart_keeps_solid) simp_all
  then show ?thesis by (simp add: trim_def trimEnd_def trimStart_def flip: sublist_rev_left)
qed

lemma verbatim_exact:
  assumes "sublist evidence transcript" and "ink evidence \<noteq> []"
  shows "verifyEvidenceQuoteTier evidence transcript = Tier_Exact"
proof -
  let ?q = "trim evidence"
  have q: "solid ?q" using assms(2) by (rule solid_trim)
  have "sublist ?q (trim transcript)"
    using q sublist_order.order_trans[OF trim_sublist assms(1)] by (rule trim_keeps_solid)
  then obtain ps ss where t: "trim transcript = ps @ ?q @ ss" by (auto simp: sublist_def)
  have "collapse_ws (ends_ws False ps) ?q = collapse_ws False ?q"
    using q by (intro collapse_ws_solid) (auto simp: solid_def)
  then have "sublist (normalizeWhitespace evidence) (normalizeWhitespace transcript)"
    by (auto simp: normalizeWhitespace_def t collapse_ws_append sublist_def)
  moreover have "normalizeWhitespace evidence \<noteq> []"
    using assms(2) ink_collapse_ws[of False ?q] by (auto simp: normalizeWhitespace_def)
  ultimately show ?thesis by (simp add: verifyEvidenceQuoteTier_def js_includes_def)
qed

lemma fuzzy_window:
  assumes "verifyEvidenceQuoteTier evidence transcript = Tier_Fuzzy"
  defines "Q \<equiv> tokenize (normalizeWhitespace evidence)" and "T \<equiv> tokenize (normalizeWhitespace transcript)"
  obtains start where "start + length Q \<le> length T"
    "9 * length Q \<le> 10 * size (mset Q \<inter># mset (take (length Q) (drop start T)))"
proof -
  have "fuzzyTokenWindowMatch Q T"
    using assms(1) by (auto simp: verifyEvidenceQuoteTier_def Let_def Q_def T_def split: if_splits)
  then have n1: "length Q \<noteq> 0" "length Q \<le> length T"
    and ex: "\<exists>start \<in> set [0..<length T - length Q + 1].
      9 / 10 \<le> real (window_overlap Q (take (length Q) (drop start T))) / real (length Q)"
    unfolding fuzzyTokenWindowMatch_def Let_def FUZZY_TOKEN_OVERLAP_MIN_def list_ex_iff
    by (metis not_le)+
  from ex obtain start where n: "length Q \<noteq> 0" "start + length Q \<le> length T"
    and o: "9 / 10 \<le> real (window_overlap Q (take (length Q) (drop start T))) / real (length Q)"
    using n1 by force
  from o n(1) have "9 * real (length Q) \<le> 10 * real (window_overlap Q (take (length Q) (drop start T)))"
    by (simp add: field_simps)
  then have "9 * length Q \<le> 10 * size (mset Q \<inter># mset (take (length Q) (drop start T)))"
    unfolding window_overlap_mset by linarith
  then show ?thesis using n(2) that by blast
qed

subsection \<open>The admission gate\<close>

datatype extraction_source = PassA | PassB

datatype gate_drop = No_Evidence_Field | Evidence_Not_Found

record gate_result =
  admitted :: bool
  gate_reason :: "gate_drop option"
  matchTier :: "evidence_tier option"

text \<open>\<open>!transcriptText\<close> holds for a missing and for an empty transcript.\<close>

definition checkEvidenceGate :: "string option \<Rightarrow> extraction_source option \<Rightarrow> string option \<Rightarrow> gate_result" where
  "checkEvidenceGate evidence source transcriptText =
     (if source \<noteq> Some PassB then \<lparr>admitted = True, gate_reason = None, matchTier = None\<rparr>
      else case evidence of
        None \<Rightarrow> \<lparr>admitted = False, gate_reason = Some No_Evidence_Field, matchTier = None\<rparr>
      | Some e \<Rightarrow>
          if trim e = [] then \<lparr>admitted = False, gate_reason = Some No_Evidence_Field, matchTier = None\<rparr>
          else case transcriptText of
            None \<Rightarrow> \<lparr>admitted = False, gate_reason = Some Evidence_Not_Found, matchTier = None\<rparr>
          | Some t \<Rightarrow>
              if t = [] then \<lparr>admitted = False, gate_reason = Some Evidence_Not_Found, matchTier = None\<rparr>
              else if verifyEvidenceQuoteTier e t = Tier_None
              then \<lparr>admitted = False, gate_reason = Some Evidence_Not_Found, matchTier = None\<rparr>
              else \<lparr>admitted = True, gate_reason = None, matchTier = Some (verifyEvidenceQuoteTier e t)\<rparr>)"

lemma gate_passB:
  "admitted (checkEvidenceGate evidence (Some PassB) transcript) \<Longrightarrow>
   \<exists>e t tier. evidence = Some e \<and> transcript = Some t \<and> ink e \<noteq> [] \<and> verifyEvidenceQuoteTier e t = tier \<and>
     tier \<noteq> Tier_None \<and> matchTier (checkEvidenceGate evidence (Some PassB) transcript) = Some tier"
  by (auto simp: checkEvidenceGate_def trim_Nil_iff split: option.splits if_splits)

lemma gate_verbatim:
  assumes "sublist e t" "ink e \<noteq> []"
  shows "checkEvidenceGate (Some e) (Some PassB) (Some t) =
    \<lparr>admitted = True, gate_reason = None, matchTier = Some Tier_Exact\<rparr>"
proof -
  have "t \<noteq> []" using assms by auto
  then show ?thesis using assms verbatim_exact[OF assms] by (simp add: checkEvidenceGate_def trim_Nil_iff)
qed

text \<open>
  C40: the evidence gate is neither too strict nor too lax on the atoms of the second pass. An atom
  whose quote occurs in the transcript is admitted by the exact tier, whatever whitespace surrounds
  the quote; an atom without a quote, or without a transcript to check it against, is dropped; and
  an atom admitted by the fuzzy tier has a quote that shares at least nine tenths of its words,
  counted with multiplicity, with a stretch of the transcript of the same length.
\<close>

theorem evidence_gate_is_sound:
  fixes e t :: string
  defines "Q \<equiv> tokenize (normalizeWhitespace e)" and "T \<equiv> tokenize (normalizeWhitespace t)"
  shows "(sublist e t \<and> ink e \<noteq> [] \<longrightarrow>
      checkEvidenceGate (Some e) (Some PassB) (Some t) =
        \<lparr>admitted = True, gate_reason = None, matchTier = Some Tier_Exact\<rparr>) \<and>
    (admitted (checkEvidenceGate ev (Some PassB) tr) \<longrightarrow>
      (\<exists>e' t'. ev = Some e' \<and> tr = Some t' \<and> ink e' \<noteq> [])) \<and>
    (matchTier (checkEvidenceGate (Some e) (Some PassB) (Some t)) = Some Tier_Fuzzy \<longrightarrow>
      (\<exists>start. start + length Q \<le> length T \<and>
         9 * length Q \<le> 10 * size (mset Q \<inter># mset (take (length Q) (drop start T)))))"
proof (intro conjI impI)
  assume "matchTier (checkEvidenceGate (Some e) (Some PassB) (Some t)) = Some Tier_Fuzzy"
  then have "verifyEvidenceQuoteTier e t = Tier_Fuzzy"
    by (auto simp: checkEvidenceGate_def split: if_splits)
  from fuzzy_window[OF this]
  show "\<exists>start. start + length Q \<le> length T \<and>
    9 * length Q \<le> 10 * size (mset Q \<inter># mset (take (length Q) (drop start T)))"
    unfolding Q_def T_def by blast
qed (use gate_verbatim gate_passB in blast)+

definition demo_quote :: string where "demo_quote = ''a b c d e f g h i X''"

definition demo_transcript :: string where "demo_transcript = ''u a b c d  e f g h i j''"

theorem evidence_gate_is_sound_witness:
  "matchTier (checkEvidenceGate (Some ''b c '') (Some PassB) (Some demo_transcript)) = Some Tier_Exact \<and>
   ink demo_quote \<noteq> [] \<and>
   (\<exists>start. start + 10 \<le> (11::nat) \<and>
      90 \<le> 10 * size (mset (tokenize demo_quote) \<inter>#
        mset (take 10 (drop start (tokenize ''u a b c d e f g h i j'')))))"
proof -
  have "sublist ''b c '' demo_transcript" "ink ''b c '' \<noteq> []" by code_simp+
  then have exact: "matchTier (checkEvidenceGate (Some ''b c '') (Some PassB) (Some demo_transcript)) = Some Tier_Exact"
    using evidence_gate_is_sound[of "''b c ''" demo_transcript] by simp
  let ?g = "checkEvidenceGate (Some demo_quote) (Some PassB) (Some demo_transcript)"
  have tier: "matchTier ?g = Some Tier_Fuzzy" "admitted ?g" by code_simp+
  have ink: "ink demo_quote \<noteq> []"
    using evidence_gate_is_sound[of _ _ "Some demo_quote" "Some demo_transcript"] tier(2) by blast
  have n: "normalizeWhitespace demo_quote = demo_quote"
    "normalizeWhitespace demo_transcript = ''u a b c d e f g h i j''"
    "length (tokenize demo_quote) = 10" "length (tokenize ''u a b c d e f g h i j'') = 11" by code_simp+
  have "\<exists>start. start + 10 \<le> (11::nat) \<and> 9 * 10 \<le> 10 * size (mset (tokenize demo_quote) \<inter>#
      mset (take 10 (drop start (tokenize ''u a b c d e f g h i j''))))"
    using evidence_gate_is_sound[of demo_quote demo_transcript] tier(1) unfolding n by blast
  with exact ink show ?thesis by simp
qed

end
