(* ===== verification/Fusion.thy ===== *)
theory Fusion
  imports Prelude
begin

text \<open>
  Score fusion of the hybrid search (\<open>src/src/search/fuse.ts\<close>): normalisation of the raw BM25 and
  cosine scores, the weighted combination with the per-memory signals, and the ranked list. Scores
  are reals, so rounding is not modelled; a \<open>Map\<close> built from a list of entries keeps the last value
  of a key.
\<close>

section \<open>Normalisation\<close>

datatype normalization_mode = Minmax | Winsorized

definition WINSORIZE_LOWER_PCT :: real where "WINSORIZE_LOWER_PCT = 5 / 100"
definition WINSORIZE_UPPER_PCT :: real where "WINSORIZE_UPPER_PCT = 95 / 100"

definition percentileOfSorted :: "real list \<Rightarrow> real \<Rightarrow> real" where
  "percentileOfSorted sortedAsc p =
     (let n = length sortedAsc
      in if n = 1 then sortedAsc ! 0
         else let idx = p * (real n - 1);
                  lo = nat \<lfloor>idx\<rfloor>;
                  hi = nat \<lceil>idx\<rceil>
              in if lo = hi then sortedAsc ! lo
                 else let frac = idx - real lo
                      in sortedAsc ! lo + (sortedAsc ! hi - sortedAsc ! lo) * frac)"

definition winsorize :: "real list \<Rightarrow> real list" where
  "winsorize scores =
     (let sorted = sort scores;
          lo = percentileOfSorted sorted WINSORIZE_LOWER_PCT;
          hi = percentileOfSorted sorted WINSORIZE_UPPER_PCT
      in map (\<lambda>s. min hi (max lo s)) scores)"

definition normalizeScores :: "real list \<Rightarrow> normalization_mode \<Rightarrow> real list" where
  "normalizeScores scores mode =
     (if scores = [] then []
      else let source = (case mode of Winsorized \<Rightarrow> winsorize scores | Minmax \<Rightarrow> scores);
               mn = Min (set source);
               mx = Max (set source);
               range = mx - mn
           in if range = 0 then map (\<lambda>_. 1) scores else map (\<lambda>s. (s - mn) / range) source)"

section \<open>Combination\<close>

record fuse_input =
  normBm25 :: real
  normCosine :: real
  fi_importance :: real
  freshness :: real
  fi_usefulness :: "real option"
  fi_entityBonus :: "real option"
  fi_agentBonus :: "real option"
  fi_uncontestedBonus :: "real option"

record fuse_weights =
  alpha :: real
  beta :: real
  gamma :: real
  delta :: real
  epsilon :: "real option"
  zeta :: "real option"
  eta :: "real option"
  theta :: "real option"
  normalization :: "normalization_mode option"

text \<open>\<open>x ?? d\<close>.\<close>

definition or_else :: "'a option \<Rightarrow> 'a \<Rightarrow> 'a" where
  "or_else x d = (case x of Some v \<Rightarrow> v | None \<Rightarrow> d)"

definition raw_score :: "fuse_weights \<Rightarrow> fuse_input \<Rightarrow> real" where
  "raw_score w i =
     alpha w * normBm25 i + beta w * normCosine i + gamma w * fi_importance i + delta w * freshness i +
     or_else (epsilon w) 0 * or_else (fi_usefulness i) (1 / 2) + or_else (zeta w) 0 * or_else (fi_entityBonus i) 0 +
     or_else (eta w) 0 * or_else (fi_agentBonus i) 0 + or_else (theta w) 0 * or_else (fi_uncontestedBonus i) 1"

definition weightSum :: "fuse_weights \<Rightarrow> real" where
  "weightSum w =
     alpha w + beta w + gamma w + delta w +
     or_else (epsilon w) 0 + or_else (zeta w) 0 + or_else (eta w) 0 + or_else (theta w) 0"

definition fuseScores :: "fuse_weights \<Rightarrow> fuse_input \<Rightarrow> real" where
  "fuseScores w i = (if weightSum w = 0 then 0 else min 1 (raw_score w i / weightSum w))"

section \<open>The ranked list\<close>

datatype hit_source = From_Fts | From_Vec | From_Both

record fused_hit =
  hit_id :: string
  hit_score :: real
  hit_source :: hit_source

record hit_meta =
  meta_importance :: real
  meta_created_at :: int

text \<open>The signals of a memory, each absent by default.\<close>

record signals =
  sig_usefulness :: "string \<rightharpoonup> real"
  sig_entityBonus :: "string \<rightharpoonup> real"
  sig_agentBonus :: "string \<rightharpoonup> real"
  sig_uncontested :: "string \<rightharpoonup> real"

definition js_map :: "('k \<times> 'v) list \<Rightarrow> ('k \<times> 'v) list" where
  "js_map entries = fold (\<lambda>(k, v). obj_set k v) entries []"

definition DAY_MS :: int where "DAY_MS = 24 * 60 * 60 * 1000"

definition freshness_of :: "int \<Rightarrow> real \<Rightarrow> int \<Rightarrow> real" where
  "freshness_of nowMs freshnessDecayDays createdAt =
     (let decayMs = freshnessDecayDays * 24 * 60 * 60 * 1000;
          ageDays = real_of_int (nowMs - createdAt) / real_of_int DAY_MS
      in min 1 (exp (- ageDays / (decayMs / real_of_int DAY_MS))))"

definition norm_map :: "(string \<times> real) list \<Rightarrow> normalization_mode option \<Rightarrow> (string \<times> real) list" where
  "norm_map hits mode = js_map (zip (map fst hits) (normalizeScores (map snd hits) (or_else mode Minmax)))"

definition fuse_input_of ::
  "(string \<times> real) list \<Rightarrow> (string \<times> real) list \<Rightarrow> (string \<rightharpoonup> hit_meta) \<Rightarrow> int \<Rightarrow> real \<Rightarrow> signals \<Rightarrow> string \<Rightarrow> fuse_input" where
  "fuse_input_of normBm25Map normCosineMap metas nowMs freshnessDecayDays sig i =
     \<lparr>normBm25 = or_else (map_of normBm25Map i) 0,
      normCosine = or_else (map_of normCosineMap i) 0,
      fi_importance = or_else (map_option meta_importance (metas i)) (1 / 2),
      freshness = freshness_of nowMs freshnessDecayDays (or_else (map_option meta_created_at (metas i)) nowMs),
      fi_usefulness = sig_usefulness sig i,
      fi_entityBonus = sig_entityBonus sig i,
      fi_agentBonus = sig_agentBonus sig i,
      fi_uncontestedBonus = sig_uncontested sig i\<rparr>"

definition source_of :: "(string \<times> real) list \<Rightarrow> (string \<times> real) list \<Rightarrow> string \<Rightarrow> hit_source" where
  "source_of ftsMap vecMap i =
     (let inFts = (map_of ftsMap i \<noteq> None); inVec = (map_of vecMap i \<noteq> None)
      in if inFts \<and> inVec then From_Both else if inFts then From_Fts else From_Vec)"

text \<open>The ids in the order of the union set: those of the text hits, then the new ones of the vector hits.\<close>

definition candidate_ids :: "(string \<times> real) list \<Rightarrow> (string \<times> real) list \<Rightarrow> string list" where
  "candidate_ids ftsMap vecMap = map fst ftsMap @ filter (\<lambda>i. i \<notin> set (map fst ftsMap)) (map fst vecMap)"

definition fuseHits ::
  "(string \<times> real) list \<Rightarrow> (string \<times> real) list \<Rightarrow> (string \<rightharpoonup> hit_meta) \<Rightarrow> fuse_weights \<Rightarrow> int \<Rightarrow> real \<Rightarrow> signals \<Rightarrow>
   fused_hit list" where
  "fuseHits ftsHits vecHits metas weights nowMs freshnessDecayDays sig =
     (let ftsMap = js_map ftsHits;
          vecMap = js_map vecHits;
          ids = candidate_ids ftsMap vecMap;
          normBm25Map = norm_map (map (\<lambda>(i, bm25). (i, - bm25)) ftsHits) (normalization weights);
          normCosineMap = norm_map vecHits (normalization weights);
          results = map (\<lambda>i.
            \<lparr>hit_id = i,
             hit_score = fuseScores weights
               (fuse_input_of normBm25Map normCosineMap metas nowMs freshnessDecayDays sig i),
             hit_source = source_of ftsMap vecMap i\<rparr>) ids
      in sort_key (\<lambda>h. - hit_score h) results)"

section \<open>Percentiles\<close>

lemma sort_eq_Nil: "sort xs = [] \<longleftrightarrow> xs = []"
  by (metis length_0_conv length_sort)

lemma or_else_simps [simp]: "or_else (Some x) d = x" "or_else None d = d"
  by (simp_all add: or_else_def)

lemma percentile_between:
  assumes "sorted xs" "xs \<noteq> []" "0 \<le> p" "p \<le> 1"
  shows "hd xs \<le> percentileOfSorted xs p \<and> percentileOfSorted xs p \<le> last xs"
proof (cases "length xs = 1")
  case True
  then show ?thesis by (cases xs) (auto simp: percentileOfSorted_def)
next
  case False
  define idx where "idx = p * (real (length xs) - 1)"
  define lo where "lo = nat \<lfloor>idx\<rfloor>"
  define hi where "hi = nat \<lceil>idx\<rceil>"
  have len: "2 \<le> length xs" using False assms(2) by (cases xs) (auto simp: Suc_le_eq)
  have idx: "0 \<le> idx" "idx \<le> real (length xs) - 1"
    using assms len by (auto simp: idx_def mult_left_le_one_le)
  have b: "lo \<le> hi" "hi < length xs" "real lo \<le> idx" "idx \<le> real lo + 1"
    using idx len by (auto simp: lo_def hi_def) linarith+
  have xs: "xs ! 0 \<le> xs ! lo" "xs ! lo \<le> xs ! hi" "xs ! hi \<le> xs ! (length xs - 1)"
    using assms(1) b by (auto intro!: sorted_nth_mono)
  have "(xs ! hi - xs ! lo) * (idx - real lo) \<le> xs ! hi - xs ! lo" "0 \<le> (xs ! hi - xs ! lo) * (idx - real lo)"
    using xs b by (auto simp: mult_left_le)
  then have "xs ! lo \<le> percentileOfSorted xs p" "percentileOfSorted xs p \<le> xs ! hi"
    using False xs(2) by (auto simp: percentileOfSorted_def Let_def simp flip: idx_def lo_def hi_def)
  then show ?thesis using xs assms(2) by (simp add: hd_conv_nth last_conv_nth)
qed

lemma winsorize_in_range: "y \<in> set (winsorize xs) \<Longrightarrow> \<exists>l \<in> set xs. \<exists>u \<in> set xs. l \<le> y \<and> y \<le> u"
proof -
  assume y: "y \<in> set (winsorize xs)"
  then have ne: "xs \<noteq> []" by (auto simp: winsorize_def)
  define P where "P = percentileOfSorted (sort xs)"
  have ends: "hd (sort xs) \<in> set xs" "last (sort xs) \<in> set xs"
    using ne hd_in_set[of "sort xs"] last_in_set[of "sort xs"] by (simp_all add: sort_eq_Nil)
  have P: "hd (sort xs) \<le> P p \<and> P p \<le> last (sort xs)" if "0 \<le> p" "p \<le> 1" for p
    unfolding P_def using percentile_between[of "sort xs" p] that ne by (simp add: sort_eq_Nil)
  obtain x where x: "x \<in> set xs" "y = min (P WINSORIZE_UPPER_PCT) (max (P WINSORIZE_LOWER_PCT) x)"
    using y by (auto simp: winsorize_def P_def Let_def)
  have "hd (sort xs) \<le> P WINSORIZE_LOWER_PCT" "hd (sort xs) \<le> P WINSORIZE_UPPER_PCT" "P WINSORIZE_UPPER_PCT \<le> last (sort xs)"
    using P by (auto simp: WINSORIZE_LOWER_PCT_def WINSORIZE_UPPER_PCT_def)
  then have "hd (sort xs) \<le> y" "y \<le> last (sort xs)" using x(2) by (auto simp: min_def max_def)
  then show ?thesis using ends by blast
qed

section \<open>Normalisation\<close>

text \<open>Both modes apply a monotone map to every score before the min-max.\<close>

lemma normalize_is_monotone:
  assumes "scores \<noteq> []"
  obtains f where "mono f" "\<And>x. x \<in> set scores \<Longrightarrow> 0 \<le> f x \<and> f x \<le> 1" "normalizeScores scores mode = map f scores"
proof -
  define g where "g = (case mode of Minmax \<Rightarrow> (\<lambda>s. s) | Winsorized \<Rightarrow>
    (\<lambda>s. min (percentileOfSorted (sort scores) WINSORIZE_UPPER_PCT) (max (percentileOfSorted (sort scores) WINSORIZE_LOWER_PCT) s)))"
  have g: "mono g" by (auto simp: g_def mono_def split: normalization_mode.split)
  have source: "(case mode of Winsorized \<Rightarrow> winsorize scores | Minmax \<Rightarrow> scores) = map g scores"
    by (auto simp: g_def winsorize_def Let_def split: normalization_mode.split)
  let ?S = "set (map g scores)"
  let ?mn = "Min ?S" and ?mx = "Max ?S"
  have in_range: "?mn \<le> g x \<and> g x \<le> ?mx" if "x \<in> set scores" for x using that by auto
  show ?thesis
  proof (cases "?mx - ?mn = 0")
    case True
    have "normalizeScores scores mode = map (\<lambda>_. 1) scores"
      using assms True unfolding normalizeScores_def source Let_def by simp
    then show ?thesis using that[of "\<lambda>_. 1"] by (simp add: mono_def)
  next
    case False
    moreover have "?mn \<le> ?mx" using in_range[OF hd_in_set[OF assms]] by (meson order_trans)
    ultimately have pos: "0 < ?mx - ?mn" by simp
    have "normalizeScores scores mode = map (\<lambda>x. (g x - ?mn) / (?mx - ?mn)) scores"
      using assms False unfolding normalizeScores_def source Let_def by (simp add: comp_def)
    moreover have "mono (\<lambda>x. (g x - ?mn) / (?mx - ?mn))"
      using g pos by (auto simp: mono_def intro!: divide_right_mono)
    moreover have "0 \<le> (g x - ?mn) / (?mx - ?mn) \<and> (g x - ?mn) / (?mx - ?mn) \<le> 1" if "x \<in> set scores" for x
      using in_range[OF that] pos by (auto simp: divide_le_eq_1)
    ultimately show ?thesis using that by blast
  qed
qed

section \<open>Maps of hits\<close>

lemma set_js_map: "set (js_map kvs) \<subseteq> set kvs"
  using fold_obj_set_in[of kvs "[]"] by (simp add: js_map_def)

lemma js_map_keys: "distinct (map fst (js_map kvs)) \<and> set (map fst (js_map kvs)) = fst ` set kvs"
proof -
  have "distinct (map fst acc) \<Longrightarrow>
      distinct (map fst (fold (\<lambda>(k, v). obj_set k v) kvs acc)) \<and>
      set (map fst (fold (\<lambda>(k, v). obj_set k v) kvs acc)) = set (map fst acc) \<union> fst ` set kvs" for acc
  proof (induction kvs arbitrary: acc)
    case (Cons kv kvs)
    obtain k v where kv: "kv = (k, v)" by fastforce
    have keys: "set (map fst (obj_set k v acc)) = insert k (set (map fst acc))"
      using arg_cong[OF obj_set_keys[of k v acc], of set] by (auto split: if_splits)
    show ?case using Cons.IH[OF obj_set_distinct[OF Cons.prems]] keys by (auto simp: kv)
  qed simp
  from this[of "[]"] show ?thesis by (simp add: js_map_def)
qed

lemma obj_set_map: "obj_set k (f v) (map (\<lambda>(i, s). (i, f s)) kvs) = map (\<lambda>(i, s). (i, f s)) (obj_set k v kvs)"
  by (induction k v kvs rule: obj_set.induct) auto

lemma js_map_map: "js_map (map (\<lambda>(i, s). (i, f s)) kvs) = map (\<lambda>(i, s). (i, f s)) (js_map kvs)"
proof -
  have "fold (\<lambda>(k, v). obj_set k v) (map (\<lambda>(i, s). (i, f s)) kvs) (map (\<lambda>(i, s). (i, f s)) acc) =
      map (\<lambda>(i, s). (i, f s)) (fold (\<lambda>(k, v). obj_set k v) kvs acc)" for acc
    by (induction kvs arbitrary: acc) (auto simp: obj_set_map)
  from this[of "[]"] show ?thesis by (simp add: js_map_def)
qed

text \<open>The normalised score of a hit is a monotone function of its raw score, with values in [0, 1].\<close>

lemma norm_map_lookup:
  obtains f where "mono f" "\<And>i s. map_of (js_map hits) i = Some s \<Longrightarrow> 0 \<le> f s \<and> f s \<le> (1::real)"
    "\<And>i. map_of (norm_map hits mode) i = map_option f (map_of (js_map hits) i)"
proof (cases "hits = []")
  case True
  then show ?thesis using that[of "\<lambda>_. 0"] by (simp add: norm_map_def js_map_def mono_def)
next
  case False
  then obtain f where f: "mono f" "\<And>x. x \<in> set (map snd hits) \<Longrightarrow> 0 \<le> f x \<and> f x \<le> 1"
    "normalizeScores (map snd hits) (or_else mode Minmax) = map f (map snd hits)"
    using normalize_is_monotone[of "map snd hits"] by auto
  have "zip (map fst hits) (map f (map snd hits)) = map (\<lambda>(i, s). (i, f s)) hits"
    by (induction hits) auto
  then have "map_of (norm_map hits mode) i = map_option f (map_of (js_map hits) i)" for i
    unfolding norm_map_def f(3) by (simp add: js_map_map map_of_map)
  moreover have "0 \<le> f s \<and> f s \<le> 1" if "map_of (js_map hits) i = Some s" for i s
  proof -
    have "(i, s) \<in> set hits" using map_of_SomeD[OF that] set_js_map by blast
    then show ?thesis using f(2) by force
  qed
  ultimately show ?thesis using f(1) that by blast
qed

section \<open>Scores\<close>

definition weights_ok :: "fuse_weights \<Rightarrow> bool" where
  "weights_ok w \<longleftrightarrow>
     0 \<le> alpha w \<and> 0 \<le> beta w \<and> 0 \<le> gamma w \<and> 0 \<le> delta w \<and>
     0 \<le> or_else (epsilon w) 0 \<and> 0 \<le> or_else (zeta w) 0 \<and> 0 \<le> or_else (eta w) 0 \<and> 0 \<le> or_else (theta w) 0"

definition input_nonneg :: "fuse_input \<Rightarrow> bool" where
  "input_nonneg i \<longleftrightarrow>
     0 \<le> normBm25 i \<and> 0 \<le> normCosine i \<and> 0 \<le> fi_importance i \<and> 0 \<le> freshness i \<and>
     0 \<le> or_else (fi_usefulness i) (1 / 2) \<and> 0 \<le> or_else (fi_entityBonus i) 0 \<and>
     0 \<le> or_else (fi_agentBonus i) 0 \<and> 0 \<le> or_else (fi_uncontestedBonus i) 1"

definition input_le :: "fuse_input \<Rightarrow> fuse_input \<Rightarrow> bool" where
  "input_le i j \<longleftrightarrow>
     normBm25 i \<le> normBm25 j \<and> normCosine i \<le> normCosine j \<and> fi_importance i \<le> fi_importance j \<and>
     freshness i \<le> freshness j \<and> or_else (fi_usefulness i) (1 / 2) \<le> or_else (fi_usefulness j) (1 / 2) \<and>
     or_else (fi_entityBonus i) 0 \<le> or_else (fi_entityBonus j) 0 \<and>
     or_else (fi_agentBonus i) 0 \<le> or_else (fi_agentBonus j) 0 \<and>
     or_else (fi_uncontestedBonus i) 1 \<le> or_else (fi_uncontestedBonus j) 1"

lemma weightSum_nonneg: "weights_ok w \<Longrightarrow> 0 \<le> weightSum w"
  by (simp add: weights_ok_def weightSum_def)

lemma fuseScores_range: "weights_ok w \<Longrightarrow> input_nonneg i \<Longrightarrow> 0 \<le> fuseScores w i \<and> fuseScores w i \<le> 1"
proof -
  assume w: "weights_ok w" and i: "input_nonneg i"
  have "0 \<le> raw_score w i" using w i unfolding weights_ok_def input_nonneg_def raw_score_def
    by (intro add_nonneg_nonneg mult_nonneg_nonneg) blast+
  then show ?thesis using weightSum_nonneg[OF w] by (simp add: fuseScores_def)
qed

lemma fuseScores_mono: "weights_ok w \<Longrightarrow> input_le i j \<Longrightarrow> fuseScores w i \<le> fuseScores w j"
proof -
  assume w: "weights_ok w" and le: "input_le i j"
  have "raw_score w i \<le> raw_score w j" using w le unfolding weights_ok_def input_le_def raw_score_def
    by (intro add_mono mult_left_mono) blast+
  then have "raw_score w i / weightSum w \<le> raw_score w j / weightSum w"
    using weightSum_nonneg[OF w] by (rule divide_right_mono)
  then show ?thesis by (auto simp: fuseScores_def min_def)
qed

lemma freshness_range: "0 \<le> freshness_of now d c \<and> freshness_of now d c \<le> 1"
  by (simp add: freshness_of_def Let_def min_def)

lemma freshness_mono: "0 < d \<Longrightarrow> c \<le> c' \<Longrightarrow> freshness_of now d c \<le> freshness_of now d c'"
  unfolding freshness_of_def Let_def DAY_MS_def
  by (intro min.mono order_refl) (simp add: divide_right_mono)


lemma candidate_ids_facts:
  "distinct (candidate_ids (js_map fts) (js_map vec)) \<and>
   set (candidate_ids (js_map fts) (js_map vec)) = fst ` set fts \<union> fst ` set vec"
  using js_map_keys[of fts] js_map_keys[of vec] by (auto simp: candidate_ids_def)

lemma js_map_lookup_None: "map_of (js_map kvs) i = None \<longleftrightarrow> i \<notin> fst ` set kvs"
  using js_map_keys[of kvs] by (simp add: map_of_eq_None_iff)

lemma fuseHits_in:
  assumes "h \<in> set (fuseHits fts vec metas w now d sig)"
  shows "hit_score h = fuseScores w (fuse_input_of (norm_map (map (\<lambda>(i, bm25). (i, - bm25)) fts) (normalization w))
           (norm_map vec (normalization w)) metas now d sig (hit_id h))"
    and "hit_source h = source_of (js_map fts) (js_map vec) (hit_id h)"
  using assms by (auto simp: fuseHits_def Let_def)

lemma fuseHits_ids:
  "distinct (map hit_id (fuseHits fts vec metas w now d sig)) \<and>
   set (map hit_id (fuseHits fts vec metas w now d sig)) = fst ` set fts \<union> fst ` set vec"
proof -
  define mk where "mk = (\<lambda>i. \<lparr>hit_id = i, hit_score = fuseScores w
      (fuse_input_of (norm_map (map (\<lambda>(i, bm25). (i, - bm25)) fts) (normalization w))
        (norm_map vec (normalization w)) metas now d sig i),
    hit_source = source_of (js_map fts) (js_map vec) i\<rparr>)"
  define results where "results = map mk (candidate_ids (js_map fts) (js_map vec))"
  have hits: "fuseHits fts vec metas w now d sig = sort_key (\<lambda>h. - hit_score h) results"
    by (simp add: fuseHits_def Let_def results_def mk_def)
  have ids: "map hit_id results = candidate_ids (js_map fts) (js_map vec)"
    by (simp add: results_def mk_def comp_def)
  have "distinct results" using ids candidate_ids_facts[of fts vec] by (metis distinct_map)
  moreover have "inj_on hit_id (set results)" using ids candidate_ids_facts[of fts vec] by (metis distinct_map)
  ultimately show ?thesis using ids candidate_ids_facts[of fts vec]
    by (simp add: hits distinct_map) (metis list.set_map)
qed

lemma norm_map_nonneg: "0 \<le> or_else (map_of (norm_map hits mode) i) 0"
proof -
  obtain f where f: "\<And>i s. map_of (js_map hits) i = Some s \<Longrightarrow> 0 \<le> f s \<and> f s \<le> (1::real)"
    "\<And>i. map_of (norm_map hits mode) i = map_option f (map_of (js_map hits) i)"
    by (rule norm_map_lookup[of hits mode]) blast
  then show ?thesis by (cases "map_of (js_map hits) i") auto
qed

text \<open>A memory without a raw score is no better than one with one, and the order of raw scores is kept.\<close>

definition raw_le :: "real option \<Rightarrow> real option \<Rightarrow> bool" where
  "raw_le x y \<longleftrightarrow> (case x of None \<Rightarrow> True | Some a \<Rightarrow> (case y of None \<Rightarrow> False | Some b \<Rightarrow> a \<le> b))"

lemma norm_map_mono:
  assumes "raw_le (map_of (js_map hits) i) (map_of (js_map hits) j)"
  shows "or_else (map_of (norm_map hits mode) i) 0 \<le> or_else (map_of (norm_map hits mode) j) 0"
proof -
  obtain f where f: "mono f" "\<And>i s. map_of (js_map hits) i = Some s \<Longrightarrow> 0 \<le> f s \<and> f s \<le> (1::real)"
    "\<And>i. map_of (norm_map hits mode) i = map_option f (map_of (js_map hits) i)"
    by (rule norm_map_lookup[of hits mode]) blast
  show ?thesis using assms f(2)[of j] monoD[OF f(1)]
    by (cases "map_of (js_map hits) j") (auto simp: f(3) raw_le_def split: option.splits)
qed

definition signals_ok :: "signals \<Rightarrow> bool" where
  "signals_ok sig \<longleftrightarrow>
     (\<forall>i. 0 \<le> or_else (sig_usefulness sig i) (1 / 2) \<and> 0 \<le> or_else (sig_entityBonus sig i) 0 \<and>
          0 \<le> or_else (sig_agentBonus sig i) 0 \<and> 0 \<le> or_else (sig_uncontested sig i) 1)"

text \<open>
  A fused result is valid on the wire. Every candidate of either search is returned exactly
  once, with the source that found it, ranked by descending score, and every score is in [0, 1]:
  for any non-negative weights, whatever their sum, any raw scores and any clock skew.
\<close>

lemma fused_scores_in_contract:
  fixes fts vec :: "(string \<times> real) list" and now :: int and d :: real
  assumes "weights_ok w" and "signals_ok sig" and "\<And>i m. metas i = Some m \<Longrightarrow> 0 \<le> meta_importance m"
  defines "hits \<equiv> fuseHits fts vec metas w now d sig"
  shows "distinct (map hit_id hits) \<and> set (map hit_id hits) = fst ` set fts \<union> fst ` set vec \<and>
    sorted_wrt (\<lambda>h h'. hit_score h' \<le> hit_score h) hits \<and>
    list_all (\<lambda>h. 0 \<le> hit_score h \<and> hit_score h \<le> 1 \<and>
      hit_source h = (if hit_id h \<notin> fst ` set vec then From_Fts
                      else if hit_id h \<notin> fst ` set fts then From_Vec else From_Both)) hits"
proof -
  have importance_nonneg: "0 \<le> or_else (map_option meta_importance (metas i)) (1 / 2)" for i
    using assms(3) by (cases "metas i") auto
  have "sorted (map (\<lambda>h. - hit_score h) hits)" by (simp add: hits_def fuseHits_def Let_def)
  then have sorted: "sorted_wrt (\<lambda>h h'. hit_score h' \<le> hit_score h) hits" by (simp add: sorted_map)
  have "0 \<le> hit_score h \<and> hit_score h \<le> 1" if "h \<in> set hits" for h
    unfolding fuseHits_in(1)[OF that[unfolded hits_def]] using assms(1-3)
    by (intro fuseScores_range) (simp_all add: input_nonneg_def fuse_input_of_def norm_map_nonneg freshness_range signals_ok_def importance_nonneg)
  moreover have "hit_source h = (if hit_id h \<notin> fst ` set vec then From_Fts
      else if hit_id h \<notin> fst ` set fts then From_Vec else From_Both)" if h: "h \<in> set hits" for h
  proof -
    have "hit_id h \<in> fst ` set fts \<union> fst ` set vec"
      using fuseHits_ids[of fts vec metas w now d sig] h unfolding hits_def by (metis image_eqI list.set_map)
    then show ?thesis
      unfolding fuseHits_in(2)[OF h[unfolded hits_def]] source_of_def js_map_lookup_None Let_def by auto
  qed
  ultimately show ?thesis using sorted fuseHits_ids[of fts vec metas w now d sig] unfolding hits_def list_all_iff by blast
qed

definition demo_weights :: fuse_weights where
  "demo_weights = \<lparr>alpha = 4 / 10, beta = 4 / 10, gamma = 1 / 10, delta = 1 / 10, epsilon = Some (1 / 10),
     zeta = None, eta = None, theta = None, normalization = Some Winsorized\<rparr>"

definition no_signals :: signals where
  "no_signals = \<lparr>sig_usefulness = (\<lambda>_. None), sig_entityBonus = (\<lambda>_. None), sig_agentBonus = (\<lambda>_. None),
     sig_uncontested = (\<lambda>_. None)\<rparr>"

definition demo_fts :: "(string \<times> real) list" where "demo_fts = [(''a'', -7), (''b'', -3), (''c'', -2)]"
definition demo_vec :: "(string \<times> real) list" where "demo_vec = [(''b'', 1 / 2), (''d'', 1 / 4)]"

lemma demo_ok: "weights_ok demo_weights" "signals_ok no_signals"
  by (simp_all add: weights_ok_def demo_weights_def signals_ok_def no_signals_def)

lemma fused_scores_in_contract_witness:
  "set (map hit_id (fuseHits demo_fts demo_vec (\<lambda>_. None) demo_weights 0 30 no_signals)) = {''a'', ''b'', ''c'', ''d''} \<and>
   list_all (\<lambda>h. 0 \<le> hit_score h \<and> hit_score h \<le> 1) (fuseHits demo_fts demo_vec (\<lambda>_. None) demo_weights 0 30 no_signals)"
  using fused_scores_in_contract[of demo_weights no_signals "\<lambda>_. None" demo_fts demo_vec 0 30] demo_ok
  by (auto simp: demo_fts_def demo_vec_def list_all_iff)

text \<open>
  C26: the ranking respects dominance, in both normalisation modes. Of two candidates, one that is
  at least as good in every component of the query and of the store (raw text score, where SQLite's
  lower is better, raw vector score, importance, creation time, usefulness, bonuses) never gets a
  lower score: neither the normalisation, nor a missing component, nor the division by the sum of
  the weights can invert them.
\<close>

theorem fusion_respects_dominance:
  fixes fts vec :: "(string \<times> real) list"
  assumes "weights_ok w" and "0 < d"
    and hits: "h \<in> set (fuseHits fts vec metas w now d sig)" "h' \<in> set (fuseHits fts vec metas w now d sig)"
    and text_le: "raw_le (map_option uminus (map_of (js_map fts) (hit_id h))) (map_option uminus (map_of (js_map fts) (hit_id h')))"
    and vec_le: "raw_le (map_of (js_map vec) (hit_id h)) (map_of (js_map vec) (hit_id h'))"
    and meta_le:
      "or_else (map_option meta_importance (metas (hit_id h))) (1 / 2) \<le> or_else (map_option meta_importance (metas (hit_id h'))) (1 / 2)"
      "or_else (map_option meta_created_at (metas (hit_id h))) now \<le> or_else (map_option meta_created_at (metas (hit_id h'))) now"
    and signals_le: "or_else (sig_usefulness sig (hit_id h)) (1 / 2) \<le> or_else (sig_usefulness sig (hit_id h')) (1 / 2)"
      "or_else (sig_entityBonus sig (hit_id h)) 0 \<le> or_else (sig_entityBonus sig (hit_id h')) 0"
      "or_else (sig_agentBonus sig (hit_id h)) 0 \<le> or_else (sig_agentBonus sig (hit_id h')) 0"
      "or_else (sig_uncontested sig (hit_id h)) 1 \<le> or_else (sig_uncontested sig (hit_id h')) 1"
  shows "hit_score h \<le> hit_score h'"
proof -
  have neg: "map_of (js_map (map (\<lambda>(i, bm25). (i, - bm25)) fts)) i = map_option uminus (map_of (js_map fts) i)" for i
    using js_map_map[of uminus fts] by (simp add: map_of_map)
  show ?thesis
    unfolding fuseHits_in(1)[OF hits(1)] fuseHits_in(1)[OF hits(2)] using assms(1)
  proof (rule fuseScores_mono)
    show "input_le (fuse_input_of (norm_map (map (\<lambda>(i, bm25). (i, - bm25)) fts) (normalization w))
           (norm_map vec (normalization w)) metas now d sig (hit_id h))
         (fuse_input_of (norm_map (map (\<lambda>(i, bm25). (i, - bm25)) fts) (normalization w))
           (norm_map vec (normalization w)) metas now d sig (hit_id h'))"
      unfolding input_le_def fuse_input_of_def fuse_input.select_convs
      using meta_le signals_le freshness_mono[OF assms(2)] vec_le text_le
      by (intro conjI norm_map_mono) (simp_all add: neg)
  qed
qed

definition demo_metas :: "string \<rightharpoonup> hit_meta" where
  "demo_metas = (\<lambda>_. Some \<lparr>meta_importance = 1 / 2, meta_created_at = 0\<rparr>)"

theorem fusion_respects_dominance_witness:
  "\<exists>h h'. h \<in> set (fuseHits demo_fts demo_vec demo_metas demo_weights 0 30 no_signals) \<and>
     h' \<in> set (fuseHits demo_fts demo_vec demo_metas demo_weights 0 30 no_signals) \<and>
     hit_id h = ''c'' \<and> hit_id h' = ''b'' \<and> hit_score h \<le> hit_score h'"
proof -
  let ?hits = "fuseHits demo_fts demo_vec demo_metas demo_weights 0 30 no_signals"
  have ids: "set (map hit_id ?hits) = {''a'', ''b'', ''c'', ''d''}"
    using fuseHits_ids[of demo_fts demo_vec demo_metas demo_weights 0 30 no_signals]
    by (auto simp: demo_fts_def demo_vec_def)
  then have "''c'' \<in> set (map hit_id ?hits)" "''b'' \<in> set (map hit_id ?hits)" by blast+
  then obtain h h' where h: "h \<in> set ?hits" "h' \<in> set ?hits" "hit_id h = ''c''" "hit_id h' = ''b''" by fastforce
  have maps: "map_of (js_map demo_fts) ''c'' = Some (-2)" "map_of (js_map demo_fts) ''b'' = Some (-3)"
    "map_of (js_map demo_vec) ''c'' = None" "map_of (js_map demo_vec) ''b'' = Some (1 / 2)"
    by (simp_all add: js_map_def demo_fts_def demo_vec_def)
  have "hit_score h \<le> hit_score h'"
    using demo_ok(1) _ h(1,2)
    by (rule fusion_respects_dominance)
       (simp_all add: h maps raw_le_def demo_metas_def no_signals_def)
  with h show ?thesis by blast
qed

end
