(* ===== verification/Pack.thy ===== *)
theory Pack
  imports Memory_Store Distill_Atoms
begin

text \<open>
  What is injected into a prompt: the selection and rendering of the memory pack
  (\<open>src/src/recall/pack.ts\<close>), the injection policy above it (\<open>src/src/recall/policy.ts\<close>) and the
  \<open>recall_served\<close> events it records (\<open>recordRecallServed\<close> of \<open>src/src/storage/usefulness.ts\<close>).
  Scores are reals; SHA-256 is a parameter.
\<close>

section \<open>Selection\<close>

definition DEFAULT_TYPE_WEIGHTS :: "string \<rightharpoonup> real" where
  "DEFAULT_TYPE_WEIGHTS = map_of
     [(''decision'', 1), (''lesson'', 9 / 10), (''fact'', 7 / 10), (''command'', 6 / 10), (''note'', 4 / 10),
      (''todo'', 4 / 10), (''event'', 4 / 10)]"

definition DEFAULT_BUDGET_TOKENS :: int where "DEFAULT_BUDGET_TOKENS = 1500"
definition RECENCY_HALF_LIFE_DAYS :: real where "RECENCY_HALF_LIFE_DAYS = 30"
definition CANDIDATE_LIMIT :: nat where "CANDIDATE_LIMIT = 500"

record pack_options =
  po_repo :: string
  po_project :: "string option"
  po_branch :: "string option"
  po_budgetTokens :: "int option"
  po_typeWeights :: "(string \<rightharpoonup> real) option"

record pack_memory =
  pm_id :: string
  pm_type :: string
  pm_text :: string
  pm_score :: real

text \<open>\<open>Math.ceil(text.length / 4)\<close>.\<close>

definition estimateTokens :: "string \<Rightarrow> int" where
  "estimateTokens t = (int (length t) + 3) div 4"

definition pack_rows :: "pack_options \<Rightarrow> store \<Rightarrow> memory list" where
  "pack_rows opts s =
     (let projectFilter = (case po_project opts of Some p \<Rightarrow> p | None \<Rightarrow> po_repo opts);
          visible = filter (\<lambda>r. mem_project r = Some projectFilter \<and> mem_valid_to r = None \<and>
            (po_branch opts \<noteq> None \<longrightarrow> mem_branch r = po_branch opts)) (memories s)
      in take CANDIDATE_LIMIT (rev (sort_key mem_created (sort_key mem_id visible))))"

definition score_row :: "(string \<rightharpoonup> real) \<Rightarrow> epoch_ms \<Rightarrow> memory \<Rightarrow> pack_memory" where
  "score_row weights now r =
     (let ageDays = real_of_int (now - mem_created r) / (24 * 60 * 60 * 1000);
          recency = exp (- ageDays / RECENCY_HALF_LIFE_DAYS);
          typeWeight = (case weights (mem_type r) of Some w \<Rightarrow> w | None \<Rightarrow> 4 / 10)
      in \<lparr>pm_id = mem_id r, pm_type = mem_type r, pm_text = mem_text r,
          pm_score = typeWeight * recency * mem_importance r\<rparr>)"

fun take_budget :: "int \<Rightarrow> int \<Rightarrow> pack_memory list \<Rightarrow> pack_memory list \<Rightarrow> pack_memory list" where
  "take_budget budget spent pack [] = pack"
| "take_budget budget spent pack (m # ms) =
     (let cost = estimateTokens (pm_text m)
      in if budget < spent + cost then (if pack = [] then pack @ [m] else pack)
         else take_budget budget (spent + cost) (pack @ [m]) ms)"

definition scored_rows :: "pack_options \<Rightarrow> epoch_ms \<Rightarrow> store \<Rightarrow> pack_memory list" where
  "scored_rows opts now s =
     (let weights = (case po_typeWeights opts of Some w \<Rightarrow> w | None \<Rightarrow> DEFAULT_TYPE_WEIGHTS)
      in sort_key (\<lambda>m. - pm_score m) (map (score_row weights now) (pack_rows opts s)))"

definition selectPack :: "pack_options \<Rightarrow> epoch_ms \<Rightarrow> store \<Rightarrow> pack_memory list" where
  "selectPack opts now s =
     (let budget = (case po_budgetTokens opts of Some b \<Rightarrow> b | None \<Rightarrow> DEFAULT_BUDGET_TOKENS)
      in take_budget budget 0 [] (scored_rows opts now s))"

section \<open>Rendering\<close>

definition TYPE_HEADINGS :: "string \<rightharpoonup> string" where
  "TYPE_HEADINGS = map_of
     [(''decision'', ''Decisions''), (''lesson'', ''Lessons''), (''fact'', ''Facts''), (''command'', ''Commands''),
      (''todo'', ''Todos''), (''note'', ''Notes''), (''event'', ''Events'')]"

definition group_step :: "pack_memory \<Rightarrow> (string \<times> pack_memory list) list \<Rightarrow> (string \<times> pack_memory list) list" where
  "group_step m byType =
     (let lst = (case map_of byType (pm_type m) of Some l \<Rightarrow> l | None \<Rightarrow> []) in obj_set (pm_type m) (lst @ [m]) byType)"

definition render_item :: "pack_memory \<Rightarrow> string" where
  "render_item m = ''- '' @ collapse_ws False (pm_text m) @ '' `('' @ pm_id m @ '')`''"

definition render_heading :: "string \<Rightarrow> string" where
  "render_heading ty = ''## '' @ (case TYPE_HEADINGS ty of Some h \<Rightarrow> h | None \<Rightarrow> ty)"

definition renderPack :: "pack_memory list \<Rightarrow> string" where
  "renderPack ms =
     (if ms = [] then []
      else let byType = fold group_step ms [];
               sections = ''# Repo memory pack'' #
                 concat (map (\<lambda>(ty, lst). (NL # render_heading ty) # map render_item lst) byType)
           in join_with [NL] sections)"

section \<open>The events served\<close>

definition hashQuery :: "(string \<Rightarrow> string) \<Rightarrow> string \<Rightarrow> string" where
  "hashQuery sha256 query = take 16 (sha256 query)"

record served_input =
  rs_queryHash :: "string option"
  rs_query :: "string option"
  rs_atomIds :: "string list"
  rs_scores :: "real list option"
  rs_surface :: string
  rs_mode :: "string option"

definition served_score :: "real list option \<Rightarrow> nat \<Rightarrow> real option" where
  "served_score scores i = (case scores of None \<Rightarrow> None | Some xs \<Rightarrow> if i < length xs then Some (xs ! i) else None)"

definition recordRecallServed ::
  "(string \<Rightarrow> string) \<Rightarrow> (nat \<Rightarrow> string) \<Rightarrow> epoch_ms \<Rightarrow> served_input \<Rightarrow> store \<Rightarrow> string + store" where
  "recordRecallServed sha256 u now inp s =
     (if rs_atomIds inp = [] then Inr s
      else let queryHash = (case rs_queryHash inp of Some h \<Rightarrow> Some h | None \<Rightarrow> map_option (hashQuery sha256) (rs_query inp))
           in case queryHash of
                None \<Rightarrow> Inl ''recordRecallServed requires queryHash or query''
              | Some h \<Rightarrow>
                  if h = [] then Inl ''recordRecallServed requires queryHash or query''
                  else Inr (fold (\<lambda>(i, atomId) s.
                         append_event (u i) now E_Usefulness atomId
                           (Some (P_Recall_Served h (served_score (rs_scores inp) i) (rs_surface inp) (rs_mode inp))) None s)
                       (enumerate 0 (rs_atomIds inp)) s))"


section \<open>The injection policy\<close>

datatype decision_reason =
  Injected | No_Eligible_Memories | Prompt_Too_Short | Smalltalk | Below_Min_Score | Policy_Disabled

record policy_decision =
  pd_inject :: bool
  pd_reason :: decision_reason
  pd_memories :: "pack_memory list"
  pd_pack :: string
  pd_budget_tokens :: int

record policy_config =
  pc_enabled :: bool
  pc_minScore :: real
  pc_minPromptChars :: nat
  pc_budgetTokens :: "int option"

record policy_input =
  pi_repo :: string
  pi_project :: "string option"
  pi_branch :: "string option"
  pi_prompt :: string
  pi_budgetTokens :: "int option"

text \<open>\<open>\b\<close> between the character before (none at the start) and the text after.\<close>

definition word_char :: "char \<Rightarrow> bool" where
  "word_char c \<longleftrightarrow>
     (let n = of_char c :: nat in 48 \<le> n \<and> n \<le> 57 \<or> 65 \<le> n \<and> n \<le> 90 \<or> 97 \<le> n \<and> n \<le> 122 \<or> n = 95)"

definition starts_word :: "string \<Rightarrow> bool" where
  "starts_word s \<longleftrightarrow> (case s of c # _ \<Rightarrow> word_char c | [] \<Rightarrow> False)"

definition word_break :: "char option \<Rightarrow> string \<Rightarrow> bool" where
  "word_break prev s \<longleftrightarrow> (case prev of Some c \<Rightarrow> word_char c | None \<Rightarrow> False) \<noteq> starts_word s"

text \<open>A pattern that may match anywhere.\<close>

fun match_somewhere :: "(char option \<Rightarrow> string \<Rightarrow> bool) \<Rightarrow> char option \<Rightarrow> string \<Rightarrow> bool" where
  "match_somewhere p prev [] = p prev []"
| "match_somewhere p prev (c # cs) = (p prev (c # cs) \<or> match_somewhere p (Some c) cs)"

definition whole_word :: "string \<Rightarrow> char option \<Rightarrow> string \<Rightarrow> bool" where
  "whole_word w prev s \<longleftrightarrow> word_break prev s \<and> prefix w s \<and> word_break (Some (last w)) (drop (length w) s)"

definition MEMORY_REFERENCES :: "string list" where
  "MEMORY_REFERENCES =
     [''remember'', ''recall'', ''last time'', ''previously'', ''we decided'', ''as before'', ''earlier session'',
      ''what did i'', ''what did we'']"

definition references_memory :: "string \<Rightarrow> bool" where
  "references_memory prompt \<longleftrightarrow>
     list_ex (\<lambda>w. match_somewhere (whole_word w) None (js_lower prompt)) MEMORY_REFERENCES"

definition SMALLTALK :: "string list" where
  "SMALLTALK =
     [''hi'', ''hey'', ''hello'', ''thank'', ''thanks'', ''thank you'', ''ok'', ''okay'', ''yes'', ''no'', ''cool'', ''nice'',
      ''lol'', ''good morning'', ''good evening'', ''good night'', ''how are you'']"

definition is_smalltalk :: "string \<Rightarrow> bool" where
  "is_smalltalk prompt \<longleftrightarrow>
     (let s = dropWhile js_ws (js_lower prompt)
      in list_ex (\<lambda>w. prefix w s \<and>
           dropWhile js_ws (dropWhile (\<lambda>c. c \<in> set ''!.?'') (dropWhile js_ws (drop (length w) s))) = []) SMALLTALK)"

definition PROMPT_SHRINK_START_CHARS :: nat where "PROMPT_SHRINK_START_CHARS = 4000"
definition PROMPT_SHRINK_FLOOR_TOKENS :: int where "PROMPT_SHRINK_FLOOR_TOKENS = 300"

definition shrinkBudgetForPrompt :: "int \<Rightarrow> nat \<Rightarrow> int" where
  "shrinkBudgetForPrompt baseBudget promptChars =
     (if promptChars \<le> PROMPT_SHRINK_START_CHARS then baseBudget
      else let over = real promptChars - real PROMPT_SHRINK_START_CHARS;
               factor = max 0 (1 - over / 16000)
           in max PROMPT_SHRINK_FLOOR_TOKENS (js_round (real_of_int baseBudget * factor)))"

definition record_served ::
  "(string \<Rightarrow> string) \<Rightarrow> (nat \<Rightarrow> string) \<Rightarrow> epoch_ms \<Rightarrow> policy_input \<Rightarrow> pack_memory list \<Rightarrow> store \<Rightarrow> string + store" where
  "record_served sha256 u now inp ms s =
     (if ms = [] then Inr s
      else recordRecallServed sha256 u now
             \<lparr>rs_queryHash = None, rs_query = Some (''pack:'' @ pi_repo inp), rs_atomIds = map pm_id ms,
              rs_scores = Some (map pm_score ms), rs_surface = ''rest'', rs_mode = Some ''pack-policy''\<rparr> s)"

definition pack_options_of :: "policy_input \<Rightarrow> int \<Rightarrow> pack_options" where
  "pack_options_of inp budget =
     \<lparr>po_repo = pi_repo inp, po_project = pi_project inp, po_branch = pi_branch inp,
      po_budgetTokens = Some budget, po_typeWeights = None\<rparr>"

definition skip_injection :: "decision_reason \<Rightarrow> int \<Rightarrow> policy_decision" where
  "skip_injection reason budget =
     \<lparr>pd_inject = False, pd_reason = reason, pd_memories = [], pd_pack = [], pd_budget_tokens = budget\<rparr>"

definition base_budget :: "policy_config \<Rightarrow> policy_input \<Rightarrow> int" where
  "base_budget cfg inp =
     (case pi_budgetTokens inp of
        Some b \<Rightarrow> b
      | None \<Rightarrow> (case pc_budgetTokens cfg of Some b \<Rightarrow> b | None \<Rightarrow> DEFAULT_BUDGET_TOKENS))"

definition decideInjection ::
  "(string \<Rightarrow> string) \<Rightarrow> (nat \<Rightarrow> string) \<Rightarrow> epoch_ms \<Rightarrow> policy_config \<Rightarrow> policy_input \<Rightarrow> store \<Rightarrow>
   string + (policy_decision \<times> store)" where
  "decideInjection sha256 u now cfg inp s =
     (let baseBudget = base_budget cfg inp
      in if \<not> pc_enabled cfg
         then (let ms = selectPack (pack_options_of inp baseBudget) now s
               in case record_served sha256 u now inp ms s of
                    Inl e \<Rightarrow> Inl e
                  | Inr s' \<Rightarrow>
                      Inr (\<lparr>pd_inject = (ms \<noteq> []), pd_reason = (if ms \<noteq> [] then Injected else No_Eligible_Memories),
                            pd_memories = ms, pd_pack = renderPack ms, pd_budget_tokens = baseBudget\<rparr>, s'))
         else
           (let prompt = pi_prompt inp; refs = references_memory prompt
            in if \<not> refs \<and> is_smalltalk prompt then Inr (skip_injection Smalltalk baseBudget, s)
               else if \<not> refs \<and> length (trim prompt) < pc_minPromptChars cfg
               then Inr (skip_injection Prompt_Too_Short baseBudget, s)
               else
                 (let budget = shrinkBudgetForPrompt baseBudget (length prompt);
                      candidates = selectPack (pack_options_of inp budget) now s
                  in if candidates = [] then Inr (skip_injection No_Eligible_Memories budget, s)
                     else
                       (let confident = filter (\<lambda>m. pc_minScore cfg \<le> pm_score m) candidates
                        in if confident = [] then Inr (skip_injection Below_Min_Score budget, s)
                           else case record_served sha256 u now inp confident s of
                                  Inl e \<Rightarrow> Inl e
                                | Inr s' \<Rightarrow>
                                    Inr (\<lparr>pd_inject = True, pd_reason = Injected, pd_memories = confident,
                                          pd_pack = renderPack confident, pd_budget_tokens = budget\<rparr>, s')))))"

section \<open>The budget\<close>

definition pack_cost :: "pack_memory list \<Rightarrow> int" where
  "pack_cost ms = sum_list (map (\<lambda>m. estimateTokens (pm_text m)) ms)"

lemma estimateTokens_nonneg: "0 \<le> estimateTokens t"
  by (simp add: estimateTokens_def)

lemma pack_cost_filter: "pack_cost (filter P ms) \<le> pack_cost ms"
  by (induction ms) (auto simp: pack_cost_def estimateTokens_nonneg intro: add_increasing)

lemma take_budget_facts:
  "pack_cost pack = spent \<Longrightarrow> pack \<noteq> [] \<longrightarrow> spent \<le> budget \<Longrightarrow>
   prefix (take_budget budget spent pack ms) (pack @ ms) \<and>
   (pack_cost (take_budget budget spent pack ms) \<le> budget \<or> length (take_budget budget spent pack ms) \<le> 1) \<and>
   (pack @ ms \<noteq> [] \<longrightarrow> take_budget budget spent pack ms \<noteq> [])"
proof (induction budget spent pack ms rule: take_budget.induct)
  case (2 budget spent pack m ms)
  let ?c = "estimateTokens (pm_text m)"
  show ?case
  proof (cases "budget < spent + ?c")
    case True
    then show ?thesis using 2(2,3) by auto
  next
    case False
    have cost: "pack_cost (pack @ [m]) = spent + ?c" using 2(2) by (simp add: pack_cost_def)
    show ?thesis using 2(1)[OF refl False cost] False by simp
  qed
qed auto

lemma selectPack_facts:
  "prefix (selectPack opts now s) (scored_rows opts now s) \<and>
   (pack_cost (selectPack opts now s) \<le> (case po_budgetTokens opts of Some b \<Rightarrow> b | None \<Rightarrow> DEFAULT_BUDGET_TOKENS) \<or>
    length (selectPack opts now s) \<le> 1) \<and>
   (selectPack opts now s = [] \<longleftrightarrow> scored_rows opts now s = [])"
proof -
  have "pack_cost [] = 0" by (simp add: pack_cost_def)
  from take_budget_facts[OF this, of _ "scored_rows opts now s"] show ?thesis
    by (auto simp: selectPack_def Let_def)
qed

text \<open>The row a packed memory comes from.\<close>

definition packable :: "pack_options \<Rightarrow> memory \<Rightarrow> bool" where
  "packable opts r \<longleftrightarrow>
     mem_project r = Some (case po_project opts of Some p \<Rightarrow> p | None \<Rightarrow> po_repo opts) \<and> mem_valid_to r = None \<and>
     (case po_branch opts of None \<Rightarrow> True | Some b \<Rightarrow> mem_branch r = Some b)"

lemma selectPack_rows:
  assumes "m \<in> set (selectPack opts now s)"
  obtains r where "r \<in> set (memories s)" "packable opts r" "pm_id m = mem_id r" "pm_text m = mem_text r"
proof -
  have "m \<in> set (scored_rows opts now s)" using assms selectPack_facts by (meson set_mono_prefix subset_iff)
  then obtain r where r: "r \<in> set (pack_rows opts s)" "pm_id m = mem_id r" "pm_text m = mem_text r"
    by (auto simp: scored_rows_def score_row_def Let_def)
  then have "r \<in> set (memories s) \<and> packable opts r"
    by (auto simp: pack_rows_def packable_def Let_def dest!: in_set_takeD split: option.splits)
  then show ?thesis using r that by blast
qed

lemma packable_budget: "packable (pack_options_of inp b) r = packable (pack_options_of inp 0) r"
  by (cases "pi_project inp") (simp_all add: packable_def pack_options_of_def)

section \<open>The events\<close>

definition served_events :: "string \<Rightarrow> pack_memory list \<Rightarrow> (string \<times> payload option) list" where
  "served_events h ms = map (\<lambda>m. (pm_id m, Some (P_Recall_Served h (Some (pm_score m)) ''rest'' (Some ''pack-policy'')))) ms"

definition log_entry :: "mem_event \<Rightarrow> string \<times> payload option" where
  "log_entry e = (atom_id e, ev_payload e)"

lemma fold_append_events:
  "memories (fold (\<lambda>(i, a). append_event (u i) now ty a (p i) None) xs s) = memories s \<and>
   map log_entry (events (fold (\<lambda>(i, a). append_event (u i) now ty a (p i) None) xs s)) =
     map log_entry (events s) @ map (\<lambda>(i, a). (a, p i)) xs"
  by (induction xs arbitrary: s) (auto simp: append_event_def log_entry_def)

lemma enumerate_served:
  "map (\<lambda>(i, a). (a, Some (P_Recall_Served h (served_score (Some (map pm_score ms)) i) ''rest'' (Some ''pack-policy''))))
     (enumerate 0 (map pm_id ms)) = served_events h ms"
  by (rule nth_equalityI) (simp_all add: nth_enumerate_eq served_events_def served_score_def)

lemma record_served_facts:
  "case record_served sha256 u now inp ms s of
     Inl e \<Rightarrow> hashQuery sha256 (''pack:'' @ pi_repo inp) = []
   | Inr s' \<Rightarrow> memories s' = memories s \<and>
       map log_entry (events s') = map log_entry (events s) @ served_events (hashQuery sha256 (''pack:'' @ pi_repo inp)) ms"
proof (cases "ms = []")
  case True
  then show ?thesis by (simp add: record_served_def served_events_def)
next
  case False
  define h where "h = hashQuery sha256 (''pack:'' @ pi_repo inp)"
  define ev where "ev = (\<lambda>i. Some (P_Recall_Served h (served_score (Some (map pm_score ms)) i) ''rest'' (Some ''pack-policy'')))"
  have r: "record_served sha256 u now inp ms s =
      (if h = [] then Inl ''recordRecallServed requires queryHash or query''
       else Inr (fold (\<lambda>(i, a). append_event (u i) now E_Usefulness a (ev i) None) (enumerate 0 (map pm_id ms)) s))"
    using False unfolding record_served_def recordRecallServed_def h_def ev_def by simp
  show ?thesis
    using fold_append_events[of u now E_Usefulness ev "enumerate 0 (map pm_id ms)" s] enumerate_served[of h ms]
    unfolding r h_def[symmetric] by (simp add: ev_def)
qed

lemma shrink_bounds:
  "shrinkBudgetForPrompt b n \<le> max b 300 \<and> (4000 < n \<longrightarrow> 300 \<le> shrinkBudgetForPrompt b n)"
proof -
  have "js_round (real_of_int b * max 0 (1 - (real n - 4000) / 16000)) \<le> max b 300" if "4000 < n"
  proof -
    let ?f = "max 0 (1 - (real n - 4000) / 16000)"
    have f: "0 \<le> ?f" "?f \<le> 1" using that by auto
    have "real_of_int b * ?f \<le> real_of_int (max b 0)"
    proof (cases "0 \<le> b")
      case True
      then show ?thesis using f mult_left_le[of ?f "real_of_int b"] by simp
    next
      case False
      then have "real_of_int b * ?f \<le> 0" using f by (intro mult_nonpos_nonneg) auto
      then show ?thesis by simp
    qed
    then have "js_round (real_of_int b * ?f) \<le> max b 0" using js_round_mono js_round_of_int by metis
    then show ?thesis by linarith
  qed
  then show ?thesis
    by (auto simp: shrinkBudgetForPrompt_def PROMPT_SHRINK_START_CHARS_def PROMPT_SHRINK_FLOOR_TOKENS_def Let_def)
qed



text \<open>A long prompt grows a budget below the floor.\<close>

lemma shrink_grows_small_budget: "shrinkBudgetForPrompt 100 5000 = 300"
  by (simp add: shrinkBudgetForPrompt_def PROMPT_SHRINK_START_CHARS_def PROMPT_SHRINK_FLOOR_TOKENS_def js_round_def floor_eq_iff)

section \<open>The lines of a rendered pack\<close>

definition expand_line :: "string \<Rightarrow> string list" where
  "expand_line l = (case l of c # cs \<Rightarrow> if c = NL then [[], cs] else [l] | [] \<Rightarrow> [l])"

lemma join_expand: "join_with [NL] (concat (map expand_line ls)) = join_with [NL] ls"
proof (induction ls)
  case (Cons l ls)
  show ?case
  proof (cases "ls = []")
    case True
    then show ?thesis by (auto simp: expand_line_def split: list.splits)
  next
    case False
    then have "concat (map expand_line ls) \<noteq> []" by (cases ls) (auto simp: expand_line_def split: list.splits)
    then show ?thesis using Cons False by (auto simp: expand_line_def join_Cons split: list.splits)
  qed
qed simp

definition pack_groups :: "pack_memory list \<Rightarrow> (string \<times> pack_memory list) list" where
  "pack_groups ms = fold group_step ms []"

definition pack_lines :: "pack_memory list \<Rightarrow> string list" where
  "pack_lines ms =
     ''# Repo memory pack'' # concat (map (\<lambda>(ty, lst). [] # render_heading ty # map render_item lst) (pack_groups ms))"

lemma group_step_facts:
  assumes "distinct (map fst g)" "\<forall>(ty, l) \<in> set g. l \<noteq> [] \<and> (\<forall>m \<in> set l. pm_type m = ty)"
  shows "distinct (map fst (group_step m g)) \<and>
    (\<forall>(ty, l) \<in> set (group_step m g). l \<noteq> [] \<and> (\<forall>m \<in> set l. pm_type m = ty)) \<and>
    mset (concat (map snd (group_step m g))) = add_mset m (mset (concat (map snd g)))"
  using assms
proof (induction g)
  case (Cons tl g)
  obtain ty l where tl: "tl = (ty, l)" by fastforce
  show ?case
  proof (cases "ty = pm_type m")
    case True
    then show ?thesis using Cons.prems by (auto simp: tl group_step_def)
  next
    case False
    have s: "group_step m (tl # g) = tl # group_step m g" using False by (auto simp: tl group_step_def Let_def)
    have prems: "distinct (map fst g)" "\<forall>(ty, l) \<in> set g. l \<noteq> [] \<and> (\<forall>m \<in> set l. pm_type m = ty)"
      and head: "ty \<notin> fst ` set g" "l \<noteq> []" "\<forall>m \<in> set l. pm_type m = ty" using Cons.prems by (auto simp: tl)
    have "set (map fst (group_step m g)) \<subseteq> insert (pm_type m) (set (map fst g))"
      unfolding group_step_def Let_def obj_set_keys by auto
    then have "ty \<notin> fst ` set (group_step m g)" using False head(1) by auto
    then show ?thesis using Cons.IH[OF prems] head unfolding s by (simp add: tl)
  qed
qed (simp add: group_step_def)

lemma pack_groups_facts:
  "distinct (map fst (pack_groups ms)) \<and>
   (\<forall>(ty, l) \<in> set (pack_groups ms). l \<noteq> [] \<and> (\<forall>m \<in> set l. pm_type m = ty)) \<and>
   mset (concat (map snd (pack_groups ms))) = mset ms"
proof -
  have "distinct (map fst g) \<Longrightarrow> \<forall>(ty, l) \<in> set g. l \<noteq> [] \<and> (\<forall>m \<in> set l. pm_type m = ty) \<Longrightarrow>
      distinct (map fst (fold group_step ms g)) \<and>
      (\<forall>(ty, l) \<in> set (fold group_step ms g). l \<noteq> [] \<and> (\<forall>m \<in> set l. pm_type m = ty)) \<and>
      mset (concat (map snd (fold group_step ms g))) = mset ms + mset (concat (map snd g))" for g
  proof (induction ms arbitrary: g)
    case (Cons m ms)
    from group_step_facts[OF Cons.prems, of m] Cons.IH[of "group_step m g"] show ?case by simp
  qed simp
  from this[of "[]"] show ?thesis by (simp add: pack_groups_def)
qed

text \<open>
  A memory text, whatever it contains, stays on the one line of its list item: the lines of the
  pack are its title and, per type, a blank line, a heading and one line per memory of the type.
\<close>

lemma rendered_pack_lines:
  assumes "ms \<noteq> []" and ok: "\<And>m. m \<in> set ms \<Longrightarrow> NL \<notin> set (pm_type m) \<and> NL \<notin> set (pm_id m)"
  shows "split_at_char NL (renderPack ms) = pack_lines ms"
proof -
  have r: "renderPack ms = join_with [NL] (''# Repo memory pack'' #
      concat (map (\<lambda>(ty, lst). (NL # render_heading ty) # map render_item lst) (pack_groups ms)))"
    using assms(1) by (simp add: renderPack_def pack_groups_def Let_def)
  have group: "NL \<notin> set (render_heading ty) \<and> (\<forall>m \<in> set l. NL \<notin> set (render_item m))"
    if g: "(ty, l) \<in> set (pack_groups ms)" for ty l
  proof -
    have l: "l \<noteq> []" "\<forall>m \<in> set l. pm_type m = ty" using pack_groups_facts[of ms] g by auto
    have "set l \<subseteq> set (concat (map snd (pack_groups ms)))" using g by force
    also have "\<dots> = set ms" using pack_groups_facts[of ms] by (metis set_mset_mset)
    finally have sub: "set l \<subseteq> set ms" .
    then have "NL \<notin> set ty" using l ok by (metis hd_in_set subset_iff)
    moreover have "TYPE_HEADINGS ty = Some h \<Longrightarrow> NL \<notin> set h" for h
      by (auto simp: TYPE_HEADINGS_def split: if_splits)
    ultimately have "NL \<notin> set (render_heading ty)" by (auto simp: render_heading_def split: option.split)
    moreover have "NL \<notin> set (render_item m)" if "m \<in> set l" for m
      using ok sub that collapse_ws_no_NL by (auto simp: render_item_def)
    ultimately show ?thesis by blast
  qed
  have item: "expand_line (render_item m) = [render_item m]" for m by (simp add: expand_line_def render_item_def)
  have heading: "expand_line (NL # x) = [[], x]" for x by (simp add: expand_line_def)
  have title: "expand_line ''# Repo memory pack'' = [''# Repo memory pack'']" by (simp add: expand_line_def)
  have "concat (map expand_line (concat (map (\<lambda>(ty, lst). (NL # render_heading ty) # map render_item lst) gs))) =
      concat (map (\<lambda>(ty, lst). [] # render_heading ty # map render_item lst) gs)" for gs
  proof (induction gs)
    case (Cons g gs)
    obtain ty l where g: "g = (ty, l)" by fastforce
    have "concat (map expand_line (map render_item l)) = map render_item l" by (induction l) (simp_all add: item)
    then show ?case using Cons by (simp add: g heading)
  qed simp
  then have "renderPack ms = join_with [NL] (pack_lines ms)"
    unfolding r by (subst join_expand[symmetric]) (simp add: pack_lines_def title)
  moreover have "NL \<notin> set x" if "x \<in> set (pack_lines ms)" for x
    using that group by (auto simp: pack_lines_def)
  moreover have "pack_lines ms \<noteq> []" by (simp add: pack_lines_def)
  ultimately show ?thesis using split_join[of "pack_lines ms" NL] by simp
qed

end
