(* ===== verification/Providers.thy ===== *)
theory Providers
  imports Jobs Pack
begin

text \<open>
  The decorators around an LLM provider: classification of a failure and the health entry of a
  provider (\<open>src/src/providers/llm/health-tracking.ts\<close>), the quota circuit breaker
  (\<open>quota-breaker.ts\<close>), the token bucket (\<open>rate-limited.ts\<close>) and the parsing of
  \<open>Retry-After\<close> (\<open>retry-after.ts\<close>); and the guard against texts the embedding model cannot take
  with its repair scan (\<open>src/src/pipeline/oversize.ts\<close>, \<open>oversize-scanner.ts\<close>). A call of the
  provider is split where it awaits the network, so that other calls can run in between. Time and
  tokens are reals; \<open>Date.parse\<close> is a parameter. The dash in the remedy texts is written \<open>-\<close>.
\<close>

section \<open>Classifying a failure\<close>

datatype provider_failure = Auth | Quota | Server_Error

definition is_digit :: "char \<Rightarrow> bool" where
  "is_digit c \<longleftrightarrow> (let n = of_char c :: nat in 48 \<le> n \<and> n \<le> 57)"

text \<open>\<open>/\bHTTP\s+...\b/\<close>, with the three characters of the status checked by \<open>ok\<close>.\<close>

definition http_status :: "(string \<Rightarrow> bool) \<Rightarrow> char option \<Rightarrow> string \<Rightarrow> bool" where
  "http_status ok prev s \<longleftrightarrow>
     word_break prev s \<and> prefix ''HTTP'' s \<and>
     (let r = drop 4 s; digits = dropWhile js_ws r
      in digits \<noteq> r \<and> ok (take 3 digits) \<and> word_break (Some (last (take 3 digits))) (drop 3 digits))"

text \<open>\<open>/rate.?limit/i\<close> on the lower-cased text; the dot is no line terminator.\<close>

definition rate_limit_at :: "char option \<Rightarrow> string \<Rightarrow> bool" where
  "rate_limit_at prev s \<longleftrightarrow>
     prefix ''ratelimit'' s \<or>
     (prefix ''rate'' s \<and> (case drop 4 s of c # r \<Rightarrow> c \<noteq> NL \<and> c \<noteq> CR \<and> prefix ''limit'' r | [] \<Rightarrow> False))"

text \<open>
  \<open>/rate-limited\s*\(429\)/i\<close> is subsumed by \<open>/rate.?limit/i\<close>.
\<close>

definition classifyProviderFailure :: "string \<Rightarrow> (provider_failure \<times> string) option" where
  "classifyProviderFailure message =
     (if match_somewhere (http_status (\<lambda>d. d = ''401'' \<or> d = ''403'')) None message
        \<or> js_includes (js_lower message) ''unauthoriz'' \<or> js_includes (js_lower message) ''re-login required''
      then Some (Auth, message)
      else if match_somewhere (http_status (\<lambda>d. d = ''429'')) None message
        \<or> match_somewhere rate_limit_at None (js_lower message)
        \<or> match_somewhere (whole_word ''quota'') None (js_lower message)
      then Some (Quota, message)
      else if match_somewhere (http_status (\<lambda>d. length d = 3 \<and> d ! 0 = CHR ''5'' \<and> list_all is_digit d)) None message
      then Some (Server_Error, message)
      else None)"

section \<open>Health of a provider\<close>

datatype health_status = Up | Down

record health_entry =
  he_status :: health_status
  he_reason :: "provider_failure option"
  he_message :: "string option"
  he_since :: "epoch_ms option"
  he_consecutiveFailures :: nat
  he_lastError :: "string option"
  he_lastFailureAt :: "epoch_ms option"
  he_lastSuccessAt :: "epoch_ms option"

definition createProviderHealthEntry :: health_entry where
  "createProviderHealthEntry =
     \<lparr>he_status = Up, he_reason = None, he_message = None, he_since = None, he_consecutiveFailures = 0,
      he_lastError = None, he_lastFailureAt = None, he_lastSuccessAt = None\<rparr>"

definition DEFAULT_CONSECUTIVE_FAILURE_THRESHOLD :: nat where "DEFAULT_CONSECUTIVE_FAILURE_THRESHOLD = 3"

definition providerFailureRemedy :: "string \<Rightarrow> provider_failure \<Rightarrow> string" where
  "providerFailureRemedy providerName k =
     (let switchHint = ''or switch provider (config.llm.extraction.provider / config.llm.compaction.provider)''
      in case k of
           Auth \<Rightarrow>
             if providerName = ''codex-subscription''
             then providerName @ '': auth failure - run `codex login` to refresh your ChatGPT session, '' @ switchHint @ ''.''
             else providerName @ '': auth failure (401/403) - check your API key/credentials, '' @ switchHint @ ''.''
         | Quota \<Rightarrow>
             if providerName = ''codex-subscription''
             then providerName @ '': quota/rate limit (429) - check your ChatGPT subscription quota, wait and retry, '' @ switchHint @ ''.''
             else providerName @ '': quota/rate limit (429) - check your plan limits, wait and retry, '' @ switchHint @ ''.''
         | Server_Error \<Rightarrow>
             providerName @ '': repeated server errors (5xx) - the provider may be degraded; check its status page, '' @ switchHint @ ''.'')"

definition recordSuccess :: "epoch_ms \<Rightarrow> health_entry \<Rightarrow> health_entry" where
  "recordSuccess now e =
     (let e1 = e\<lparr>he_consecutiveFailures := 0, he_lastSuccessAt := Some now\<rparr>
      in if he_status e = Down
         then e1\<lparr>he_status := Up, he_reason := None, he_message := None, he_since := Some now\<rparr> else e1)"

definition recordFailure :: "string \<Rightarrow> nat \<Rightarrow> epoch_ms \<Rightarrow> string \<Rightarrow> health_entry \<Rightarrow> health_entry" where
  "recordFailure name threshold now err e =
     (case classifyProviderFailure err of
        None \<Rightarrow> e
      | Some (k, message) \<Rightarrow>
          (let e1 = e\<lparr>he_consecutiveFailures := he_consecutiveFailures e + 1, he_lastFailureAt := Some now,
                       he_lastError := Some message\<rparr>
           in if threshold \<le> he_consecutiveFailures e1
              then (let wasUp = (he_status e1 = Up);
                        e2 = e1\<lparr>he_status := Down, he_reason := Some k,
                                he_message := Some (providerFailureRemedy name k)\<rparr>
                    in if wasUp then e2\<lparr>he_since := Some now\<rparr> else e2)
              else e1))"

text \<open>The registry of the entries by provider name, and the outcome of a call at a time.\<close>

datatype outcome = Answered | Threw string

definition getProviderHealthEntry :: "string \<Rightarrow> (string \<rightharpoonup> health_entry) \<Rightarrow> health_entry \<times> (string \<rightharpoonup> health_entry)" where
  "getProviderHealthEntry name registry =
     (case registry name of
        Some e \<Rightarrow> (e, registry)
      | None \<Rightarrow> (createProviderHealthEntry, registry(name \<mapsto> createProviderHealthEntry)))"

definition track_outcome :: "string \<Rightarrow> nat \<Rightarrow> epoch_ms \<times> outcome \<Rightarrow> health_entry \<Rightarrow> health_entry" where
  "track_outcome name threshold o_t e =
     (case o_t of (now, Answered) \<Rightarrow> recordSuccess now e | (now, Threw err) \<Rightarrow> recordFailure name threshold now err e)"

definition hasAnyProviderDown :: "(string \<times> health_entry) list \<Rightarrow> bool" where
  "hasAnyProviderDown entries \<longleftrightarrow> list_ex (\<lambda>(_, e). he_status e = Down) entries"

section \<open>The quota breaker\<close>

record breaker_state =
  consecutiveQuotaFailures :: nat
  tripped :: bool

text \<open>What a call of \<open>chat\<close> throws: the sentinel of an open breaker or the provider's own error.\<close>

datatype chat_error = ProviderQuotaBreakerOpenError nat | Provider_Error string

definition fresh_breaker :: breaker_state where
  "fresh_breaker = \<lparr>consecutiveQuotaFailures = 0, tripped = False\<rparr>"

text \<open>Before the network: refused when the breaker is open.\<close>

definition breaker_admit :: "breaker_state \<Rightarrow> chat_error option" where
  "breaker_admit st = (if tripped st then Some (ProviderQuotaBreakerOpenError (consecutiveQuotaFailures st)) else None)"

text \<open>After it: the new state and what the caller gets (\<open>None\<close>: the answer).\<close>

definition breaker_settle :: "real \<Rightarrow> outcome \<Rightarrow> breaker_state \<Rightarrow> breaker_state \<times> chat_error option" where
  "breaker_settle threshold oc st =
     (case oc of
        Answered \<Rightarrow> (st\<lparr>consecutiveQuotaFailures := 0\<rparr>, None)
      | Threw err \<Rightarrow>
          (case classifyProviderFailure err of
             Some (Quota, _) \<Rightarrow>
               (let st1 = st\<lparr>consecutiveQuotaFailures := consecutiveQuotaFailures st + 1\<rparr>
                in if threshold \<le> real (consecutiveQuotaFailures st1)
                   then (st1\<lparr>tripped := True\<rparr>, Some (ProviderQuotaBreakerOpenError (consecutiveQuotaFailures st1)))
                   else (st1, Some (Provider_Error err)))
           | _ \<Rightarrow> (st, Some (Provider_Error err))))"

record breaker_config =
  bc_off :: bool
  bc_threshold :: "real option option"

text \<open>
  \<open>wrapWithQuotaBreaker\<close>: the threshold of the decorator, \<open>None\<close> when the provider is returned
  bare. A configured threshold is \<open>Some None\<close> when it is not finite.
\<close>

definition wrapWithQuotaBreaker :: "breaker_config option \<Rightarrow> real option" where
  "wrapWithQuotaBreaker cfg =
     (case cfg of
        None \<Rightarrow> Some (real DEFAULT_CONSECUTIVE_FAILURE_THRESHOLD)
      | Some c \<Rightarrow>
          if bc_off c then None
          else case bc_threshold c of
                 None \<Rightarrow> Some (real DEFAULT_CONSECUTIVE_FAILURE_THRESHOLD)
               | Some None \<Rightarrow> None
               | Some (Some t) \<Rightarrow> if t \<le> 0 then None else Some t)"

definition resetAllProviderQuotaBreakers ::
  "(string \<times> breaker_state) list \<Rightarrow> nat \<times> (string \<times> breaker_state) list" where
  "resetAllProviderQuotaBreakers registry =
     (length (filter (\<lambda>(_, st). tripped st) registry),
      map (\<lambda>(name, st). (name, st\<lparr>consecutiveQuotaFailures := 0, tripped := False\<rparr>)) registry)"

text \<open>
  The callers of one provider, at most \<open>width\<close> at a time: a call starts, an outstanding call
  settles, the operator resets. \<open>dispatched\<close> counts the calls that reached the network.
\<close>

datatype breaker_event = Call | Settle outcome | Reset

record breaker_world =
  breaker :: breaker_state
  in_flight :: nat
  dispatched :: nat

definition breaker_step :: "real \<Rightarrow> nat \<Rightarrow> breaker_event \<Rightarrow> breaker_world \<Rightarrow> breaker_world" where
  "breaker_step threshold width ev w =
     (case ev of
        Call \<Rightarrow>
          if in_flight w < width \<and> breaker_admit (breaker w) = None
          then w\<lparr>in_flight := in_flight w + 1, dispatched := dispatched w + 1\<rparr> else w
      | Settle oc \<Rightarrow>
          if in_flight w = 0 then w
          else w\<lparr>in_flight := in_flight w - 1, breaker := fst (breaker_settle threshold oc (breaker w))\<rparr>
      | Reset \<Rightarrow> w\<lparr>breaker := snd (hd (snd (resetAllProviderQuotaBreakers [('''', breaker w)])))\<rparr>)"

definition fresh_world :: breaker_world where
  "fresh_world = \<lparr>breaker = fresh_breaker, in_flight = 0, dispatched = 0\<rparr>"


section \<open>The token bucket\<close>

record bucket =
  ratePerMinute :: real
  capacity :: real
  tokens :: real
  lastRefillMs :: real

definition new_bucket :: "real \<Rightarrow> real \<Rightarrow> real \<Rightarrow> bucket" where
  "new_bucket rate cap nowMs = \<lparr>ratePerMinute = rate, capacity = cap, tokens = cap, lastRefillMs = nowMs\<rparr>"

definition refill :: "real \<Rightarrow> bucket \<Rightarrow> bucket" where
  "refill nowMs b =
     (let elapsedMin = (nowMs - lastRefillMs b) / 60000
      in if elapsedMin \<le> 0 then b
         else b\<lparr>tokens := min (capacity b) (tokens b + elapsedMin * ratePerMinute b), lastRefillMs := nowMs\<rparr>)"

definition availableTokens :: "real \<Rightarrow> bucket \<Rightarrow> int \<times> bucket" where
  "availableTokens nowMs b = (let b' = refill nowMs b in (\<lfloor>tokens b'\<rfloor>, b'))"

text \<open>One turn of the loop of \<open>acquire\<close>: a token taken, or the time to sleep before the next turn.\<close>

datatype acquire_turn = Acquired | Sleep int

definition acquire_try :: "real \<Rightarrow> bucket \<Rightarrow> acquire_turn \<times> bucket" where
  "acquire_try nowMs b =
     (let b1 = refill nowMs b
      in if 1 \<le> tokens b1 then (Acquired, b1\<lparr>tokens := tokens b1 - 1\<rparr>)
         else let deficit = 1 - tokens b1;
                  waitMs = \<lceil>deficit / ratePerMinute b1 * 60000\<rceil>
              in (Sleep (min (max waitMs 5) 250), b1))"

text \<open>The turns of all callers of a shared bucket, at the given times; the calls that got a token.\<close>

fun acquire_all :: "real list \<Rightarrow> bucket \<Rightarrow> nat \<times> bucket" where
  "acquire_all [] b = (0, b)"
| "acquire_all (t # ts) b =
     (case acquire_try t b of
        (Acquired, b') \<Rightarrow> (let (n, b'') = acquire_all ts b' in (n + 1, b''))
      | (Sleep _, b') \<Rightarrow> acquire_all ts b')"

text \<open>\<open>rateLimitLLMProvider\<close>: no bucket when the rate is absent or not positive.\<close>

definition rateLimitLLMProvider :: "real option \<Rightarrow> real \<Rightarrow> bucket option \<Rightarrow> bucket option" where
  "rateLimitLLMProvider callsPerMinute nowMs shared =
     (case callsPerMinute of
        None \<Rightarrow> None
      | Some r \<Rightarrow>
          if r \<le> 0 then None
          else case shared of
                 Some b \<Rightarrow> Some b
               | None \<Rightarrow> Some (new_bucket r (real_of_int (max 1 \<lceil>r / 6\<rceil>)) nowMs))"

section \<open>Retry-After\<close>

definition MAX_RETRY_AFTER_MS :: int where "MAX_RETRY_AFTER_MS = 5 * 60000"

definition digits_value :: "string \<Rightarrow> int" where
  "digits_value s = fold (\<lambda>c n. 10 * n + (int (of_char c) - 48)) s 0"

text \<open>\<open>Number\<close> of a decimal numeral is infinite from the rounding bound of the largest double on.\<close>

definition NUMBER_OVERFLOW :: int where "NUMBER_OVERFLOW = 2 ^ 1024 - 2 ^ 970"

definition parseRetryAfterMs :: "(string \<Rightarrow> int option) \<Rightarrow> int \<Rightarrow> string option \<Rightarrow> int option" where
  "parseRetryAfterMs date_parse now header =
     (case header of
        None \<Rightarrow> None
      | Some h \<Rightarrow>
          (let trimmed = trim h
           in if h = [] \<or> trimmed = [] then None
              else if list_all is_digit trimmed
              then (let seconds = digits_value trimmed
                    in if NUMBER_OVERFLOW \<le> seconds \<or> seconds < 0 then None
                       else Some (min (seconds * 1000) MAX_RETRY_AFTER_MS))
              else case date_parse trimmed of
                     None \<Rightarrow> None
                   | Some dateMs \<Rightarrow>
                       if dateMs - now \<le> 0 then None else Some (min (dateMs - now) MAX_RETRY_AFTER_MS)))"

section \<open>Texts the embedding model cannot take\<close>

definition EMBED_CONTEXT_TOKENS :: nat where "EMBED_CONTEXT_TOKENS = 512"
definition CHARS_PER_TOKEN :: nat where "CHARS_PER_TOKEN = 4"

definition EMBED_MAX_INPUT_CHARS :: nat where
  "EMBED_MAX_INPUT_CHARS = EMBED_CONTEXT_TOKENS * CHARS_PER_TOKEN * 85 div 100"

definition isOversizeText :: "string \<Rightarrow> bool" where
  "isOversizeText t \<longleftrightarrow> EMBED_MAX_INPUT_CHARS < length t"

definition truncateForEmbedding :: "string \<Rightarrow> string \<times> bool" where
  "truncateForEmbedding t =
     (if length t \<le> EMBED_MAX_INPUT_CHARS then (t, False) else (take EMBED_MAX_INPUT_CHARS t, True))"

definition isContextLengthExceededError :: "string \<Rightarrow> bool" where
  "isContextLengthExceededError message \<longleftrightarrow>
     js_includes (js_lower message) ''context length'' \<or> js_includes (js_lower message) ''input length exceeds''"

datatype embed_error = Deterministic_Embed string nat string nat | Passed_On string

definition embedWithOversizeGuard ::
  "string \<Rightarrow> (string \<Rightarrow> string + 'v) \<Rightarrow> string \<Rightarrow> nat \<Rightarrow> embed_error + 'v" where
  "embedWithOversizeGuard t provider memoryId originalLength =
     (case provider t of
        Inr v \<Rightarrow> Inr v
      | Inl message \<Rightarrow>
          if isContextLengthExceededError message
          then Inl (Deterministic_Embed message (length t) memoryId originalLength)
          else Inl (Passed_On message))"

definition OVERSIZE_SCAN_LIMIT :: nat where "OVERSIZE_SCAN_LIMIT = 500"

record scan_result =
  scan_candidates :: nat
  scan_enqueued :: nat
  scan_alreadyQueued :: nat

text \<open>\<open>extract\<close> is \<open>json_extract(payload_json, '$.memory_id')\<close>.\<close>

definition listActiveReembedMemoryIds :: "(string \<Rightarrow> string option) \<Rightarrow> jobs \<Rightarrow> string list" where
  "listActiveReembedMemoryIds extract js =
     map the (filter (\<lambda>x. x \<noteq> None) (map (\<lambda>j. extract (payload_json j))
       (filter (\<lambda>j. kind j = Reembed \<and> state j \<notin> {Completed, Poison}) js)))"

text \<open>The loop; an error of \<open>enqueue\<close> leaves the jobs already inserted.\<close>

fun scan_loop ::
  "(string \<Rightarrow> string) \<Rightarrow> (nat \<Rightarrow> string) \<Rightarrow> epoch_ms \<Rightarrow> string list \<Rightarrow> string list \<Rightarrow> nat \<Rightarrow> nat \<Rightarrow> jobs \<Rightarrow>
   (sql_error \<times> jobs) + (nat \<times> nat \<times> jobs)" where
  "scan_loop payload_of u now active [] enq dup js = Inr (enq, dup, js)"
| "scan_loop payload_of u now active (i # ids) enq dup js =
     (if i \<in> set active then scan_loop payload_of u now active ids enq (dup + 1) js
      else case enqueue (u enq) now Reembed (payload_of i) js of
             Inl e \<Rightarrow> Inl (e, js)
           | Inr js' \<Rightarrow> scan_loop payload_of u now active ids (enq + 1) dup js')"

definition scanAndEnqueueOversizeRepairs ::
  "(string \<Rightarrow> string option) \<Rightarrow> (string \<Rightarrow> string) \<Rightarrow> (nat \<Rightarrow> string) \<Rightarrow> epoch_ms \<Rightarrow> nat \<Rightarrow> store \<Rightarrow> jobs \<Rightarrow>
   (sql_error \<times> jobs) + (scan_result \<times> jobs)" where
  "scanAndEnqueueOversizeRepairs extract payload_of u now limit s js =
     (let candidateIds = listOversizeNeedingVecIndex EMBED_MAX_INPUT_CHARS limit s;
          active = listActiveReembedMemoryIds extract js
      in case scan_loop payload_of u now active candidateIds 0 0 js of
           Inl err \<Rightarrow> Inl err
         | Inr (enq, dup, js') \<Rightarrow>
             Inr (\<lparr>scan_candidates = length candidateIds, scan_enqueued = enq, scan_alreadyQueued = dup\<rparr>, js'))"

section \<open>The breaker under a storm\<close>

lemma reset_breaker: "snd (hd (snd (resetAllProviderQuotaBreakers [(n, st)]))) = fresh_breaker"
  by (simp add: resetAllProviderQuotaBreakers_def fresh_breaker_def)

definition is_quota :: "string \<Rightarrow> bool" where
  "is_quota err \<longleftrightarrow> (case classifyProviderFailure err of Some (k, _) \<Rightarrow> k = Quota | None \<Rightarrow> False)"

lemma settle_quota:
  "is_quota err \<Longrightarrow> breaker_settle t (Threw err) st =
     (let n = consecutiveQuotaFailures st + 1
      in if t \<le> real n then (st\<lparr>consecutiveQuotaFailures := n, tripped := True\<rparr>, Some (ProviderQuotaBreakerOpenError n))
         else (st\<lparr>consecutiveQuotaFailures := n\<rparr>, Some (Provider_Error err)))"
  by (auto simp: breaker_settle_def is_quota_def Let_def split: option.splits prod.splits provider_failure.splits)

lemma settle_other: "\<not> is_quota err \<Longrightarrow> breaker_settle t (Threw err) st = (st, Some (Provider_Error err))"
  by (auto simp: breaker_settle_def is_quota_def split: option.splits prod.splits provider_failure.splits)

definition storm :: "breaker_event \<Rightarrow> bool" where
  "storm ev \<longleftrightarrow> (case ev of Call \<Rightarrow> True | Settle (Threw err) \<Rightarrow> is_quota err | _ \<Rightarrow> False)"

definition storm_inv :: "real \<Rightarrow> nat \<Rightarrow> breaker_world \<Rightarrow> bool" where
  "storm_inv threshold width w \<longleftrightarrow>
     in_flight w \<le> width \<and> dispatched w = consecutiveQuotaFailures (breaker w) + in_flight w \<and>
     (if tripped (breaker w) then threshold \<le> real (consecutiveQuotaFailures (breaker w))
      else real (consecutiveQuotaFailures (breaker w)) < threshold) \<and>
     real (dispatched w) < threshold + real width"

lemma storm_inv_step:
  assumes "storm_inv t width w" "storm ev" "0 < t"
  shows "storm_inv t width (breaker_step t width ev w)"
proof (cases ev)
  case Call
  then show ?thesis using assms
    by (auto simp: storm_inv_def breaker_step_def breaker_admit_def)
next
  case (Settle oc)
  with assms(2) obtain err where oc: "oc = Threw err" "is_quota err" by (cases oc) (auto simp: storm_def)
  show ?thesis
  proof (cases "in_flight w = 0")
    case True
    then show ?thesis using assms(1) Settle by (simp add: breaker_step_def)
  next
    case False
    then show ?thesis using assms(1) Settle oc
      by (auto simp: storm_inv_def breaker_step_def settle_quota Let_def split: if_splits)
  qed
next
  case Reset
  with assms(2) show ?thesis by (simp add: storm_def)
qed

lemma storm_inv_run:
  "storm_inv t width w \<Longrightarrow> list_all storm evs \<Longrightarrow> 0 < t \<Longrightarrow> storm_inv t width (fold (breaker_step t width) evs w)"
  by (induction evs arbitrary: w) (auto simp: storm_inv_step)

text \<open>An open breaker lets nothing through until the operator resets it, whatever still settles.\<close>

lemma tripped_is_final:
  "tripped (breaker w) \<Longrightarrow> Reset \<notin> set evs \<Longrightarrow>
   tripped (breaker (fold (breaker_step t width) evs w)) \<and> dispatched (fold (breaker_step t width) evs w) = dispatched w"
proof (induction evs arbitrary: w)
  case (Cons ev evs)
  have "tripped (fst (breaker_settle t oc (breaker w)))" for oc
    using Cons.prems(1) by (cases oc; cases "is_quota (case oc of Threw e \<Rightarrow> e | _ \<Rightarrow> [])")
      (auto simp: settle_quota settle_other Let_def, simp_all add: breaker_settle_def)
  then have "tripped (breaker (breaker_step t width ev w)) \<and> dispatched (breaker_step t width ev w) = dispatched w"
    using Cons.prems by (cases ev) (auto simp: breaker_step_def breaker_admit_def)
  then show ?case using Cons by simp
qed simp


text \<open>
  C23: a quota storm is bounded. When every outstanding call of a provider fails with a quota error,
  at most (threshold + width) calls reach the network, width being the number of concurrent callers,
  whatever the order of calls and failures; the breaker is open exactly from the threshold-th
  failure on; and once open it stays open and no further call is dispatched until the operator
  resets it, whatever the calls still under way return.
\<close>

theorem quota_storm_is_bounded:
  fixes threshold :: real and width :: nat and evs later :: "breaker_event list"
  defines "w \<equiv> fold (breaker_step threshold width) evs fresh_world"
  defines "w' \<equiv> fold (breaker_step threshold width) later w"
  assumes "0 < threshold" and "list_all storm evs" and "Reset \<notin> set later"
  shows "real (dispatched w) < threshold + real width \<and>
    (tripped (breaker w) \<longleftrightarrow> threshold \<le> real (dispatched w - in_flight w)) \<and>
    (if tripped (breaker w) then tripped (breaker w') \<and> dispatched w' = dispatched w else True)"
proof -
  have "storm_inv threshold width fresh_world"
    using assms(3) by (simp add: storm_inv_def fresh_world_def fresh_breaker_def)
  from storm_inv_run[OF this assms(4,3)] have inv: "storm_inv threshold width w" by (simp add: w_def)
  then have count: "dispatched w - in_flight w = consecutiveQuotaFailures (breaker w)" by (simp add: storm_inv_def)
  have "tripped (breaker w) \<longleftrightarrow> threshold \<le> real (dispatched w - in_flight w)"
    unfolding count using inv by (auto simp: storm_inv_def split: if_splits)
  moreover have "real (dispatched w) < threshold + real width" using inv by (simp add: storm_inv_def)
  ultimately show ?thesis using tripped_is_final[OF _ assms(5)] by (simp add: w'_def)
qed

definition demo_storm :: "breaker_event list" where
  "demo_storm = [Call, Call, Settle (Threw ''HTTP 429''), Call, Settle (Threw ''HTTP 429''), Settle (Threw ''HTTP 429''), Call]"

theorem quota_storm_is_bounded_witness:
  "real (dispatched (fold (breaker_step 3 2) demo_storm fresh_world)) < 5 \<and>
   dispatched (fold (breaker_step 3 2) [Call, Settle Answered, Call] (fold (breaker_step 3 2) demo_storm fresh_world)) =
     dispatched (fold (breaker_step 3 2) demo_storm fresh_world)"
proof -
  define more where "more = [Call, Settle Answered, Call]"
  have "list_all storm demo_storm" by code_simp
  moreover have "Reset \<notin> set more" by (simp add: more_def)
  moreover have "is_quota ''HTTP 429''" by code_simp
  then have "tripped (breaker (fold (breaker_step 3 2) demo_storm fresh_world))"
    by (simp add: demo_storm_def fresh_world_def fresh_breaker_def breaker_step_def breaker_admit_def settle_quota Let_def)
  ultimately show ?thesis
    using quota_storm_is_bounded[of 3 demo_storm more 2] unfolding more_def[symmetric] by simp
qed

text \<open>
  A success between two failures of a job clears the count: three attempts of a job can fail on the
  quota without the breaker ever opening. A success that was under way when the breaker opened
  clears the count of the open breaker, which then reports no failure at all.
\<close>

lemma settle_answered: "breaker_settle t Answered st = (st\<lparr>consecutiveQuotaFailures := 0\<rparr>, None)"
  by (simp add: breaker_settle_def)

lemma interleaved_success_keeps_the_breaker_closed:
  "is_quota err \<Longrightarrow>
   \<not> tripped (breaker (fold (breaker_step 3 1)
     [Call, Settle (Threw err), Call, Settle Answered, Call, Settle (Threw err), Call, Settle Answered, Call, Settle (Threw err)] fresh_world))"
  by (simp add: breaker_step_def fresh_world_def fresh_breaker_def breaker_admit_def settle_quota settle_answered Let_def)

lemma late_success_clears_the_open_count:
  "is_quota err \<Longrightarrow>
   breaker_admit (breaker (fold (breaker_step 1 2) [Call, Call, Settle (Threw err), Settle Answered] fresh_world)) =
     Some (ProviderQuotaBreakerOpenError 0)"
  by (simp add: breaker_step_def fresh_world_def fresh_breaker_def breaker_admit_def settle_quota settle_answered Let_def)

section \<open>The rate\<close>

definition bucket_ok :: "bucket \<Rightarrow> bool" where
  "bucket_ok b \<longleftrightarrow> 0 < ratePerMinute b \<and> 1 \<le> capacity b \<and> 0 \<le> tokens b \<and> tokens b \<le> capacity b"

lemma refill_facts:
  assumes "bucket_ok b"
  shows "bucket_ok (refill t b) \<and> ratePerMinute (refill t b) = ratePerMinute b \<and> capacity (refill t b) = capacity b \<and>
    lastRefillMs (refill t b) = max t (lastRefillMs b) \<and>
    tokens (refill t b) \<le> tokens b + (max t (lastRefillMs b) - lastRefillMs b) / 60000 * ratePerMinute b"
proof (cases "t \<le> lastRefillMs b")
  case True
  then have "(t - lastRefillMs b) / 60000 \<le> 0" by simp
  then show ?thesis using assms True by (simp add: refill_def)
next
  case False
  then have pos: "\<not> (t - lastRefillMs b) / 60000 \<le> 0" by simp
  then have "0 \<le> (t - lastRefillMs b) / 60000 * ratePerMinute b" using assms by (simp add: bucket_ok_def)
  then show ?thesis using assms False pos by (auto simp: refill_def Let_def bucket_ok_def min_def max_def)
qed

lemma acquire_facts:
  assumes "bucket_ok b"
  shows "case acquire_try t b of (r, b') \<Rightarrow>
    bucket_ok b' \<and> ratePerMinute b' = ratePerMinute b \<and> capacity b' = capacity b \<and>
    lastRefillMs b' = max t (lastRefillMs b) \<and>
    (if r = Acquired then 1 else 0) + tokens b' \<le> tokens b + (max t (lastRefillMs b) - lastRefillMs b) / 60000 * ratePerMinute b"
  using refill_facts[OF assms, of t] by (auto simp: acquire_try_def Let_def bucket_ok_def)

lemma acquire_all_bound:
  "bucket_ok b \<Longrightarrow> case acquire_all ts b of (n, b') \<Rightarrow>
     real n + tokens b' \<le> tokens b + (fold max ts (lastRefillMs b) - lastRefillMs b) / 60000 * ratePerMinute b \<and> bucket_ok b' \<and>
     ratePerMinute b' = ratePerMinute b"
proof (induction ts arbitrary: b)
  case (Cons t ts)
  obtain r b1 where a: "acquire_try t b = (r, b1)" by fastforce
  obtain n b2 where n: "acquire_all ts b1 = (n, b2)" by fastforce
  have b1: "bucket_ok b1" "ratePerMinute b1 = ratePerMinute b" "lastRefillMs b1 = max t (lastRefillMs b)"
    "(if r = Acquired then 1 else 0) + tokens b1 \<le> tokens b + (max t (lastRefillMs b) - lastRefillMs b) / 60000 * ratePerMinute b"
    using acquire_facts[OF Cons.prems, of t] by (simp_all add: a)
  have IH: "real n + tokens b2 \<le> tokens b1 + (fold max ts (max t (lastRefillMs b)) - max t (lastRefillMs b)) / 60000 * ratePerMinute b"
    "bucket_ok b2" "ratePerMinute b2 = ratePerMinute b" using Cons.IH[OF b1(1)] b1(2,3) by (simp_all add: n)
  have "(if r = Acquired then 1 else 0) + (real n + tokens b2) \<le>
      tokens b + (fold max ts (max t (lastRefillMs b)) - lastRefillMs b) / 60000 * ratePerMinute b"
    using IH(1) b1(4) by (simp add: diff_divide_distrib left_diff_distrib)
  then show ?case using IH(2,3) by (cases r) (auto simp: a n Let_def)
qed simp

lemma sleep_then_token:
  assumes "bucket_ok b" and sleep: "acquire_try t b = (Sleep ms, b')"
    and later: "lastRefillMs b' + (1 - tokens b') / ratePerMinute b' * 60000 \<le> t'"
  shows "5 \<le> ms \<and> ms \<le> 250 \<and> fst (acquire_try t' b') = Acquired"
proof -
  have b': "bucket_ok b'" "tokens b' < 1" and ms: "5 \<le> ms" "ms \<le> 250"
    using acquire_facts[OF assms(1), of t] sleep by (auto simp: acquire_try_def Let_def split: if_splits)
  have rate: "0 < ratePerMinute b'" "1 \<le> capacity b'" using b'(1) by (simp_all add: bucket_ok_def)
  define gap where "gap = (1 - tokens b') / ratePerMinute b'"
  have "0 < gap" using b'(2) rate by (simp add: gap_def)
  then have pos: "0 < (t' - lastRefillMs b') / 60000" using later by (simp flip: gap_def)
  have "gap \<le> (t' - lastRefillMs b') / 60000" using later by (simp flip: gap_def)
  then have "1 - tokens b' \<le> (t' - lastRefillMs b') / 60000 * ratePerMinute b'" using rate(1) by (simp add: gap_def pos_divide_le_eq)
  then have "1 \<le> tokens (refill t' b')" using pos rate(2) by (simp add: refill_def Let_def)
  then show ?thesis using ms by (simp add: acquire_try_def Let_def)
qed

text \<open>
  A shared bucket bounds the rate. Whatever the callers, their interleaving and the jumps of the
  clock, the calls let through are at most the burst capacity plus the rate times the time elapsed;
  and a caller told to sleep is told so for 5 to 250 ms and gets its token on any later turn at
  which the missing fraction has accrued.
\<close>

lemma token_bucket_bounds_the_rate:
  assumes "rateLimitLLMProvider (Some rate) t0 None = Some b"
  shows "real (fst (acquire_all ts b)) \<le> real_of_int (max 1 \<lceil>rate / 6\<rceil>) + rate * (fold max ts t0 - t0) / 60000 \<and>
    (\<forall>ms b' t'. acquire_try t (snd (acquire_all ts b)) = (Sleep ms, b') \<longrightarrow>
       lastRefillMs b' + (1 - tokens b') / ratePerMinute b' * 60000 \<le> t' \<longrightarrow>
       5 \<le> ms \<and> ms \<le> 250 \<and> fst (acquire_try t' b') = Acquired)"
proof -
  have rate: "0 < rate" and b: "b = new_bucket rate (real_of_int (max 1 \<lceil>rate / 6\<rceil>)) t0"
    using assms by (auto simp: rateLimitLLMProvider_def split: if_splits)
  have ok: "bucket_ok b" using rate by (simp add: b bucket_ok_def new_bucket_def)
  obtain n b1 where n: "acquire_all ts b = (n, b1)" by fastforce
  have b1: "bucket_ok b1" and sum: "real n + tokens b1 \<le> tokens b + (fold max ts (lastRefillMs b) - lastRefillMs b) / 60000 * ratePerMinute b"
    using acquire_all_bound[OF ok, of ts] by (simp_all add: n)
  have "0 \<le> tokens b1" using b1 by (simp add: bucket_ok_def)
  then have "real n \<le> real_of_int (max 1 \<lceil>rate / 6\<rceil>) + rate * (fold max ts t0 - t0) / 60000"
    using sum by (simp add: b new_bucket_def mult.commute)
  then show ?thesis using sleep_then_token[OF b1] unfolding n fst_conv snd_conv by blast
qed

lemma token_bucket_bounds_the_rate_witness:
  "fst (acquire_all [0, 0, 0, 0, 500] (new_bucket 12 2 0)) \<le> 2 \<and>
   (\<exists>ms b'. acquire_try 500 (snd (acquire_all [0, 0, 0, 0, 500] (new_bucket 12 2 0))) = (Sleep ms, b') \<and>
      ms \<le> 250 \<and> fst (acquire_try 5000 b') = Acquired)"
proof -
  let ?b = "new_bucket 12 2 0"
  let ?ts = "[0, 0, 0, 0, 500] :: real list"
  have "\<lceil>12 / 6 :: real\<rceil> = 2" by simp
  then have b: "rateLimitLLMProvider (Some 12) 0 None = Some ?b" by (simp add: rateLimitLLMProvider_def)
  note bound = token_bucket_bounds_the_rate[OF b, of ?ts 500]
  have "real (fst (acquire_all ?ts ?b)) \<le> 2 + 12 * 500 / 60000" using bound by simp
  then have n: "fst (acquire_all ?ts ?b) \<le> 2" by linarith
  have after: "snd (acquire_all ?ts ?b) = ?b\<lparr>tokens := 1 / 10, lastRefillMs := 500\<rparr>"
    by (simp add: new_bucket_def acquire_try_def refill_def Let_def)
  have sl: "acquire_try 500 (snd (acquire_all ?ts ?b)) = (Sleep 250, ?b\<lparr>tokens := 1 / 10, lastRefillMs := 500\<rparr>)"
    unfolding after by (simp add: new_bucket_def acquire_try_def refill_def Let_def)
  have "fst (acquire_try 5000 (?b\<lparr>tokens := 1 / 10, lastRefillMs := 500\<rparr>)) = Acquired"
    using bound sl by (simp add: new_bucket_def)
  with n sl show ?thesis by simp
qed

section \<open>Health, Retry-After and truncation\<close>

text \<open>
  An entry is down exactly when the classified failures since the last success have reached the
  threshold, and then it says why.
\<close>

definition health_ok :: "string \<Rightarrow> nat \<Rightarrow> health_entry \<Rightarrow> bool" where
  "health_ok name threshold e \<longleftrightarrow>
     (he_status e = Down \<longleftrightarrow> threshold \<le> he_consecutiveFailures e) \<and>
     (case he_reason e of
        None \<Rightarrow> he_status e = Up \<and> he_message e = None
      | Some k \<Rightarrow> he_status e = Down \<and> he_message e = Some (providerFailureRemedy name k))"

lemma health_ok_created: "0 < threshold \<Longrightarrow> health_ok name threshold createProviderHealthEntry"
  by (simp add: health_ok_def createProviderHealthEntry_def)

lemma health_ok_track:
  "0 < threshold \<Longrightarrow> health_ok name threshold e \<Longrightarrow> health_ok name threshold (track_outcome name threshold o_t e)"
  by (auto simp: health_ok_def track_outcome_def recordSuccess_def recordFailure_def Let_def
      split: prod.splits outcome.splits option.splits)

interpretation health: op_system "\<lambda>e. 0 < threshold \<and> health_ok name threshold e" "track_outcome name threshold"
  for threshold name
  by unfold_locales (simp add: health_ok_track)

lemma health_ok_run:
  "0 < threshold \<Longrightarrow> health_ok name threshold (fold (track_outcome name threshold) os createProviderHealthEntry)"
  using health.run_inv[of threshold name createProviderHealthEntry os] health_ok_created by blast

lemma digits_value_nonneg: "list_all is_digit s \<Longrightarrow> 0 \<le> digits_value s"
proof -
  have "list_all is_digit s \<Longrightarrow> 0 \<le> n \<Longrightarrow> 0 \<le> fold (\<lambda>c n. 10 * n + (int (of_char c) - 48)) s n" for n
    by (induction s arbitrary: n) (auto simp: is_digit_def Let_def)
  then show "list_all is_digit s \<Longrightarrow> 0 \<le> digits_value s" by (simp add: digits_value_def)
qed

lemma parseRetryAfterMs_bounds: "parseRetryAfterMs date_parse now h = Some ms \<Longrightarrow> 0 \<le> ms \<and> ms \<le> 300000"
  using digits_value_nonneg
  by (auto simp: parseRetryAfterMs_def MAX_RETRY_AFTER_MS_def Let_def split: option.splits if_splits)

text \<open>A non-positive delay is not rejected when it is written in seconds.\<close>

lemma retry_after_zero: "parseRetryAfterMs date_parse now (Some ''0'') = Some 0"
proof -
  have "trim ''0'' = ''0''" "list_all is_digit ''0''" "digits_value ''0'' = 0" by code_simp+
  then show ?thesis by (simp add: parseRetryAfterMs_def NUMBER_OVERFLOW_def MAX_RETRY_AFTER_MS_def)
qed

lemma truncateForEmbedding_spec:
  "case truncateForEmbedding t of (t', trunc) \<Rightarrow>
     prefix t' t \<and> \<not> isOversizeText t' \<and> (trunc \<longleftrightarrow> isOversizeText t) \<and> (trunc \<or> t' = t)"
  by (auto simp: truncateForEmbedding_def isOversizeText_def take_is_prefix)

section \<open>The repair scan\<close>

definition active_reembed :: "(string \<Rightarrow> string option) \<Rightarrow> string \<Rightarrow> job \<Rightarrow> bool" where
  "active_reembed extract i j \<longleftrightarrow>
     kind j = Reembed \<and> state j \<notin> {Completed, Poison} \<and> extract (payload_json j) = Some i"

lemma listActive_iff: "i \<in> set (listActiveReembedMemoryIds extract js) \<longleftrightarrow> (\<exists>j \<in> set js. active_reembed extract i j)"
proof
  assume "i \<in> set (listActiveReembedMemoryIds extract js)"
  then show "\<exists>j \<in> set js. active_reembed extract i j"
    by (auto simp: listActiveReembedMemoryIds_def active_reembed_def)
next
  assume "\<exists>j \<in> set js. active_reembed extract i j"
  then obtain j where "j \<in> set js" "active_reembed extract i j" by blast
  then show "i \<in> set (listActiveReembedMemoryIds extract js)"
    unfolding listActiveReembedMemoryIds_def by (auto simp: active_reembed_def image_iff intro!: exI[of _ "Some i"] bexI[of _ j])
qed

lemma scan_loop_facts:
  assumes law: "\<And>i. extract (payload_of i) = Some i"
  shows "scan_loop payload_of u now active ids enq dup js = Inr (enq', dup', js') \<Longrightarrow>
    \<exists>new. js' = js @ new \<and> list_all2 (\<lambda>j i. active_reembed extract i j \<and> state j = Pending \<and> attempts j = 0) new (filter (\<lambda>i. i \<notin> set active) ids) \<and>
      enq' = enq + length new \<and> enq' + dup' = enq + dup + length ids"
proof (induction ids arbitrary: enq dup js)
  case (Cons i ids)
  show ?case
  proof (cases "i \<in> set active")
    case True
    then show ?thesis using Cons.IH[of enq "dup + 1" js] Cons.prems by auto
  next
    case False
    with Cons.prems obtain js1 where js1: "enqueue (u enq) now Reembed (payload_of i) js = Inr js1"
      "scan_loop payload_of u now active ids (enq + 1) dup js1 = Inr (enq', dup', js')"
      by (auto split: sum.splits)
    from js1(1) obtain j where j: "js1 = js @ [j]" "kind j = Reembed" "payload_json j = payload_of i" "state j = Pending" "attempts j = 0"
      by (auto simp: enqueue_def Let_def split: if_splits)
    from Cons.IH[OF js1(2)] obtain new where new: "js' = js1 @ new"
      "list_all2 (\<lambda>j i. active_reembed extract i j \<and> state j = Pending \<and> attempts j = 0) new (filter (\<lambda>i. i \<notin> set active) ids)"
      "enq' = enq + 1 + length new" "enq' + dup' = enq + 1 + dup + length ids" by blast
    have "active_reembed extract i j" using j law by (simp add: active_reembed_def)
    then show ?thesis using new j False by (intro exI[of _ "j # new"]) auto
  qed
qed auto

text \<open>
  The repair scan is exact and idempotent. It enqueues one pending \<open>reembed\<close> job for each
  oversize memory still without a vector and without such a job in flight, in the order of the
  candidates, and no other; and running it again at once, at any time and with any ids, enqueues
  nothing.
\<close>

lemma oversize_scan_is_idempotent:
  assumes "\<And>i. extract (payload_of i) = Some i"
    and "scanAndEnqueueOversizeRepairs extract payload_of u now limit s js = Inr (r, js')"
  shows "(\<exists>new. js' = js @ new \<and> length new = scan_enqueued r \<and> list_all (\<lambda>j. state j = Pending \<and> attempts j = 0) new \<and>
      map (\<lambda>j. (kind j, extract (payload_json j))) new = map (\<lambda>i. (Reembed, Some i))
        (filter (\<lambda>i. i \<notin> set (listActiveReembedMemoryIds extract js)) (listOversizeNeedingVecIndex 1740 limit s))) \<and>
    scan_enqueued r + scan_alreadyQueued r = scan_candidates r \<and>
    scanAndEnqueueOversizeRepairs extract payload_of u' now' limit s js' =
      Inr (\<lparr>scan_candidates = scan_candidates r, scan_enqueued = 0, scan_alreadyQueued = scan_candidates r\<rparr>, js')"
proof -
  define ids where "ids = listOversizeNeedingVecIndex EMBED_MAX_INPUT_CHARS limit s"
  define act where "act = listActiveReembedMemoryIds extract js"
  obtain enq dup where loop: "scan_loop payload_of u now act ids 0 0 js = Inr (enq, dup, js')"
    and r: "r = \<lparr>scan_candidates = length ids, scan_enqueued = enq, scan_alreadyQueued = dup\<rparr>"
    using assms(2) by (auto simp: scanAndEnqueueOversizeRepairs_def Let_def ids_def act_def split: sum.splits prod.splits)
  obtain new where new: "js' = js @ new" "enq = length new" "enq + dup = length ids"
    "list_all2 (\<lambda>j i. active_reembed extract i j \<and> state j = Pending \<and> attempts j = 0) new (filter (\<lambda>i. i \<notin> set act) ids)"
    using scan_loop_facts[OF assms(1) loop] by auto
  have jobs: "list_all (\<lambda>j. state j = Pending \<and> attempts j = 0) new \<and>
      map (\<lambda>j. (kind j, extract (payload_json j))) new = map (\<lambda>i. (Reembed, Some i)) (filter (\<lambda>i. i \<notin> set act) ids)"
    using new(4) by (induction rule: list_all2_induct) (auto simp: active_reembed_def)
  have "i \<in> set (listActiveReembedMemoryIds extract js')" if "i \<in> set ids" for i
  proof (cases "i \<in> set act")
    case True
    then show ?thesis by (auto simp: act_def listActive_iff new(1))
  next
    case False
    then have "i \<in> set (filter (\<lambda>i. i \<notin> set act) ids)" using that by simp
    then obtain j where "j \<in> set new" "active_reembed extract i j"
      using new(4) by (metis (no_types, lifting) in_set_conv_nth list_all2_conv_all_nth nth_mem)
    then show ?thesis by (auto simp: listActive_iff new(1))
  qed
  then have again: "scan_loop payload_of u' now' (listActiveReembedMemoryIds extract js') ids 0 0 js' = Inr (0, length ids, js')"
  proof -
    have "set xs \<subseteq> set A \<Longrightarrow> scan_loop payload_of u' now' A xs e d js' = Inr (e, d + length xs, js')" for A xs e d
      by (induction xs arbitrary: d) auto
    then show ?thesis using \<open>\<And>i. i \<in> set ids \<Longrightarrow> i \<in> set (listActiveReembedMemoryIds extract js')\<close>
      by (metis add_0 subsetI)
  qed
  have bound: "listOversizeNeedingVecIndex 1740 limit s = ids"
    by (simp add: ids_def EMBED_MAX_INPUT_CHARS_def EMBED_CONTEXT_TOKENS_def CHARS_PER_TOKEN_def)
  have second: "scanAndEnqueueOversizeRepairs extract payload_of u' now' limit s js' =
      Inr (\<lparr>scan_candidates = length ids, scan_enqueued = 0, scan_alreadyQueued = length ids\<rparr>, js')"
    unfolding scanAndEnqueueOversizeRepairs_def ids_def[symmetric] Let_def again by simp
  show ?thesis unfolding bound second act_def[symmetric] using jobs new(1-3) by (auto simp: r)
qed

text \<open>A store with one such memory, and payloads that are the bare id.\<close>

definition oversize_memory :: "string \<Rightarrow> memory" where
  "oversize_memory i =
     \<lparr>mem_id = i, mem_rowid = 1, mem_type = ''fact'', mem_text = replicate 2000 CHR ''x'', mem_normalized = [],
      mem_repo = None, mem_project = None, mem_branch = None, mem_agent = None, mem_session = None,
      mem_importance = 1, mem_confidence = 1, mem_hash = [],
      mem_embedding = \<lparr>embedding_provider = None, embedding_model = None, embedding_dim = None\<rparr>,
      mem_created = 0, mem_updated = 0, mem_source_hash = None, mem_evidence = None, mem_valid_from = None,
      mem_valid_to = None, superseded_by = None, derived_from = None, mem_scope = Private, archived = False,
      archived_at = None, capture_source = None, purge_batch_id = None, validity_extracted = False,
      needs_vec_index = True, speaker_label = None, consent_disclosed = None, evidence_supported = None,
      mem_location = None\<rparr>"

definition oversize_store :: store where
  "oversize_store = \<lparr>memories = [oversize_memory ''m''], events = [], next_seq = 0, purge_batches = [],
     memory_entities = [], relation_evidence = [], memory_links = [], memories_vec = []\<rparr>"

lemma oversize_scan_is_idempotent_witness:
  "\<exists>r js'. scanAndEnqueueOversizeRepairs Some id (\<lambda>_. ''j'') 7 500 oversize_store [] = Inr (r, js') \<and> scan_enqueued r = 1 \<and>
     scanAndEnqueueOversizeRepairs Some id (\<lambda>_. ''k'') 8 500 oversize_store js' =
       Inr (\<lparr>scan_candidates = 1, scan_enqueued = 0, scan_alreadyQueued = 1\<rparr>, js')"
proof -
  have ids: "listOversizeNeedingVecIndex EMBED_MAX_INPUT_CHARS 500 oversize_store = [''m'']"
    by (simp add: listOversizeNeedingVecIndex_def oversize_store_def oversize_memory_def EMBED_MAX_INPUT_CHARS_def
        EMBED_CONTEXT_TOKENS_def CHARS_PER_TOKEN_def)
  have none: "listActiveReembedMemoryIds Some [] = []" by (simp add: listActiveReembedMemoryIds_def)
  obtain js' where first: "scanAndEnqueueOversizeRepairs Some id (\<lambda>_. ''j'') 7 500 oversize_store [] =
      Inr (\<lparr>scan_candidates = 1, scan_enqueued = 1, scan_alreadyQueued = 0\<rparr>, js')"
    by (simp add: scanAndEnqueueOversizeRepairs_def ids none enqueue_def Let_def)
  have law: "\<And>i :: string. Some (id i) = Some i" by simp
  show ?thesis using oversize_scan_is_idempotent[OF law first, of "\<lambda>_. ''k''" 8] first by auto
qed

end
