(* ===== verification/Usefulness.thy ===== *)
theory Usefulness
  imports Ship Pack Fusion
begin

text \<open>
  The feedback loop: \<open>src/src/storage/usefulness.ts\<close>. Usefulness events are recorded in the event
  log, scored for the ranking, counted for the dashboards and the archival policy, granted by the
  implicit-positive sweep, and pruned. An event whose payload is missing matches no family. SQLite
  may return the groups of a query without ORDER BY in any order: \<open>arrange\<close> is that order.
  \<open>feedbackLoopSummary\<close> is not modelled.
\<close>

section \<open>Payload columns\<close>

datatype family = Recall_Served | Recall_Used | Memory_Corrected

fun payload_family :: "payload option \<Rightarrow> family option" where
  "payload_family (Some (P_Recall_Served _ _ _ _)) = Some Recall_Served"
| "payload_family (Some (P_Recall_Used _ _ _)) = Some Recall_Used"
| "payload_family (Some (P_Corrected _ _)) = Some Memory_Corrected"
| "payload_family _ = None"

fun payload_signal :: "payload option \<Rightarrow> usefulness_signal option" where
  "payload_signal (Some (P_Recall_Used _ signal _)) = Some signal"
| "payload_signal _ = None"

fun payload_query_hash :: "payload option \<Rightarrow> string option" where
  "payload_query_hash (Some (P_Recall_Served h _ _ _)) = Some h"
| "payload_query_hash _ = None"

fun payload_surface :: "payload option \<Rightarrow> string option" where
  "payload_surface (Some (P_Recall_Served _ _ sf _)) = Some sf"
| "payload_surface (Some (P_Recall_Used sf _ _)) = Some sf"
| "payload_surface _ = None"

definition of_family :: "family \<Rightarrow> mem_event \<Rightarrow> bool" where
  "of_family f e \<longleftrightarrow> event_type e = E_Usefulness \<and> payload_family (ev_payload e) = Some f"

definition heuristic_grant :: "mem_event \<Rightarrow> bool" where
  "heuristic_grant e \<longleftrightarrow> of_family Recall_Used e \<and> payload_signal (ev_payload e) = Some Heuristic"

section \<open>Recording\<close>

definition recordRecallUsed ::
  "string \<Rightarrow> epoch_ms \<Rightarrow> string \<Rightarrow> string \<Rightarrow> usefulness_signal \<Rightarrow> string option \<Rightarrow> store \<Rightarrow> store" where
  "recordRecallUsed uuid now atomId surface signal basis s =
     append_event uuid now E_Usefulness atomId (Some (P_Recall_Used surface signal basis)) None s"

definition recordMemoryCorrected ::
  "string \<Rightarrow> epoch_ms \<Rightarrow> string \<Rightarrow> string \<Rightarrow> correction_source option \<Rightarrow> store \<Rightarrow> store" where
  "recordMemoryCorrected uuid now atomId action source s =
     append_event uuid now E_Usefulness atomId
       (Some (P_Corrected action (case source of Some x \<Rightarrow> x | None \<Rightarrow> External))) None s"

section \<open>Scores and rates\<close>

definition DEFAULT_IMPLICIT_POSITIVE_WEIGHT :: real where "DEFAULT_IMPLICIT_POSITIVE_WEIGHT = 35 / 100"

definition used_weight :: "real \<Rightarrow> mem_event \<Rightarrow> real" where
  "used_weight implicitWeight e =
     (if of_family Recall_Used e then (if payload_signal (ev_payload e) = Some Heuristic then implicitWeight else 1) else 0)"

text \<open>The grouped query for a batch of ids: one row per atom with a usefulness event.\<close>

definition usefulness_rows :: "real \<Rightarrow> store \<Rightarrow> string list \<Rightarrow> (string \<times> real \<times> nat) list" where
  "usefulness_rows implicitWeight s batch =
     (let evs = filter (\<lambda>e. event_type e = E_Usefulness \<and> atom_id e \<in> set batch) (events s)
      in map (\<lambda>i. (i, sum_list (map (used_weight implicitWeight) (filter (\<lambda>e. atom_id e = i) evs)),
                   length (filter (\<lambda>e. atom_id e = i \<and> of_family Memory_Corrected e) evs)))
           (remdups (map atom_id evs)))"

definition usefulnessScores :: "store \<Rightarrow> string list \<Rightarrow> real \<Rightarrow> (string \<times> real) list" where
  "usefulnessScores s atomIds implicitWeight =
     (let scores = js_map (map (\<lambda>i. (i, 1 / 2)) atomIds)
      in if atomIds = [] then scores
         else fold (\<lambda>(i, used, corrected). obj_set i ((used + 1) / (used + real corrected + 2)))
                (chunkedIn (usefulness_rows implicitWeight s) atomIds) scores)"

definition distinct_atoms :: "mem_event list \<Rightarrow> nat" where
  "distinct_atoms evs = length (remdups (map atom_id evs))"

definition surfaceFilter :: "string option \<Rightarrow> mem_event \<Rightarrow> bool" where
  "surfaceFilter sf e \<longleftrightarrow> (case sf of None \<Rightarrow> True | Some x \<Rightarrow> if x = [] then True else payload_surface (ev_payload e) = Some x)"

definition ratio :: "nat \<Rightarrow> nat \<Rightarrow> real option" where
  "ratio used served = (if 0 < served then Some (real used / real served) else None)"

definition usefulnessRate :: "epoch_ms option \<Rightarrow> string option \<Rightarrow> store \<Rightarrow> nat \<times> nat \<times> real option" where
  "usefulnessRate sinceMs sf s =
     (let since = (case sinceMs of Some t \<Rightarrow> t | None \<Rightarrow> 0);
          served = distinct_atoms (filter (\<lambda>e. of_family Recall_Served e \<and> since \<le> ev_created e \<and> surfaceFilter sf e) (events s));
          used = distinct_atoms (filter (\<lambda>e. of_family Recall_Used e \<and> since \<le> ev_created e \<and> surfaceFilter sf e) (events s))
      in (served, used, ratio used served))"

definition perAtomUsefulnessRate7d :: "string list \<Rightarrow> epoch_ms \<Rightarrow> store \<Rightarrow> (string \<times> real) list" where
  "perAtomUsefulnessRate7d atomIds sinceMs s =
     (let rates = js_map (map (\<lambda>i. (i, 0)) atomIds)
      in if atomIds = [] then rates
         else let evs = filter (\<lambda>e. event_type e = E_Usefulness \<and> atom_id e \<in> set atomIds \<and> sinceMs \<le> ev_created e) (events s);
                  rows = map (\<lambda>i. (i, length (filter (\<lambda>e. atom_id e = i \<and> of_family Recall_Served e) evs),
                                      length (filter (\<lambda>e. atom_id e = i \<and> of_family Recall_Used e) evs)))
                           (remdups (map atom_id evs))
              in fold (\<lambda>(i, served, used). obj_set i (case ratio used served of Some r \<Rightarrow> r | None \<Rightarrow> 0)) rows rates)"

text \<open>One row per type of a served atom that still has a row, and its number of distinct atoms.\<close>

definition type_counts :: "family \<Rightarrow> epoch_ms \<Rightarrow> string option \<Rightarrow> store \<Rightarrow> (string \<times> nat) list" where
  "type_counts f since sf s =
     (let joined = concat (map (\<lambda>e. map (\<lambda>m. (mem_type m, atom_id e)) (filter (\<lambda>m. mem_id m = atom_id e) (memories s)))
            (filter (\<lambda>e. of_family f e \<and> since \<le> ev_created e \<and> surfaceFilter sf e) (events s)))
      in map (\<lambda>t. (t, length (remdups (map snd (filter (\<lambda>r. fst r = t) joined))))) (remdups (map fst joined)))"

definition usefulnessByType :: "epoch_ms option \<Rightarrow> string option \<Rightarrow> store \<Rightarrow> (string \<times> nat \<times> nat \<times> real option) list" where
  "usefulnessByType sinceMs sf s =
     (let since = (case sinceMs of Some t \<Rightarrow> t | None \<Rightarrow> 0);
          servedMap = js_map (type_counts Recall_Served since sf s);
          usedMap = js_map (type_counts Recall_Used since sf s);
          types = sort (remdups (map fst servedMap @ map fst usedMap))
      in map (\<lambda>t. let served = (case map_of servedMap t of Some n \<Rightarrow> n | None \<Rightarrow> 0);
                      used = (case map_of usedMap t of Some n \<Rightarrow> n | None \<Rightarrow> 0)
                  in (t, served, used, ratio used served)) types)"

section \<open>The implicit-positive sweep\<close>

record implicit_opts =
  windowDays :: int
  minDistinctQueries :: nat
  maxGrantsPerRun :: nat

definition served_in_window :: "implicit_opts \<Rightarrow> epoch_ms \<Rightarrow> store \<Rightarrow> mem_event list" where
  "served_in_window opts now s =
     filter (\<lambda>e. of_family Recall_Served e \<and> now - windowDays opts * 24 * 60 * 60 * 1000 \<le> ev_created e) (events s)"

definition distinct_queries :: "implicit_opts \<Rightarrow> epoch_ms \<Rightarrow> store \<Rightarrow> string \<Rightarrow> nat" where
  "distinct_queries opts now s i =
     length (remdups (map the (filter (\<lambda>x. x \<noteq> None) (map (\<lambda>e. payload_query_hash (ev_payload e))
       (filter (\<lambda>e. atom_id e = i) (served_in_window opts now s))))))"

definition qualifies :: "implicit_opts \<Rightarrow> epoch_ms \<Rightarrow> store \<Rightarrow> string \<Rightarrow> bool" where
  "qualifies opts now s i \<longleftrightarrow>
     minDistinctQueries opts \<le> distinct_queries opts now s i \<and>
     i \<notin> set (map atom_id (filter (of_family Memory_Corrected) (events s))) \<and>
     i \<notin> set (map atom_id (filter heuristic_grant (events s)))"

definition qualifying_rows :: "(string list \<Rightarrow> string list) \<Rightarrow> implicit_opts \<Rightarrow> epoch_ms \<Rightarrow> store \<Rightarrow> string list" where
  "qualifying_rows arrange opts now s =
     take (maxGrantsPerRun opts)
       (arrange (filter (qualifies opts now s) (remdups (map atom_id (served_in_window opts now s)))))"

text \<open>The result is (candidates, granted) and the store.\<close>

definition runImplicitPositivePass ::
  "(string list \<Rightarrow> string list) \<Rightarrow> (nat \<Rightarrow> string) \<Rightarrow> implicit_opts \<Rightarrow> epoch_ms \<Rightarrow> store \<Rightarrow> (nat \<times> nat) \<times> store" where
  "runImplicitPositivePass arrange u opts now s =
     (let rows = qualifying_rows arrange opts now s
      in if rows = [] then ((0, 0), s)
         else ((length rows, length rows),
               fold (\<lambda>(k, i). append_event (u k) now E_Usefulness i
                      (Some (P_Recall_Used ''system'' Heuristic (Some ''no_correction_survival''))) None)
                 (enumerate 0 rows) s))"

section \<open>Pruning\<close>

definition prunable :: "epoch_ms \<Rightarrow> store \<Rightarrow> mem_event \<Rightarrow> bool" where
  "prunable cutoffMs s e \<longleftrightarrow>
     of_family Recall_Served e \<and> ev_created e < cutoffMs \<and>
     (synced_at e \<noteq> None \<or> \<not> list_ex (\<lambda>m. mem_id m = atom_id e \<and> (mem_scope m = Team \<or> mem_scope m = Org)) (memories s))"

definition pruneOldRecallServedEvents :: "int \<Rightarrow> epoch_ms \<Rightarrow> store \<Rightarrow> nat \<times> store" where
  "pruneOldRecallServedEvents retentionDays now s =
     (let cutoffMs = now - retentionDays * 24 * 60 * 60 * 1000
      in (count_rows (prunable cutoffMs s) (events s), s\<lparr>events := delete_rows (prunable cutoffMs s) (events s)\<rparr>))"

section \<open>The score\<close>

definition usefulness_score :: "store \<Rightarrow> real \<Rightarrow> string \<Rightarrow> real" where
  "usefulness_score s w i =
     (let used = sum_list (map (used_weight w) (filter (\<lambda>e. event_type e = E_Usefulness \<and> atom_id e = i) (events s)));
          corrected = length (filter (\<lambda>e. of_family Memory_Corrected e \<and> atom_id e = i) (events s))
      in (used + 1) / (used + real corrected + 2))"

lemma obj_set_present:
  "distinct (map fst kvs) \<Longrightarrow> k \<in> fst ` set kvs \<Longrightarrow> obj_set k v kvs = map (\<lambda>(l, x). (l, if l = k then v else x)) kvs"
proof (induction kvs)
  case (Cons kv kvs)
  obtain l x where kv: "kv = (l, x)" by fastforce
  show ?case
  proof (cases "l = k")
    case True
    then have "\<forall>(l', y) \<in> set kvs. l' \<noteq> k" using Cons.prems(1) by (force simp: kv)
    then have "map (\<lambda>(l, x). (l, if l = k then v else x)) kvs = kvs" by (intro map_idI) auto
    then show ?thesis using True by (simp add: kv)
  next
    case False
    then show ?thesis using Cons by (auto simp: kv)
  qed
qed simp

lemma fold_obj_set_present:
  assumes "distinct (map fst kvs)" "set is \<subseteq> fst ` set kvs"
  shows "fold (\<lambda>i. obj_set i (f i)) is kvs = map (\<lambda>(l, x). (l, if l \<in> set is then f l else x)) kvs"
  using assms
proof (induction "is" arbitrary: kvs)
  case (Cons i "is")
  let ?kvs = "map (\<lambda>(l, x). (l, if l = i then f i else x)) kvs"
  have keys: "map fst ?kvs = map fst kvs" by (induction kvs) auto
  then have ks: "fst ` set ?kvs = fst ` set kvs" by (metis list.set_map)
  have "distinct (map fst ?kvs)" unfolding keys using Cons.prems(1) .
  moreover have "set is \<subseteq> fst ` set ?kvs" unfolding ks using Cons.prems(2) by simp
  ultimately have "fold (\<lambda>i. obj_set i (f i)) is ?kvs = map (\<lambda>(l, x). (l, if l \<in> set is then f l else x)) ?kvs"
    by (rule Cons.IH)
  also have "\<dots> = map (\<lambda>(l, x). (l, if l \<in> set (i # is) then f l else x)) kvs"
    unfolding map_map by (rule map_cong[OF refl]) (simp split: prod.split)
  finally have "fold (\<lambda>i. obj_set i (f i)) is ?kvs = map (\<lambda>(l, x). (l, if l \<in> set (i # is) then f l else x)) kvs" .
  moreover have "obj_set i (f i) kvs = ?kvs" using Cons.prems by (intro obj_set_present) auto
  ultimately show ?case by (simp only: fold_simps)
qed (auto intro: map_idI[symmetric])

lemma used_weight_only_usefulness: "used_weight w e \<noteq> 0 \<Longrightarrow> event_type e = E_Usefulness"
  by (auto simp: used_weight_def of_family_def split: if_splits)

lemma usefulness_rows_eq:
  "usefulness_rows w s batch = map (\<lambda>i. (i, sum_list (map (used_weight w) (filter (\<lambda>e. event_type e = E_Usefulness \<and> atom_id e = i) (events s))),
       length (filter (\<lambda>e. of_family Memory_Corrected e \<and> atom_id e = i) (events s))))
     (remdups (map atom_id (filter (\<lambda>e. event_type e = E_Usefulness \<and> atom_id e \<in> set batch) (events s))))"
proof -
  have used: "filter (\<lambda>e. atom_id e = i) (filter (\<lambda>e. event_type e = E_Usefulness \<and> atom_id e \<in> set batch) xs) =
      filter (\<lambda>e. event_type e = E_Usefulness \<and> atom_id e = i) xs" if "i \<in> set batch" for i xs
    unfolding filter_filter by (rule filter_cong) (use that in auto)
  have corr: "filter (\<lambda>e. atom_id e = i \<and> of_family Memory_Corrected e) (filter (\<lambda>e. event_type e = E_Usefulness \<and> atom_id e \<in> set batch) xs) =
      filter (\<lambda>e. of_family Memory_Corrected e \<and> atom_id e = i) xs" if "i \<in> set batch" for i xs
    unfolding filter_filter by (rule filter_cong) (use that in \<open>auto simp: of_family_def\<close>)
  show ?thesis unfolding usefulness_rows_def Let_def
  proof (rule map_cong[OF refl])
    fix i assume "i \<in> set (remdups (map atom_id (filter (\<lambda>e. event_type e = E_Usefulness \<and> atom_id e \<in> set batch) (events s))))"
    then have "i \<in> set batch" by auto
    show "(i, sum_list (map (used_weight w) (filter (\<lambda>e. atom_id e = i) (filter (\<lambda>e. event_type e = E_Usefulness \<and> atom_id e \<in> set batch) (events s)))),
        length (filter (\<lambda>e. atom_id e = i \<and> of_family Memory_Corrected e) (filter (\<lambda>e. event_type e = E_Usefulness \<and> atom_id e \<in> set batch) (events s)))) =
      (i, sum_list (map (used_weight w) (filter (\<lambda>e. event_type e = E_Usefulness \<and> atom_id e = i) (events s))),
        length (filter (\<lambda>e. of_family Memory_Corrected e \<and> atom_id e = i) (events s)))"
      unfolding used[OF \<open>i \<in> set batch\<close>] corr[OF \<open>i \<in> set batch\<close>] by (rule refl)
  qed
qed

definition scored_atoms :: "store \<Rightarrow> string list \<Rightarrow> string list" where
  "scored_atoms s ids = chunkedIn (\<lambda>batch. remdups (map atom_id
     (filter (\<lambda>e. event_type e = E_Usefulness \<and> atom_id e \<in> set batch) (events s)))) ids"

lemma set_scored_atoms: "set (scored_atoms s ids) = {i \<in> set ids. \<exists>e \<in> set (events s). event_type e = E_Usefulness \<and> atom_id e = i}"
proof -
  have "(\<Union>b \<in> set (chunks (CHUNK_IN_BATCH_SIZE - 1) ids). set b) = set ids"
    using concat_chunks[of "CHUNK_IN_BATCH_SIZE - 1" ids] by (metis set_concat)
  then show ?thesis by (auto simp: scored_atoms_def chunkedIn_def)
qed

text \<open>Every requested id gets its smoothed score, once, in the order of the request.\<close>

lemma usefulnessScores_spec:
  "usefulnessScores s ids w = map (\<lambda>(i, _). (i, usefulness_score s w i)) (js_map (map (\<lambda>i. (i, 1 / 2 :: real)) ids))"
proof (cases "ids = []")
  case True
  then show ?thesis by (simp add: usefulnessScores_def js_map_def)
next
  case False
  let ?kvs = "js_map (map (\<lambda>i. (i, 1 / 2 :: real)) ids)"
  have rows: "chunkedIn (usefulness_rows w s) ids = map (\<lambda>i. (i, sum_list (map (used_weight w) (filter (\<lambda>e. event_type e = E_Usefulness \<and> atom_id e = i) (events s))),
       length (filter (\<lambda>e. of_family Memory_Corrected e \<and> atom_id e = i) (events s)))) (scored_atoms s ids)"
    unfolding chunkedIn_def scored_atoms_def usefulness_rows_eq by (simp add: map_concat comp_def)
  have "usefulnessScores s ids w = fold (\<lambda>i. obj_set i (usefulness_score s w i)) (scored_atoms s ids) ?kvs"
    using False unfolding usefulnessScores_def Let_def rows by (simp add: fold_map comp_def usefulness_score_def Let_def)
  also have "\<dots> = map (\<lambda>(l, x). (l, if l \<in> set (scored_atoms s ids) then usefulness_score s w l else x)) ?kvs"
    using js_map_keys[of "map (\<lambda>i. (i, 1 / 2 :: real)) ids"] by (intro fold_obj_set_present) (auto simp: set_scored_atoms image_image)
  also have "\<dots> = map (\<lambda>(i, _). (i, usefulness_score s w i)) ?kvs"
  proof (intro map_cong refl)
    fix p assume p: "p \<in> set ?kvs"
    obtain l x where lx: "p = (l, x)" by fastforce
    have in_ids: "x = 1 / 2" "l \<in> set ids" using p set_js_map[of "map (\<lambda>i. (i, 1 / 2 :: real)) ids"] by (auto simp: lx)
    have "usefulness_score s w l = 1 / 2" if "l \<notin> set (scored_atoms s ids)"
    proof -
      have none: "filter (\<lambda>e. event_type e = E_Usefulness \<and> atom_id e = l) (events s) = []"
        "filter (\<lambda>e. of_family Memory_Corrected e \<and> atom_id e = l) (events s) = []"
        using that in_ids(2) by (auto simp: set_scored_atoms filter_empty_conv of_family_def)
      show ?thesis unfolding usefulness_score_def none by simp
    qed
    then show "(case p of (l, x) \<Rightarrow> (l, if l \<in> set (scored_atoms s ids) then usefulness_score s w l else x)) =
        (case p of (i, _) \<Rightarrow> (i, usefulness_score s w i))" by (simp add: lx in_ids)
  qed
  finally show ?thesis .
qed

lemma usefulness_score_range: "0 \<le> w \<Longrightarrow> 0 < usefulness_score s w i \<and> usefulness_score s w i < 1"
proof -
  assume w: "0 \<le> w"
  have "0 \<le> sum_list (map (used_weight w) xs)" for xs using w by (induction xs) (auto simp: used_weight_def)
  then show ?thesis by (simp add: usefulness_score_def Let_def divide_less_eq_1 add_nonneg_pos pos_add_strict)
qed

section \<open>The sweep\<close>

definition grant_count :: "string \<Rightarrow> store \<Rightarrow> nat" where
  "grant_count i s = length (filter (\<lambda>e. atom_id e = i \<and> heuristic_grant e) (events s))"

lemma fold_append_new:
  "\<exists>new. events (fold (\<lambda>(k, i). append_event (u k) now E_Usefulness i (Some p) None) xs s) = events s @ new \<and>
     map atom_id new = map snd xs \<and> list_all (\<lambda>e. event_type e = E_Usefulness \<and> ev_payload e = Some p) new \<and>
     memories (fold (\<lambda>(k, i). append_event (u k) now E_Usefulness i (Some p) None) xs s) = memories s"
proof (induction xs arbitrary: s)
  case (Cons x xs)
  obtain k i where x: "x = (k, i)" by fastforce
  let ?s = "append_event (u k) now E_Usefulness i (Some p) None s"
  have ev: "\<exists>e. events ?s = events s @ [e] \<and> atom_id e = i \<and> event_type e = E_Usefulness \<and> ev_payload e = Some p"
    by (simp add: append_event_def)
  then obtain e where e: "events ?s = events s @ [e]" "atom_id e = i" "event_type e = E_Usefulness" "ev_payload e = Some p" by blast
  have "memories ?s = memories s" by (simp add: append_event_def)
  with Cons.IH[of ?s] e show ?case by (fastforce simp: x)
qed simp

lemma grant_count_append:
  assumes "events s' = events s @ new" "distinct (map atom_id new)" "list_all heuristic_grant new"
  shows "grant_count i s' = grant_count i s + (if i \<in> set (map atom_id new) then 1 else 0)"
proof -
  have "length (filter (\<lambda>e. atom_id e = i \<and> heuristic_grant e) new) = (if i \<in> set (map atom_id new) then 1 else 0)"
    using assms(2,3) by (induction new) (auto simp: filter_empty_conv)
  then show ?thesis by (simp add: grant_count_def assms(1))
qed

text \<open>
  The implicit-positive sweep grants sparingly. Whatever order the query returns its groups in,
  it only appends heuristic events, at most \<open>maxGrantsPerRun\<close> of them; each goes to another memory,
  one that was served for the minimum number of distinct queries in the window, was never corrected
  and never had a heuristic grant before; so no memory ever has more than one.
\<close>

lemma implicit_grants_are_sparing:
  assumes "\<And>xs. mset (arrange xs) = mset xs"
    and "runImplicitPositivePass arrange u opts now s = ((cands, granted), s')"
  shows "\<exists>new. events s' = events s @ new \<and> memories s' = memories s \<and>
    length new = granted \<and> granted \<le> maxGrantsPerRun opts \<and> distinct (map atom_id new) \<and>
    list_all (\<lambda>e. heuristic_grant e \<and> minDistinctQueries opts \<le> distinct_queries opts now s (atom_id e) \<and>
      list_all (\<lambda>e'. atom_id e' \<noteq> atom_id e \<or> \<not> of_family Memory_Corrected e') (events s)) new \<and>
    grant_count i s' = (if i \<in> set (map atom_id new) then 1 else grant_count i s)"
proof -
  let ?rows = "qualifying_rows arrange opts now s"
  let ?p = "P_Recall_Used ''system'' Heuristic (Some ''no_correction_survival'')"
  have perm: "set (arrange xs) = set xs" "distinct (arrange xs) = distinct xs" for xs :: "string list"
    using assms(1) by (metis set_mset_mset, metis mset_eq_imp_distinct_iff)
  have rows: "distinct ?rows" "length ?rows \<le> maxGrantsPerRun opts" "\<And>r. r \<in> set ?rows \<Longrightarrow> qualifies opts now s r"
    using perm by (auto simp: qualifying_rows_def distinct_take dest: in_set_takeD)
  have s': "s' = fold (\<lambda>(k, i). append_event (u k) now E_Usefulness i (Some ?p) None) (enumerate 0 ?rows) s" "granted = length ?rows"
    using assms(2) by (auto simp: runImplicitPositivePass_def Let_def split: if_splits)
  obtain new where new: "events s' = events s @ new" "map atom_id new = map snd (enumerate 0 ?rows)"
    "list_all (\<lambda>e. event_type e = E_Usefulness \<and> ev_payload e = Some ?p) new" "memories s' = memories s"
    using fold_append_new[of u now ?p "enumerate 0 ?rows" s] unfolding s'(1)[symmetric] by blast
  have ids: "map atom_id new = ?rows" using new(2) by simp
  have heur: "list_all heuristic_grant new" using new(3) by (auto simp: list_all_iff heuristic_grant_def of_family_def)
  have qual: "qualifies opts now s (atom_id e)" if "e \<in> set new" for e
    using rows(3) ids that by (metis image_eqI list.set_map)
  have "grant_count i s = 0" if "i \<in> set (map atom_id new)"
  proof -
    have "qualifies opts now s i" using rows(3) that unfolding ids .
    then show ?thesis by (auto simp: qualifies_def grant_count_def filter_empty_conv)
  qed
  then have count: "grant_count i s' = (if i \<in> set (map atom_id new) then 1 else grant_count i s)"
    using grant_count_append[OF new(1) _ heur, of i] rows(1) ids by (cases "i \<in> set (map atom_id new)") auto
  have len: "length new = granted" using ids s'(2) by (metis length_map)
  have each: "list_all (\<lambda>e. heuristic_grant e \<and> minDistinctQueries opts \<le> distinct_queries opts now s (atom_id e) \<and>
      list_all (\<lambda>e'. atom_id e' \<noteq> atom_id e \<or> \<not> of_family Memory_Corrected e') (events s)) new"
    unfolding list_all_iff
  proof (intro ballI conjI)
    fix e assume e: "e \<in> set new"
    show "heuristic_grant e" using heur e by (simp add: list_all_iff)
    show "minDistinctQueries opts \<le> distinct_queries opts now s (atom_id e)" using qual[OF e] by (simp add: qualifies_def)
    fix e' assume "e' \<in> set (events s)"
    then show "atom_id e' \<noteq> atom_id e \<or> \<not> of_family Memory_Corrected e'" using qual[OF e] by (auto simp: qualifies_def image_iff)
  qed
  show ?thesis using new(1,4) len s'(2) rows(1,2) ids each count by (intro exI[of _ new]) simp
qed

definition served_event :: "nat \<Rightarrow> string \<Rightarrow> string \<Rightarrow> mem_event" where
  "served_event k i h = \<lparr>seq = k, event_id = [], event_type = E_Usefulness, atom_id = i,
     ev_payload = Some (P_Recall_Served h None ''rest'' None), content_hash = None, ev_created = 0,
     synced_at = None, rejected_at = None\<rparr>"

definition served_store :: store where
  "served_store = \<lparr>memories = [], events = [served_event 2 ''a'' ''p'', served_event 3 ''b'' ''p'', served_event 4 ''a'' ''q''],
     next_seq = 5, purge_batches = [], memory_entities = [], relation_evidence = [], memory_links = [], memories_vec = []\<rparr>"

definition demo_sweep :: implicit_opts where
  "demo_sweep = \<lparr>windowDays = 7, minDistinctQueries = 2, maxGrantsPerRun = 5\<rparr>"

lemma demo_rows: "qualifying_rows id demo_sweep 9 served_store = [''a'']"
  by (simp add: qualifying_rows_def qualifies_def distinct_queries_def served_in_window_def served_store_def served_event_def
      demo_sweep_def of_family_def heuristic_grant_def)

lemma implicit_grants_are_sparing_witness:
  "\<exists>s'. runImplicitPositivePass id (\<lambda>_. ''u'') demo_sweep 9 served_store = ((1, 1), s') \<and> grant_count ''a'' s' = 1"
proof -
  let ?p = "Some (P_Recall_Used ''system'' Heuristic (Some ''no_correction_survival''))"
  define s' where "s' = append_event ''u'' 9 E_Usefulness ''a'' ?p None served_store"
  have r: "runImplicitPositivePass id (\<lambda>_. ''u'') demo_sweep 9 served_store = ((1, 1), s')"
    by (simp add: runImplicitPositivePass_def demo_rows s'_def)
  have s': "map atom_id (events s') = [''a'', ''b'', ''a'', ''a'']"
    by (simp add: s'_def append_event_def served_store_def served_event_def)
  have perm: "\<And>xs :: string list. mset (id xs) = mset xs" by simp
  from implicit_grants_are_sparing[OF perm r, of "''a''"] obtain new where new: "events s' = events served_store @ new"
    "grant_count ''a'' s' = (if ''a'' \<in> set (map atom_id new) then 1 else grant_count ''a'' served_store)" by blast
  have "map atom_id (events served_store) = [''a'', ''b'', ''a'']" by (simp add: served_store_def served_event_def)
  then have "map atom_id new = [''a'']" using s' new(1) by simp
  then show ?thesis using r new(2) by auto
qed

lemma usefulness_signal_range:
  "0 \<le> w \<Longrightarrow> map_of (usefulnessScores s ids w) i = Some v \<Longrightarrow> 0 < v \<and> v < 1"
  unfolding usefulnessScores_spec by (drule map_of_SomeD) (auto simp: usefulness_score_range)

section \<open>Pruning\<close>

lemma prunable_is_served: "prunable c s e \<Longrightarrow> of_family Recall_Served e"
  by (simp add: prunable_def)

lemma family_unique: "of_family f e \<Longrightarrow> of_family g e \<Longrightarrow> f = g"
  by (auto simp: of_family_def)

lemma prunable_not_unsynced:
  assumes "prunable c s e"
  shows "\<not> unsynced s e"
proof
  assume u: "unsynced s e"
  have "event_type e = E_Usefulness" using assms by (simp add: prunable_def of_family_def)
  then have "synced_at e = None" "shareable (current_scope_of s (atom_id e))" using u by (auto simp: unsynced_def)
  then obtain m where m: "get_memory (atom_id e) s = Some m" "mem_scope m = Team \<or> mem_scope m = Org"
    by (auto simp: shareable_def current_scope_of_def)
  have "m \<in> set (memories s) \<and> mem_id m = atom_id e" using m(1) by (simp add: get_memory_in)
  then have "list_ex (\<lambda>m. mem_id m = atom_id e \<and> (mem_scope m = Team \<or> mem_scope m = Org)) (memories s)"
    using m(2) by (auto simp: list_ex_iff)
  then show False using assms \<open>synced_at e = None\<close> by (simp add: prunable_def)
qed

lemma filter_delete: "(\<And>e. P e \<Longrightarrow> \<not> Q e) \<Longrightarrow> filter Q (delete_rows P xs) = filter Q xs"
  by (induction xs) auto

lemma usefulness_score_delete:
  "usefulness_score (s\<lparr>events := delete_rows (prunable c s) (events s)\<rparr>) w i = usefulness_score s w i"
proof -
  have zero: "used_weight w e = 0" if "prunable c s e" for e
    using prunable_is_served[OF that] family_unique[of Recall_Served e Recall_Used] by (auto simp: used_weight_def)
  have "sum_list (map (used_weight w) (filter Q (delete_rows (prunable c s) xs))) = sum_list (map (used_weight w) (filter Q xs))" for Q xs
    by (induction xs) (auto simp: zero)
  moreover have "filter (\<lambda>e. of_family Memory_Corrected e \<and> atom_id e = i) (delete_rows (prunable c s) (events s)) =
      filter (\<lambda>e. of_family Memory_Corrected e \<and> atom_id e = i) (events s)"
    by (rule filter_delete) (use prunable_is_served family_unique in blast)
  ultimately show ?thesis by (simp add: usefulness_score_def)
qed

text \<open>
  C20: pruning the served events never eats what the sync still has to ship, nor anything the
  ranking reads. The memories are untouched, the queue of the shipper and every usefulness score
  are exactly those before, only \<open>recall_served\<close> events older than the retention are deleted, and
  the number reported is the number of events gone.
\<close>

theorem prune_keeps_the_queue:
  "case pruneOldRecallServedEvents days now s of (pruned, s') \<Rightarrow>
     memories s' = memories s \<and> pruned + length (events s') = length (events s) \<and>
     listUnsynced s' n = listUnsynced s n \<and> usefulnessScores s' ids w = usefulnessScores s ids w \<and>
     filter (\<lambda>e. if of_family Recall_Served e then now - days * 86400000 \<le> ev_created e else True) (events s') =
       filter (\<lambda>e. if of_family Recall_Served e then now - days * 86400000 \<le> ev_created e else True) (events s)"
proof -
  let ?P = "prunable (now - days * 86400000) s"
  let ?s = "s\<lparr>events := delete_rows ?P (events s)\<rparr>"
  have r: "pruneOldRecallServedEvents days now s = (count_rows ?P (events s), ?s)"
    by (simp add: pruneOldRecallServedEvents_def Let_def mult.assoc)
  have "unsynced ?s = unsynced s" "current_scope_of ?s = current_scope_of s"
    by (auto simp: unsynced_def current_scope_of_def get_memory_def fun_eq_iff)
  moreover have "filter (unsynced s) (delete_rows ?P (events s)) = filter (unsynced s) (events s)"
    by (rule filter_delete) (rule prunable_not_unsynced)
  ultimately have queue: "listUnsynced ?s n = listUnsynced s n" by (simp add: listUnsynced_def)
  have scores: "usefulnessScores ?s ids w = usefulnessScores s ids w"
    by (simp add: usefulnessScores_spec usefulness_score_delete)
  have kept: "filter (\<lambda>e. if of_family Recall_Served e then now - days * 86400000 \<le> ev_created e else True) (delete_rows ?P (events s)) =
      filter (\<lambda>e. if of_family Recall_Served e then now - days * 86400000 \<le> ev_created e else True) (events s)"
    by (rule filter_delete) (auto simp: prunable_def)
  have "count_rows ?P (events s) + length (delete_rows ?P (events s)) = length (events s)"
    by (simp add: count_rows_def delete_rows_def sum_length_filter_compl)
  then show ?thesis using queue scores kept by (simp add: r)
qed

end
