(* ===== verification/Proposals.thy ===== *)
theory Proposals
  imports Lifecycle Distill_Text
begin

text \<open>
  The queue of consolidation proposals: \<open>ProposalRepo\<close> (\<open>src/src/consolidate/proposals.ts\<close>), the
  merge it executes (\<open>mergeAsSupersede\<close>) and the guarded inserts of
  \<open>consolidate/consolidate.ts\<close>, the command-token guard (\<open>command-guard.ts\<close>), and the two surfaces
  that resolve proposals: \<open>resolveProposal\<close> (\<open>server/routes/consolidation.ts\<close>) and the batch tool
  of \<open>mcp/server.ts\<close>.

  The JSON of \<open>metadata_json\<close> is kept structured: one constructor per writer of the column, and
  \<open>Unparsable\<close> for a text the parsers give up on.
\<close>

section \<open>Rows\<close>

datatype proposal_kind = Merge | Contradiction

datatype proposal_status = Prop_Pending | Prop_Accepted | Prop_Rejected

datatype dup_label = Same_Fact_Merge | Distinct_Keep_Separate | Unclear_Leave_Pending

record dup_judge_metadata =
  djm_verdict :: dup_label
  djm_confidence :: real
  djm_provider :: string
  djm_model :: string

datatype guard_site = At_Insert | By_Dup_Judge dup_label real | By_Containment_Sweep

datatype proposal_meta =
    Contradicts real string string
  | Dup_Judged dup_judge_metadata
  | Guard_Blocked guard_site
  | Unparsable

record proposal =
  prop_id :: string
  prop_kind :: proposal_kind
  winner_id :: string
  loser_id :: string
  similarity :: real
  prop_status :: proposal_status
  prop_created :: epoch_ms
  resolved_at :: "epoch_ms option"
  metadata :: "proposal_meta option"

text \<open>The tables consolidation works on; \<open>group_cursor\<close> is its single-row resume cursor.\<close>

record consol_db =
  atom_db :: store
  proposals :: "proposal list"
  group_cursor :: "string option option"

datatype proposal_error =
    ProposalNotFoundError string
  | ProposalAlreadyResolvedError string proposal_status
  | Memory_Refused lifecycle_error
  | Proposal_Constraint string

section \<open>Reading the metadata\<close>

text \<open>\<open>JSON.parse\<close> and a cast: whatever object is there; its \<open>confidence\<close> may be missing.\<close>

fun parse_meta :: "proposal_meta option \<Rightarrow> proposal_meta option" where
  "parse_meta None = None"
| "parse_meta (Some Unparsable) = None"
| "parse_meta (Some m) = Some m"

definition parseContradictionMetadata :: "proposal \<Rightarrow> proposal_meta option" where
  "parseContradictionMetadata p = parse_meta (metadata p)"

definition parseDupJudgeMetadata :: "proposal \<Rightarrow> dup_judge_metadata option" where
  "parseDupJudgeMetadata p =
     (case parse_meta (metadata p) of Some (Dup_Judged d) \<Rightarrow> Some d | _ \<Rightarrow> None)"

fun meta_confidence :: "proposal_meta \<Rightarrow> real option" where
  "meta_confidence (Contradicts c _ _) = Some c"
| "meta_confidence (Dup_Judged d) = Some (djm_confidence d)"
| "meta_confidence _ = None"

definition proposalConfidence :: "proposal \<Rightarrow> real" where
  "proposalConfidence p =
     (if prop_kind p = Contradiction
      then (case parseContradictionMetadata p of
              None \<Rightarrow> 0
            | Some m \<Rightarrow> (case meta_confidence m of None \<Rightarrow> 0 | Some c \<Rightarrow> c))
      else similarity p)"

section \<open>Listing\<close>

record list_options =
  lo_limit :: "nat option"
  lo_offset :: "nat option"
  lo_minConfidence :: "real option"

definition no_list_options :: list_options where
  "no_list_options = \<lparr>lo_limit = None, lo_offset = None, lo_minConfidence = None\<rparr>"

definition matching_rows ::
  "proposal_status option \<Rightarrow> proposal_kind option \<Rightarrow> real option \<Rightarrow> consol_db \<Rightarrow> proposal list" where
  "matching_rows status kind minc d =
     (let rows = sort_key prop_created
            (filter (\<lambda>p. (case status of None \<Rightarrow> True | Some x \<Rightarrow> prop_status p = x) \<and>
                         (case kind of None \<Rightarrow> True | Some k \<Rightarrow> prop_kind p = k)) (proposals d))
      in case minc of None \<Rightarrow> rows | Some c \<Rightarrow> filter (\<lambda>p. c \<le> proposalConfidence p) rows)"

definition list_proposals ::
  "proposal_status option \<Rightarrow> proposal_kind option \<Rightarrow> list_options \<Rightarrow> consol_db \<Rightarrow> proposal list" where
  "list_proposals status kind opts d =
     (let rows = matching_rows status kind (lo_minConfidence opts) d;
          offset = (case lo_offset opts of None \<Rightarrow> 0 | Some n \<Rightarrow> n)
      in if lo_offset opts \<noteq> None \<or> lo_limit opts \<noteq> None
         then (case lo_limit opts of Some n \<Rightarrow> take n (drop offset rows) | None \<Rightarrow> drop offset rows)
         else rows)"

definition count_proposals ::
  "proposal_status option \<Rightarrow> proposal_kind option \<Rightarrow> real option \<Rightarrow> consol_db \<Rightarrow> nat" where
  "count_proposals status kind minc d =
     length (list_proposals status kind (no_list_options\<lparr>lo_minConfidence := minc\<rparr>) d)"

definition get_proposal :: "string \<Rightarrow> consol_db \<Rightarrow> proposal option" where
  "get_proposal i d = get_row prop_id i (proposals d)"

section \<open>Merging\<close>

definition add_lineage :: "string \<Rightarrow> string list \<Rightarrow> string list" where
  "add_lineage l ls = (if l \<in> set ls then ls else ls @ [l])"

definition mergeAsSupersede ::
  "(nat \<Rightarrow> string) \<Rightarrow> epoch_ms \<Rightarrow> string \<Rightarrow> string \<Rightarrow> supersede_provenance option \<Rightarrow> correction_source \<Rightarrow>
   store \<Rightarrow> lifecycle_error + store" where
  "mergeAsSupersede u now winner loser provenance source s =
     (case supersede u now loser winner provenance source s of
        Inl e \<Rightarrow> Inl e
      | Inr s1 \<Rightarrow>
          Inr (update_memory winner
                 (\<lambda>m. m\<lparr>derived_from := Some (add_lineage loser (case derived_from m of None \<Rightarrow> [] | Some ls \<Rightarrow> ls)),
                        mem_updated := now\<rparr>) s1))"

section \<open>Resolving\<close>

definition mustBePending :: "string \<Rightarrow> consol_db \<Rightarrow> proposal_error + proposal" where
  "mustBePending i d =
     (case get_proposal i d of
        None \<Rightarrow> Inl (ProposalNotFoundError i)
      | Some p \<Rightarrow> if prop_status p \<noteq> Prop_Pending then Inl (ProposalAlreadyResolvedError i (prop_status p)) else Inr p)"

definition update_proposals :: "(proposal \<Rightarrow> bool) \<Rightarrow> (proposal \<Rightarrow> proposal) \<Rightarrow> consol_db \<Rightarrow> consol_db" where
  "update_proposals P f d = d\<lparr>proposals := update_rows P f (proposals d)\<rparr>"

definition resolve_proposal ::
  "epoch_ms \<Rightarrow> string \<Rightarrow> proposal_status \<Rightarrow> proposal_meta option \<Rightarrow> consol_db \<Rightarrow> consol_db" where
  "resolve_proposal now i status meta d =
     update_proposals (\<lambda>p. prop_id p = i)
       (case meta of
          Some m \<Rightarrow> (\<lambda>p. p\<lparr>prop_status := status, resolved_at := Some now, metadata := Some m\<rparr>)
        | None \<Rightarrow> (\<lambda>p. p\<lparr>prop_status := status, resolved_at := Some now\<rparr>)) d"

text \<open>The payload of the loser's last \<open>supersede\<close> event, with the marker added.\<close>

fun bulk_payload :: "payload option \<Rightarrow> payload option" where
  "bulk_payload (Some (P_Superseded w pr)) = Some (P_Superseded_Bulk w pr)"
| "bulk_payload p = p"

definition markBulkAccepted :: "string \<Rightarrow> store \<Rightarrow> store" where
  "markBulkAccepted loser s =
     (case first_min (\<lambda>e f. seq f \<le> seq e) (filter (\<lambda>e. atom_id e = loser \<and> event_type e = E_Supersede) (events s)) of
        None \<Rightarrow> s
      | Some row \<Rightarrow>
          s\<lparr>events := update_rows (\<lambda>e. seq e = seq row) (\<lambda>e. e\<lparr>ev_payload := bulk_payload (ev_payload e)\<rparr>) (events s)\<rparr>)"

record accept_options =
  bulkAccepted :: bool
  correctionSource :: "correction_source option"
  accept_metadata :: "proposal_meta option"

definition no_accept_options :: accept_options where
  "no_accept_options = \<lparr>bulkAccepted = False, correctionSource = None, accept_metadata = None\<rparr>"

definition accept_proposal ::
  "(nat \<Rightarrow> string) \<Rightarrow> epoch_ms \<Rightarrow> string \<Rightarrow> supersede_provenance option \<Rightarrow> accept_options \<Rightarrow>
   consol_db \<Rightarrow> proposal_error + consol_db" where
  "accept_proposal u now i provenance opts d =
     (case mustBePending i d of
        Inl e \<Rightarrow> Inl e
      | Inr p \<Rightarrow>
          (case mergeAsSupersede u now (winner_id p) (loser_id p) provenance
                  (case correctionSource opts of None \<Rightarrow> External | Some src \<Rightarrow> src) (atom_db d) of
             Inl e \<Rightarrow> Inl (Memory_Refused e)
           | Inr s \<Rightarrow>
               (let s1 = (if bulkAccepted opts then markBulkAccepted (loser_id p) s else s)
                in Inr (resolve_proposal now (prop_id p) Prop_Accepted (accept_metadata opts) (d\<lparr>atom_db := s1\<rparr>)))))"

definition reject_proposal ::
  "epoch_ms \<Rightarrow> string \<Rightarrow> proposal_meta option \<Rightarrow> consol_db \<Rightarrow> proposal_error + consol_db" where
  "reject_proposal now i meta d =
     (case mustBePending i d of
        Inl e \<Rightarrow> Inl e
      | Inr p \<Rightarrow> Inr (resolve_proposal now (prop_id p) Prop_Rejected meta d))"

section \<open>Proposing\<close>

text \<open>The \<open>NOT EXISTS\<close> guard: a pending proposal of the unordered pair.\<close>

definition pair_key :: "string \<Rightarrow> string \<Rightarrow> string \<times> string" where
  "pair_key a b = (min a b, max a b)"

definition pair_pending :: "string \<Rightarrow> string \<Rightarrow> consol_db \<Rightarrow> bool" where
  "pair_pending w l d \<longleftrightarrow>
     list_ex (\<lambda>p. prop_status p = Prop_Pending \<and> pair_key (winner_id p) (loser_id p) = pair_key w l) (proposals d)"

definition insert_proposal ::
  "string \<Rightarrow> epoch_ms \<Rightarrow> proposal_kind \<Rightarrow> string \<Rightarrow> string \<Rightarrow> real \<Rightarrow> proposal_meta option \<Rightarrow> consol_db \<Rightarrow>
   proposal_error + bool \<times> consol_db" where
  "insert_proposal uuid now kind w l sim meta d =
     (if pair_pending w l d then Inr (False, d)
      else if get_proposal uuid d \<noteq> None then Inl (Proposal_Constraint uuid)
      else Inr (True, d\<lparr>proposals := proposals d @
             [\<lparr>prop_id = uuid, prop_kind = kind, winner_id = w, loser_id = l, similarity = sim,
               prop_status = Prop_Pending, prop_created = now, resolved_at = None, metadata = meta\<rparr>]\<rparr>))"

definition EXCERPT_MAX_CHARS :: nat where "EXCERPT_MAX_CHARS = 280"

definition excerpt :: "string \<Rightarrow> string" where
  "excerpt t = (if EXCERPT_MAX_CHARS < length t then take EXCERPT_MAX_CHARS t @ ''...'' else t)"

definition insertContradictionProposal ::
  "string \<Rightarrow> epoch_ms \<Rightarrow> string \<Rightarrow> string \<Rightarrow> string \<Rightarrow> string \<Rightarrow> real \<Rightarrow> real \<Rightarrow> consol_db \<Rightarrow>
   proposal_error + bool \<times> consol_db" where
  "insertContradictionProposal uuid now w l winnerText loserText sim conf d =
     insert_proposal uuid now Contradiction w l sim (Some (Contradicts conf (excerpt winnerText) (excerpt loserText))) d"

definition insertGuardedMergeProposal ::
  "string \<Rightarrow> epoch_ms \<Rightarrow> string \<Rightarrow> string \<Rightarrow> real \<Rightarrow> consol_db \<Rightarrow> proposal_error + bool \<times> consol_db" where
  "insertGuardedMergeProposal uuid now w l sim d =
     insert_proposal uuid now Merge w l sim (Some (Guard_Blocked At_Insert)) d"

definition annotateCommandGuardBlocked :: "string \<Rightarrow> guard_site \<Rightarrow> consol_db \<Rightarrow> consol_db" where
  "annotateCommandGuardBlocked i site d =
     update_proposals (\<lambda>p. prop_id p = i \<and> prop_status p = Prop_Pending)
       (\<lambda>p. p\<lparr>metadata := Some (Guard_Blocked site)\<rparr>) d"

section \<open>The command-token guard\<close>

definition quote_char :: "char \<Rightarrow> bool" where
  "quote_char c \<longleftrightarrow> c \<in> set [CHR 0x27, CHR 0x22, CHR 0x60]"

function split_ws :: "string \<Rightarrow> string list" where
  "split_ws s =
     (case dropWhile (\<lambda>c. \<not> js_ws c) s of
        [] \<Rightarrow> [s]
      | _ # r \<Rightarrow> takeWhile (\<lambda>c. \<not> js_ws c) s # split_ws (dropWhile js_ws r))"
  by pat_completeness auto
termination
proof (relation "measure length", simp)
  fix s :: string and c r
  assume "dropWhile (\<lambda>c. \<not> js_ws c) s = c # r"
  then have "length (c # r) \<le> length s" by (metis length_dropWhile_le)
  moreover have "length (dropWhile js_ws r) \<le> length r" by (rule length_dropWhile_le)
  ultimately show "(dropWhile js_ws r, s) \<in> measure length" by simp
qed

declare split_ws.simps [simp del]

definition strip_quotes :: "string \<Rightarrow> string" where
  "strip_quotes t = rev (dropWhile quote_char (rev (dropWhile quote_char t)))"

definition slash_char :: "char \<Rightarrow> char" where
  "slash_char c = (if c = CHR 0x5C then CHR ''/'' else c)"

definition tokenizeCommandSurface :: "string \<Rightarrow> string set" where
  "tokenizeCommandSurface t =
     set (filter (\<lambda>tok. tok \<noteq> []) (map (\<lambda>tok. strip_quotes (map slash_char tok)) (split_ws t)))"

definition tokenSetsEqual :: "string set \<Rightarrow> string set \<Rightarrow> bool" where
  "tokenSetsEqual a b \<longleftrightarrow> (if card a \<noteq> card b then False else a \<subseteq> b)"

definition commandGuardBlocksMerge :: "string \<times> string \<Rightarrow> string \<times> string \<Rightarrow> bool" where
  "commandGuardBlocksMerge a b =
     (if fst a \<noteq> ''command'' \<and> fst b \<noteq> ''command'' then False
      else \<not> tokenSetsEqual (tokenizeCommandSurface (snd a)) (tokenizeCommandSurface (snd b)))"

section \<open>The resolving surfaces\<close>

text \<open>\<open>Inl\<close> of the outer sum: the error is rethrown; the inner \<open>Inl\<close> is the HTTP status.\<close>

datatype resolution = Accept | Reject

definition resolveProposal ::
  "(nat \<Rightarrow> string) \<Rightarrow> epoch_ms \<Rightarrow> string \<Rightarrow> resolution \<Rightarrow> accept_options \<Rightarrow> consol_db \<Rightarrow>
   proposal_error + (nat + consol_db)" where
  "resolveProposal u now i action opts d =
     (case (if action = Reject then reject_proposal now i None d else accept_proposal u now i None opts d) of
        Inr d' \<Rightarrow> Inr (Inr d')
      | Inl (ProposalNotFoundError _) \<Rightarrow> Inr (Inl 404)
      | Inl (ProposalAlreadyResolvedError _ _) \<Rightarrow> Inr (Inl 409)
      | Inl (Memory_Refused (MemoryNotFoundError _)) \<Rightarrow> Inr (Inl 409)
      | Inl (Memory_Refused (MemoryConflictError _)) \<Rightarrow> Inr (Inl 409)
      | Inl e \<Rightarrow> Inl e)"

definition MAX_BATCH_RESOLVE :: nat where "MAX_BATCH_RESOLVE = 200"

definition skippable :: "proposal_error \<Rightarrow> bool" where
  "skippable e =
     (case e of
        ProposalNotFoundError _ \<Rightarrow> True
      | ProposalAlreadyResolvedError _ _ \<Rightarrow> True
      | Memory_Refused (MemoryNotFoundError _) \<Rightarrow> True
      | Memory_Refused (MemoryConflictError _) \<Rightarrow> True
      | _ \<Rightarrow> False)"

definition bulk_options :: accept_options where
  "bulk_options = no_accept_options\<lparr>bulkAccepted := True\<rparr>"

text \<open>
  The loop of the batch tool: \<open>u k\<close> gives the event ids of the \<open>k\<close>-th resolution. The result is
  the number resolved, the ids skipped, and the error that ends the call, if one does.
\<close>

fun batch_loop ::
  "(nat \<Rightarrow> nat \<Rightarrow> string) \<Rightarrow> epoch_ms \<Rightarrow> resolution \<Rightarrow> nat \<Rightarrow> proposal list \<Rightarrow> nat \<times> string list \<Rightarrow> consol_db \<Rightarrow>
   proposal_error option \<times> (nat \<times> string list) \<times> consol_db" where
  "batch_loop u now action k [] acc d = (None, acc, d)"
| "batch_loop u now action k (p # ps) (resolved, skipped) d =
     (case (if action = Accept then accept_proposal (u k) now (prop_id p) None bulk_options d
            else reject_proposal now (prop_id p) None d) of
        Inr d' \<Rightarrow> batch_loop u now action (Suc k) ps (resolved + 1, skipped) d'
      | Inl e \<Rightarrow>
          if skippable e then batch_loop u now action (Suc k) ps (resolved, skipped @ [prop_id p]) d
          else (Some e, (resolved, skipped), d))"

text \<open>The batch tool: its loop, and \<open>remaining\<close>, the count of matches minus the resolved.\<close>

definition resolve_batch ::
  "(nat \<Rightarrow> nat \<Rightarrow> string) \<Rightarrow> epoch_ms \<Rightarrow> resolution \<Rightarrow> proposal_kind option \<Rightarrow> real option \<Rightarrow> nat option \<Rightarrow>
   consol_db \<Rightarrow> proposal_error option \<times> (nat \<times> string list \<times> nat) \<times> consol_db" where
  "resolve_batch u now action kind minc limit d =
     (let opts = \<lparr>lo_limit = Some (case limit of None \<Rightarrow> MAX_BATCH_RESOLVE | Some n \<Rightarrow> n), lo_offset = None,
                  lo_minConfidence = minc\<rparr>;
          matched = list_proposals (Some Prop_Pending) kind opts d;
          totalMatching = count_proposals (Some Prop_Pending) kind minc d;
          (err, (resolved, skipped), d') = batch_loop u now action 0 matched (0, []) d
      in (err, (resolved, skipped, totalMatching - resolved), d'))"

section \<open>What a merge does\<close>

lemma get_unlink [simp]: "get_memory i (s\<lparr>memory_entities := x, relation_evidence := y\<rparr>) = get_memory i s"
  by (simp add: get_memory_def)

definition loser_row :: "epoch_ms \<Rightarrow> string \<Rightarrow> memory \<Rightarrow> memory" where
  "loser_row now w m = m\<lparr>mem_valid_to := Some now, superseded_by := Some w, mem_updated := now\<rparr>"

definition winner_row :: "epoch_ms \<Rightarrow> string \<Rightarrow> memory \<Rightarrow> memory" where
  "winner_row now l m =
     m\<lparr>mem_valid_from := Some now, mem_updated := now,
       derived_from := Some (add_lineage l (case derived_from m of None \<Rightarrow> [] | Some ls \<Rightarrow> ls))\<rparr>"

definition mergeable :: "string \<Rightarrow> string \<Rightarrow> store \<Rightarrow> bool" where
  "mergeable w l s \<longleftrightarrow>
     (case (get_memory w s, get_memory l s) of
        (Some mw, Some ml) \<Rightarrow> mem_valid_to mw = None \<and> mem_valid_to ml = None
      | _ \<Rightarrow> False)"

lemma mergeable_iff:
  "mergeable w l s \<longleftrightarrow> (\<exists>mw ml. get_memory w s = Some mw \<and> get_memory l s = Some ml \<and>
     mem_valid_to mw = None \<and> mem_valid_to ml = None)"
  by (auto simp: mergeable_def split: option.splits)

lemma merge_Inr_iff: "(\<exists>s'. mergeAsSupersede u now w l pr src s = Inr s') \<longleftrightarrow> mergeable w l s"
  by (auto simp: mergeAsSupersede_def supersede_def Let_def mergeable_iff split: option.splits sum.splits if_splits)

lemma merge_rows:
  assumes "mergeAsSupersede u now w l pr src s = Inr s'" and "w \<noteq> l"
  shows "get_memory i s' =
    (if i = l then map_option (loser_row now w) (get_memory i s)
     else if i = w then map_option (winner_row now l) (get_memory i s) else get_memory i s)"
  using assms
  by (auto simp: mergeAsSupersede_def supersede_def Let_def get_update_memory loser_row_def winner_row_def
      split: option.splits if_splits)

lemma merge_events:
  assumes "mergeAsSupersede u now w l pr src s = Inr s'"
  shows "map ev_payload (events s') = map ev_payload (events s) @
      [Some (P_Superseded w pr), Some (P_Corrected ''superseded'' src)] \<and>
    map event_type (events s') = map event_type (events s) @ [E_Supersede, E_Usefulness] \<and>
    map atom_id (events s') = map atom_id (events s) @ [l, l]"
  using assms
  by (auto simp: mergeAsSupersede_def supersede_def Let_def append_event_def update_memory_def
      split: option.splits if_splits)

lemma inv_merge:
  assumes "store_inv s" and "mergeAsSupersede u now w l pr src s = Inr s'"
  shows "store_inv s'"
proof -
  obtain s1 where s1: "supersede u now l w pr src s = Inr s1"
    and s': "s' = update_memory w (\<lambda>m. m\<lparr>derived_from := Some (add_lineage l (case derived_from m of None \<Rightarrow> [] | Some ls \<Rightarrow> ls)),
                        mem_updated := now\<rparr>) s1"
    using assms(2) by (auto simp: mergeAsSupersede_def split: sum.splits)
  show ?thesis unfolding s' by (rule store_inv_update) (use inv_supersede[OF assms(1) s1] in \<open>auto simp: row_inv_def\<close>)
qed

lemma bulk_frame [simp]:
  "memories (markBulkAccepted l s) = memories s" "get_memory i (markBulkAccepted l s) = get_memory i s"
  by (simp_all add: markBulkAccepted_def get_memory_def split: option.split)

lemma inv_bulk: "store_inv s \<Longrightarrow> store_inv (markBulkAccepted l s)"
  by (simp add: markBulkAccepted_def store_inv_def log_ok_def refs_ok_def vec_ok_def map_update_rows_same
      set_update_rows split: option.split) auto

interpretation newest: least_pick "\<lambda>e f :: mem_event. seq f \<le> seq e" by unfold_locales auto

lemma in_set_nonempty: "x \<in> set xs \<Longrightarrow> xs \<noteq> []"
  by auto

text \<open>The last \<open>supersede\<close> event of the loser is the one the merge has just appended.\<close>

lemma merge_then_bulk:
  assumes inv: "store_inv s" and m: "mergeAsSupersede u now w l pr src s = Inr s'"
  shows "map ev_payload (events (markBulkAccepted l s')) = map ev_payload (events s) @
      [Some (P_Superseded_Bulk w pr), Some (P_Corrected ''superseded'' src)]"
proof -
  obtain e f where e: "events s' = events s @ [e, f]" "seq e = next_seq s" "seq f = next_seq s + 1" "atom_id e = l"
    "event_type e = E_Supersede" "event_type f = E_Usefulness" "ev_payload e = Some (P_Superseded w pr)"
    "ev_payload f = Some (P_Corrected ''superseded'' src)"
    using m by (auto simp: mergeAsSupersede_def supersede_def Let_def append_event_def update_memory_def
        split: option.splits if_splits)
  have lt: "\<forall>x \<in> set (events s). seq x < next_seq s" using store_inv_parts(2)[OF inv] by (simp add: log_ok_def)
  let ?es = "filter (\<lambda>e. atom_id e = l \<and> event_type e = E_Supersede) (events s')"
  have mem: "e \<in> set ?es" using e by simp
  then have "?es \<noteq> []" by (rule in_set_nonempty)
  then obtain r where r: "first_min (\<lambda>e f. seq f \<le> seq e) ?es = Some r"
    by (cases "first_min (\<lambda>e f. seq f \<le> seq e) ?es") (simp_all only: first_min_None)
  have "seq e \<le> seq r" using newest.first_min_le[OF r mem] .
  moreover have "r \<in> set ?es" using r by (rule first_min_in)
  ultimately have "r = e" using lt e by auto
  then have "events (markBulkAccepted l s') =
      update_rows (\<lambda>x. seq x = seq e) (\<lambda>x. x\<lparr>ev_payload := bulk_payload (ev_payload x)\<rparr>) (events s')"
    using r by (simp add: markBulkAccepted_def)
  moreover have "update_rows (\<lambda>x. seq x = seq e) (\<lambda>x. x\<lparr>ev_payload := bulk_payload (ev_payload x)\<rparr>) (events s) = events s"
    by (rule update_rows_none) (use lt e in auto)
  ultimately have "events (markBulkAccepted l s') =
      events s @ [e\<lparr>ev_payload := bulk_payload (ev_payload e)\<rparr>, f]"
    unfolding e(1) update_rows_append by (simp add: e(2,3))
  then show ?thesis by (simp add: e(7,8))
qed

section \<open>The invariant of the queue\<close>

definition pending_pairs :: "proposal list \<Rightarrow> (string \<times> string) list" where
  "pending_pairs ps = map (\<lambda>p. pair_key (winner_id p) (loser_id p)) (filter (\<lambda>p. prop_status p = Prop_Pending) ps)"

definition prop_inv :: "consol_db \<Rightarrow> bool" where
  "prop_inv d \<longleftrightarrow> store_inv (atom_db d) \<and> distinct (map prop_id (proposals d)) \<and>
     distinct (pending_pairs (proposals d)) \<and>
     list_all (\<lambda>p. (prop_status p = Prop_Pending) = (resolved_at p = None)) (proposals d)"

interpretation prop_rows: keyed_rows prop_id .

text \<open>The operations on the queue, with the life cycle operations on the atoms in between.\<close>

datatype queue_op =
    Q_Accept string "supersede_provenance option" accept_options
  | Q_Reject string "proposal_meta option"
  | Q_Propose proposal_kind string string real "proposal_meta option"
  | Q_Annotate string guard_site
  | Q_Life lop

fun run_queue_op ::
  "(nat \<Rightarrow> string) \<Rightarrow> epoch_ms \<Rightarrow> queue_op \<Rightarrow> consol_db \<Rightarrow> proposal_error + consol_db" where
  "run_queue_op u now (Q_Accept i pr opts) d = accept_proposal u now i pr opts d"
| "run_queue_op u now (Q_Reject i meta) d = reject_proposal now i meta d"
| "run_queue_op u now (Q_Propose k w l sim meta) d = map_sum id snd (insert_proposal (u 0) now k w l sim meta d)"
| "run_queue_op u now (Q_Annotate i site) d = Inr (annotateCommandGuardBlocked i site d)"
| "run_queue_op u now (Q_Life a) d =
     (case run_op u now a (atom_db d) of Inl e \<Rightarrow> Inl (Memory_Refused e) | Inr s \<Rightarrow> Inr (d\<lparr>atom_db := s\<rparr>))"

definition queue_step :: "(nat \<Rightarrow> string) \<times> epoch_ms \<times> queue_op \<Rightarrow> consol_db \<Rightarrow> consol_db" where
  "queue_step c d = commit d (run_queue_op (fst c) (fst (snd c)) (snd (snd c)) d)"

lemma pending_pairs_append [simp]: "pending_pairs (ps @ qs) = pending_pairs ps @ pending_pairs qs"
  by (simp add: pending_pairs_def)

lemma pair_pending_iff: "pair_pending w l d \<longleftrightarrow> pair_key w l \<in> set (pending_pairs (proposals d))"
  by (force simp: pair_pending_def pending_pairs_def list_ex_iff image_iff)

lemma pending_pairs_same:
  "(\<And>p. P p \<Longrightarrow> prop_status (f p) = prop_status p \<and> winner_id (f p) = winner_id p \<and> loser_id (f p) = loser_id p) \<Longrightarrow>
   pending_pairs (update_rows P f ps) = pending_pairs ps"
  by (induction ps) (auto simp: pending_pairs_def)

lemma pending_pairs_resolved:
  "(\<And>p. P p \<Longrightarrow> prop_status (f p) \<noteq> Prop_Pending) \<Longrightarrow>
   pending_pairs (update_rows P f ps) =
     map (\<lambda>p. pair_key (winner_id p) (loser_id p)) (filter (\<lambda>p. \<not> P p) (filter (\<lambda>p. prop_status p = Prop_Pending) ps))"
  by (induction ps) (auto simp: pending_pairs_def)

lemma distinct_pending_resolved:
  "(\<And>p. P p \<Longrightarrow> prop_status (f p) \<noteq> Prop_Pending) \<Longrightarrow> distinct (pending_pairs ps) \<Longrightarrow>
   distinct (pending_pairs (update_rows P f ps))"
  by (subst pending_pairs_resolved, assumption) (unfold pending_pairs_def, rule distinct_map_filter)

definition settled_row :: "epoch_ms \<Rightarrow> proposal_status \<Rightarrow> proposal_meta option \<Rightarrow> proposal \<Rightarrow> proposal" where
  "settled_row now st meta p =
     p\<lparr>prop_status := st, resolved_at := Some now, metadata := (case meta of None \<Rightarrow> metadata p | Some m \<Rightarrow> Some m)\<rparr>"

lemma resolve_proposal_eq:
  "resolve_proposal now i st meta d = update_proposals (\<lambda>p. prop_id p = i) (settled_row now st meta) d"
  by (auto simp: resolve_proposal_def settled_row_def update_proposals_def fun_eq_iff intro!: arg_cong[where f = "\<lambda>f. d\<lparr>proposals := update_rows _ f _\<rparr>"]
      split: option.split)

lemma prop_inv_resolve:
  assumes "prop_inv d" and "st \<noteq> Prop_Pending"
  shows "prop_inv (resolve_proposal now i st meta d)"
proof -
  have "distinct (map prop_id (update_rows (\<lambda>p. prop_id p = i) (settled_row now st meta) (proposals d)))"
    using assms(1) by (intro prop_rows.distinct_update) (auto simp: settled_row_def prop_inv_def)
  moreover have "distinct (pending_pairs (update_rows (\<lambda>p. prop_id p = i) (settled_row now st meta) (proposals d)))"
    using assms by (intro distinct_pending_resolved) (auto simp: settled_row_def prop_inv_def)
  moreover have "list_all (\<lambda>p. (prop_status p = Prop_Pending) = (resolved_at p = None))
      (update_rows (\<lambda>p. prop_id p = i) (settled_row now st meta) (proposals d))"
    using assms by (auto simp: prop_inv_def list_all_iff set_update_rows settled_row_def)
  ultimately show ?thesis using assms(1) by (simp add: resolve_proposal_eq update_proposals_def prop_inv_def)
qed

lemma accept_InrD:
  assumes "accept_proposal u now i pr opts d = Inr d'"
  obtains p s where "get_proposal i d = Some p" "prop_status p = Prop_Pending"
    "mergeAsSupersede u now (winner_id p) (loser_id p) pr
       (case correctionSource opts of None \<Rightarrow> External | Some src \<Rightarrow> src) (atom_db d) = Inr s"
    "d' = resolve_proposal now i Prop_Accepted (accept_metadata opts)
       (d\<lparr>atom_db := (if bulkAccepted opts then markBulkAccepted (loser_id p) s else s)\<rparr>)"
  using assms that
  by (auto simp: accept_proposal_def mustBePending_def Let_def get_proposal_def dest: get_row_SomeD
      split: option.splits sum.splits if_splits)

lemma reject_InrD:
  assumes "reject_proposal now i meta d = Inr d'"
  obtains p where "get_proposal i d = Some p" "prop_status p = Prop_Pending"
    "d' = resolve_proposal now i Prop_Rejected meta d"
  using assms that
  by (auto simp: reject_proposal_def mustBePending_def get_proposal_def dest: get_row_SomeD
      split: option.splits sum.splits if_splits)

lemma insert_proposal_InrD:
  assumes "insert_proposal x now k w l sim meta d = Inr (b, d')"
  shows "if b then \<not> pair_pending w l d \<and> get_proposal x d = None \<and>
       d' = d\<lparr>proposals := proposals d @ [\<lparr>prop_id = x, prop_kind = k, winner_id = w, loser_id = l, similarity = sim,
               prop_status = Prop_Pending, prop_created = now, resolved_at = None, metadata = meta\<rparr>]\<rparr>
     else pair_pending w l d \<and> d' = d"
  using assms by (auto simp: insert_proposal_def split: if_splits)

lemma prop_inv_atoms: "prop_inv d \<Longrightarrow> store_inv s \<Longrightarrow> prop_inv (d\<lparr>atom_db := s\<rparr>)"
  by (simp add: prop_inv_def)

lemma inv_accept:
  assumes "prop_inv d" and "accept_proposal u now i pr opts d = Inr d'"
  shows "prop_inv d'"
proof (rule accept_InrD[OF assms(2)])
  fix p s
  let ?s = "if bulkAccepted opts then markBulkAccepted (loser_id p) s else s"
  assume m: "mergeAsSupersede u now (winner_id p) (loser_id p) pr
       (case correctionSource opts of None \<Rightarrow> External | Some src \<Rightarrow> src) (atom_db d) = Inr s"
    and d': "d' = resolve_proposal now i Prop_Accepted (accept_metadata opts) (d\<lparr>atom_db := ?s\<rparr>)"
  have "store_inv (atom_db d)" using assms(1) by (simp add: prop_inv_def)
  then have "store_inv s" using m by (rule inv_merge)
  then have "store_inv ?s" by (simp add: inv_bulk)
  then show "prop_inv d'" unfolding d' by (intro prop_inv_resolve prop_inv_atoms assms(1)) simp_all
qed

lemma inv_reject: "prop_inv d \<Longrightarrow> reject_proposal now i meta d = Inr d' \<Longrightarrow> prop_inv d'"
  by (erule reject_InrD) (simp add: prop_inv_resolve)

lemma inv_insert_proposal:
  assumes "prop_inv d" and "insert_proposal x now k w l sim meta d = Inr (b, d')"
  shows "prop_inv d'"
  using insert_proposal_InrD[OF assms(2)] assms(1)
  by (auto simp: prop_inv_def pair_pending_iff pending_pairs_def get_proposal_def get_row_None_iff split: if_splits)

lemma inv_annotate: "prop_inv d \<Longrightarrow> prop_inv (annotateCommandGuardBlocked i site d)"
  by (auto simp: annotateCommandGuardBlocked_def update_proposals_def prop_inv_def list_all_iff set_update_rows
      pending_pairs_same prop_rows.keys_update)

lemma queue_op_inv:
  assumes inv: "prop_inv d" and op: "run_queue_op u now a d = Inr d'"
  shows "prop_inv d'"
proof (cases a)
  case (Q_Accept i pr opts)
  with op inv show ?thesis by (auto dest: inv_accept)
next
  case (Q_Reject i meta)
  with op inv show ?thesis by (auto dest: inv_reject)
next
  case (Q_Propose k w l sim meta)
  with op obtain b where "insert_proposal (u 0) now k w l sim meta d = Inr (b, d')" by (auto simp: map_sum_Inr)
  with inv show ?thesis by (rule inv_insert_proposal)
next
  case (Q_Annotate i site)
  with op inv show ?thesis by (auto simp: inv_annotate)
next
  case (Q_Life b)
  with op obtain s where "run_op u now b (atom_db d) = Inr s" "d' = d\<lparr>atom_db := s\<rparr>" by (auto split: sum.splits)
  moreover have "store_inv (atom_db d)" using inv by (simp add: prop_inv_def)
  ultimately show ?thesis using inv run_op_inv by (auto simp: prop_inv_def)
qed


lemma queue_step_inv: "prop_inv d \<Longrightarrow> prop_inv (queue_step c d)"
  by (cases "run_queue_op (fst c) (fst (snd c)) (snd (snd c)) d") (auto simp: queue_step_def dest: queue_op_inv)

interpretation queue: op_system prop_inv queue_step
  by unfold_locales (rule queue_step_inv)

section \<open>Resolved once\<close>

definition resolved_row :: "string \<Rightarrow> proposal \<Rightarrow> consol_db \<Rightarrow> bool" where
  "resolved_row i p d \<longleftrightarrow> get_proposal i d = Some p \<and> prop_status p \<noteq> Prop_Pending"

lemma get_update_proposals:
  "(\<And>p. P p \<Longrightarrow> prop_id (f p) = prop_id p) \<Longrightarrow>
   get_proposal i (update_proposals P f d) = map_option (\<lambda>p. if P p then f p else p) (get_proposal i d)"
  by (simp add: get_proposal_def update_proposals_def prop_rows.get_update)

lemma get_resolve:
  "get_proposal j (resolve_proposal now i st meta d) =
     map_option (\<lambda>p. if prop_id p = i then settled_row now st meta p else p) (get_proposal j d)"
  by (simp add: resolve_proposal_eq get_update_proposals settled_row_def)

lemma get_proposal_id: "get_proposal i d = Some p \<Longrightarrow> prop_id p = i"
  by (auto simp: get_proposal_def dest: get_row_SomeD)

lemma get_proposal_atoms [simp]: "get_proposal i (d\<lparr>atom_db := s\<rparr>) = get_proposal i d"
  by (simp add: get_proposal_def)

lemma resolved_step:
  assumes "resolved_row i p d"
  shows "resolved_row i p (queue_step c d)"
proof -
  obtain u now a where c: "c = (u, now, a)" by (cases c)
  note r = assms[unfolded resolved_row_def] get_proposal_id[of i d p]
  have "resolved_row i p d'" if "run_queue_op u now a d = Inr d'" for d'
  proof (cases a)
    case (Q_Accept j pr opts)
    with that show ?thesis using r by (auto simp: resolved_row_def get_resolve elim!: accept_InrD)
  next
    case (Q_Reject j meta)
    with that show ?thesis using r by (auto simp: resolved_row_def get_resolve elim!: reject_InrD)
  next
    case (Q_Propose k w l sim meta)
    with that obtain b where "insert_proposal (u 0) now k w l sim meta d = Inr (b, d')" by (auto simp: map_sum_Inr)
    from insert_proposal_InrD[OF this] show ?thesis using r
      by (auto simp: resolved_row_def get_proposal_def get_row_append split: if_splits)
  next
    case (Q_Annotate j site)
    with that show ?thesis using r
      by (auto simp: resolved_row_def annotateCommandGuardBlocked_def get_update_proposals)
  next
    case (Q_Life b)
    with that show ?thesis using r by (auto simp: resolved_row_def split: sum.splits)
  qed
  with assms show ?thesis by (cases "run_queue_op u now a d") (simp_all add: c queue_step_def)
qed

lemma resolved_run: "resolved_row i p d \<Longrightarrow> resolved_row i p (fold queue_step cs d)"
  by (induction cs arbitrary: d) (auto intro: resolved_step)

text \<open>
  C31: Whatever is done to the proposals and to the memories, in any order and with any failures,
  the queue stays well formed - the memory store keeps its invariant, ids are unique, at most one
  pending proposal exists per unordered pair, and exactly the resolved rows carry a resolution
  time - and a proposal that has been resolved is never touched again: its status, its time and
  its metadata stay as they were.
\<close>

theorem proposals_are_resolved_once:
  assumes "prop_inv d" and "resolved_row i p d"
  shows "prop_inv (fold queue_step cs d) \<and> resolved_row i p (fold queue_step cs d)"
  using assms by (simp add: queue.run_inv resolved_run)

definition demo_consol :: consol_db where
  "demo_consol = \<lparr>atom_db = demo_store, proposals =
     [\<lparr>prop_id = ''p1'', prop_kind = Merge, winner_id = ''b'', loser_id = ''a'', similarity = 9 / 10,
       prop_status = Prop_Rejected, prop_created = 5, resolved_at = Some 6, metadata = None\<rparr>,
      \<lparr>prop_id = ''p2'', prop_kind = Merge, winner_id = ''b'', loser_id = ''a'', similarity = 88 / 100,
       prop_status = Prop_Pending, prop_created = 7, resolved_at = None, metadata = None\<rparr>],
     group_cursor = None\<rparr>"

lemma demo_consol_inv: "prop_inv demo_consol"
  by (simp add: prop_inv_def demo_consol_def demo_store_inv pending_pairs_def)


theorem proposals_are_resolved_once_witness:
  "resolved_row ''p1'' (hd (proposals demo_consol))
     (fold queue_step [((\<lambda>_. ''u''), 50, Q_Accept ''p1'' None no_accept_options),
                       ((\<lambda>_. ''v''), 60, Q_Reject ''p1'' None)] demo_consol)"
  by (rule proposals_are_resolved_once[OF demo_consol_inv, THEN conjunct2])
    (simp add: resolved_row_def demo_consol_def get_proposal_def)

section \<open>What accepting does\<close>

lemma merge_InrD: "mergeAsSupersede u now w l pr src s = Inr s' \<Longrightarrow> mergeable w l s"
  using merge_Inr_iff by metis

lemma merge_InlD: "mergeAsSupersede u now w l pr src s = Inl e \<Longrightarrow> \<not> mergeable w l s"
  using merge_Inr_iff by (metis sum.distinct(1))

lemma accept_succeeds_iff:
  "(\<exists>d'. accept_proposal u now i pr opts d = Inr d') \<longleftrightarrow>
     (\<exists>p. get_proposal i d = Some p \<and> prop_status p = Prop_Pending \<and> mergeable (winner_id p) (loser_id p) (atom_db d))"
  by (auto simp: accept_proposal_def mustBePending_def Let_def dest: merge_InrD merge_InlD split: option.splits sum.splits)

lemma accept_InlD:
  "accept_proposal u now i pr opts d = Inl e \<Longrightarrow> get_proposal i d = Some p \<Longrightarrow> prop_status p = Prop_Pending \<Longrightarrow>
   \<not> mergeable (winner_id p) (loser_id p) (atom_db d)"
  by (auto simp: accept_proposal_def mustBePending_def Let_def dest: merge_InlD split: sum.splits)

definition accepted_payloads ::
  "proposal \<Rightarrow> supersede_provenance option \<Rightarrow> accept_options \<Rightarrow> payload option list" where
  "accepted_payloads p pr opts =
     [Some (if bulkAccepted opts then P_Superseded_Bulk (winner_id p) pr else P_Superseded (winner_id p) pr),
      Some (P_Corrected ''superseded'' (case correctionSource opts of None \<Rightarrow> External | Some src \<Rightarrow> src))]"



section \<open>Listing in pages\<close>

text \<open>The pages of a listing are consecutive pieces of it, and \<open>count\<close> is their total length.\<close>

lemma take_drop_pages: "0 < n \<Longrightarrow> concat (map (\<lambda>k. take n (drop (k * n) xs)) [0..<m]) = take (m * n) xs"
proof (induction m)
  case (Suc m)
  have "take (m * n) xs @ take n (drop (m * n) xs) = take (m * n + n) xs" by (simp add: take_add)
  with Suc show ?case by (simp add: add.commute)
qed simp

lemma pages_cover_the_listing:
  assumes "0 < n" and "count_proposals st kind minc d \<le> m * n"
  shows "concat (map (\<lambda>k. list_proposals st kind \<lparr>lo_limit = Some n, lo_offset = Some (k * n), lo_minConfidence = minc\<rparr> d)
      [0..<m]) = matching_rows st kind minc d"
proof -
  have "length (matching_rows st kind minc d) \<le> m * n"
    using assms(2) by (simp add: count_proposals_def list_proposals_def Let_def no_list_options_def)
  then show ?thesis using take_drop_pages[OF assms(1), of "matching_rows st kind minc d" m]
    unfolding list_proposals_def Let_def by simp
qed

section \<open>The batch tool\<close>

definition selected :: "proposal_kind option \<Rightarrow> real option \<Rightarrow> proposal \<Rightarrow> bool" where
  "selected kind minc p \<longleftrightarrow> prop_status p = Prop_Pending \<and> (case kind of None \<Rightarrow> True | Some k \<Rightarrow> prop_kind p = k) \<and>
     (case minc of None \<Rightarrow> True | Some c \<Rightarrow> c \<le> proposalConfidence p)"

lemma set_matching: "set (matching_rows (Some Prop_Pending) kind minc d) = set (filter (selected kind minc) (proposals d))"
  by (auto simp: matching_rows_def selected_def Let_def split: option.splits)

lemma matching_rows_sort:
  "matching_rows (Some Prop_Pending) kind minc d = sort_key prop_created (filter (selected kind minc) (proposals d))"
  by (cases kind; cases minc) (auto simp: matching_rows_def selected_def Let_def filter_sort
      intro!: arg_cong[where f = "sort_key prop_created"] filter_cong)

lemma count_selected: "count_proposals (Some Prop_Pending) kind minc d = count_rows (selected kind minc) (proposals d)"
  by (simp add: count_proposals_def list_proposals_def no_list_options_def matching_rows_sort count_rows_def)

lemma distinct_map_Cons: "distinct (map f (x # xs)) \<Longrightarrow> y \<in> set xs \<Longrightarrow> f y \<noteq> f x"
  unfolding list.map distinct.simps set_map by (metis image_eqI)

lemma count_settle_one:
  "distinct (map prop_id ps) \<Longrightarrow> get_row prop_id i ps = Some p \<Longrightarrow> Q p \<Longrightarrow> \<not> Q (f p) \<Longrightarrow>
   count_rows Q ps = Suc (count_rows Q (update_rows (\<lambda>r. prop_id r = i) f ps))"
proof (induction ps)
  case (Cons r ps)
  show ?case
  proof (cases "prop_id r = i")
    case True
    have "prop_id q \<noteq> i" if "q \<in> set ps" for q using distinct_map_Cons[OF Cons.prems(1) that] True by simp
    then have "update_rows (\<lambda>r. prop_id r = i) f ps = ps" by (rule update_rows_none)
    with True Cons.prems show ?thesis by (simp add: count_rows_def)
  next
    case False
    with Cons show ?thesis by (auto simp: count_rows_def)
  qed
qed simp

lemma count_resolve:
  assumes "prop_inv d" and "get_proposal i d = Some p" and "selected kind minc p" and "st \<noteq> Prop_Pending"
    and "proposals d' = proposals d"
  shows "count_rows (selected kind minc) (proposals d) =
    Suc (count_rows (selected kind minc) (proposals (resolve_proposal now i st meta d')))"
proof -
  have "distinct (map prop_id (proposals d))" using assms(1) by (simp add: prop_inv_def)
  moreover have "get_row prop_id i (proposals d) = Some p" using assms(2) by (simp add: get_proposal_def)
  moreover have "\<not> selected kind minc (settled_row now st meta p)" using assms(4) by (simp add: selected_def settled_row_def)
  ultimately show ?thesis
    using assms(3,5) by (simp add: resolve_proposal_eq update_proposals_def count_settle_one[where f = "settled_row now st meta"])
qed

lemma batch_step:
  assumes inv: "prop_inv d" and get: "get_proposal (prop_id p) d = Some p" and sel: "selected kind minc p"
    and ok: "(if action = Accept then accept_proposal u now (prop_id p) None bulk_options d
              else reject_proposal now (prop_id p) None d) = Inr d'"
  shows "prop_inv d' \<and> count_rows (selected kind minc) (proposals d) = Suc (count_rows (selected kind minc) (proposals d')) \<and>
    (\<forall>j. j \<noteq> prop_id p \<longrightarrow> get_proposal j d' = get_proposal j d)"
proof -
  obtain st meta e where d': "d' = resolve_proposal now (prop_id p) st meta e" "st \<noteq> Prop_Pending"
    "proposals e = proposals d"
    using ok by (cases "action = Accept") (auto elim!: accept_InrD reject_InrD)
  have "prop_inv d'" using ok inv by (auto dest: inv_accept inv_reject split: if_splits)
  moreover have "get_proposal j d' = get_proposal j d" if "j \<noteq> prop_id p" for j
  proof -
    have "get_proposal j e = get_proposal j d" by (simp add: get_proposal_def d')
    then show ?thesis using that get_proposal_id[of j d] by (cases "get_proposal j d") (auto simp: d'(1) get_resolve)
  qed
  ultimately show ?thesis using count_resolve[OF inv get sel d'(2,3)] d'(1) by auto
qed

lemma batch_loop_accounts:
  assumes "prop_inv d" and "distinct (map prop_id ps)"
    and "\<forall>p \<in> set ps. get_proposal (prop_id p) d = Some p \<and> selected kind minc p"
    and "batch_loop u now action k ps (r, sk) d = (err, (r', sk'), d')"
  shows "prop_inv d' \<and>
    count_rows (selected kind minc) (proposals d) + r = count_rows (selected kind minc) (proposals d') + r' \<and>
    (err = None \<longrightarrow> r' + length sk' = r + length sk + length ps) \<and>
    (\<exists>more. sk' = sk @ more \<and> set more \<subseteq> prop_id ` set ps \<and> (\<forall>i \<in> set more. get_proposal i d' = get_proposal i d)) \<and>
    (\<forall>i. i \<notin> prop_id ` set ps \<longrightarrow> get_proposal i d' = get_proposal i d)"
  using assms
proof (induction ps arbitrary: k r sk d)
  case (Cons p ps)
  let ?op = "if action = Accept then accept_proposal (u k) now (prop_id p) None bulk_options d
     else reject_proposal now (prop_id p) None d"
  show ?case
  proof (cases ?op)
    case (Inl e)
    show ?thesis
    proof (cases "skippable e")
      case True
      from Inl True Cons.prems have b: "batch_loop u now action (Suc k) ps (r, sk @ [prop_id p]) d = (err, (r', sk'), d')"
        by simp
      have "distinct (map prop_id ps)" "\<forall>p \<in> set ps. get_proposal (prop_id p) d = Some p \<and> selected kind minc p"
        using Cons.prems by auto
      from Cons.IH[OF Cons.prems(1) this b] Cons.prems(2) show ?thesis by auto
    next
      case False
      with Inl Cons.prems show ?thesis by auto
    qed
  next
    case (Inr d1)
    from Inr Cons.prems have b: "batch_loop u now action (Suc k) ps (r + 1, sk) d1 = (err, (r', sk'), d')" by simp
    have p: "get_proposal (prop_id p) d = Some p" "selected kind minc p" using Cons.prems(3) by auto
    note st = batch_step[OF Cons.prems(1) p Inr]
    have "prop_id q \<noteq> prop_id p" if "q \<in> set ps" for q using distinct_map_Cons[OF Cons.prems(2) that] .
    then have "\<forall>q \<in> set ps. get_proposal (prop_id q) d1 = Some q \<and> selected kind minc q"
      using st Cons.prems(3) by simp
    from Cons.IH[OF conjunct1[OF st] _ this b] Cons.prems(2)
    have ih: "prop_inv d' \<and> count_rows (selected kind minc) (proposals d1) + (r + 1) = count_rows (selected kind minc) (proposals d') + r' \<and>
      (err = None \<longrightarrow> r' + length sk' = r + 1 + length sk + length ps) \<and>
      (\<exists>more. sk' = sk @ more \<and> set more \<subseteq> prop_id ` set ps \<and> (\<forall>i \<in> set more. get_proposal i d' = get_proposal i d1)) \<and>
      (\<forall>i. i \<notin> prop_id ` set ps \<longrightarrow> get_proposal i d' = get_proposal i d1)" by simp
    have "prop_id p \<notin> prop_id ` set ps" using Cons.prems(2) by simp
    then have pp: "get_proposal (prop_id p) d' = get_proposal (prop_id p) d1" using ih by blast
    obtain more where more: "sk' = sk @ more" "set more \<subseteq> prop_id ` set ps" "\<forall>i \<in> set more. get_proposal i d' = get_proposal i d1"
      using ih by blast
    have "\<forall>i \<in> set more. get_proposal i d' = get_proposal i d"
      using more(2,3) st \<open>prop_id p \<notin> prop_id ` set ps\<close> by (metis subsetD)
    then have "\<exists>more. sk' = sk @ more \<and> set more \<subseteq> prop_id ` set (p # ps) \<and> (\<forall>i \<in> set more. get_proposal i d' = get_proposal i d)"
      using more(1,2) by (intro exI[of _ more]) auto
    moreover have "\<forall>i. i \<notin> prop_id ` set (p # ps) \<longrightarrow> get_proposal i d' = get_proposal i d" using ih st by simp
    ultimately show ?thesis using ih st by simp
  qed
qed auto

text \<open>
  A batch call that is not cut short by an unexpected error accounts for every match: the
  resolved and the skipped together are the matches within the limit, each skipped proposal is left
  as it was and is still pending, and the \<open>remaining\<close> it reports is exactly the number of
  proposals that still match afterwards.
\<close>

lemma batch_accounts_for_every_match:
  assumes "prop_inv d" and "resolve_batch u now action kind minc limit d = (None, (resolved, skipped, remaining), d')"
  shows "prop_inv d' \<and>
    resolved + length skipped =
      min (case limit of None \<Rightarrow> MAX_BATCH_RESOLVE | Some n \<Rightarrow> n) (count_proposals (Some Prop_Pending) kind minc d) \<and>
    remaining = count_proposals (Some Prop_Pending) kind minc d' \<and>
    list_all (\<lambda>i. get_proposal i d' = get_proposal i d \<and>
      (case get_proposal i d' of None \<Rightarrow> False | Some p \<Rightarrow> prop_status p = Prop_Pending)) skipped"
proof -
  let ?n = "case limit of None \<Rightarrow> MAX_BATCH_RESOLVE | Some n \<Rightarrow> n"
  let ?ps = "take ?n (matching_rows (Some Prop_Pending) kind minc d)"
  have b: "batch_loop u now action 0 ?ps (0, []) d = (None, (resolved, skipped), d')"
    and rem: "remaining = count_proposals (Some Prop_Pending) kind minc d - resolved"
    using assms(2) by (auto simp: resolve_batch_def Let_def list_proposals_def split: prod.splits)
  have dist: "distinct (map prop_id (proposals d))" using assms(1) by (simp add: prop_inv_def)
  have "distinct (map prop_id (matching_rows (Some Prop_Pending) kind minc d))"
    using dist by (simp add: matching_rows_sort distinct_map inj_on_def)
  then have d: "distinct (map prop_id ?ps)" by (simp add: take_map[symmetric])
  have sel: "\<forall>p \<in> set ?ps. get_proposal (prop_id p) d = Some p \<and> selected kind minc p"
    using set_matching[of kind minc d] prop_rows.get_in[OF dist] by (auto simp: get_proposal_def dest!: in_set_takeD)
  note acc = batch_loop_accounts[OF assms(1) d sel b]
  have "\<forall>i \<in> set skipped. i \<in> prop_id ` set ?ps \<and> get_proposal i d' = get_proposal i d" using acc by auto
  then have "list_all (\<lambda>i. get_proposal i d' = get_proposal i d \<and>
      (case get_proposal i d' of None \<Rightarrow> False | Some p \<Rightarrow> prop_status p = Prop_Pending)) skipped"
    using sel by (auto simp: list_all_iff selected_def)
  moreover have "length ?ps = min ?n (count_proposals (Some Prop_Pending) kind minc d)"
    by (simp add: count_selected matching_rows_sort count_rows_def min.commute)
  moreover have "remaining = count_proposals (Some Prop_Pending) kind minc d'"
    using acc rem by (simp add: count_selected)
  ultimately show ?thesis using acc by simp
qed


lemma batch_accounts_for_every_match_witness:
  "\<exists>d'. resolve_batch (\<lambda>_ _. ''u'') 50 Reject None None None demo_consol = (None, (1, [], 0), d') \<and> prop_inv d' \<and>
     count_proposals (Some Prop_Pending) None None d' = 0"
proof -
  have m: "matching_rows (Some Prop_Pending) None None demo_consol = [proposals demo_consol ! 1]"
    by (simp add: matching_rows_def demo_consol_def)
  have "\<exists>d'. resolve_batch (\<lambda>_ _. ''u'') 50 Reject None None None demo_consol = (None, (1, [], 0), d')"
    by (simp add: resolve_batch_def list_proposals_def count_proposals_def no_list_options_def m MAX_BATCH_RESOLVE_def
        reject_proposal_def mustBePending_def get_proposal_def Let_def) (simp add: demo_consol_def)
  then obtain d' where r: "resolve_batch (\<lambda>_ _. ''u'') 50 Reject None None None demo_consol = (None, (1, [], 0), d')" ..
  from batch_accounts_for_every_match[OF demo_consol_inv r] r show ?thesis by (intro exI[of _ d']) simp
qed

text \<open>
  The tool asks its caller to call again while \<open>remaining\<close> is not zero, because the matching set
  shrinks. It need not: when the oldest matches are all in conflict, as many as the limit allows, a
  call resolves nothing and changes nothing, and so does every further call - also when younger
  proposals could be resolved.
\<close>

lemma supersede_InlD: "supersede u now l w pr src s = Inl e \<Longrightarrow> skippable (Memory_Refused e)"
  by (auto simp: supersede_def Let_def skippable_def split: option.splits if_splits)

lemma refused_accept_is_skippable:
  assumes "get_proposal i d = Some p" and "prop_status p = Prop_Pending"
    and "\<not> mergeable (winner_id p) (loser_id p) (atom_db d)"
  shows "\<exists>e. accept_proposal u now i pr opts d = Inl e \<and> skippable e"
proof (cases "accept_proposal u now i pr opts d")
  case (Inl e)
  with assms have "\<exists>e'. e = Memory_Refused e' \<and> skippable (Memory_Refused e')"
    by (auto simp: accept_proposal_def mustBePending_def mergeAsSupersede_def Let_def dest: supersede_InlD split: sum.splits)
  with Inl show ?thesis by auto
next
  case (Inr d')
  with assms show ?thesis using accept_succeeds_iff[of u now i pr opts d] by auto
qed

lemma batch_loop_stalls:
  "\<forall>p \<in> set ps. get_proposal (prop_id p) d = Some p \<and> prop_status p = Prop_Pending \<and>
     \<not> mergeable (winner_id p) (loser_id p) (atom_db d) \<Longrightarrow>
   batch_loop u now Accept k ps (r, sk) d = (None, (r, sk @ map prop_id ps), d)"
proof (induction ps arbitrary: k sk)
  case (Cons p ps)
  obtain e where "accept_proposal (u k) now (prop_id p) None bulk_options d = Inl e" "skippable e"
    using refused_accept_is_skippable[of "prop_id p" d p "u k" now None bulk_options] Cons.prems by auto
  with Cons show ?case by simp
qed simp

lemma batch_stalls:
  assumes "prop_inv d"
    and "\<forall>p \<in> set (take n (matching_rows (Some Prop_Pending) kind minc d)). \<not> mergeable (winner_id p) (loser_id p) (atom_db d)"
  shows "resolve_batch u now Accept kind minc (Some n) d =
    (None, (0, map prop_id (take n (matching_rows (Some Prop_Pending) kind minc d)),
      count_proposals (Some Prop_Pending) kind minc d), d)"
proof -
  have "distinct (map prop_id (proposals d))" using assms(1) by (simp add: prop_inv_def)
  then have "\<forall>p \<in> set (take n (matching_rows (Some Prop_Pending) kind minc d)).
      get_proposal (prop_id p) d = Some p \<and> prop_status p = Prop_Pending \<and> \<not> mergeable (winner_id p) (loser_id p) (atom_db d)"
    using set_matching[of kind minc d] prop_rows.get_in assms(2)
    by (auto simp: get_proposal_def selected_def dest!: in_set_takeD)
  from batch_loop_stalls[OF this] show ?thesis
    by (simp add: resolve_batch_def list_proposals_def Let_def)
qed

section \<open>The guard decides by the token sets\<close>

lemma tokenSetsEqual_iff: "finite a \<Longrightarrow> finite b \<Longrightarrow> tokenSetsEqual a b \<longleftrightarrow> a = b"
  by (auto simp: tokenSetsEqual_def dest: card_subset_eq)

lemma finite_tokens [simp]: "finite (tokenizeCommandSurface t)"
  by (simp add: tokenizeCommandSurface_def)

lemma guard_iff:
  "commandGuardBlocksMerge a b \<longleftrightarrow> (fst a = ''command'' \<or> fst b = ''command'') \<and>
     tokenizeCommandSurface (snd a) \<noteq> tokenizeCommandSurface (snd b)"
  by (auto simp: commandGuardBlocksMerge_def tokenSetsEqual_iff)

lemma guard_sym: "commandGuardBlocksMerge a b = commandGuardBlocksMerge b a"
  by (auto simp: guard_iff)

text \<open>The incident the guard was written for, and what it reads as the same command.\<close>

lemma guard_examples:
  "commandGuardBlocksMerge (''command'', ''git checkout A.ts'') (''command'', ''git checkout B.ts'')"
  "\<not> commandGuardBlocksMerge (''command'', ''git checkout A.ts --'') (''command'', ''git  checkout -- A.ts'')"
  "\<not> commandGuardBlocksMerge (''fact'', ''x'') (''fact'', ''y'')"
  by code_simp+

text \<open>The comment speaks of a single layer of quotes; every layer is stripped.\<close>

lemma all_quotes_are_stripped:
  "strip_quotes (CHR 0x22 # CHR 0x27 # ''x'' @ [CHR 0x27, CHR 0x22]) = ''x''"
  by (simp add: strip_quotes_def quote_char_def)

end
