(* ===== verification/Consolidate.thy ===== *)
theory Consolidate
  imports Proposals Usefulness Spending Distill_Atoms
begin

text \<open>
  The consolidation pass: \<open>src/src/consolidate/consolidate.ts\<close>, \<open>dup-judge.ts\<close>,
  \<open>contradiction-judge.ts\<close> and \<open>storage/consolidation-cursor.ts\<close>. A pass sweeps the pending
  proposals, loads the current embedded atoms page by page, scans the candidate pairs of each
  grp of atoms, stores where to resume, and lets the duplicate judge resolve what it can.

  The language model, the vectors, the nearest-neighbour index and the moments at which the pass is
  interrupted are parameters. A pass is modelled without other operations in between its steps;
  where another operation makes a merge throw, the error ends the pass and the changes made so far
  stay, as in the code. Log lines and run telemetry are not modelled.
\<close>

section \<open>Candidate pairs\<close>

record atom_row =
  ar_id :: string
  ar_rowid :: nat
  ar_repo :: "string option"
  ar_type :: string
  ar_text :: string
  ar_importance :: real
  ar_created :: epoch_ms

definition atom_of :: "memory \<Rightarrow> atom_row" where
  "atom_of m = \<lparr>ar_id = mem_id m, ar_rowid = mem_rowid m, ar_repo = mem_repo m, ar_type = mem_type m,
     ar_text = mem_text m, ar_importance = mem_importance m, ar_created = mem_created m\<rparr>"

fun buildFullPairs :: "atom_row list \<Rightarrow> (atom_row \<times> atom_row) list" where
  "buildFullPairs [] = []"
| "buildFullPairs (a # as) = map (Pair a) as @ buildFullPairs as"

text \<open>The key of a pair is kept as a pair; the code joins the two ids with a NUL character.\<close>

definition ordered_pair :: "atom_row \<Rightarrow> atom_row \<Rightarrow> atom_row \<times> atom_row" where
  "ordered_pair a b = (if ar_id a < ar_id b then (a, b) else (b, a))"

definition ids_of :: "atom_row \<times> atom_row \<Rightarrow> string \<times> string" where
  "ids_of p = (ar_id (fst p), ar_id (snd p))"

definition knn_hit ::
  "atom_row list \<Rightarrow> atom_row \<Rightarrow> string \<Rightarrow> (atom_row \<times> atom_row) list \<Rightarrow> (atom_row \<times> atom_row) list" where
  "knn_hit grp a hit pairs =
     (if hit = ar_id a then pairs
      else if hit \<notin> ar_id ` set grp then pairs
      else case get_row ar_id hit (rev grp) of
             None \<Rightarrow> pairs
           | Some b \<Rightarrow>
               if ids_of (ordered_pair a b) \<in> ids_of ` set pairs then pairs else pairs @ [ordered_pair a b])"

definition buildKnnCandidatePairs ::
  "atom_row list \<Rightarrow> (string \<Rightarrow> 'v option) \<Rightarrow> ('v \<Rightarrow> nat \<Rightarrow> string list) \<Rightarrow> nat \<Rightarrow> (atom_row \<times> atom_row) list" where
  "buildKnnCandidatePairs grp vecs search k =
     fold (\<lambda>a pairs. case vecs (ar_id a) of None \<Rightarrow> pairs | Some va \<Rightarrow> fold (knn_hit grp a) (search va k) pairs) grp []"

section \<open>Containment and similarity\<close>

text \<open>The letters and numbers among the 8-bit characters.\<close>

definition letter_or_number :: "char \<Rightarrow> bool" where
  "letter_or_number c \<longleftrightarrow>
     (let n = of_char c :: nat
      in 48 \<le> n \<and> n \<le> 57 \<or> 65 \<le> n \<and> n \<le> 90 \<or> 97 \<le> n \<and> n \<le> 122 \<or>
         n \<in> {170, 178, 179, 181, 185, 186, 188, 189, 190} \<or> 192 \<le> n \<and> n \<noteq> 215 \<and> n \<noteq> 247)"

fun blank_runs :: "bool \<Rightarrow> string \<Rightarrow> string" where
  "blank_runs after [] = []"
| "blank_runs after (c # cs) =
     (if letter_or_number c then c # blank_runs False cs
      else if after then blank_runs True cs else CHR '' '' # blank_runs True cs)"

definition normalizeForContainment :: "string \<Rightarrow> string" where
  "normalizeForContainment t = trim (blank_runs False (filter (\<lambda>c. \<not> quote_char c) (latin_lower t)))"

datatype containment = A_Contains_B | B_Contains_A | Equal_Texts

definition containment :: "string \<Rightarrow> string \<Rightarrow> containment option" where
  "containment aText bText =
     (let a = normalizeForContainment aText; b = normalizeForContainment bText; MIN_LEN = 8
      in if length a < MIN_LEN \<or> length b < MIN_LEN then None
         else if a = b then Some Equal_Texts
         else if js_includes a b then Some A_Contains_B
         else if js_includes b a then Some B_Contains_A
         else None)"

definition cosine :: "real list \<Rightarrow> real list \<Rightarrow> real" where
  "cosine a b =
     (let dot = (\<Sum>(x, y)\<leftarrow>zip a b. x * y); na = (\<Sum>(x, y)\<leftarrow>zip a b. x * x); nb = (\<Sum>(x, y)\<leftarrow>zip a b. y * y);
          denom = sqrt na * sqrt nb
      in if denom = 0 then 0 else dot / denom)"

section \<open>Resolving the options of a pass\<close>

definition resolveAutoAcceptThreshold :: "real option \<Rightarrow> real \<Rightarrow> real option" where
  "resolveAutoAcceptThreshold raw proposeThreshold =
     (case raw of None \<Rightarrow> None | Some x \<Rightarrow> if x < proposeThreshold \<or> 1 < x then None else Some x)"

definition DEFAULT_KNN_K :: nat where "DEFAULT_KNN_K = 30"

datatype candidate_selection = Full | Knn

definition resolveCandidateSelection :: "string option \<Rightarrow> candidate_selection" where
  "resolveCandidateSelection raw =
     (case raw of None \<Rightarrow> Full
      | Some x \<Rightarrow> if x \<noteq> ''full'' \<and> x \<noteq> ''knn'' then Full else if x = ''full'' then Full else Knn)"

definition resolveKnnK :: "real option \<Rightarrow> nat" where
  "resolveKnnK raw =
     (case raw of None \<Rightarrow> DEFAULT_KNN_K
      | Some x \<Rightarrow> if x \<noteq> of_int \<lfloor>x\<rfloor> \<or> x < 1 then DEFAULT_KNN_K else nat \<lfloor>x\<rfloor>)"

definition resolveMaxCandidatePairsPerRun :: "real option \<Rightarrow> nat option" where
  "resolveMaxCandidatePairsPerRun raw =
     (case raw of None \<Rightarrow> None
      | Some x \<Rightarrow> if x \<noteq> of_int \<lfloor>x\<rfloor> \<or> x < 1 then None else Some (nat \<lfloor>x\<rfloor>))"

datatype judge_mode = Judge_Off | Dry_Run | Enabled

record contradiction_config =
  cd_mode :: judge_mode
  cd_minSimilarity :: real
  cd_minConfidence :: real
  cd_maxPerRun :: real
  cd_maxWallClockMs :: real

text \<open>\<open>provider\<close>: whether a judge provider was supplied.\<close>

definition resolveContradictionDetection ::
  "contradiction_config option \<Rightarrow> bool \<Rightarrow> real \<Rightarrow> contradiction_config option" where
  "resolveContradictionDetection raw provider mergeThreshold =
     (case raw of
        None \<Rightarrow> None
      | Some r \<Rightarrow>
          if cd_mode r = Judge_Off then None
          else if cd_minSimilarity r < 0 \<or> mergeThreshold \<le> cd_minSimilarity r then None
          else if cd_minConfidence r < 0 \<or> 1 < cd_minConfidence r then None
          else if \<not> provider then None
          else Some r)"

record dup_judge_config =
  dj_mode :: judge_mode
  dj_minConfidence :: real
  dj_batchSize :: real
  dj_maxPerRun :: real
  dj_maxWallClockMs :: real

definition resolveDupJudge :: "dup_judge_config option \<Rightarrow> bool \<Rightarrow> dup_judge_config option" where
  "resolveDupJudge raw provider =
     (case raw of
        None \<Rightarrow> None
      | Some r \<Rightarrow>
          if dj_mode r = Judge_Off then None
          else if dj_minConfidence r < 0 \<or> 1 < dj_minConfidence r then None
          else if dj_batchSize r \<noteq> of_int \<lfloor>dj_batchSize r\<rfloor> \<or> dj_batchSize r < 1 then None
          else if \<not> provider then None
          else Some r)"

section \<open>The judges\<close>

text \<open>
  An answer of the model is an error or a text; \<open>parse\<close> is \<open>JSON.parse\<close> with the shape of the
  schema, whose ranges are checked here.
\<close>

datatype judge_label = Agrees | Refines | Contradicts_Label | Unrelated

type_synonym judge_verdict = "judge_label \<times> real"

definition judge_label_of :: "string \<Rightarrow> judge_label option" where
  "judge_label_of x =
     (if x = ''agrees'' then Some Agrees else if x = ''refines'' then Some Refines
      else if x = ''contradicts'' then Some Contradicts_Label else if x = ''unrelated'' then Some Unrelated else None)"

definition FALLBACK_VERDICT :: judge_verdict where "FALLBACK_VERDICT = (Unrelated, 0)"

text \<open>The verdict, and whether it is the fallback.\<close>

definition judgeContradiction ::
  "(string \<Rightarrow> (string \<times> real) option) \<Rightarrow> string + string \<Rightarrow> judge_verdict \<times> bool" where
  "judgeContradiction parse chat =
     (case chat of
        Inl _ \<Rightarrow> (FALLBACK_VERDICT, True)
      | Inr t \<Rightarrow>
          (case parse t of
             None \<Rightarrow> (FALLBACK_VERDICT, True)
           | Some (lbl, c) \<Rightarrow>
               (case judge_label_of lbl of
                  None \<Rightarrow> (FALLBACK_VERDICT, True)
                | Some l \<Rightarrow> if 0 \<le> c \<and> c \<le> 1 then ((l, c), False) else (FALLBACK_VERDICT, True))))"

definition dup_label_of :: "string \<Rightarrow> dup_label option" where
  "dup_label_of x =
     (if x = ''same-fact-merge'' then Some Same_Fact_Merge
      else if x = ''distinct-keep-separate'' then Some Distinct_Keep_Separate
      else if x = ''unclear-leave-pending'' then Some Unclear_Leave_Pending else None)"

text \<open>One entry of the answer; \<open>None\<close> is an entry of another shape.\<close>

definition dup_entry :: "(int \<times> string \<times> real) option \<Rightarrow> (nat \<times> dup_label \<times> real) option" where
  "dup_entry raw =
     (case raw of
        None \<Rightarrow> None
      | Some (i, lbl, c) \<Rightarrow>
          (case dup_label_of lbl of
             None \<Rightarrow> None
           | Some l \<Rightarrow> if 0 \<le> i \<and> 0 \<le> c \<and> c \<le> 1 then Some (nat i, l, c) else None))"

definition dupJudgeBatch ::
  "(string \<Rightarrow> (int \<times> string \<times> real) option list option) \<Rightarrow> string + string \<Rightarrow> 'p list \<Rightarrow> (nat \<rightharpoonup> dup_label \<times> real)" where
  "dupJudgeBatch parse chat pairs =
     (if pairs = [] then Map.empty
      else case chat of
             Inl _ \<Rightarrow> Map.empty
           | Inr t \<Rightarrow>
               (case parse t of
                  None \<Rightarrow> Map.empty
                | Some raws \<Rightarrow>
                    fold (\<lambda>raw m. case dup_entry raw of None \<Rightarrow> m | Some (i, v) \<Rightarrow> m(i \<mapsto> v)) raws Map.empty))"

section \<open>The sweep of the pending proposals\<close>

definition typed :: "memory \<Rightarrow> string \<times> string" where
  "typed m = (mem_type m, mem_text m)"

text \<open>A blocked pair as reported: winner, loser and similarity.\<close>

type_synonym pair_report = "string \<times> string \<times> real"

text \<open>The rows of the join with the two memories, as they were when the query ran.\<close>

definition joined_rows :: "(proposal \<Rightarrow> bool) \<Rightarrow> consol_db \<Rightarrow> (proposal \<times> memory \<times> memory) list" where
  "joined_rows P d =
     concat (map (\<lambda>p. case (get_memory (winner_id p) (atom_db d), get_memory (loser_id p) (atom_db d)) of
                        (Some w, Some l) \<Rightarrow> [(p, w, l)]
                      | _ \<Rightarrow> [])
       (filter (\<lambda>p. prop_status p = Prop_Pending \<and> P p) (proposals d)))"

record sweep_state =
  sw_db :: consol_db
  sw_accepted :: "string list"
  sw_stale :: "string list"
  sw_blocked :: "pair_report list"

definition resolveRow :: "epoch_ms \<Rightarrow> proposal_status \<Rightarrow> string \<Rightarrow> consol_db \<Rightarrow> consol_db" where
  "resolveRow now st i d =
     update_proposals (\<lambda>p. prop_id p = i \<and> prop_status p = Prop_Pending)
       (\<lambda>p. p\<lparr>prop_status := st, resolved_at := Some now\<rparr>) d"

definition auto_options :: "proposal_meta option \<Rightarrow> accept_options" where
  "auto_options meta = \<lparr>bulkAccepted = False, correctionSource = Some Consolidation_Auto, accept_metadata = meta\<rparr>"

definition sweep_row ::
  "(nat \<Rightarrow> string) \<Rightarrow> epoch_ms \<Rightarrow> proposal \<times> memory \<times> memory \<Rightarrow> sweep_state \<Rightarrow> sweep_state" where
  "sweep_row u now row sw =
     (let (p, w, l) = row; i = prop_id p
      in if mem_valid_to l \<noteq> None \<or> mem_valid_to w \<noteq> None
         then (if superseded_by l = Some (winner_id p)
               then sw\<lparr>sw_db := resolveRow now Prop_Accepted i (sw_db sw), sw_accepted := sw_accepted sw @ [i]\<rparr>
               else sw\<lparr>sw_db := resolveRow now Prop_Rejected i (sw_db sw), sw_stale := sw_stale sw @ [i]\<rparr>)
         else (let c = containment (mem_text w) (mem_text l)
               in if c = Some Equal_Texts \<or> c = Some A_Contains_B
                  then (if commandGuardBlocksMerge (typed w) (typed l)
                        then sw\<lparr>sw_blocked := sw_blocked sw @ [(winner_id p, loser_id p, similarity p)],
                                sw_db := annotateCommandGuardBlocked i By_Containment_Sweep (sw_db sw)\<rparr>
                        else (case accept_proposal u now i None (auto_options None) (sw_db sw) of
                                Inl _ \<Rightarrow> sw
                              | Inr d \<Rightarrow> sw\<lparr>sw_db := d, sw_accepted := sw_accepted sw @ [i]\<rparr>))
                  else sw))"

text \<open>\<open>u k\<close> are the event ids of the \<open>k\<close>-th row.\<close>

fun sweep_rows ::
  "(nat \<Rightarrow> nat \<Rightarrow> string) \<Rightarrow> epoch_ms \<Rightarrow> nat \<Rightarrow> (proposal \<times> memory \<times> memory) list \<Rightarrow> sweep_state \<Rightarrow> sweep_state" where
  "sweep_rows u now k [] sw = sw"
| "sweep_rows u now k (r # rs) sw = sweep_rows u now (Suc k) rs (sweep_row (u k) now r sw)"

definition sweepContainedProposals :: "(nat \<Rightarrow> nat \<Rightarrow> string) \<Rightarrow> epoch_ms \<Rightarrow> consol_db \<Rightarrow> sweep_state" where
  "sweepContainedProposals u now d =
     sweep_rows u now 0 (joined_rows (\<lambda>_. True) d) \<lparr>sw_db = d, sw_accepted = [], sw_stale = [], sw_blocked = []\<rparr>"

section \<open>The duplicate-judge sweep\<close>

datatype dup_action = Merged_By_Judge | Kept_Separate

record dup_state =
  dp_db :: consol_db
  dp_previewed :: "(string \<times> real \<times> dup_label \<times> real) list"
  dp_resolved :: "(string \<times> dup_label \<times> real \<times> dup_action) list"
  dp_blocked :: nat

definition dup_row ::
  "dup_judge_config \<Rightarrow> string \<times> string \<Rightarrow> (nat \<Rightarrow> string) \<Rightarrow> epoch_ms \<Rightarrow> (dup_label \<times> real) option \<Rightarrow>
   proposal \<times> memory \<times> memory \<Rightarrow> dup_state \<Rightarrow> dup_state" where
  "dup_row cfg provider u now verdict row dp =
     (case verdict of
        None \<Rightarrow> dp
      | Some (lbl, conf) \<Rightarrow>
          (let (p, w, l) = row; i = prop_id p
           in if dj_mode cfg = Dry_Run
              then dp\<lparr>dp_previewed := dp_previewed dp @ [(i, similarity p, lbl, conf)]\<rparr>
              else if commandGuardBlocksMerge (typed w) (typed l)
              then dp\<lparr>dp_blocked := dp_blocked dp + 1,
                      dp_db := annotateCommandGuardBlocked i (By_Dup_Judge lbl conf) (dp_db dp)\<rparr>
              else if lbl = Unclear_Leave_Pending \<or> conf < dj_minConfidence cfg then dp
              else (let meta = Some (Dup_Judged \<lparr>djm_verdict = lbl, djm_confidence = conf,
                                 djm_provider = fst provider, djm_model = snd provider\<rparr>)
                    in if lbl = Same_Fact_Merge
                       then (case accept_proposal u now i None (auto_options meta) (dp_db dp) of
                               Inl _ \<Rightarrow> dp
                             | Inr d \<Rightarrow> dp\<lparr>dp_db := d, dp_resolved := dp_resolved dp @ [(i, lbl, conf, Merged_By_Judge)]\<rparr>)
                       else (case reject_proposal now i meta (dp_db dp) of
                               Inl _ \<Rightarrow> dp
                             | Inr d \<Rightarrow> dp\<lparr>dp_db := d, dp_resolved := dp_resolved dp @ [(i, lbl, conf, Kept_Separate)]\<rparr>))))"

fun dup_rows ::
  "dup_judge_config \<Rightarrow> string \<times> string \<Rightarrow> (nat \<Rightarrow> nat \<Rightarrow> string) \<Rightarrow> epoch_ms \<Rightarrow> (nat \<rightharpoonup> dup_label \<times> real) \<Rightarrow> nat \<Rightarrow>
   (proposal \<times> memory \<times> memory) list \<Rightarrow> dup_state \<Rightarrow> dup_state" where
  "dup_rows cfg provider u now verdicts k [] dp = dp"
| "dup_rows cfg provider u now verdicts k (r # rs) dp =
     dup_rows cfg provider u now verdicts (Suc k) rs (dup_row cfg provider (u k) now (verdicts k) r dp)"

text \<open>
  What the sweep is given from outside: the clock before each batch and while its rows are resolved,
  and the answer of the model to each batch.
\<close>

record dup_env =
  de_clock :: "nat \<Rightarrow> epoch_ms"
  de_answer :: "nat \<Rightarrow> string + string"
  de_parse :: "string \<Rightarrow> (int \<times> string \<times> real) option list option"
  de_uuid :: "nat \<Rightarrow> nat \<Rightarrow> string"
  de_provider :: "string \<times> string"

fun dup_batches ::
  "dup_judge_config \<Rightarrow> dup_env \<Rightarrow> nat \<Rightarrow> nat \<Rightarrow> (proposal \<times> memory \<times> memory) list list \<Rightarrow> cap_state \<Rightarrow> dup_state \<Rightarrow>
   cap_state \<times> dup_state" where
  "dup_batches cfg env n batchStart [] cap dp = (cap, dp)"
| "dup_batches cfg env n batchStart (batch # batches) cap dp =
     (let (stop, cap1) = shouldStop \<lparr>maxPerRun = dj_maxPerRun cfg, maxWallClockMs = dj_maxWallClockMs cfg\<rparr> (de_clock env n) cap
      in if stop then (cap1, dp)
         else (let verdicts = dupJudgeBatch (de_parse env) (de_answer env n) batch
               in dup_batches cfg env (Suc n) (batchStart + length batch) batches (recordCall cap1)
                    (dup_rows cfg (de_provider env) (de_uuid env) (de_clock env n) verdicts batchStart batch dp)))"

definition dup_candidates :: "real \<Rightarrow> real \<Rightarrow> consol_db \<Rightarrow> (proposal \<times> memory \<times> memory) list" where
  "dup_candidates proposeThreshold mergeThreshold d =
     sort_key (\<lambda>(p, _). prop_created p)
       (joined_rows (\<lambda>p. prop_kind p = Merge \<and> proposeThreshold \<le> similarity p \<and> similarity p < mergeThreshold) d)"

definition runDupJudgeSweep ::
  "dup_judge_config \<Rightarrow> dup_env \<Rightarrow> real \<Rightarrow> real \<Rightarrow> consol_db \<Rightarrow> cap_state \<times> dup_state" where
  "runDupJudgeSweep cfg env proposeThreshold mergeThreshold d =
     (let rows = dup_candidates proposeThreshold mergeThreshold d;
          dp = \<lparr>dp_db = d, dp_previewed = [], dp_resolved = [], dp_blocked = 0\<rparr>
      in if rows = [] then (fresh_cap (de_clock env 0), dp)
         else dup_batches cfg env 0 0 (chunks (nat \<lfloor>dj_batchSize cfg\<rfloor> - 1) rows) (fresh_cap (de_clock env 0)) dp)"

section \<open>One pair\<close>

record scan_config =
  mergeThreshold :: real
  proposeThreshold :: real
  autoMergeContained :: bool
  autoAcceptThreshold :: "real option"
  contradictionDetection :: "contradiction_config option"

record scan_state =
  sc_db :: consol_db
  invalidatedThisRun :: "string list"
  sc_merged :: "(string \<times> string \<times> real \<times> bool) list"
  sc_proposed :: "pair_report list"
  sc_autoAccepted :: "(string \<times> string \<times> real \<times> string) list"
  sc_previewed :: "(string \<times> string \<times> real \<times> judge_verdict) list"
  sc_contradictions :: "(string \<times> string \<times> real \<times> string) list"
  sc_blocked :: "pair_report list"
  judgeCalls :: nat
  judgeErrors :: nat
  judgeNearThreshold :: nat
  contradictionCapReached :: bool
  contradictionWallClockCapReached :: bool

record pair_env =
  pe_uuid :: "nat \<Rightarrow> string"
  pe_now :: epoch_ms
  pe_answer :: "string + string"

text \<open>An error ends the pass; what was committed before it stays.\<close>

type_synonym scan_error = "proposal_error \<times> consol_db"

definition NEAR_MERGE_THRESHOLD_MIN :: real where "NEAR_MERGE_THRESHOLD_MIN = 90 / 100"

text \<open>
  The contradiction judge. The flag says that the pair is fully handled; otherwise the tiers below
  go on with it.
\<close>

definition contradiction_tier ::
  "contradiction_config option \<Rightarrow> (string \<Rightarrow> (string \<times> real) option) \<Rightarrow> real \<Rightarrow> epoch_ms \<Rightarrow> pair_env \<Rightarrow>
   atom_row \<Rightarrow> atom_row \<Rightarrow> real \<Rightarrow> scan_state \<Rightarrow> scan_error + bool \<times> scan_state" where
  "contradiction_tier cd parse mergeT startedAt env a b sim sc =
     (case cd of
        None \<Rightarrow> Inr (False, sc)
      | Some c \<Rightarrow>
          if \<not> (cd_minSimilarity c \<le> sim \<and> sim < mergeT) then Inr (False, sc)
          else if cd_maxPerRun c \<le> real (judgeCalls sc) then Inr (False, sc\<lparr>contradictionCapReached := True\<rparr>)
          else if cd_maxWallClockMs c \<le> of_int (pe_now env - startedAt)
          then Inr (False, sc\<lparr>contradictionWallClockCapReached := True\<rparr>)
          else
            (let ((lbl, conf), fellBack) = judgeContradiction parse (pe_answer env);
                 sc1 = sc\<lparr>judgeCalls := judgeCalls sc + 1,
                          judgeNearThreshold := judgeNearThreshold sc + (if NEAR_MERGE_THRESHOLD_MIN \<le> sim then 1 else 0),
                          judgeErrors := judgeErrors sc + (if fellBack then 1 else 0)\<rparr>
             in if lbl = Contradicts_Label \<and> cd_minConfidence c \<le> conf
                then (let (newer, older) = (if ar_created b \<le> ar_created a then (a, b) else (b, a))
                      in if cd_mode c = Dry_Run
                         then Inr (True, sc1\<lparr>sc_previewed := sc_previewed sc1 @ [(ar_id newer, ar_id older, sim, lbl, conf)]\<rparr>)
                         else (case insertContradictionProposal (pe_uuid env 0) (pe_now env) (ar_id newer) (ar_id older)
                                      (ar_text newer) (ar_text older) sim conf (sc_db sc1) of
                                 Inl e \<Rightarrow> Inl (e, sc_db sc)
                               | Inr (ins, d) \<Rightarrow>
                                   Inr (True, if ins then sc1\<lparr>sc_db := d, sc_contradictions := sc_contradictions sc1 @
                                                 [(ar_id newer, ar_id older, sim, pe_uuid env 0)]\<rparr> else sc1)))
                else Inr (lbl = Unrelated, sc1)))"

text \<open>Winner: usefulness, then importance, then recency. The result is winner and loser.\<close>

definition pick_winner :: "(string \<Rightarrow> real) \<Rightarrow> atom_row \<Rightarrow> atom_row \<Rightarrow> atom_row \<times> atom_row" where
  "pick_winner useful a b =
     (let ua = useful (ar_id a); ub = useful (ar_id b)
      in if ua < ub \<or> (ub = ua \<and> (ar_importance a < ar_importance b \<or>
              (ar_importance b = ar_importance a \<and> ar_created a < ar_created b)))
         then (b, a) else (a, b))"

definition row_typed :: "atom_row \<Rightarrow> string \<times> string" where
  "row_typed a = (ar_type a, ar_text a)"

text \<open>The common end of the two merging tiers.\<close>

definition guarded_merge ::
  "pair_env \<Rightarrow> atom_row \<Rightarrow> atom_row \<Rightarrow> atom_row \<Rightarrow> atom_row \<Rightarrow> real \<Rightarrow> bool \<Rightarrow> scan_state \<Rightarrow>
   scan_error + scan_state" where
  "guarded_merge env a b winner loser sim byContainment sc =
     (if commandGuardBlocksMerge (row_typed a) (row_typed b)
      then (let sc1 = sc\<lparr>sc_blocked := sc_blocked sc @ [(ar_id winner, ar_id loser, sim)]\<rparr>
            in case insertGuardedMergeProposal (pe_uuid env 0) (pe_now env) (ar_id winner) (ar_id loser) sim (sc_db sc) of
                 Inl e \<Rightarrow> Inl (e, sc_db sc)
               | Inr (ins, d) \<Rightarrow>
                   Inr (if ins then sc1\<lparr>sc_db := d, sc_proposed := sc_proposed sc @ [(ar_id winner, ar_id loser, sim)]\<rparr>
                        else sc1))
      else (case mergeAsSupersede (pe_uuid env) (pe_now env) (ar_id winner) (ar_id loser) None Consolidation_Auto
                   (atom_db (sc_db sc)) of
              Inl e \<Rightarrow> Inl (Memory_Refused e, sc_db sc)
            | Inr s \<Rightarrow>
                Inr (sc\<lparr>sc_db := (sc_db sc)\<lparr>atom_db := s\<rparr>, invalidatedThisRun := invalidatedThisRun sc @ [ar_id loser],
                        sc_merged := sc_merged sc @ [(ar_id winner, ar_id loser, sim, byContainment)]\<rparr>)))"

definition propose_tier ::
  "real option \<Rightarrow> pair_env \<Rightarrow> atom_row \<Rightarrow> atom_row \<Rightarrow> real \<Rightarrow> scan_state \<Rightarrow> scan_error + scan_state" where
  "propose_tier autoAccept env winner loser sim sc =
     (let i = pe_uuid env 0
      in case insert_proposal i (pe_now env) Merge (ar_id winner) (ar_id loser) sim None (sc_db sc) of
           Inl e \<Rightarrow> Inl (e, sc_db sc)
         | Inr (ins, d) \<Rightarrow>
             if \<not> ins then Inr sc
             else (case autoAccept of
                     Some t \<Rightarrow>
                       if t \<le> sim
                       then (case accept_proposal (\<lambda>k. pe_uuid env (k + 1)) (pe_now env) i
                                    (Some \<lparr>sp_threshold = t, sp_similarity = sim\<rparr>) (auto_options None) d of
                               Inl e \<Rightarrow> Inl (e, d)
                             | Inr d' \<Rightarrow>
                                 Inr (sc\<lparr>sc_db := d', invalidatedThisRun := invalidatedThisRun sc @ [ar_id loser],
                                        sc_autoAccepted := sc_autoAccepted sc @ [(ar_id winner, ar_id loser, sim, i)]\<rparr>))
                       else Inr (sc\<lparr>sc_db := d, sc_proposed := sc_proposed sc @ [(ar_id winner, ar_id loser, sim)]\<rparr>)
                   | None \<Rightarrow> Inr (sc\<lparr>sc_db := d, sc_proposed := sc_proposed sc @ [(ar_id winner, ar_id loser, sim)]\<rparr>)))"


definition processPair ::
  "scan_config \<Rightarrow> (string \<Rightarrow> (string \<times> real) option) \<Rightarrow> (string \<Rightarrow> real) \<Rightarrow> (string \<Rightarrow> real list option) \<Rightarrow> epoch_ms \<Rightarrow>
   pair_env \<Rightarrow> atom_row \<times> atom_row \<Rightarrow> scan_state \<Rightarrow> scan_error + scan_state" where
  "processPair cfg parse useful vecs startedAt env pr sc =
     (let (a, b) = pr
      in if ar_id a \<in> set (invalidatedThisRun sc) \<or> ar_id b \<in> set (invalidatedThisRun sc) then Inr sc
         else (case (vecs (ar_id a), vecs (ar_id b)) of
                 (Some va, Some vb) \<Rightarrow>
                   (let sim = cosine va vb
                    in case contradiction_tier (contradictionDetection cfg) parse (mergeThreshold cfg) startedAt env a b sim sc of
                         Inl e \<Rightarrow> Inl e
                       | Inr (handled, sc1) \<Rightarrow>
                           if handled then Inr sc1
                           else if sim < proposeThreshold cfg then Inr sc1
                           else (let (winner, loser) = pick_winner useful a b;
                                     c = (if autoMergeContained cfg then containment (ar_text a) (ar_text b) else None)
                                 in case c of
                                      Some A_Contains_B \<Rightarrow> guarded_merge env a b a b sim True sc1
                                    | Some B_Contains_A \<Rightarrow> guarded_merge env a b b a sim True sc1
                                    | Some Equal_Texts \<Rightarrow> guarded_merge env a b winner loser sim True sc1
                                    | None \<Rightarrow>
                                        if mergeThreshold cfg \<le> sim then guarded_merge env a b winner loser sim False sc1
                                        else propose_tier (autoAcceptThreshold cfg) env winner loser sim sc1))
               | _ \<Rightarrow> Inr sc))"

section \<open>Loading the atoms\<close>

text \<open>\<open>SELECT rowid FROM memories_vec WHERE rowid IN (...)\<close>, in batches.\<close>

definition VEC_EXISTENCE_CHECK_BATCH_SIZE :: nat where "VEC_EXISTENCE_CHECK_BATCH_SIZE = 500"

definition filterEmbeddedRowids :: "store \<Rightarrow> nat list \<Rightarrow> nat set" where
  "filterEmbeddedRowids s rowids =
     fold (\<lambda>batch found. set (filter (\<lambda>r. r \<in> set batch) (memories_vec s)) \<union> found)
       (chunks (VEC_EXISTENCE_CHECK_BATCH_SIZE - 1) rowids) {}"

text \<open>\<open>ORDER BY repo, type, created_at, rowid\<close>; NULL sorts first.\<close>

definition scan_le :: "memory \<Rightarrow> memory \<Rightarrow> bool" where
  "scan_le x y \<longleftrightarrow>
     (let rx = (case mem_repo x of None \<Rightarrow> (0::nat, []) | Some r \<Rightarrow> (1, r));
          ry = (case mem_repo y of None \<Rightarrow> (0, []) | Some r \<Rightarrow> (1, r))
      in if fst rx \<noteq> fst ry then fst rx < fst ry
         else if snd rx \<noteq> snd ry then snd rx < snd ry
         else if mem_type x \<noteq> mem_type y then mem_type x < mem_type y
         else if mem_created x \<noteq> mem_created y then mem_created x < mem_created y
         else mem_rowid x \<le> mem_rowid y)"

definition scan_rows :: "store \<Rightarrow> memory list" where
  "scan_rows s = sort_by scan_le (filter (\<lambda>m. mem_valid_to m = None) (memories s))"

text \<open>
  The page loop, with a page size of \<open>Suc n\<close>. \<open>stop k\<close> says what is found after the \<open>k\<close>-th
  page: the deadline passed, a job of higher priority is waiting, or neither.
\<close>

datatype stop_reason = Go_On | Budget_Exceeded | Preempted

function load_pages ::
  "store \<Rightarrow> nat \<Rightarrow> (nat \<Rightarrow> stop_reason) \<Rightarrow> nat \<Rightarrow> memory list \<Rightarrow> memory list \<Rightarrow> memory list \<times> stop_reason" where
  "load_pages s n stop k rest atoms =
     (let page = take (Suc n) rest;
          embedded = filterEmbeddedRowids s (map mem_rowid page);
          atoms' = atoms @ filter (\<lambda>m. mem_rowid m \<in> embedded) page
      in if length page < Suc n then (atoms', Go_On)
         else if stop k \<noteq> Go_On then (atoms', stop k)
         else load_pages s n stop (Suc k) (drop (Suc n) rest) atoms')"
  by pat_completeness auto
termination by (relation "measure (\<lambda>(s, n, stop, k, rest, atoms). length rest)") auto

declare load_pages.simps [simp del]

definition loadAtomsSetupBounded :: "store \<Rightarrow> nat \<Rightarrow> (nat \<Rightarrow> stop_reason) \<Rightarrow> atom_row list \<times> stop_reason" where
  "loadAtomsSetupBounded s n stop =
     (let (ms, why) = load_pages s n stop 0 (scan_rows s) [] in (map atom_of ms, why))"

section \<open>Groups and their order\<close>

text \<open>The key of a group, kept as a pair; the code joins the two with a NUL character.\<close>

definition group_key :: "atom_row \<Rightarrow> string \<times> string" where
  "group_key a = (case ar_repo a of None \<Rightarrow> [] | Some r \<Rightarrow> r, ar_type a)"

type_synonym group_entry = "(string \<times> string) \<times> atom_row list"

definition add_to_group :: "atom_row \<Rightarrow> group_entry list \<Rightarrow> group_entry list" where
  "add_to_group a groups =
     obj_set (group_key a) ((case map_of groups (group_key a) of None \<Rightarrow> [] | Some g \<Rightarrow> g) @ [a]) groups"

definition group_atoms :: "atom_row list \<Rightarrow> group_entry list" where
  "group_atoms atoms = fold add_to_group atoms []"

definition allGroups :: "atom_row list \<Rightarrow> group_entry list" where
  "allGroups atoms = filter (\<lambda>g. \<not> length (snd g) < 2) (group_atoms atoms)"

definition key_string :: "string \<times> string \<Rightarrow> string" where
  "key_string k = fst k @ CHR 0x00 # snd k"

definition group_le :: "group_entry \<Rightarrow> group_entry \<Rightarrow> bool" where
  "group_le x y \<longleftrightarrow>
     (if ar_created (hd (snd x)) \<noteq> ar_created (hd (snd y)) then ar_created (hd (snd x)) < ar_created (hd (snd y))
      else key_string (fst x) \<le> key_string (fst y))"

fun find_index :: "('a \<Rightarrow> bool) \<Rightarrow> 'a list \<Rightarrow> nat option" where
  "find_index P [] = None"
| "find_index P (x # xs) = (if P x then Some 0 else map_option Suc (find_index P xs))"

definition rotate_to :: "string option \<Rightarrow> group_entry list \<Rightarrow> group_entry list" where
  "rotate_to cur sorted_groups =
     (case (case cur of None \<Rightarrow> None | Some c \<Rightarrow> find_index (\<lambda>g. key_string (fst g) = c) sorted_groups) of
        None \<Rightarrow> sorted_groups
      | Some i \<Rightarrow> if 0 < i then drop i sorted_groups @ take i sorted_groups else sorted_groups)"

definition groupOrder :: "bool \<Rightarrow> string option \<Rightarrow> group_entry list \<Rightarrow> group_entry list" where
  "groupOrder ceilingActive cur groups =
     (if ceilingActive \<or> cur \<noteq> None then rotate_to cur (sort_by group_le groups) else groups)"

section \<open>The scan\<close>

text \<open>
  What the scan is given from outside: for the \<open>k\<close>-th pair its identifiers, clock and judge answer,
  and whether the yield at that pair finds a job of higher priority; for each group, whether
  building its embedding map is aborted; the vectors by rowid and the neighbour search.
\<close>

record scan_env =
  se_pair :: "nat \<Rightarrow> pair_env"
  se_preempt :: "nat \<Rightarrow> bool"
  se_abort :: "nat \<Rightarrow> stop_reason"
  se_vec :: "nat \<Rightarrow> real list"
  se_search :: "real list \<Rightarrow> nat \<Rightarrow> string list"
  se_parse :: "string \<Rightarrow> (string \<times> real) option"

record scan_options =
  so_config :: scan_config
  so_selection :: candidate_selection
  so_knnK :: nat
  so_maxGroupSize :: nat
  so_maxPairs :: "nat option"
  so_useful :: "string \<Rightarrow> real"
  so_started :: epoch_ms

record pass_state =
  ps_scan :: scan_state
  ps_pairs :: nat
  ps_scanned :: nat
  ps_skipped :: "(string option \<times> string \<times> nat) list"
  ps_preempted :: bool
  ps_budgetExceeded :: bool
  ps_stop :: "nat option"

text \<open>The embedding map of a group.\<close>

definition group_vecs :: "(nat \<Rightarrow> real list) \<Rightarrow> store \<Rightarrow> atom_row list \<Rightarrow> string \<Rightarrow> real list option" where
  "group_vecs vec s grp i =
     (case get_row ar_id i grp of
        None \<Rightarrow> None
      | Some a \<Rightarrow> if ar_rowid a \<in> set (memories_vec s) then Some (vec (ar_rowid a)) else None)"

fun scan_pairs ::
  "scan_options \<Rightarrow> scan_env \<Rightarrow> (string \<Rightarrow> real list option) \<Rightarrow> (atom_row \<times> atom_row) list \<Rightarrow> pass_state \<Rightarrow>
   scan_error + pass_state" where
  "scan_pairs so env vecs [] ps = Inr ps"
| "scan_pairs so env vecs (pr # prs) ps =
     (case processPair (so_config so) (se_parse env) (so_useful so) vecs (so_started so) (se_pair env (ps_pairs ps)) pr
             (ps_scan ps) of
        Inl e \<Rightarrow> Inl e
      | Inr sc \<Rightarrow>
          (let ps1 = ps\<lparr>ps_scan := sc, ps_pairs := ps_pairs ps + 1\<rparr>
           in if se_preempt env (ps_pairs ps) then Inr (ps1\<lparr>ps_preempted := True\<rparr>)
              else scan_pairs so env vecs prs ps1))"

definition candidatePairs ::
  "scan_options \<Rightarrow> scan_env \<Rightarrow> (string \<Rightarrow> real list option) \<Rightarrow> atom_row list \<Rightarrow> (atom_row \<times> atom_row) list" where
  "candidatePairs so env vecs grp =
     (case so_selection so of
        Knn \<Rightarrow> buildKnnCandidatePairs grp vecs (se_search env) (so_knnK so)
      | Full \<Rightarrow> buildFullPairs grp)"

fun scan_groups ::
  "scan_options \<Rightarrow> scan_env \<Rightarrow> nat \<Rightarrow> group_entry list \<Rightarrow> pass_state \<Rightarrow> scan_error + pass_state" where
  "scan_groups so env gi [] ps = Inr ps"
| "scan_groups so env gi (g # gs) ps =
     (let grp = snd g
      in if so_selection so = Full \<and> so_maxGroupSize so < length grp
         then scan_groups so env (Suc gi) gs
                (ps\<lparr>ps_skipped := ps_skipped ps @ [(ar_repo (hd grp), ar_type (hd grp), length grp)]\<rparr>)
         else
           (let ps1 = ps\<lparr>ps_scanned := ps_scanned ps + 1\<rparr>
            in if se_abort env gi \<noteq> Go_On
               then Inr (if se_abort env gi = Preempted then ps1\<lparr>ps_preempted := True, ps_stop := Some gi\<rparr>
                         else ps1\<lparr>ps_budgetExceeded := True, ps_stop := Some gi\<rparr>)
               else
                 (let vecs = group_vecs (se_vec env) (atom_db (sc_db (ps_scan ps))) grp
                  in case scan_pairs so env vecs (candidatePairs so env vecs grp) ps1 of
                       Inl e \<Rightarrow> Inl e
                     | Inr ps2 \<Rightarrow>
                         if ps_preempted ps2 then Inr (ps2\<lparr>ps_stop := Some gi\<rparr>)
                         else if (case so_maxPairs so of None \<Rightarrow> False | Some m \<Rightarrow> m \<le> ps_pairs ps2)
                         then Inr (ps2\<lparr>ps_stop := Some gi\<rparr>)
                         else scan_groups so env (Suc gi) gs ps2)))"

section \<open>The resume cursor\<close>

definition getConsolidationCursor :: "consol_db \<Rightarrow> string option option" where
  "getConsolidationCursor d = group_cursor d"

definition setConsolidationCursor :: "string option \<Rightarrow> consol_db \<Rightarrow> consol_db" where
  "setConsolidationCursor k d = d\<lparr>group_cursor := Some k\<rparr>"

definition cursorGroupKey :: "consol_db \<Rightarrow> string option" where
  "cursorGroupKey d = (case getConsolidationCursor d of None \<Rightarrow> None | Some k \<Rightarrow> k)"

definition advance_cursor :: "group_entry list \<Rightarrow> nat option \<Rightarrow> bool \<Rightarrow> consol_db \<Rightarrow> consol_db" where
  "advance_cursor order stop ceilingActive d =
     (case stop of
        Some gi \<Rightarrow> setConsolidationCursor
                     (if gi + 1 < length order then Some (key_string (fst (order ! (gi + 1)))) else None) d
      | None \<Rightarrow> if ceilingActive \<or> cursorGroupKey d \<noteq> None then setConsolidationCursor None d else d)"

section \<open>The pass\<close>

record pass_env =
  pv_now :: epoch_ms
  pv_sweep_uuid :: "nat \<Rightarrow> nat \<Rightarrow> string"
  pv_stop :: "nat \<Rightarrow> stop_reason"
  pv_scan :: scan_env
  pv_dup :: dup_env

record pass_options =
  po_merge :: "real option"
  po_propose :: "real option"
  po_maxGroupSize :: "nat option"
  po_autoMergeContained :: "bool option"
  po_autoAccept :: "real option"
  po_contradiction :: "contradiction_config option"
  po_judgeProvider :: bool
  po_dupJudge :: "dup_judge_config option"
  po_dupProvider :: bool
  po_selection :: "string option"
  po_knnK :: "real option"
  po_maxPairs :: "real option"
  po_setupYield :: "nat option"

definition DEFAULT_SETUP_YIELD_EVERY_N_ATOMS :: nat where "DEFAULT_SETUP_YIELD_EVERY_N_ATOMS = 500"

definition config_of :: "pass_options \<Rightarrow> scan_config" where
  "config_of opts =
     (let mergeT = (case po_merge opts of None \<Rightarrow> 92 / 100 | Some x \<Rightarrow> x);
          proposeT = (case po_propose opts of None \<Rightarrow> 85 / 100 | Some x \<Rightarrow> x)
      in \<lparr>mergeThreshold = mergeT, proposeThreshold = proposeT,
          autoMergeContained = (case po_autoMergeContained opts of None \<Rightarrow> True | Some b \<Rightarrow> b),
          autoAcceptThreshold = resolveAutoAcceptThreshold (po_autoAccept opts) proposeT,
          contradictionDetection = resolveContradictionDetection (po_contradiction opts) (po_judgeProvider opts) mergeT\<rparr>)"

definition fresh_scan :: "consol_db \<Rightarrow> scan_state" where
  "fresh_scan d =
     \<lparr>sc_db = d, invalidatedThisRun = [], sc_merged = [], sc_proposed = [], sc_autoAccepted = [], sc_previewed = [],
      sc_contradictions = [], sc_blocked = [], judgeCalls = 0, judgeErrors = 0, judgeNearThreshold = 0,
      contradictionCapReached = False, contradictionWallClockCapReached = False\<rparr>"

definition fresh_pass :: "consol_db \<Rightarrow> pass_state" where
  "fresh_pass d =
     \<lparr>ps_scan = fresh_scan d, ps_pairs = 0, ps_scanned = 0, ps_skipped = [], ps_preempted = False,
      ps_budgetExceeded = False, ps_stop = None\<rparr>"

definition options_of :: "pass_options \<Rightarrow> (string \<Rightarrow> real) \<Rightarrow> epoch_ms \<Rightarrow> scan_options" where
  "options_of opts useful started =
     \<lparr>so_config = config_of opts, so_selection = resolveCandidateSelection (po_selection opts), so_knnK = resolveKnnK (po_knnK opts),
      so_maxGroupSize = (case po_maxGroupSize opts of None \<Rightarrow> 500 | Some n \<Rightarrow> n),
      so_maxPairs = resolveMaxCandidatePairsPerRun (po_maxPairs opts), so_useful = useful, so_started = started\<rparr>"

definition useful_of :: "(string \<times> real) list \<Rightarrow> string \<Rightarrow> real" where
  "useful_of scores i = (case map_of scores i of None \<Rightarrow> 1 / 2 | Some x \<Rightarrow> x)"

text \<open>The scan over the loaded atoms, up to the stored cursor.\<close>

definition scan_atoms ::
  "pass_options \<Rightarrow> pass_env \<Rightarrow> atom_row list \<times> stop_reason \<Rightarrow> consol_db \<Rightarrow> scan_error + consol_db \<times> pass_state" where
  "scan_atoms opts env loaded d =
     (let atoms = fst loaded;
          useful = useful_of (usefulnessScores (atom_db d) (map ar_id atoms) DEFAULT_IMPLICIT_POSITIVE_WEIGHT);
          so = options_of opts useful (pv_now env);
          ceilingActive = (so_maxPairs so \<noteq> None);
          order = groupOrder ceilingActive (cursorGroupKey d) (allGroups atoms);
          ps = (fresh_pass d)\<lparr>ps_preempted := (snd loaded = Preempted), ps_budgetExceeded := (snd loaded = Budget_Exceeded)\<rparr>
      in if snd loaded \<noteq> Go_On then Inr (advance_cursor order None ceilingActive d, ps)
         else (case scan_groups so (pv_scan env) 0 order ps of
                 Inl e \<Rightarrow> Inl e
               | Inr ps1 \<Rightarrow> Inr (advance_cursor order (ps_stop ps1) ceilingActive (sc_db (ps_scan ps1)), ps1)))"

text \<open>
  \<open>skip\<close> is the kill switch of the environment. The result is the database, and the error that ended
  the pass, if one did.
\<close>

definition runConsolidation ::
  "bool \<Rightarrow> pass_options \<Rightarrow> pass_env \<Rightarrow> consol_db \<Rightarrow> proposal_error option \<times> consol_db" where
  "runConsolidation skip opts env d =
     (if skip then (None, d)
      else
        (let d1 = (if autoMergeContained (config_of opts) then sw_db (sweepContainedProposals (pv_sweep_uuid env) (pv_now env) d)
                   else d);
             loaded = loadAtomsSetupBounded (atom_db d1)
               ((case po_setupYield opts of None \<Rightarrow> DEFAULT_SETUP_YIELD_EVERY_N_ATOMS | Some n \<Rightarrow> n) - 1) (pv_stop env)
         in case scan_atoms opts env loaded d1 of
              Inl (e, d2) \<Rightarrow> (Some e, d2)
            | Inr (d2, ps) \<Rightarrow>
                (None, case resolveDupJudge (po_dupJudge opts) (po_dupProvider opts) of
                         None \<Rightarrow> d2
                       | Some c \<Rightarrow> dp_db (snd (runDupJudgeSweep c (pv_dup env) (proposeThreshold (config_of opts))
                                              (mergeThreshold (config_of opts)) d2)))))"

end
