(* ===== verification/Consolidate_Safety.thy ===== *)
theory Consolidate_Safety
  imports Consolidate
begin

text \<open>
  Safety of a consolidation pass (\<open>Consolidate\<close>). Whatever the pass does to the memories is a
  sequence of merges: the relation \<open>merges\<close>. Facts proved of it by rule induction then hold of
  every pass, also of one that an error ends early.
\<close>

section \<open>Sequences of merges\<close>

inductive merges :: "(string \<times> string \<Rightarrow> string \<times> string \<Rightarrow> bool) \<Rightarrow> store \<Rightarrow> store \<Rightarrow> bool"
  for P :: "string \<times> string \<Rightarrow> string \<times> string \<Rightarrow> bool" where
  merges_refl: "merges P s s"
| merges_step: "merges P s s1 \<Longrightarrow> mergeAsSupersede u now w l pr src s1 = Inr s2 \<Longrightarrow> w \<noteq> l \<Longrightarrow>
    get_memory w s1 = Some mw \<Longrightarrow> get_memory l s1 = Some ml \<Longrightarrow> P (typed mw) (typed ml) \<Longrightarrow> merges P s s2"

lemma merges_trans: "merges P s1 s2 \<Longrightarrow> merges P s s1 \<Longrightarrow> merges P s s2"
  by (induction rule: merges.induct) (blast intro: merges_step)+

lemma merges_one:
  assumes "mergeAsSupersede u now w l pr src s = Inr s'" and "w \<noteq> l"
    and "\<And>mw ml. get_memory w s = Some mw \<Longrightarrow> get_memory l s = Some ml \<Longrightarrow> P (typed mw) (typed ml)"
  shows "merges P s s'"
proof -
  obtain mw ml where "get_memory w s = Some mw" "get_memory l s = Some ml"
    using merge_InrD[OF assms(1)] by (auto simp: mergeable_iff)
  with assms show ?thesis by (blast intro: merges_step merges_refl)
qed

lemma merges_inv: "merges P s s' \<Longrightarrow> store_inv s \<Longrightarrow> store_inv s'"
  by (induction rule: merges.induct) (auto intro: inv_merge)

lemma typed_rows [simp]: "typed (loser_row now w m) = typed m" "typed (winner_row now l m) = typed m"
  by (simp_all add: typed_def loser_row_def winner_row_def)

text \<open>No memory disappears and none changes its type or its text.\<close>

lemma merges_typed: "merges P s s' \<Longrightarrow> map_option typed (get_memory i s') = map_option typed (get_memory i s)"
  by (induction rule: merges.induct) (auto simp: merge_rows option.map_comp comp_def)

lemma merges_typedD:
  assumes "merges P s s'" and "get_memory i s = Some m"
  obtains m' where "get_memory i s' = Some m'" "typed m' = typed m"
  using merges_typed[OF assms(1), of i] assms(2) by (cases "get_memory i s'") auto

definition current :: "store \<Rightarrow> string \<Rightarrow> bool" where
  "current s i \<longleftrightarrow> (case get_memory i s of None \<Rightarrow> False | Some m \<Rightarrow> mem_valid_to m = None)"

definition superseded_in :: "store \<Rightarrow> (string \<times> string) set" where
  "superseded_in s = {(i, j). \<exists>m. get_memory i s = Some m \<and> superseded_by m = Some j}"

lemma merge_superseded:
  assumes "store_inv s" and m: "mergeAsSupersede u now w l pr src s = Inr s'" and "w \<noteq> l"
  shows "superseded_in s' = insert (l, w) (superseded_in s)"
proof -
  obtain mw ml where g: "get_memory w s = Some mw" "get_memory l s = Some ml" "mem_valid_to ml = None"
    using merge_InrD[OF m] by (auto simp: mergeable_iff)
  then have "superseded_by ml = None" using store_inv_row[OF assms(1) g(2)] by (cases "superseded_by ml") (auto simp: row_inv_def)
  then show ?thesis using g
    by (auto simp: superseded_in_def merge_rows[OF m assms(3)] loser_row_def winner_row_def split: if_splits)
qed

lemma merge_current:
  assumes "mergeAsSupersede u now w l pr src s = Inr s'" and "w \<noteq> l"
  shows "current s' i \<longleftrightarrow> current s i \<and> i \<noteq> l" and "current s w"
  using merge_InrD[OF assms(1)]
  by (auto simp: current_def mergeable_iff merge_rows[OF assms] loser_row_def winner_row_def split: option.splits if_splits)

text \<open>Every current memory keeps a current representative along the superseding links.\<close>

lemma merges_keep_representative:
  assumes "merges P s s'" and "store_inv s" and "current s i"
  shows "\<exists>j. (i, j) \<in> (superseded_in s')\<^sup>* \<and> current s' j"
  using assms
proof (induction rule: merges.induct)
  case (merges_step s s1 u now w l pr src s2 mw ml)
  then obtain j where j: "(i, j) \<in> (superseded_in s1)\<^sup>*" "current s1 j" by blast
  have inv: "store_inv s1" using merges_step merges_inv by blast
  note sup = merge_superseded[OF inv merges_step(2,3)]
  have "(i, j) \<in> (superseded_in s2)\<^sup>*" using j(1) rtrancl_mono[of "superseded_in s1" "superseded_in s2"] by (auto simp: sup)
  then show ?case
  proof (cases "j = l")
    case True
    then have "(i, w) \<in> (superseded_in s2)\<^sup>*"
      using \<open>(i, j) \<in> (superseded_in s2)\<^sup>*\<close> by (auto simp: sup intro: rtrancl_into_rtrancl)
    then show ?thesis using merge_current[OF merges_step(2,3)] merges_step(3) by blast
  next
    case False
    then show ?thesis using merge_current[OF merges_step(2,3)] j(2) \<open>(i, j) \<in> (superseded_in s2)\<^sup>*\<close> by blast
  qed
qed blast

text \<open>Every new superseding link is between two memories the predicate allows.\<close>

definition links_allowed :: "(string \<times> string \<Rightarrow> string \<times> string \<Rightarrow> bool) \<Rightarrow> store \<Rightarrow> (string \<times> string) set \<Rightarrow> bool" where
  "links_allowed P s L \<longleftrightarrow>
     (\<forall>(i, j) \<in> L. case (get_memory j s, get_memory i s) of (Some w, Some l) \<Rightarrow> P (typed w) (typed l) | _ \<Rightarrow> False)"

lemma links_allowed_typed:
  assumes "\<And>i. map_option typed (get_memory i s') = map_option typed (get_memory i s)"
  shows "links_allowed P s' L = links_allowed P s L"
proof -
  have "(case (get_memory j s', get_memory i s') of (Some w, Some l) \<Rightarrow> P (typed w) (typed l) | _ \<Rightarrow> False) =
      (case (get_memory j s, get_memory i s) of (Some w, Some l) \<Rightarrow> P (typed w) (typed l) | _ \<Rightarrow> False)" for i j
    using assms[of i] assms[of j] by (cases "get_memory i s"; cases "get_memory j s"; cases "get_memory i s'"; cases "get_memory j s'") auto
  then show ?thesis by (simp add: links_allowed_def)
qed

lemma merges_links:
  assumes "merges P s s'" and "store_inv s"
  shows "links_allowed P s' (superseded_in s' - superseded_in s)"
  using assms
proof (induction rule: merges.induct)
  case (merges_step s s1 u now w l pr src s2 mw ml)
  have inv: "store_inv s1" using merges_step merges_inv by blast
  have "links_allowed P s2 (superseded_in s1 - superseded_in s)"
    using merges_step.IH[OF merges_step.prems] merges_typed[OF merges_one[OF merges_step(2,3), of "\<lambda>_ _. True"]]
    by (simp add: links_allowed_typed[of s2 s1])
  moreover have "links_allowed P s2 {(l, w)}"
    unfolding links_allowed_def using merge_rows[OF merges_step(2,3)] merges_step(3-6) by simp
  ultimately show ?case
    unfolding merge_superseded[OF inv merges_step(2,3)] links_allowed_def by blast
qed (simp add: links_allowed_def)

section \<open>What a step of the pass may do\<close>

definition good :: "consol_db \<Rightarrow> bool" where
  "good d \<longleftrightarrow> prop_inv d \<and> list_all (\<lambda>p. winner_id p \<noteq> loser_id p) (proposals d)"

definition same_pairs :: "consol_db \<Rightarrow> consol_db \<Rightarrow> bool" where
  "same_pairs d d' \<longleftrightarrow>
     (\<forall>i p. get_proposal i d = Some p \<longrightarrow>
        (\<exists>q. get_proposal i d' = Some q \<and> winner_id q = winner_id p \<and> loser_id q = loser_id p))"

definition evolves :: "(string \<times> string \<Rightarrow> string \<times> string \<Rightarrow> bool) \<Rightarrow> consol_db \<Rightarrow> consol_db \<Rightarrow> bool" where
  "evolves P d d' \<longleftrightarrow> good d' \<and> merges P (atom_db d) (atom_db d') \<and> same_pairs d d'"

lemma evolves_refl: "good d \<Longrightarrow> evolves P d d"
  by (simp add: evolves_def merges_refl same_pairs_def)

lemma evolves_trans: "evolves P d d1 \<Longrightarrow> evolves P d1 d2 \<Longrightarrow> evolves P d d2"
  unfolding evolves_def same_pairs_def by (metis merges_trans)

lemma evolves_good: "evolves P d d' \<Longrightarrow> good d'"
  by (simp add: evolves_def)

lemma good_rows: "good d \<Longrightarrow> get_proposal i d = Some p \<Longrightarrow> winner_id p \<noteq> loser_id p"
  by (auto simp: good_def list_all_iff get_proposal_def dest: get_row_SomeD)

lemma same_pairsD:
  "same_pairs d d' \<Longrightarrow> get_proposal i d = Some p \<Longrightarrow> get_proposal i d' = Some q \<Longrightarrow>
   winner_id q = winner_id p \<and> loser_id q = loser_id p"
  unfolding same_pairs_def by (metis option.inject)

lemma same_pairs_update:
  "(\<And>p. prop_id (f p) = prop_id p \<and> winner_id (f p) = winner_id p \<and> loser_id (f p) = loser_id p) \<Longrightarrow>
   same_pairs d (update_proposals Q f d)"
  by (auto simp: same_pairs_def get_update_proposals)

lemma evolves_update_proposals:
  assumes "good d" and "prop_inv (update_proposals Q f d)"
    and "\<And>p. prop_id (f p) = prop_id p \<and> winner_id (f p) = winner_id p \<and> loser_id (f p) = loser_id p"
  shows "evolves P d (update_proposals Q f d)"
  using assms same_pairs_update[OF assms(3), of d Q]
  by (auto simp: evolves_def good_def merges_refl update_proposals_def list_all_iff set_update_rows)

lemma evolves_annotate: "good d \<Longrightarrow> evolves P d (annotateCommandGuardBlocked i site d)"
  unfolding annotateCommandGuardBlocked_def
  by (rule evolves_update_proposals)
    (auto simp: good_def intro: inv_annotate[unfolded annotateCommandGuardBlocked_def])

lemma prop_inv_resolveRow: "prop_inv d \<Longrightarrow> st \<noteq> Prop_Pending \<Longrightarrow> prop_inv (resolveRow now st i d)"
  by (auto simp: resolveRow_def update_proposals_def prop_inv_def list_all_iff set_update_rows prop_rows.keys_update
      intro: distinct_pending_resolved)

lemma evolves_resolveRow: "good d \<Longrightarrow> st \<noteq> Prop_Pending \<Longrightarrow> evolves P d (resolveRow now st i d)"
  unfolding resolveRow_def
  by (rule evolves_update_proposals) (auto simp: good_def intro: prop_inv_resolveRow[unfolded resolveRow_def])

lemma evolves_resolve: "good d \<Longrightarrow> st \<noteq> Prop_Pending \<Longrightarrow> evolves P d (resolve_proposal now i st meta d)"
  unfolding resolve_proposal_eq
  by (rule evolves_update_proposals)
    (auto simp: good_def settled_row_def intro: prop_inv_resolve[unfolded resolve_proposal_eq])

lemma evolves_reject: "good d \<Longrightarrow> reject_proposal now i meta d = Inr d' \<Longrightarrow> evolves P d d'"
  by (auto elim!: reject_InrD intro: evolves_resolve)

lemma evolves_insert:
  assumes "good d" and ins: "insert_proposal x now k w l sim meta d = Inr (b, d')" and "w \<noteq> l"
  shows "evolves P d d'"
proof -
  have "prop_inv d'" using inv_insert_proposal[OF _ ins] assms(1) by (simp add: good_def)
  then show ?thesis using insert_proposal_InrD[OF ins] assms(1,3)
    by (auto simp: evolves_def good_def merges_refl same_pairs_def get_proposal_def get_row_append split: if_splits)
qed

lemma evolves_merge:
  assumes "good d" and "mergeAsSupersede u now w l pr src (atom_db d) = Inr s" and "w \<noteq> l"
    and "\<And>mw ml. get_memory w (atom_db d) = Some mw \<Longrightarrow> get_memory l (atom_db d) = Some ml \<Longrightarrow> P (typed mw) (typed ml)"
  shows "evolves P d (d\<lparr>atom_db := s\<rparr>)"
proof -
  have "store_inv s" using assms(1,2) inv_merge by (auto simp: good_def prop_inv_def)
  moreover have "merges P (atom_db d) s" by (rule merges_one[OF assms(2,3)]) (rule assms(4))
  ultimately show ?thesis using assms(1) by (simp add: evolves_def good_def prop_inv_def same_pairs_def)
qed

lemma evolves_accept:
  assumes "good d" and "accept_proposal u now i pr (auto_options meta) d = Inr d'"
    and "\<And>p mw ml. get_proposal i d = Some p \<Longrightarrow> get_memory (winner_id p) (atom_db d) = Some mw \<Longrightarrow>
      get_memory (loser_id p) (atom_db d) = Some ml \<Longrightarrow> P (typed mw) (typed ml)"
  shows "evolves P d d'"
proof -
  obtain p s where p: "get_proposal i d = Some p"
    and m: "mergeAsSupersede u now (winner_id p) (loser_id p) pr Consolidation_Auto (atom_db d) = Inr s"
    and d': "d' = resolve_proposal now i Prop_Accepted meta (d\<lparr>atom_db := s\<rparr>)"
    by (rule accept_InrD[OF assms(2)]) (auto simp: auto_options_def)
  have ev: "evolves P d (d\<lparr>atom_db := s\<rparr>)"
    by (rule evolves_merge[OF assms(1) m]) (use good_rows[OF assms(1) p] assms(3)[OF p] in auto)
  show ?thesis unfolding d'
    by (rule evolves_trans[OF ev evolves_resolve]) (use ev in \<open>auto dest: evolves_good\<close>)
qed

text \<open>The types and texts read by a query are still those of the rows when they are merged.\<close>

definition snapshot :: "consol_db \<Rightarrow> proposal \<times> memory \<times> memory \<Rightarrow> bool" where
  "snapshot d = (\<lambda>(p, w, l). get_proposal (prop_id p) d = Some p \<and> get_memory (winner_id p) (atom_db d) = Some w \<and>
     get_memory (loser_id p) (atom_db d) = Some l)"

lemma joined_rows_snapshot:
  assumes "good d" and "r \<in> set (joined_rows Q d)"
  shows "snapshot d r"
proof -
  have "distinct (map prop_id (proposals d))" using assms(1) by (simp add: good_def prop_inv_def)
  with assms(2) show ?thesis
    by (auto simp: joined_rows_def snapshot_def get_proposal_def prop_rows.get_in split: option.splits)
qed

lemma evolves_accept_snapshot:
  assumes "evolves P d d1" and "snapshot d (p, w, l)" and "P (typed w) (typed l)"
    and "accept_proposal u now (prop_id p) pr (auto_options meta) d1 = Inr d2"
  shows "evolves P d1 d2"
proof (rule evolves_accept[OF evolves_good[OF assms(1)] assms(4)])
  fix q mw ml
  assume q: "get_proposal (prop_id p) d1 = Some q" "get_memory (winner_id q) (atom_db d1) = Some mw"
    "get_memory (loser_id q) (atom_db d1) = Some ml"
  have "winner_id q = winner_id p" "loser_id q = loser_id p"
    using assms(1,2) q(1) same_pairsD[of d d1 "prop_id p" p q] by (simp_all add: evolves_def snapshot_def)
  moreover have mt: "map_option typed (get_memory i (atom_db d1)) = map_option typed (get_memory i (atom_db d))" for i
    using assms(1) merges_typed by (auto simp: evolves_def)
  ultimately have "typed mw = typed w" "typed ml = typed l"
    using q(2,3) assms(2) mt[of "winner_id p"] mt[of "loser_id p"] by (simp_all add: snapshot_def)
  with assms(3) show "P (typed mw) (typed ml)" by simp
qed

section \<open>The two sweeps\<close>

definition guard_free :: "string \<times> string \<Rightarrow> string \<times> string \<Rightarrow> bool" where
  "guard_free a b \<longleftrightarrow> \<not> commandGuardBlocksMerge a b"

lemma sweep_row_evolves:
  assumes "evolves P d (sw_db sw)" and "snapshot d r" and "\<And>a b. guard_free a b \<Longrightarrow> P a b"
  shows "evolves P (sw_db sw) (sw_db (sweep_row u now r sw))"
proof -
  obtain p w l where r: "r = (p, w, l)" by (cases r)
  note good = evolves_good[OF assms(1)]
  have "evolves P (sw_db sw) d2"
    if "\<not> commandGuardBlocksMerge (typed w) (typed l)" "accept_proposal u now (prop_id p) None (auto_options None) (sw_db sw) = Inr d2" for d2
    using evolves_accept_snapshot[OF assms(1) assms(2)[unfolded r] _ that(2)] that(1) assms(3) by (simp add: guard_free_def)
  then show ?thesis
    by (auto simp: r sweep_row_def Let_def evolves_refl[OF good] evolves_annotate[OF good] evolves_resolveRow[OF good]
        split: sum.split)
qed

lemma sweep_rows_evolves:
  assumes "evolves P d (sw_db sw)" and "\<forall>r \<in> set rs. snapshot d r" and "\<And>a b. guard_free a b \<Longrightarrow> P a b"
  shows "evolves P d (sw_db (sweep_rows u now k rs sw))"
  using assms(1,2)
proof (induction rs arbitrary: k sw)
  case (Cons r rs)
  then have "evolves P d (sw_db (sweep_row (u k) now r sw))"
    using sweep_row_evolves[of P d sw r, OF _ _ assms(3)] evolves_trans by auto
  with Cons show ?case by simp
qed simp

lemma sweep_evolves:
  assumes "good d" and "\<And>a b. guard_free a b \<Longrightarrow> P a b"
  shows "evolves P d (sw_db (sweepContainedProposals u now d))"
  unfolding sweepContainedProposals_def
  by (rule sweep_rows_evolves) (use assms joined_rows_snapshot in \<open>auto simp: evolves_refl\<close>)

lemma dup_row_evolves:
  assumes "evolves P d (dp_db dp)" and "snapshot d r" and "\<And>a b. guard_free a b \<Longrightarrow> P a b"
  shows "evolves P (dp_db dp) (dp_db (dup_row cfg pv u now v r dp))"
proof -
  obtain p w l where r: "r = (p, w, l)" by (cases r)
  note good = evolves_good[OF assms(1)]
  have "evolves P (dp_db dp) d2"
    if "\<not> commandGuardBlocksMerge (typed w) (typed l)" "accept_proposal u now (prop_id p) None (auto_options meta) (dp_db dp) = Inr d2"
    for d2 meta
    using evolves_accept_snapshot[OF assms(1) assms(2)[unfolded r] _ that(2)] that(1) assms(3) by (simp add: guard_free_def)
  then show ?thesis
    by (auto simp: r dup_row_def Let_def evolves_refl[OF good] evolves_annotate[OF good]
        intro: evolves_reject[OF good] split: sum.split option.split)
qed

lemma dup_rows_evolves:
  assumes "evolves P d (dp_db dp)" and "\<forall>r \<in> set rs. snapshot d r" and "\<And>a b. guard_free a b \<Longrightarrow> P a b"
  shows "evolves P d (dp_db (dup_rows cfg pv u now vs k rs dp))"
  using assms(1,2)
proof (induction rs arbitrary: k dp)
  case (Cons r rs)
  then have "evolves P d (dp_db (dup_row cfg pv (u k) now (vs k) r dp))"
    using dup_row_evolves[of P d dp r, OF _ _ assms(3)] evolves_trans by auto
  with Cons show ?case by simp
qed simp

lemma dup_batches_evolves:
  assumes "evolves P d (dp_db dp)" and "\<forall>b \<in> set bs. \<forall>r \<in> set b. snapshot d r" and "\<And>a b. guard_free a b \<Longrightarrow> P a b"
  shows "evolves P d (dp_db (snd (dup_batches cfg env n k bs cap dp)))"
  using assms(1,2)
proof (induction bs arbitrary: n k cap dp)
  case (Cons b bs)
  then show ?case using dup_rows_evolves[of P d _ b, OF _ _ assms(3)] by (auto simp: Let_def split: prod.split)
qed simp

lemma chunks_subset: "b \<in> set (chunks n xs) \<Longrightarrow> set b \<subseteq> set xs"
  using concat_chunks[of n xs] by (metis UN_upper set_concat)

lemma dup_sweep_evolves:
  assumes "good d" and "\<And>a b. guard_free a b \<Longrightarrow> P a b"
  shows "evolves P d (dp_db (snd (runDupJudgeSweep cfg env pt mt d)))"
proof -
  have "\<forall>b \<in> set (chunks n (dup_candidates pt mt d)). \<forall>r \<in> set b. snapshot d r" for n
    using chunks_subset joined_rows_snapshot[OF assms(1)] by (fastforce simp: dup_candidates_def)
  then show ?thesis using dup_batches_evolves[of P d, OF _ _ assms(2)] assms(1)
    by (auto simp: runDupJudgeSweep_def Let_def evolves_refl)
qed

section \<open>The scan\<close>

text \<open>An atom as loaded, and the pairs the scan is given.\<close>

definition loaded_atom :: "consol_db \<Rightarrow> atom_row \<Rightarrow> bool" where
  "loaded_atom d a \<longleftrightarrow> (case get_memory (ar_id a) (atom_db d) of None \<Rightarrow> False | Some m \<Rightarrow> typed m = row_typed a)"

definition scan_pair_ok :: "consol_db \<Rightarrow> atom_row \<times> atom_row \<Rightarrow> bool" where
  "scan_pair_ok d p \<longleftrightarrow> loaded_atom d (fst p) \<and> loaded_atom d (snd p) \<and> ar_id (fst p) \<noteq> ar_id (snd p)"

lemma loaded_atom_evolves:
  assumes "evolves P d d'" and "loaded_atom d a"
  shows "loaded_atom d' a"
proof -
  have "merges P (atom_db d) (atom_db d')" using assms(1) by (simp add: evolves_def)
  then show ?thesis using merges_typed[of P _ _ "ar_id a"] assms(2)
    by (auto simp: loaded_atom_def split: option.splits elim: merges_typedD)
qed

lemma scan_pair_evolves: "evolves P d d' \<Longrightarrow> scan_pair_ok d p \<Longrightarrow> scan_pair_ok d' p"
  by (auto simp: scan_pair_ok_def intro: loaded_atom_evolves)

text \<open>What a merge of the pass needs of the pair: it is guard-free, or auto-accept is on.\<close>

definition may_merge :: "real option \<Rightarrow> string \<times> string \<Rightarrow> string \<times> string \<Rightarrow> bool" where
  "may_merge auto a b \<longleftrightarrow> auto \<noteq> None \<or> guard_free a b"

lemma guard_free_sym: "guard_free a b = guard_free b a"
  using guard_sym by (auto simp: guard_free_def)

definition result_db :: "scan_error + scan_state \<Rightarrow> consol_db" where
  "result_db r = (case r of Inl (_, d) \<Rightarrow> d | Inr sc \<Rightarrow> sc_db sc)"

lemma result_db_simps [simp]: "result_db (Inl (e, d)) = d" "result_db (Inr sc) = sc_db sc"
  by (simp_all add: result_db_def)

lemma contradiction_tier_evolves:
  assumes "good (sc_db sc)" and "ar_id a \<noteq> ar_id b"
  shows "case contradiction_tier cd parse mt st env a b sim sc of
      Inl (e, d) \<Rightarrow> evolves P (sc_db sc) d | Inr (h, sc') \<Rightarrow> evolves P (sc_db sc) (sc_db sc')"
proof -
  have ins: "evolves P (sc_db sc) d'"
    if "insertContradictionProposal x n (ar_id p) (ar_id q) t1 t2 s c (sc_db sc) = Inr (k, d')" "ar_id p \<noteq> ar_id q"
    for x n p q t1 t2 s c k d'
    using evolves_insert[OF assms(1) that(1)[unfolded insertContradictionProposal_def] that(2)] .
  show ?thesis
    using assms(2)
    by (auto simp: contradiction_tier_def Let_def evolves_refl[OF assms(1)] case_prod_beta
        split: option.split sum.split intro: ins)
qed

lemma guarded_merge_evolves:
  assumes "good (sc_db sc)" and w: "(w, l) = (a, b) \<or> (w, l) = (b, a)" and ok: "scan_pair_ok (sc_db sc) (a, b)"
  shows "evolves (may_merge auto) (sc_db sc) (result_db (guarded_merge env a b w l sim c sc))"
proof -
  have ne: "ar_id w \<noteq> ar_id l" using w ok by (auto simp: scan_pair_ok_def)
  have "evolves (may_merge auto) (sc_db sc) ((sc_db sc)\<lparr>atom_db := s\<rparr>)"
    if "\<not> commandGuardBlocksMerge (row_typed a) (row_typed b)"
      "mergeAsSupersede u now (ar_id w) (ar_id l) pr src (atom_db (sc_db sc)) = Inr s" for u now pr src s
  proof (rule evolves_merge[OF assms(1) that(2) ne])
    fix mw ml
    assume "get_memory (ar_id w) (atom_db (sc_db sc)) = Some mw" "get_memory (ar_id l) (atom_db (sc_db sc)) = Some ml"
    then have "typed mw = row_typed w" "typed ml = row_typed l" using w ok by (auto simp: scan_pair_ok_def loaded_atom_def)
    then show "may_merge auto (typed mw) (typed ml)"
      using w that(1) guard_free_sym[of "row_typed a" "row_typed b"] by (auto simp: may_merge_def guard_free_def)
  qed
  then show ?thesis using evolves_insert[OF assms(1) _ ne]
    by (auto simp: guarded_merge_def Let_def insertGuardedMergeProposal_def evolves_refl[OF assms(1)]
        split: sum.split prod.split)
qed

lemma propose_tier_evolves:
  assumes good: "good (sc_db sc)" and ne: "ar_id w \<noteq> ar_id l"
  shows "evolves (may_merge auto) (sc_db sc) (result_db (propose_tier auto env w l sim sc))"
proof (cases "insert_proposal (pe_uuid env 0) (pe_now env) Merge (ar_id w) (ar_id l) sim None (sc_db sc)")
  case (Inl e)
  then show ?thesis by (simp add: propose_tier_def evolves_refl[OF good])
next
  case (Inr r)
  obtain ins d where r: "r = (ins, d)" by (cases r)
  note ev = evolves_insert[OF good Inr[unfolded r] ne]
  have acc: "evolves (may_merge (Some t)) (sc_db sc) d'"
    if "auto = Some t" "accept_proposal u now i pr (auto_options None) d = Inr d'" for t u now i pr d'
    using evolves_trans[OF ev evolves_accept[OF evolves_good[OF ev] that(2)]] by (simp add: may_merge_def)
  show ?thesis
    by (auto simp: propose_tier_def Let_def Inr r ev evolves_refl[OF good] intro: acc split: option.split sum.split)
qed

lemma pick_winner_cases: "pick_winner useful a b = (a, b) \<or> pick_winner useful a b = (b, a)"
  by (simp add: pick_winner_def Let_def)

lemma processPair_evolves:
  assumes good: "good (sc_db sc)" and ok: "scan_pair_ok (sc_db sc) pr"
  shows "evolves (may_merge (autoAcceptThreshold cfg)) (sc_db sc) (result_db (processPair cfg parse useful vecs st env pr sc))"
proof -
  obtain a b where pr: "pr = (a, b)" by (cases pr)
  have ne: "ar_id a \<noteq> ar_id b" using ok by (simp add: pr scan_pair_ok_def)
  obtain w l where wl: "pick_winner useful a b = (w, l)" and cases: "(w, l) = (a, b) \<or> (w, l) = (b, a)"
    using pick_winner_cases by metis
  let ?tier = "\<lambda>sim. contradiction_tier (contradictionDetection cfg) parse (mergeThreshold cfg) st env a b sim sc"
  let ?M = "may_merge (autoAcceptThreshold cfg)"
  have tier: "case ?tier sim of Inl (e, d) \<Rightarrow> evolves ?M (sc_db sc) d | Inr (h, sc') \<Rightarrow> evolves ?M (sc_db sc) (sc_db sc')" for sim
    by (rule contradiction_tier_evolves[OF good ne])
  have gm: "evolves ?M (sc_db sc) (result_db (guarded_merge env a b x y sim c sc1))"
    if "evolves ?M (sc_db sc) (sc_db sc1)" "(x, y) = (a, b) \<or> (x, y) = (b, a)" for x y sim c sc1
    using evolves_trans[OF that(1) guarded_merge_evolves[OF evolves_good[OF that(1)] that(2) scan_pair_evolves[OF that(1) ok[unfolded pr]]]] .
  have pt: "evolves ?M (sc_db sc) (result_db (propose_tier (autoAcceptThreshold cfg) env w l sim sc1))"
    if "evolves ?M (sc_db sc) (sc_db sc1)" for sim sc1
    using evolves_trans[OF that propose_tier_evolves[OF evolves_good[OF that]]] cases ne by auto
  show ?thesis
  proof (cases "\<not> (ar_id a \<in> set (invalidatedThisRun sc) \<or> ar_id b \<in> set (invalidatedThisRun sc)) \<and>
      vecs (ar_id a) \<noteq> None \<and> vecs (ar_id b) \<noteq> None")
    case False
    then show ?thesis by (auto simp: processPair_def pr evolves_refl[OF good] split: option.split)
  next
    case True
    then obtain va vb where v: "vecs (ar_id a) = Some va" "vecs (ar_id b) = Some vb" by auto
    define F where "F = (\<lambda>sc1. if cosine va vb < proposeThreshold cfg then Inr sc1
      else case if autoMergeContained cfg then containment (ar_text a) (ar_text b) else None of
             Some A_Contains_B \<Rightarrow> guarded_merge env a b a b (cosine va vb) True sc1
           | Some B_Contains_A \<Rightarrow> guarded_merge env a b b a (cosine va vb) True sc1
           | Some Equal_Texts \<Rightarrow> guarded_merge env a b w l (cosine va vb) True sc1
           | None \<Rightarrow> if mergeThreshold cfg \<le> cosine va vb then guarded_merge env a b w l (cosine va vb) False sc1
                     else propose_tier (autoAcceptThreshold cfg) env w l (cosine va vb) sc1)"
    have F: "evolves ?M (sc_db sc) (result_db (F sc1))" if "evolves ?M (sc_db sc) (sc_db sc1)" for sc1
      using that gm[OF that] cases pt[OF that] by (simp add: F_def split: option.split containment.split)
    have "processPair cfg parse useful vecs st env pr sc =
        (case ?tier (cosine va vb) of Inl e \<Rightarrow> Inl e | Inr (h, sc1) \<Rightarrow> if h then Inr sc1 else F sc1)"
      using True unfolding processPair_def pr Let_def case_prod_conv wl F_def by (simp add: v)
    then show ?thesis using tier[of "cosine va vb"] F by (auto split: sum.splits)
  qed
qed

section \<open>Loading and grouping\<close>

lemma filterEmbedded: "filterEmbeddedRowids s rowids = set (memories_vec s) \<inter> set rowids"
proof -
  have "fold (\<lambda>batch found. set (filter (\<lambda>r. r \<in> set batch) (memories_vec s)) \<union> found) bs acc =
      set (memories_vec s) \<inter> set (concat bs) \<union> acc" for bs acc
    by (induction bs arbitrary: acc) auto
  then show ?thesis by (simp only: filterEmbeddedRowids_def concat_chunks Un_empty_right)
qed

definition embedded_in :: "store \<Rightarrow> memory \<Rightarrow> bool" where
  "embedded_in s m \<longleftrightarrow> mem_rowid m \<in> set (memories_vec s)"

lemma page_embedded:
  "filter (\<lambda>m. mem_rowid m \<in> filterEmbeddedRowids s (map mem_rowid page)) page = filter (embedded_in s) page"
  by (rule filter_cong) (auto simp: filterEmbedded embedded_in_def)

lemma load_pages_prefix:
  "\<exists>j. fst (load_pages s n stop k rest atoms) = atoms @ filter (embedded_in s) (take j rest) \<and>
     (snd (load_pages s n stop k rest atoms) = Go_On \<longrightarrow> take j rest = rest)"
proof (induction s n stop k rest atoms rule: load_pages.induct)
  case (1 s n stop k rest atoms)
  let ?atoms = "atoms @ filter (embedded_in s) (take (Suc n) rest)"
  have step: "load_pages s n stop k rest atoms =
      (if length (take (Suc n) rest) < Suc n then (?atoms, Go_On)
       else if stop k \<noteq> Go_On then (?atoms, stop k)
       else load_pages s n stop (Suc k) (drop (Suc n) rest) ?atoms)"
    by (subst load_pages.simps) (simp add: Let_def page_embedded)
  consider (last) "length (take (Suc n) rest) < Suc n"
    | (stop) "\<not> length (take (Suc n) rest) < Suc n" "stop k \<noteq> Go_On"
    | (on) "\<not> length (take (Suc n) rest) < Suc n" "stop k = Go_On" by blast
  then show ?case
  proof cases
    case last
    then have "length rest < Suc n" by (simp add: min_def split: if_splits)
    then show ?thesis by (intro exI[of _ "Suc n"]) (simp add: step)
  next
    case stop
    then show ?thesis by (intro exI[of _ "Suc n"]) (simp add: step)
  next
    case on
    have "\<exists>j. fst (load_pages s n stop (Suc k) (drop (Suc n) rest) ?atoms) = ?atoms @ filter (embedded_in s) (take j (drop (Suc n) rest)) \<and>
        (snd (load_pages s n stop (Suc k) (drop (Suc n) rest) ?atoms) = Go_On \<longrightarrow> take j (drop (Suc n) rest) = drop (Suc n) rest)"
      using 1[OF refl refl refl on(1)] on(2) by (simp add: page_embedded)
    then obtain j where j: "fst (load_pages s n stop (Suc k) (drop (Suc n) rest) ?atoms) = ?atoms @ filter (embedded_in s) (take j (drop (Suc n) rest))"
      "snd (load_pages s n stop (Suc k) (drop (Suc n) rest) ?atoms) = Go_On \<Longrightarrow> take j (drop (Suc n) rest) = drop (Suc n) rest"
      by blast
    have "take (Suc n + j) rest = take (Suc n) rest @ take j (drop (Suc n) rest)" by (rule take_add)
    then show ?thesis using on j by (intro exI[of _ "Suc n + j"]) (auto simp: step)
  qed
qed

lemma loaded_atoms_ok:
  assumes "good d"
  shows "\<forall>a \<in> set (fst (loadAtomsSetupBounded (atom_db d) n stop)). loaded_atom d a"
    and "distinct (map ar_id (fst (loadAtomsSetupBounded (atom_db d) n stop)))"
proof -
  have inv: "store_inv (atom_db d)" using assms by (simp add: good_def prop_inv_def)
  obtain j where j: "fst (load_pages (atom_db d) n stop 0 (scan_rows (atom_db d)) []) =
      filter (embedded_in (atom_db d)) (take j (scan_rows (atom_db d)))"
    using load_pages_prefix[of "atom_db d" n stop 0 "scan_rows (atom_db d)" "[]"] by auto
  have ids: "distinct (map mem_id (scan_rows (atom_db d)))"
    using store_inv_parts(7)[OF inv] by (simp add: scan_rows_def distinct_map_filter)
  have mem: "m \<in> set (memories (atom_db d))" if "m \<in> set (take j (scan_rows (atom_db d)))" for m
    using that by (auto simp: scan_rows_def dest: in_set_takeD)
  have "loaded_atom d (atom_of m)" if "m \<in> set (take j (scan_rows (atom_db d)))" for m
    using mem[OF that] mem_rows.get_in[OF store_inv_parts(7)[OF inv]]
    by (simp add: loaded_atom_def atom_of_def get_memory_def typed_def row_typed_def)
  then show "\<forall>a \<in> set (fst (loadAtomsSetupBounded (atom_db d) n stop)). loaded_atom d a"
    using j by (auto simp: loadAtomsSetupBounded_def split: prod.splits)
  have "distinct (map mem_id (filter (embedded_in (atom_db d)) (take j (scan_rows (atom_db d)))))"
    using ids by (intro distinct_map_filter) (simp add: take_map[symmetric])
  moreover have "map ar_id (map atom_of ms) = map mem_id ms" for ms by (simp add: atom_of_def)
  ultimately show "distinct (map ar_id (fst (loadAtomsSetupBounded (atom_db d) n stop)))"
    using j by (auto simp: loadAtomsSetupBounded_def simp del: map_map split: prod.splits)
qed

text \<open>The groups partition the atoms by their key, in the order of the atoms.\<close>

definition grouped :: "atom_row list \<Rightarrow> group_entry list \<Rightarrow> bool" where
  "grouped seen groups \<longleftrightarrow> distinct (map fst groups) \<and> fst ` set groups = group_key ` set seen \<and>
     (\<forall>g \<in> set groups. snd g = filter (\<lambda>a. group_key a = fst g) seen)"

lemma obj_set_split:
  "k \<in> fst ` set kvs \<Longrightarrow> distinct (map fst kvs) \<Longrightarrow> set (obj_set k v kvs) = insert (k, v) {kv \<in> set kvs. fst kv \<noteq> k}"
proof (induction kvs)
  case (Cons kv kvs)
  obtain l w where kv: "kv = (l, w)" by (cases kv)
  show ?case
  proof (cases "l = k")
    case True
    then have "\<forall>x \<in> set kvs. fst x \<noteq> k" using Cons.prems(2) by (force simp: kv)
    then show ?thesis using True by (auto simp: kv)
  next
    case False
    then have "set (obj_set k v kvs) = insert (k, v) {x \<in> set kvs. fst x \<noteq> k}"
      using Cons.IH Cons.prems False by (simp add: kv)
    moreover have "{x \<in> set (kv # kvs). fst x \<noteq> k} = insert kv {x \<in> set kvs. fst x \<noteq> k}" using False kv by auto
    ultimately show ?thesis using False by (simp add: kv insert_commute)
  qed
qed simp

lemma grouped_step: "grouped seen groups \<Longrightarrow> grouped (seen @ [a]) (add_to_group a groups)"
proof -
  assume g: "grouped seen groups"
  let ?k = "group_key a"
  show "grouped (seen @ [a]) (add_to_group a groups)"
  proof (cases "?k \<in> fst ` set groups")
    case True
    then obtain xs where xs: "map_of groups ?k = Some xs" by (metis map_of_eq_None_iff option.exhaust)
    have in_g: "(?k, xs) \<in> set groups" using xs by (rule map_of_SomeD)
    have xs': "xs = filter (\<lambda>b. group_key b = ?k) seen" using g in_g by (auto simp: grouped_def)
    have dist: "distinct (map fst groups)" using g by (simp add: grouped_def)
    have keys: "map fst (add_to_group a groups) = map fst groups"
      using True by (simp add: add_to_group_def obj_set_keys)
    have "fst ` set (add_to_group a groups) = fst ` set groups" by (metis keys list.set_map)
    moreover have "fst ` set groups = group_key ` set seen" using g by (simp add: grouped_def)
    ultimately have "fst ` set (add_to_group a groups) = group_key ` set (seen @ [a])"
      using True by (simp add: insert_absorb)
    moreover have "set (add_to_group a groups) = insert (?k, xs @ [a]) {kv \<in> set groups. fst kv \<noteq> ?k}"
      using xs obj_set_split[OF True dist] by (simp add: add_to_group_def)
    ultimately show ?thesis using g keys xs' by (auto simp: grouped_def)
  next
    case False
    then have "map_of groups ?k = None" by (simp add: map_of_eq_None_iff)
    moreover have "\<forall>b \<in> set seen. group_key b \<noteq> ?k" using g False by (metis grouped_def image_eqI)
    ultimately show ?thesis using g False
      by (auto simp: grouped_def add_to_group_def obj_set_new image_iff)
  qed
qed

interpretation grouping: prefix_scan grouped add_to_group
  by unfold_locales (rule grouped_step)

lemma group_atoms_grouped: "grouped atoms (group_atoms atoms)"
  unfolding group_atoms_def by (rule grouping.scan) (simp add: grouped_def)

lemma groupOrder_subset: "set (groupOrder c cur groups) \<subseteq> set groups"
  by (auto simp: groupOrder_def rotate_to_def dest: in_set_takeD in_set_dropD split: option.splits if_splits)

lemma buildFullPairs_ok:
  "p \<in> set (buildFullPairs grp) \<Longrightarrow> distinct (map ar_id grp) \<Longrightarrow>
   fst p \<in> set grp \<and> snd p \<in> set grp \<and> ar_id (fst p) \<noteq> ar_id (snd p)"
  by (induction grp) (auto simp: rev_image_eqI)

definition pairs_within :: "atom_row list \<Rightarrow> (atom_row \<times> atom_row) list \<Rightarrow> bool" where
  "pairs_within grp pairs \<longleftrightarrow> distinct (map ids_of pairs) \<and>
     (\<forall>p \<in> set pairs. fst p \<in> set grp \<and> snd p \<in> set grp \<and> ar_id (fst p) < ar_id (snd p))"

lemma knn_hit_within: "pairs_within grp pairs \<Longrightarrow> a \<in> set grp \<Longrightarrow> pairs_within grp (knn_hit grp a hit pairs)"
  by (auto simp: pairs_within_def knn_hit_def ordered_pair_def not_less_iff_gr_or_eq split: option.splits dest!: get_row_SomeD)

lemma knn_hits_within: "pairs_within grp pairs \<Longrightarrow> a \<in> set grp \<Longrightarrow> pairs_within grp (fold (knn_hit grp a) hits pairs)"
  by (induction hits arbitrary: pairs) (auto intro: knn_hit_within)

lemma knn_within: "pairs_within grp (buildKnnCandidatePairs grp vecs search k)"
proof -
  have "pairs_within grp (fold (\<lambda>a pairs. case vecs (ar_id a) of None \<Rightarrow> pairs
      | Some va \<Rightarrow> fold (knn_hit grp a) (search va k) pairs) as pairs)"
    if "set as \<subseteq> set grp" "pairs_within grp pairs" for as pairs
    using that by (induction as arbitrary: pairs) (auto intro: knn_hits_within split: option.split)
  moreover have "pairs_within grp []" by (simp add: pairs_within_def)
  ultimately show ?thesis unfolding buildKnnCandidatePairs_def by blast
qed

lemma candidatePairs_ok:
  assumes "distinct (map ar_id grp)" and "\<forall>a \<in> set grp. loaded_atom d a"
  shows "\<forall>p \<in> set (candidatePairs so env vecs grp). scan_pair_ok d p"
proof (cases "so_selection so")
  case Full
  then show ?thesis using buildFullPairs_ok assms by (auto simp: candidatePairs_def scan_pair_ok_def)
next
  case Knn
  have "pairs_within grp (candidatePairs so env vecs grp)" using Knn knn_within by (simp add: candidatePairs_def)
  then show ?thesis using assms(2) by (fastforce simp: pairs_within_def scan_pair_ok_def)
qed

section \<open>The whole pass\<close>

definition pass_db :: "scan_error + pass_state \<Rightarrow> consol_db" where
  "pass_db r = (case r of Inl e \<Rightarrow> snd e | Inr ps \<Rightarrow> sc_db (ps_scan ps))"

lemma pass_db_simps [simp]: "pass_db (Inl e) = snd e" "pass_db (Inr ps) = sc_db (ps_scan ps)"
  by (simp_all add: pass_db_def)

lemma scan_pairs_evolves:
  assumes "evolves (may_merge (autoAcceptThreshold (so_config so))) d (sc_db (ps_scan ps))"
    and "\<forall>p \<in> set prs. scan_pair_ok d p"
  shows "evolves (may_merge (autoAcceptThreshold (so_config so))) d (pass_db (scan_pairs so env vecs prs ps))"
  using assms
proof (induction prs arbitrary: ps)
  case (Cons pr prs)
  let ?M = "may_merge (autoAcceptThreshold (so_config so))"
  let ?r = "processPair (so_config so) (se_parse env) (so_useful so) vecs (so_started so) (se_pair env (ps_pairs ps)) pr (ps_scan ps)"
  have "scan_pair_ok (sc_db (ps_scan ps)) pr" using Cons.prems scan_pair_evolves by auto
  from processPair_evolves[OF evolves_good[OF Cons.prems(1)] this]
  have step: "evolves ?M d (result_db ?r)" using Cons.prems(1) evolves_trans by blast
  show ?case
  proof (cases ?r)
    case (Inl e)
    then show ?thesis using step by (cases e) simp
  next
    case (Inr sc)
    with step Cons.IH[of "ps\<lparr>ps_scan := sc, ps_pairs := ps_pairs ps + 1\<rparr>"] Cons.prems(2) show ?thesis
      by (simp add: Let_def)
  qed
qed simp

lemma scan_groups_evolves:
  assumes "evolves (may_merge (autoAcceptThreshold (so_config so))) d (sc_db (ps_scan ps))"
    and "\<forall>g \<in> set gs. distinct (map ar_id (snd g)) \<and> (\<forall>a \<in> set (snd g). loaded_atom d a)"
  shows "evolves (may_merge (autoAcceptThreshold (so_config so))) d (pass_db (scan_groups so env gi gs ps))"
  using assms
proof (induction gs arbitrary: gi ps)
  case (Cons g gs)
  let ?M = "may_merge (autoAcceptThreshold (so_config so))"
  let ?vecs = "group_vecs (se_vec env) (atom_db (sc_db (ps_scan ps))) (snd g)"
  let ?r = "scan_pairs so env ?vecs (candidatePairs so env ?vecs (snd g)) (ps\<lparr>ps_scanned := ps_scanned ps + 1\<rparr>)"
  have "evolves ?M d (pass_db ?r)"
    by (rule scan_pairs_evolves) (use Cons.prems candidatePairs_ok in auto)
  with Cons show ?case by (auto simp: Let_def split: sum.split)
qed simp

lemma evolves_cursor: "evolves P d d' \<Longrightarrow> evolves P d (d'\<lparr>group_cursor := c\<rparr>)"
  by (simp add: evolves_def good_def prop_inv_def same_pairs_def get_proposal_def)

lemma evolves_advance_cursor: "evolves P d d' \<Longrightarrow> evolves P d (advance_cursor ord stop c d')"
  by (simp add: advance_cursor_def setConsolidationCursor_def evolves_cursor split: option.split)

lemma scan_atoms_evolves:
  assumes good: "good d" and atoms: "\<forall>a \<in> set (fst loaded). loaded_atom d a" "distinct (map ar_id (fst loaded))"
  shows "case scan_atoms opts env loaded d of
      Inl (e, d') \<Rightarrow> evolves (may_merge (autoAcceptThreshold (config_of opts))) d d'
    | Inr (d', ps) \<Rightarrow> evolves (may_merge (autoAcceptThreshold (config_of opts))) d d'"
proof -
  define so where "so = options_of opts (useful_of (usefulnessScores (atom_db d) (map ar_id (fst loaded)) DEFAULT_IMPLICIT_POSITIVE_WEIGHT)) (pv_now env)"
  define ord where "ord = groupOrder (so_maxPairs so \<noteq> None) (cursorGroupKey d) (allGroups (fst loaded))"
  define ps where "ps = (fresh_pass d)\<lparr>ps_preempted := (snd loaded = Preempted), ps_budgetExceeded := (snd loaded = Budget_Exceeded)\<rparr>"
  have auto: "autoAcceptThreshold (so_config so) = autoAcceptThreshold (config_of opts)" by (simp add: so_def options_of_def)
  have "\<forall>g \<in> set ord. distinct (map ar_id (snd g)) \<and> (\<forall>a \<in> set (snd g). loaded_atom d a)"
  proof
    fix g
    assume "g \<in> set ord"
    then have "g \<in> set (group_atoms (fst loaded))" using groupOrder_subset by (fastforce simp: ord_def allGroups_def)
    then have "snd g = filter (\<lambda>a. group_key a = fst g) (fst loaded)"
      using group_atoms_grouped[of "fst loaded"] by (simp add: grouped_def)
    then show "distinct (map ar_id (snd g)) \<and> (\<forall>a \<in> set (snd g). loaded_atom d a)"
      using atoms by (simp add: distinct_map_filter)
  qed
  moreover have "evolves (may_merge (autoAcceptThreshold (so_config so))) d (sc_db (ps_scan ps))"
    using good by (simp add: ps_def fresh_pass_def fresh_scan_def evolves_refl)
  ultimately have "evolves (may_merge (autoAcceptThreshold (config_of opts))) d (pass_db (scan_groups so (pv_scan env) 0 ord ps))"
    using scan_groups_evolves[of so d ps ord] auto by simp
  moreover have "scan_atoms opts env loaded d =
      (if snd loaded \<noteq> Go_On then Inr (advance_cursor ord None (so_maxPairs so \<noteq> None) d, ps)
       else (case scan_groups so (pv_scan env) 0 ord ps of
               Inl e \<Rightarrow> Inl e
             | Inr ps1 \<Rightarrow> Inr (advance_cursor ord (ps_stop ps1) (so_maxPairs so \<noteq> None) (sc_db (ps_scan ps1)), ps1)))"
    unfolding scan_atoms_def Let_def so_def ord_def ps_def by (rule refl)
  ultimately show ?thesis
    by (auto simp: evolves_advance_cursor evolves_refl[OF good] split: sum.split prod.split)
qed

lemma runConsolidation_evolves:
  assumes "good d"
  shows "evolves (may_merge (autoAcceptThreshold (config_of opts))) d (snd (runConsolidation skip opts env d))"
proof -
  let ?M = "may_merge (autoAcceptThreshold (config_of opts))"
  define d1 where "d1 = (if autoMergeContained (config_of opts)
    then sw_db (sweepContainedProposals (pv_sweep_uuid env) (pv_now env) d) else d)"
  have free: "guard_free a b \<Longrightarrow> ?M a b" for a b by (simp add: may_merge_def)
  have ev1: "evolves ?M d d1" using sweep_evolves[OF assms free] by (simp add: d1_def evolves_refl[OF assms])
  note good1 = evolves_good[OF ev1]
  let ?n = "(case po_setupYield opts of None \<Rightarrow> DEFAULT_SETUP_YIELD_EVERY_N_ATOMS | Some n \<Rightarrow> n) - 1"
  let ?loaded = "loadAtomsSetupBounded (atom_db d1) ?n (pv_stop env)"
  note scan = scan_atoms_evolves[OF good1 loaded_atoms_ok(1)[OF good1, of ?n "pv_stop env"] loaded_atoms_ok(2)[OF good1, of ?n "pv_stop env"], of opts env]
  show ?thesis
  proof (cases "scan_atoms opts env ?loaded d1")
    case (Inl r)
    with scan ev1 evolves_trans show ?thesis
      by (cases r) (auto simp: runConsolidation_def Let_def d1_def[symmetric] evolves_refl[OF assms])
  next
    case (Inr r)
    obtain d2 ps where r: "r = (d2, ps)" by (cases r)
    have ev2: "evolves ?M d d2" using scan Inr r ev1 evolves_trans by auto
    have "evolves ?M d (dp_db (snd (runDupJudgeSweep c e pt mt d2)))" for c e pt mt
      by (rule evolves_trans[OF ev2 dup_sweep_evolves[OF evolves_good[OF ev2] free]])
    with Inr r ev2 show ?thesis
      by (auto simp: runConsolidation_def Let_def d1_def[symmetric] evolves_refl[OF assms] split: option.split)
  qed
qed

section \<open>Nothing is lost\<close>

text \<open>
  C11: A consolidation pass, also one that an error ends early, deletes no memory and changes no
  memory's type or text, keeps the store and the proposal queue well formed, and leaves every
  memory that was current with a current representative: following the superseding links from it
  one reaches a memory that is still current.
\<close>

theorem consolidation_loses_no_memory:
  assumes "good d" and "current (atom_db d) i"
  shows "(let s = atom_db (snd (runConsolidation skip opts env d))
    in good (snd (runConsolidation skip opts env d)) \<and>
       (\<forall>j. map_option typed (get_memory j s) = map_option typed (get_memory j (atom_db d))) \<and>
       (\<exists>j. (i, j) \<in> (superseded_in s)\<^sup>* \<and> current s j))"
proof -
  have inv: "store_inv (atom_db d)" using assms(1) by (simp add: good_def prop_inv_def)
  have ev: "evolves (may_merge (autoAcceptThreshold (config_of opts))) d (snd (runConsolidation skip opts env d))"
    by (rule runConsolidation_evolves[OF assms(1)])
  then have m: "merges (may_merge (autoAcceptThreshold (config_of opts))) (atom_db d) (atom_db (snd (runConsolidation skip opts env d)))"
    by (simp add: evolves_def)
  show ?thesis
    using evolves_good[OF ev] merges_typed[OF m] merges_keep_representative[OF m inv assms(2)] by (simp add: Let_def)
qed

text \<open>A configuration, an environment and a database to run on.\<close>

definition demo_opts :: pass_options where
  "demo_opts =
     \<lparr>po_merge = None, po_propose = None, po_maxGroupSize = None, po_autoMergeContained = None, po_autoAccept = None,
      po_contradiction = None, po_judgeProvider = False, po_dupJudge = None, po_dupProvider = False, po_selection = None,
      po_knnK = None, po_maxPairs = None, po_setupYield = None\<rparr>"

definition demo_pair_env :: pair_env where
  "demo_pair_env = \<lparr>pe_uuid = (\<lambda>k. if k = 0 then ''q'' else ''e''), pe_now = 90, pe_answer = Inl ''off''\<rparr>"

definition demo_env :: pass_env where
  "demo_env =
     \<lparr>pv_now = 80, pv_sweep_uuid = (\<lambda>_ _. ''e''), pv_stop = (\<lambda>_. Go_On),
      pv_scan = \<lparr>se_pair = (\<lambda>_. demo_pair_env), se_preempt = (\<lambda>_. False), se_abort = (\<lambda>_. Go_On),
        se_vec = (\<lambda>r. if r = 1 then [3, 4] else [12, 5]), se_search = (\<lambda>_ _. []), se_parse = (\<lambda>_. None)\<rparr>,
      pv_dup = \<lparr>de_clock = (\<lambda>_. 80), de_answer = (\<lambda>_. Inl ''off''), de_parse = (\<lambda>_. None), de_uuid = (\<lambda>_ _. ''e''),
        de_provider = (''mock'', ''m'')\<rparr>\<rparr>"

lemma demo_good: "good demo_consol"
  by (simp add: good_def demo_consol_inv) (simp add: demo_consol_def)

theorem consolidation_loses_no_memory_witness:
  "\<exists>j. (''a'', j) \<in> (superseded_in (atom_db (snd (runConsolidation False demo_opts demo_env demo_consol))))\<^sup>* \<and>
     current (atom_db (snd (runConsolidation False demo_opts demo_env demo_consol))) j"
proof -
  have "current (atom_db demo_consol) ''a''"
    by (simp add: current_def demo_consol_def get_memory_def demo_store_def)
  from consolidation_loses_no_memory[OF demo_good this, of False demo_opts demo_env] show ?thesis by (simp add: Let_def)
qed

section \<open>The guard\<close>

text \<open>
  C27: With auto-accept off, every link a pass adds - by the containment sweep, the containment and
  similarity tiers of the scan, or the duplicate judge - is between two memories the command-token
  guard does not block: if one of them is a command, their token sets are equal.
\<close>

theorem command_guard_is_respected:
  assumes "good d" and "autoAcceptThreshold (config_of opts) = None"
  shows "(let s = atom_db (snd (runConsolidation skip opts env d))
    in links_allowed guard_free s (superseded_in s - superseded_in (atom_db d)))"
proof -
  have inv: "store_inv (atom_db d)" using assms(1) by (simp add: good_def prop_inv_def)
  have "may_merge None = guard_free" by (simp add: may_merge_def fun_eq_iff)
  then have "merges guard_free (atom_db d) (atom_db (snd (runConsolidation skip opts env d)))"
    using runConsolidation_evolves[OF assms(1), of opts skip env] assms(2) by (simp add: evolves_def)
  from merges_links[OF this inv] show ?thesis by (simp add: Let_def)
qed

theorem command_guard_is_respected_witness:
  "links_allowed guard_free (atom_db (snd (runConsolidation False demo_opts demo_env demo_consol)))
     (superseded_in (atom_db (snd (runConsolidation False demo_opts demo_env demo_consol))) - superseded_in demo_store)"
proof -
  have "autoAcceptThreshold (config_of demo_opts) = None"
    by (simp add: config_of_def demo_opts_def resolveAutoAcceptThreshold_def Let_def)
  from command_guard_is_respected[OF demo_good this, of False demo_env] show ?thesis
    by (simp add: Let_def) (simp add: demo_consol_def)
qed

text \<open>
  The auto-accept tier is not guarded: two different commands whose similarity lies between the
  auto-accept threshold and the merge threshold are merged.
\<close>

definition command_atom :: "string \<Rightarrow> string \<Rightarrow> atom_row" where
  "command_atom i t = \<lparr>ar_id = i, ar_rowid = 1, ar_repo = None, ar_type = ''command'', ar_text = t,
     ar_importance = 1 / 2, ar_created = 5\<rparr>"

lemma cosine_in_the_band: "cosine [3, 4] [12, 5] = 56 / 65"
proof -
  have "sqrt 25 = 5" "sqrt 169 = 13" by (rule real_sqrt_unique; simp)+
  then show ?thesis by (simp add: cosine_def)
qed

lemma auto_accept_bypasses_the_guard:
  assumes "config_of (demo_opts\<lparr>po_autoAccept := Some (86 / 100)\<rparr>) = cfg"
    and "a = command_atom ''a'' ''git checkout A.ts''" and "b = command_atom ''b'' ''git checkout B.ts''"
  shows "commandGuardBlocksMerge (row_typed a) (row_typed b) \<and>
    (\<exists>sc. processPair cfg (\<lambda>_. None) (\<lambda>_. 1 / 2) [''a'' \<mapsto> [3, 4], ''b'' \<mapsto> [12, 5]] 80 demo_pair_env (a, b)
       (fresh_scan \<lparr>atom_db = demo_store, proposals = [], group_cursor = None\<rparr>) = Inr sc \<and>
     sc_autoAccepted sc = [(''a'', ''b'', 56 / 65, ''q'')] \<and> (''b'', ''a'') \<in> superseded_in (atom_db (sc_db sc)))"
proof -
  have g: "get_memory ''a'' demo_store = Some (demo_row ''a'' 1 10)" "get_memory ''b'' demo_store = Some (demo_row ''b'' 2 20)"
    by (simp_all add: get_memory_def demo_store_def)
  have blocked: "commandGuardBlocksMerge (row_typed a) (row_typed b)"
    by (simp add: assms row_typed_def command_atom_def guard_examples)
  have cont: "containment ''git checkout A.ts'' ''git checkout B.ts'' = None" by code_simp
  let ?d0 = "\<lparr>atom_db = demo_store, proposals = [], group_cursor = None\<rparr>"
  let ?p = "\<lparr>prop_id = ''q'', prop_kind = Merge, winner_id = ''a'', loser_id = ''b'', similarity = 56 / 65,
     prop_status = Prop_Pending, prop_created = 90, resolved_at = None, metadata = None\<rparr>"
  have ins: "insert_proposal ''q'' 90 Merge ''a'' ''b'' (56 / 65) None ?d0 = Inr (True, ?d0\<lparr>proposals := [?p]\<rparr>)"
    by (simp add: insert_proposal_def pair_pending_def get_proposal_def)
  have "mergeable ''a'' ''b'' demo_store" by (simp add: mergeable_iff g)
  then have "\<nexists>e. accept_proposal (\<lambda>k. pe_uuid demo_pair_env (k + 1)) 90 ''q''
      (Some \<lparr>sp_threshold = 86 / 100, sp_similarity = 56 / 65\<rparr>) (auto_options None) (?d0\<lparr>proposals := [?p]\<rparr>) = Inl e"
    using accept_InlD[of _ _ "''q''" _ _ "?d0\<lparr>proposals := [?p]\<rparr>" _ ?p] by (auto simp: get_proposal_def)
  then obtain d' where acc: "accept_proposal (\<lambda>k. pe_uuid demo_pair_env (k + 1)) 90 ''q''
      (Some \<lparr>sp_threshold = 86 / 100, sp_similarity = 56 / 65\<rparr>) (auto_options None) (?d0\<lparr>proposals := [?p]\<rparr>) = Inr d'"
    by (metis sum.exhaust)
  obtain p s where p: "get_proposal ''q'' (?d0\<lparr>proposals := [?p]\<rparr>) = Some p"
    and m: "mergeAsSupersede (\<lambda>k. pe_uuid demo_pair_env (k + 1)) 90 (winner_id p) (loser_id p)
      (Some \<lparr>sp_threshold = 86 / 100, sp_similarity = 56 / 65\<rparr>) Consolidation_Auto demo_store = Inr s"
    and d': "atom_db d' = s"
    by (rule accept_InrD[OF acc]) (auto simp: auto_options_def resolve_proposal_eq update_proposals_def)
  have p': "winner_id p = ''a''" "loser_id p = ''b''" using p by (auto simp: get_proposal_def)
  have "store_inv demo_store" by (rule demo_store_inv)
  from merge_superseded[OF this m] have sup: "(''b'', ''a'') \<in> superseded_in s" by (simp add: p')
  have "processPair cfg (\<lambda>_. None) (\<lambda>_. 1 / 2) [''a'' \<mapsto> [3, 4], ''b'' \<mapsto> [12, 5]] 80 demo_pair_env (a, b) (fresh_scan ?d0) =
      propose_tier (Some (86 / 100)) demo_pair_env a b (56 / 65) (fresh_scan ?d0)"
    using cont
    by (simp add: processPair_def assms(2,3) assms(1)[symmetric] config_of_def demo_opts_def resolveAutoAcceptThreshold_def
        resolveContradictionDetection_def contradiction_tier_def Let_def cosine_in_the_band command_atom_def fresh_scan_def
        pick_winner_def)
  moreover have "\<exists>sc. propose_tier (Some (86 / 100)) demo_pair_env a b (56 / 65) (fresh_scan ?d0) = Inr sc \<and>
      sc_autoAccepted sc = [(''a'', ''b'', 56 / 65, ''q'')] \<and> sc_db sc = d'"
    using ins acc by (simp add: propose_tier_def assms(2,3) command_atom_def fresh_scan_def demo_pair_env_def)
  ultimately show ?thesis using blocked sup d' by auto
qed

section \<open>Loading in pages\<close>

text \<open>
  When nothing interrupts it, loading the atoms page by page with a separate check of the
  embeddings returns exactly what one query would: the current memories that have a vector, in scan
  order; for every page size and every number of rows. An interrupted load returns a prefix of it.
\<close>

lemma paged_load_is_the_query:
  shows "(if list_all (\<lambda>k. stop k = Go_On) [0..<Suc (length (memories s))]
     then loadAtomsSetupBounded s n stop = (map atom_of (filter (embedded_in s) (scan_rows s)), Go_On)
     else (\<exists>j. fst (loadAtomsSetupBounded s n stop) = take j (map atom_of (filter (embedded_in s) (scan_rows s)))))"
proof -
  have never: "snd (load_pages s n stop k rest atoms) = Go_On"
    if "\<forall>j < Suc (k + length rest). stop j = Go_On" for k rest atoms
    using that
  proof (induction s n stop k rest atoms rule: load_pages.induct)
    case (1 s n stop k rest atoms)
    show ?case
    proof (cases "length (take (Suc n) rest) < Suc n")
      case True
      then have "length rest < Suc n" by (simp add: min_def split: if_splits)
      then show ?thesis by (subst load_pages.simps) (simp add: Let_def)
    next
      case False
      have "\<forall>j < Suc (Suc k + length (drop (Suc n) rest)). stop j = Go_On" using 1(2) False by auto
      from 1(1)[OF refl refl refl False _ this] 1(2) have
        "snd (load_pages s n stop (Suc k) (drop (Suc n) rest) (atoms @ filter (embedded_in s) (take (Suc n) rest))) = Go_On"
        by (simp add: page_embedded)
      then show ?thesis using 1(2) False by (subst load_pages.simps) (simp add: Let_def page_embedded)
    qed
  qed
  obtain j where j: "fst (load_pages s n stop 0 (scan_rows s) []) = filter (embedded_in s) (take j (scan_rows s))"
    "snd (load_pages s n stop 0 (scan_rows s) []) = Go_On \<Longrightarrow> take j (scan_rows s) = scan_rows s"
    using load_pages_prefix[of s n stop 0 "scan_rows s" "[]"] by auto
  have len: "length (scan_rows s) \<le> length (memories s)"
    by (metis (no_types) scan_rows_def size_mset mset_sort_by length_filter_le)
  obtain i where i: "filter (embedded_in s) (take j (scan_rows s)) = take i (filter (embedded_in s) (scan_rows s))"
    by (metis append_eq_conv_conj append_take_drop_id filter_append)
  have "loadAtomsSetupBounded s n stop = (map atom_of (fst (load_pages s n stop 0 (scan_rows s) [])), snd (load_pages s n stop 0 (scan_rows s) []))"
    by (simp add: loadAtomsSetupBounded_def split: prod.split)
  then have eq: "fst (loadAtomsSetupBounded s n stop) = map atom_of (fst (load_pages s n stop 0 (scan_rows s) []))"
    "snd (loadAtomsSetupBounded s n stop) = snd (load_pages s n stop 0 (scan_rows s) [])" by simp_all
  show ?thesis
  proof (cases "list_all (\<lambda>k. stop k = Go_On) [0..<Suc (length (memories s))]")
    case True
    then have "\<forall>j \<in> set [0..<Suc (length (memories s))]. stop j = Go_On" by (simp only: list_all_iff)
    then have "\<forall>j < Suc (0 + length (scan_rows s)). stop j = Go_On" using len by (auto simp del: upt_Suc)
    from never[OF this] have "snd (load_pages s n stop 0 (scan_rows s) []) = Go_On" .
    with j eq True show ?thesis by (simp add: prod_eq_iff)
  next
    case False
    have "fst (loadAtomsSetupBounded s n stop) = take i (map atom_of (filter (embedded_in s) (scan_rows s)))"
      using eq(1) j(1) i by (simp add: take_map)
    then show ?thesis unfolding if_not_P[OF False] by blast
  qed
qed

lemma paged_load_is_the_query_witness:
  "fst (loadAtomsSetupBounded demo_store 0 (\<lambda>_. Go_On)) = map atom_of (filter (embedded_in demo_store) (scan_rows demo_store))"
  using paged_load_is_the_query[of "\<lambda>_. Go_On" demo_store 0] by (simp add: list_all_iff)

section \<open>Candidate pairs\<close>

definition unordered :: "atom_row \<times> atom_row \<Rightarrow> string set" where
  "unordered p = {ar_id (fst p), ar_id (snd p)}"

lemma full_pairs_unordered:
  "distinct (map ar_id grp) \<Longrightarrow>
   unordered ` set (buildFullPairs grp) = {{i, j} |i j. i \<in> ar_id ` set grp \<and> j \<in> ar_id ` set grp \<and> i \<noteq> j}"
proof (induction grp)
  case (Cons a grp)
  have "unordered ` set (buildFullPairs (a # grp)) = (\<lambda>b. {ar_id a, ar_id b}) ` set grp \<union> unordered ` set (buildFullPairs grp)"
    by (auto simp: unordered_def image_image image_Un)
  also have "\<dots> = (\<lambda>b. {ar_id a, ar_id b}) ` set grp \<union> {{i, j} |i j. i \<in> ar_id ` set grp \<and> j \<in> ar_id ` set grp \<and> i \<noteq> j}"
    using Cons by simp
  also have "\<dots> = {{i, j} |i j. i \<in> ar_id ` set (a # grp) \<and> j \<in> ar_id ` set (a # grp) \<and> i \<noteq> j}"
    using Cons.prems by (auto simp: image_iff doubleton_eq_iff)
  finally show ?case .
qed simp

lemma knn_hit_keeps: "set pairs \<subseteq> set (knn_hit grp a hit pairs)"
  by (auto simp: knn_hit_def split: option.split)

lemma knn_hits_keep: "set pairs \<subseteq> set (fold (knn_hit grp a) hits pairs)"
proof (induction hits arbitrary: pairs)
  case (Cons hit hits)
  then show ?case using knn_hit_keeps by fastforce
qed simp

lemma knn_hit_adds:
  assumes "b \<in> set grp" and "ar_id b \<noteq> ar_id a"
  shows "{ar_id a, ar_id b} \<in> unordered ` set (knn_hit grp a (ar_id b) pairs)"
proof -
  have "get_row ar_id (ar_id b) (rev grp) \<noteq> None" using assms(1) by (simp add: get_row_None_iff)
  then obtain c where c: "get_row ar_id (ar_id b) (rev grp) = Some c" by blast
  then have id: "ar_id c = ar_id b" by (auto dest: get_row_SomeD)
  have u: "unordered (ordered_pair a c) = {ar_id a, ar_id b}" by (auto simp: unordered_def ordered_pair_def id)
  show ?thesis
  proof (cases "ids_of (ordered_pair a c) \<in> ids_of ` set pairs")
    case True
    then obtain p where "p \<in> set pairs" "ids_of p = ids_of (ordered_pair a c)" by auto
    moreover from this(2) have "unordered p = unordered (ordered_pair a c)" by (auto simp: ids_of_def unordered_def)
    ultimately show ?thesis using assms c True u by (auto simp: knn_hit_def intro: rev_image_eqI)
  next
    case False
    then show ?thesis using assms c u by (auto simp: knn_hit_def intro: rev_image_eqI)
  qed
qed

lemma knn_hits_add:
  "b \<in> set grp \<Longrightarrow> ar_id b \<noteq> ar_id a \<Longrightarrow> ar_id b \<in> set hits \<Longrightarrow>
   {ar_id a, ar_id b} \<in> unordered ` set (fold (knn_hit grp a) hits pairs)"
proof (induction hits arbitrary: pairs)
  case (Cons hit hits)
  show ?case
  proof (cases "hit = ar_id b")
    case True
    then show ?thesis using knn_hit_adds[OF Cons.prems(1,2), of pairs] knn_hits_keep[of "knn_hit grp a hit pairs" grp a hits]
      by (auto simp: image_iff)
  next
    case False
    then show ?thesis using Cons by auto
  qed
qed simp


lemma knn_complete:
  assumes "a \<in> set as" and "b \<in> set grp" and "ar_id b \<noteq> ar_id a" and "vecs (ar_id a) = Some v" and "ar_id b \<in> set (search v k)"
  shows "{ar_id a, ar_id b} \<in> unordered ` set (fold (\<lambda>a pairs. case vecs (ar_id a) of None \<Rightarrow> pairs
      | Some va \<Rightarrow> fold (knn_hit grp a) (search va k) pairs) as pairs)"
proof -
  have keep: "set pairs \<subseteq> set (fold (\<lambda>a pairs. case vecs (ar_id a) of None \<Rightarrow> pairs
      | Some va \<Rightarrow> fold (knn_hit grp a) (search va k) pairs) as pairs)" for as pairs
  proof (induction as arbitrary: pairs)
    case (Cons x as)
    then show ?case using knn_hits_keep[of pairs grp x] by (fastforce split: option.split)
  qed simp
  from assms(1) obtain xs ys where as: "as = xs @ a # ys" by (meson split_list)
  have "{ar_id a, ar_id b} \<in> unordered ` set (fold (knn_hit grp a) (search v k) ps)" for ps
    by (rule knn_hits_add) (use assms in auto)
  then show ?thesis using keep by (simp add: as assms(4)) (meson image_mono subsetD)
qed

text \<open>
  The nearest-neighbour mode scans a part of the pairs of the full mode, and no unordered pair
  twice, whatever the index answers; when the index returns every atom of the group it scans exactly
  the pairs of the full mode.
\<close>

lemma knn_scans_part_of_the_full_pairs:
  fixes vecs :: "string \<Rightarrow> 'v option" and search :: "'v \<Rightarrow> nat \<Rightarrow> string list" and k :: nat and grp :: "atom_row list"
  assumes "distinct (map ar_id grp)"
  defines "knn \<equiv> buildKnnCandidatePairs grp vecs search k"
  shows "distinct (map unordered knn) \<and> unordered ` set knn \<subseteq> unordered ` set (buildFullPairs grp) \<and>
    (if list_all (\<lambda>a. case vecs (ar_id a) of None \<Rightarrow> False | Some v \<Rightarrow> set (map ar_id grp) \<subseteq> set (search v k)) grp
     then unordered ` set knn = unordered ` set (buildFullPairs grp) else True)"
proof -
  have within: "pairs_within grp knn" unfolding knn_def by (rule knn_within)
  have "inj_on unordered (set knn) \<and> distinct knn"
  proof
    show "distinct knn" using within by (simp add: pairs_within_def distinct_map)
    show "inj_on unordered (set knn)"
    proof (rule inj_onI)
      fix p q
      assume pq: "p \<in> set knn" "q \<in> set knn" "unordered p = unordered q"
      then have "ar_id (fst p) < ar_id (snd p)" "ar_id (fst q) < ar_id (snd q)" using within by (auto simp: pairs_within_def)
      with pq(3) have "ids_of p = ids_of q" by (auto simp: unordered_def ids_of_def doubleton_eq_iff)
      then show "p = q" using within pq(1,2) by (auto simp: pairs_within_def distinct_map dest: inj_onD)
    qed
  qed
  then have d: "distinct (map unordered knn)" by (simp add: distinct_map)
  have sub: "unordered ` set knn \<subseteq> unordered ` set (buildFullPairs grp)"
    unfolding full_pairs_unordered[OF assms(1)]
    using within by (fastforce simp: pairs_within_def unordered_def)
  have "unordered ` set (buildFullPairs grp) \<subseteq> unordered ` set knn"
    if "list_all (\<lambda>a. case vecs (ar_id a) of None \<Rightarrow> False | Some v \<Rightarrow> set (map ar_id grp) \<subseteq> set (search v k)) grp"
    unfolding full_pairs_unordered[OF assms(1)]
  proof clarify
    fix a b
    assume ab: "a \<in> set grp" "b \<in> set grp" "ar_id a \<noteq> ar_id b"
    have "case vecs (ar_id a) of None \<Rightarrow> False | Some v \<Rightarrow> set (map ar_id grp) \<subseteq> set (search v k)"
      using that ab(1) by (simp only: list_all_iff)
    then obtain v where v: "vecs (ar_id a) = Some v" "ar_id b \<in> set (search v k)"
      using ab(2) by (cases "vecs (ar_id a)") auto
    show "{ar_id a, ar_id b} \<in> unordered ` set knn"
      unfolding knn_def buildKnnCandidatePairs_def by (rule knn_complete) (rule ab(1,2) ab(3)[symmetric] v)+
  qed
  note eq = this
  show ?thesis
  proof (cases "list_all (\<lambda>a. case vecs (ar_id a) of None \<Rightarrow> False | Some v \<Rightarrow> set (map ar_id grp) \<subseteq> set (search v k)) grp")
    case True
    show ?thesis unfolding if_P[OF True] by (intro conjI d sub subset_antisym eq[OF True])
  next
    case False
    show ?thesis unfolding if_not_P[OF False] by (intro conjI d sub TrueI)
  qed
qed

lemma knn_scans_part_of_the_full_pairs_witness:
  "distinct (map unordered (buildKnnCandidatePairs (map atom_of (memories demo_store)) (\<lambda>_. Some ()) (\<lambda>_ _. [''b'', ''a'']) 2))"
proof -
  have "distinct (map ar_id (map atom_of (memories demo_store)))"
    by (simp add: demo_store_def atom_of_def)
  from knn_scans_part_of_the_full_pairs[OF this] show ?thesis by blast
qed

section \<open>Interrupted passes\<close>

text \<open>
  A run of passes over the same groups, each interrupted at a given position of its order: the
  groups reached, and the cursor kept between the passes.
\<close>

fun interrupted_passes :: "bool \<Rightarrow> group_entry list \<Rightarrow> nat list \<Rightarrow> consol_db \<Rightarrow> group_entry list \<times> consol_db" where
  "interrupted_passes c gs [] d = ([], d)"
| "interrupted_passes c gs (g # stops) d =
     (let ord = groupOrder c (cursorGroupKey d) gs;
          (vis, d') = interrupted_passes c gs stops (advance_cursor ord (Some g) c d)
      in (take (g + 1) ord @ vis, d'))"

definition entry_key :: "group_entry \<Rightarrow> string" where
  "entry_key g = key_string (fst g)"

lemma find_index_distinct:
  "distinct (map f xs) \<Longrightarrow> p < length xs \<Longrightarrow> find_index (\<lambda>x. f x = f (xs ! p)) xs = Some p"
proof (induction xs arbitrary: p)
  case (Cons x xs)
  then show ?case by (cases p) (auto simp: rev_image_eqI)
qed simp

text \<open>The cursor points at position \<open>p\<close> of the sorted groups.\<close>

definition cursor_at :: "bool \<Rightarrow> group_entry list \<Rightarrow> nat \<Rightarrow> consol_db \<Rightarrow> bool" where
  "cursor_at c gs p d \<longleftrightarrow> p < length gs \<and>
     (cursorGroupKey d = Some (entry_key (sort_by group_le gs ! p)) \<or> c \<and> p = 0 \<and> cursorGroupKey d = None)"

lemma length_sort_by [simp]: "length (sort_by le xs) = length xs"
  by (metis mset_sort_by size_mset)

lemma order_at:
  assumes "distinct (map entry_key gs)" and "cursor_at c gs p d"
  shows "groupOrder c (cursorGroupKey d) gs = rotate p (sort_by group_le gs)"
proof -
  let ?S = "sort_by group_le gs"
  have p: "p < length ?S" using assms(2) by (simp add: cursor_at_def)
  have "find_index (\<lambda>g. entry_key g = entry_key (?S ! p)) ?S = Some p"
    using assms(1) p by (intro find_index_distinct) simp_all
  moreover have "rotate p ?S = drop p ?S @ take p ?S" using p by (simp add: rotate_drop_take)
  ultimately show ?thesis using assms(2)
    by (auto simp: cursor_at_def groupOrder_def rotate_to_def entry_key_def)
qed

lemma cursor_advances:
  assumes "distinct (map entry_key gs)" and "cursor_at c gs p d" and "g + 1 < length gs"
  shows "cursor_at c gs ((p + g + 1) mod length gs) (advance_cursor (groupOrder c (cursorGroupKey d) gs) (Some g) c d)"
proof -
  let ?S = "sort_by group_le gs"
  have "rotate p ?S ! (g + 1) = ?S ! ((p + (g + 1)) mod length ?S)" using assms(3) by (intro nth_rotate) simp
  moreover have "0 < length gs" using assms(3) by linarith
  ultimately show ?thesis using assms(3) unfolding order_at[OF assms(1,2)]
    by (simp add: cursor_at_def advance_cursor_def setConsolidationCursor_def cursorGroupKey_def
        getConsolidationCursor_def entry_key_def add.assoc)
qed

lemma passes_reach:
  assumes "distinct (map entry_key gs)" and "cursor_at c gs p d" and "i < length stops"
  shows "sort_by group_le gs ! ((p + i) mod length gs) \<in> set (fst (interrupted_passes c gs stops d))"
  using assms(2,3)
proof (induction stops arbitrary: p d i)
  case (Cons g stops)
  let ?S = "sort_by group_le gs" and ?n = "length gs"
  let ?ord = "groupOrder c (cursorGroupKey d) gs"
  have n: "0 < ?n" using Cons.prems(1) by (auto simp: cursor_at_def)
  note ord = order_at[OF assms(1) Cons.prems(1)]
  have vis: "set (take (g + 1) ?ord) \<subseteq> set (fst (interrupted_passes c gs (g # stops) d))"
    "set (fst (interrupted_passes c gs stops (advance_cursor ?ord (Some g) c d))) \<subseteq> set (fst (interrupted_passes c gs (g # stops) d))"
    by (auto simp: Let_def split: prod.split)
  show ?case
  proof (cases "i mod ?n < g + 1")
    case True
    have "?ord ! (i mod ?n) = ?S ! ((p + i mod ?n) mod ?n)" using n by (simp add: ord nth_rotate)
    then have "?ord ! (i mod ?n) = ?S ! ((p + i) mod ?n)" by (simp add: mod_simps)
    moreover have "?ord ! (i mod ?n) \<in> set (take (g + 1) ?ord)"
      using True n by (auto simp: in_set_conv_nth ord intro!: exI[of _ "i mod ?n"])
    ultimately show ?thesis using vis(1) by auto
  next
    case False
    then have g: "g + 1 < ?n" "g + 1 \<le> i" using n by (metis linorder_not_less mod_less_divisor le_less_trans, metis leI mod_less_eq_dividend order_trans)
    have at: "cursor_at c gs ((p + g + 1) mod ?n) (advance_cursor ?ord (Some g) c d)"
      by (rule cursor_advances[OF assms(1) Cons.prems(1) g(1)])
    have "i - (g + 1) < length stops" using Cons.prems(2) g(2) by simp
    from Cons.IH[OF at this]
    have "?S ! (((p + g + 1) mod ?n + (i - (g + 1))) mod ?n) \<in> set (fst (interrupted_passes c gs stops (advance_cursor ?ord (Some g) c d)))" .
    moreover have "((p + g + 1) mod ?n + (i - (g + 1))) mod ?n = (p + i) mod ?n"
      unfolding mod_add_left_eq using g(2) by simp
    ultimately show ?thesis using vis(2) by auto
  qed
qed simp


definition demo_groups :: "group_entry list" where
  "demo_groups = [((''r'', ''fact''), [command_atom ''a'' ''x'', command_atom ''b'' ''y'']),
                  ((''r'', ''rule''), [command_atom ''c'' ''z'', command_atom ''d'' ''w''])]"


text \<open>
  Two ways in which the rotation loses ground. An interruption while the atoms are still being loaded
  counts as a completed sweep: the cursor is cleared. And a group whose embedding map is aborted, or
  whose pairs are preempted, is passed over: the next pass resumes after it.
\<close>

lemma interrupted_load_clears_the_cursor:
  assumes "snd loaded \<noteq> Go_On" and "cursorGroupKey d = Some k"
  shows "\<exists>d' ps. scan_atoms opts env loaded d = Inr (d', ps) \<and> cursorGroupKey d' = None"
  using assms
  by (simp add: scan_atoms_def Let_def advance_cursor_def setConsolidationCursor_def cursorGroupKey_def getConsolidationCursor_def)

lemma aborted_group_is_passed_over:
  assumes "se_abort env 0 = Budget_Exceeded" and "so_selection so = Knn"
  shows "\<exists>ps'. scan_groups so env 0 (g # h # gs) ps = Inr ps' \<and> sc_db (ps_scan ps') = sc_db (ps_scan ps) \<and>
    cursorGroupKey (advance_cursor (g # h # gs) (ps_stop ps') c (sc_db (ps_scan ps'))) = Some (entry_key h)"
  using assms
  by (simp add: advance_cursor_def setConsolidationCursor_def cursorGroupKey_def getConsolidationCursor_def entry_key_def)

section \<open>The duplicate judge\<close>

definition resolved_ids :: "dup_state \<Rightarrow> string set" where
  "resolved_ids dp = fst ` set (dp_resolved dp)"

definition confident :: "dup_judge_config \<Rightarrow> string \<times> dup_label \<times> real \<times> dup_action \<Rightarrow> bool" where
  "confident cfg = (\<lambda>(i, lbl, conf, act). dj_minConfidence cfg \<le> conf \<and> lbl \<noteq> Unclear_Leave_Pending \<and>
     (act = Merged_By_Judge) = (lbl = Same_Fact_Merge))"

definition status_of :: "consol_db \<Rightarrow> string \<Rightarrow> proposal_status option" where
  "status_of d i = map_option prop_status (get_proposal i d)"

definition cautious :: "dup_judge_config \<Rightarrow> consol_db \<Rightarrow> dup_state \<Rightarrow> bool" where
  "cautious cfg d dp \<longleftrightarrow> list_all (confident cfg) (dp_resolved dp) \<and>
     (\<forall>i. i \<notin> resolved_ids dp \<longrightarrow> status_of (dp_db dp) i = status_of d i) \<and>
     (dj_mode cfg = Dry_Run \<longrightarrow> dp_db dp = d)"

lemma get_resolve_other: "i \<noteq> j \<Longrightarrow> get_proposal i (resolve_proposal now j st meta d) = get_proposal i d"
  by (cases "get_proposal i d") (auto simp: get_resolve dest: get_proposal_id)

lemma status_accept:
  "accept_proposal u now j pr opts d = Inr d' \<Longrightarrow> i \<noteq> j \<Longrightarrow> status_of d' i = status_of d i"
  by (auto simp: status_of_def get_resolve_other elim!: accept_InrD)

lemma status_reject:
  "reject_proposal now j meta d = Inr d' \<Longrightarrow> i \<noteq> j \<Longrightarrow> status_of d' i = status_of d i"
  by (auto simp: status_of_def get_resolve_other elim!: reject_InrD)

lemma status_annotate: "status_of (annotateCommandGuardBlocked j site d) i = status_of d i"
  by (auto simp: status_of_def annotateCommandGuardBlocked_def get_update_proposals option.map_comp comp_def intro!: option.map_cong)

lemma dup_row_cautious:
  assumes "cautious cfg d dp"
  shows "cautious cfg d (dup_row cfg pv u now v r dp)"
proof -
  obtain p w l where r: "r = (p, w, l)" by (cases r)
  show ?thesis
  proof (cases v)
    case None
    with assms show ?thesis by (simp add: dup_row_def)
  next
    case (Some y)
    obtain lbl conf where v: "v = Some (lbl, conf)" using Some by (cases y) simp
    consider (dry) "dj_mode cfg = Dry_Run" | (blocked) "dj_mode cfg \<noteq> Dry_Run" "commandGuardBlocksMerge (typed w) (typed l)"
      | (unsure) "dj_mode cfg \<noteq> Dry_Run" "\<not> commandGuardBlocksMerge (typed w) (typed l)"
          "lbl = Unclear_Leave_Pending \<or> conf < dj_minConfidence cfg"
      | (sure) "dj_mode cfg \<noteq> Dry_Run" "\<not> commandGuardBlocksMerge (typed w) (typed l)"
          "lbl \<noteq> Unclear_Leave_Pending" "dj_minConfidence cfg \<le> conf" by linarith
    then show ?thesis
    proof cases
      case dry
      with assms show ?thesis by (simp add: dup_row_def v r cautious_def resolved_ids_def)
    next
      case blocked
      with assms show ?thesis by (simp add: dup_row_def v r cautious_def resolved_ids_def status_annotate)
    next
      case unsure
      with assms show ?thesis by (simp add: dup_row_def v r)
    next
      case sure
      with assms show ?thesis
        by (auto simp: dup_row_def v r cautious_def resolved_ids_def confident_def Let_def
            dest: status_accept status_reject split: sum.split)
    qed
  qed
qed

lemma dup_rows_cautious: "cautious cfg d dp \<Longrightarrow> cautious cfg d (dup_rows cfg pv u now vs k rs dp)"
  by (induction rs arbitrary: k dp) (auto intro: dup_row_cautious)

lemma shouldStop_calls: "calls_executed (snd (shouldStop caps now c)) = calls_executed c"
  by (simp add: shouldStop_def logTripOnce_def)

lemma dup_batches_cautious:
  assumes "cautious cfg d dp" and "calls_executed cap = 0 \<or> real (calls_executed cap) < dj_maxPerRun cfg + 1"
    and "dup_batches cfg env n k bs cap dp = (cap', dp')"
  shows "cautious cfg d dp' \<and> (calls_executed cap' = 0 \<or> real (calls_executed cap') < dj_maxPerRun cfg + 1)"
  using assms
proof (induction bs arbitrary: n k cap dp)
  case (Cons b bs)
  let ?caps = "\<lparr>maxPerRun = dj_maxPerRun cfg, maxWallClockMs = dj_maxWallClockMs cfg\<rparr>"
  let ?r = "shouldStop ?caps (de_clock env n) cap"
  let ?dp = "dup_rows cfg (de_provider env) (de_uuid env) (de_clock env n) (dupJudgeBatch (de_parse env) (de_answer env n) b) k b dp"
  show ?case
  proof (cases "fst ?r")
    case True
    then have "cap' = snd ?r" "dp' = dp" using Cons.prems(3) by (auto simp: Let_def split: prod.splits)
    then show ?thesis using Cons.prems(1,2) shouldStop_calls by simp
  next
    case False
    then have lt: "real (calls_executed cap) < dj_maxPerRun cfg" by (auto simp: shouldStop_def split: if_splits)
    have "dup_batches cfg env (Suc n) (k + length b) bs (recordCall (snd ?r)) ?dp = (cap', dp')"
      using Cons.prems(3) False by (auto simp: Let_def split: prod.splits)
    moreover have "real (calls_executed (recordCall (snd ?r))) < dj_maxPerRun cfg + 1"
      using lt by (simp add: recordCall_def shouldStop_calls)
    ultimately show ?thesis using Cons.IH dup_rows_cautious[OF Cons.prems(1)] by blast
  qed
qed simp

text \<open>
  The duplicate judge acts only on what it is sure of. In a dry run it changes nothing. Otherwise
  every proposal it resolves had a verdict of at least the configured confidence that was not
  "unclear", merges are exactly the "same fact" verdicts, every other proposal keeps its status -
  with no verdict, a failed call or a blocked command as much as after a cap has tripped - and the
  number of model calls stays below the cap plus one.
\<close>

lemma dup_judge_is_cautious:
  assumes "runDupJudgeSweep cfg env proposeT mergeT d = (cap, dp)"
  shows "list_all (confident cfg) (dp_resolved dp) \<and>
    (\<forall>i. i \<notin> resolved_ids dp \<longrightarrow> status_of (dp_db dp) i = status_of d i) \<and>
    (dj_mode cfg = Dry_Run \<longrightarrow> dp_db dp = d) \<and>
    (calls_executed cap = 0 \<or> real (calls_executed cap) < dj_maxPerRun cfg + 1)"
proof -
  let ?dp = "\<lparr>dp_db = d, dp_previewed = [], dp_resolved = [], dp_blocked = 0\<rparr>"
  let ?rows = "dup_candidates proposeT mergeT d"
  have start: "cautious cfg d ?dp" by (simp add: cautious_def resolved_ids_def)
  show ?thesis
  proof (cases "?rows = []")
    case True
    with assms start show ?thesis by (auto simp: runDupJudgeSweep_def Let_def fresh_cap_def cautious_def)
  next
    case False
    then have "dup_batches cfg env 0 0 (chunks (nat \<lfloor>dj_batchSize cfg\<rfloor> - 1) ?rows) (fresh_cap (de_clock env 0)) ?dp = (cap, dp)"
      using assms by (simp add: runDupJudgeSweep_def Let_def)
    from dup_batches_cautious[OF start _ this] show ?thesis by (simp add: fresh_cap_def cautious_def)
  qed
qed

definition demo_dup_config :: dup_judge_config where
  "demo_dup_config = \<lparr>dj_mode = Dry_Run, dj_minConfidence = 8 / 10, dj_batchSize = 10, dj_maxPerRun = 5, dj_maxWallClockMs = 60000\<rparr>"

lemma dup_judge_is_cautious_witness:
  "dp_db (snd (runDupJudgeSweep demo_dup_config (pv_dup demo_env) (85 / 100) (92 / 100) demo_consol)) = demo_consol"
proof -
  have "dj_mode demo_dup_config = Dry_Run" by (simp add: demo_dup_config_def)
  then show ?thesis
    using dup_judge_is_cautious[of demo_dup_config "pv_dup demo_env" "85 / 100" "92 / 100" demo_consol]
    by (cases "runDupJudgeSweep demo_dup_config (pv_dup demo_env) (85 / 100) (92 / 100) demo_consol") simp
qed

end
