(* ===== verification/Envelope.thy ===== *)
theory Envelope
  imports Prelude
begin

text \<open>
  What a client sends: the two ingest envelopes and their zod schemas
  (\<open>src/src/server/routes/ingest.ts\<close>), as values of the schema language the code uses, and the
  redaction along the schema that an envelope passes before it is written to the spool
  (\<open>src/src/ingest/spool-schema-guard.ts\<close>). JSON values are a datatype; an object is the list of its
  entries in insertion order. The redaction of one text is a parameter here.
\<close>

section \<open>JSON values\<close>

datatype jval =
    V_Null
  | V_Bool bool
  | V_Num real
  | V_Str string
  | V_Arr "jval list"
  | V_Obj "(string \<times> jval) list"

fun jget :: "string \<Rightarrow> jval \<Rightarrow> jval option" where
  "jget k (V_Obj kvs) = map_of kvs k"
| "jget k _ = None"

section \<open>The schema language\<close>

text \<open>
  The part of zod the two envelopes use. A string carries the predicate of its checks (minimum
  length, format), a number likewise, an array its bounds. A record passes over the key \<open>__proto__\<close>, as zod does.
\<close>

datatype schema =
    Z_String "string \<Rightarrow> bool"
  | Z_Number "real \<Rightarrow> bool"
  | Z_Boolean
  | Z_Enum "string list"
  | Z_Array nat "nat option" schema
  | Z_Object "(string \<times> schema) list"
  | Z_Record schema
  | Z_Optional schema
  | Z_Nullable schema
  | Z_Default schema jval

datatype seg = Key string | Idx nat

type_synonym issue = "seg list"

text \<open>All the issues of the parts, or all their values.\<close>

fun collect :: "(issue list + 'v) list \<Rightarrow> issue list + 'v list" where
  "collect [] = Inr []"
| "collect (r # rs) =
     (case (r, collect rs) of
        (Inr v, Inr vs) \<Rightarrow> Inr (v # vs)
      | (Inr v, Inl is) \<Rightarrow> Inl is
      | (Inl is, Inr vs) \<Rightarrow> Inl is
      | (Inl is, Inl js) \<Rightarrow> Inl (is @ js))"

fun map_ok :: "('v \<Rightarrow> 'w) \<Rightarrow> 'e + 'v \<Rightarrow> 'e + 'w" where
  "map_ok f (Inl e) = Inl e"
| "map_ok f (Inr v) = Inr (f v)"

fun below :: "seg \<Rightarrow> issue list + 'v \<Rightarrow> issue list + 'v" where
  "below sg (Inl is) = Inl (map ((#) sg) is)"
| "below sg (Inr v) = Inr v"

lemma field_size [termination_simp]:
  "(k, s) \<in> set sh \<Longrightarrow> size s < Suc (size_list (size_prod (\<lambda>_. 0) size) sh)"
  by (induction sh) auto

fun absent :: "schema \<Rightarrow> issue list + jval option" where
  "absent (Z_Optional s) = Inr None"
| "absent (Z_Default s d) = Inr (Some d)"
| "absent _ = Inl [[]]"

fun parse :: "schema \<Rightarrow> jval \<Rightarrow> issue list + jval" where
  "parse (Z_String P) (V_Str t) = (if P t then Inr (V_Str t) else Inl [[]])"
| "parse (Z_Number P) (V_Num x) = (if P x then Inr (V_Num x) else Inl [[]])"
| "parse Z_Boolean (V_Bool b) = Inr (V_Bool b)"
| "parse (Z_Enum names) (V_Str t) = (if t \<in> set names then Inr (V_Str t) else Inl [[]])"
| "parse (Z_Array mn mx s) (V_Arr vs) =
     (if length vs < mn \<or> (case mx of None \<Rightarrow> False | Some n \<Rightarrow> n < length vs) then Inl [[]]
      else map_ok V_Arr (collect (map (\<lambda>(i, v). below (Idx i) (parse s v)) (enumerate 0 vs))))"
| "parse (Z_Object sh) (V_Obj kvs) =
     map_ok (\<lambda>fields. V_Obj (concat fields))
       (collect (map (\<lambda>(k, s). below (Key k)
          (case map_of kvs k of
             Some v \<Rightarrow> map_ok (\<lambda>w. [(k, w)]) (parse s v)
           | None \<Rightarrow> map_ok (\<lambda>w. case w of None \<Rightarrow> [] | Some d \<Rightarrow> [(k, d)]) (absent s))) sh))"
| "parse (Z_Record s) (V_Obj kvs) =
     map_ok V_Obj (collect (map (\<lambda>(k, v). below (Key k) (map_ok (Pair k) (parse s v)))
       (filter (\<lambda>(k, _). k \<noteq> ''__proto__'') kvs)))"
| "parse (Z_Optional s) v = parse s v"
| "parse (Z_Nullable s) v = (if v = V_Null then Inr V_Null else parse s v)"
| "parse (Z_Default s d) v = parse s v"
| "parse _ _ = Inl [[]]"

section \<open>The envelopes\<close>

definition any_string :: schema where "any_string = Z_String (\<lambda>_. True)"

definition nonempty_string :: schema where "nonempty_string = Z_String (\<lambda>t. t \<noteq> [])"

definition unit_number :: schema where "unit_number = Z_Number (\<lambda>x. 0 \<le> x \<and> x \<le> 1)"

text \<open>\<open>int().nonnegative()\<close>: a safe integer.\<close>

definition count_number :: schema where
  "count_number = Z_Number (\<lambda>x. of_int \<lfloor>x\<rfloor> = x \<and> 0 \<le> x \<and> x \<le> 9007199254740991)"

definition is_digit :: "char \<Rightarrow> bool" where
  "is_digit c \<longleftrightarrow> CHR 0x30 \<le> c \<and> c \<le> CHR 0x39"

text \<open>\<open>(?:0|[1-9][0-9]*)\<close>, for the whole string.\<close>

definition plain_number :: "string \<Rightarrow> bool" where
  "plain_number t \<longleftrightarrow> t \<noteq> [] \<and> list_all is_digit t \<and> (hd t \<noteq> CHR 0x30 \<or> length t = 1)"

definition wire_version_ok :: "string \<Rightarrow> bool" where
  "wire_version_ok t \<longleftrightarrow>
     (case t of [] \<Rightarrow> False
      | c # cs \<Rightarrow> c = CHR ''v'' \<and>
          plain_number (takeWhile (\<lambda>d. d \<noteq> CHR ''.'') cs) \<and>
          (case dropWhile (\<lambda>d. d \<noteq> CHR ''.'') cs of [] \<Rightarrow> False | _ # ds \<Rightarrow> plain_number ds))"

definition TranscriptTurnSchema :: schema where
  "TranscriptTurnSchema = Z_Object
     [(''role'', Z_Enum [''user'', ''assistant'']), (''text'', any_string),
      (''ts'', Z_Optional any_string), (''speaker'', Z_Optional nonempty_string)]"

definition CanonicalEventItemSchema :: schema where
  "CanonicalEventItemSchema = Z_Object
     [(''type'', Z_Enum [''decision'', ''fact'', ''lesson'', ''command'', ''todo'', ''note'', ''event'']),
      (''text'', nonempty_string), (''importance'', Z_Optional unit_number),
      (''confidence'', Z_Optional unit_number), (''evidence'', Z_Optional any_string),
      (''occurred_at'', Z_Optional (Z_Number (\<lambda>_. True)))]"

definition proxy_usage_schema :: schema where
  "proxy_usage_schema = Z_Object
     [(''provider'', Z_Enum [''anthropic'', ''openai'']), (''model'', Z_Nullable any_string),
      (''input_tokens'', Z_Nullable count_number), (''output_tokens'', Z_Nullable count_number),
      (''total_tokens'', Z_Nullable count_number), (''cache_creation_input_tokens'', Z_Nullable count_number),
      (''cache_read_input_tokens'', Z_Nullable count_number), (''stop_reason'', Z_Nullable any_string),
      (''truncated'', Z_Boolean)]"

text \<open>\<open>isodate\<close> is zod's check of an ISO 8601 instant.\<close>

definition CanonicalIngestSchema :: "(string \<Rightarrow> bool) \<Rightarrow> (string \<times> schema) list" where
  "CanonicalIngestSchema isodate =
     [(''event'', Z_Enum [''pre_compact'', ''session_end'', ''subagent_stop'']),
      (''session_id'', any_string), (''project_id'', any_string),
      (''agent_type'', Z_Optional any_string), (''cwd'', Z_Optional any_string),
      (''captured_at'', Z_String isodate),
      (''kind'', Z_Default (Z_Optional (Z_Enum [''transcript'', ''events''])) (V_Str ''transcript'')),
      (''turns'', Z_Optional (Z_Array 1 None TranscriptTurnSchema)),
      (''events'', Z_Optional (Z_Array 1 (Some 500) CanonicalEventItemSchema)),
      (''tool'', Z_Optional any_string),
      (''capture_source'', Z_Optional (Z_Enum [''auto_capture'', ''hook_close'', ''proxy'', ''meeting_captions''])),
      (''platform'', Z_Optional any_string), (''meeting_id'', Z_Optional any_string),
      (''consent_disclosed'', Z_Optional Z_Boolean),
      (''extract_profile'', Z_Optional (Z_Enum [''engineering'', ''conversational''])),
      (''proxy_usage'', Z_Optional proxy_usage_schema),
      (''client_scrub_applied'', Z_Boolean), (''client_scrub_hits'', count_number),
      (''client_version'', any_string), (''client_scrub_version'', any_string),
      (''client_scrub_hits_by_label'', Z_Optional (Z_Record count_number)),
      (''wire_version'', Z_String wire_version_ok)]"

definition LegacyIngestSchema :: schema where
  "LegacyIngestSchema = Z_Object
     [(''session_id'', nonempty_string), (''source'', nonempty_string), (''content'', nonempty_string),
      (''repo'', Z_Optional (Z_Nullable any_string)), (''project'', Z_Optional (Z_Nullable any_string)),
      (''branch'', Z_Optional (Z_Nullable any_string)), (''agent'', Z_Optional (Z_Nullable any_string))]"

text \<open>An optional array that is missing or empty.\<close>

definition no_items :: "string \<Rightarrow> jval \<Rightarrow> bool" where
  "no_items k d \<longleftrightarrow> jget k d = None \<or> jget k d = Some (V_Arr [])"

definition superRefine :: "jval \<Rightarrow> issue list" where
  "superRefine d =
     (if jget ''kind'' d = Some (V_Str ''events'')
      then (if no_items ''events'' d then [[Key ''events'']] else [])
      else (if no_items ''turns'' d then [[Key ''turns'']] else [])) @
     (if jget ''capture_source'' d = Some (V_Str ''meeting_captions'') \<and>
         jget ''consent_disclosed'' d \<noteq> Some (V_Bool True)
      then [[Key ''consent_disclosed'']] else [])"

definition parse_canonical :: "(string \<Rightarrow> bool) \<Rightarrow> jval \<Rightarrow> issue list + jval" where
  "parse_canonical isodate v =
     (case parse (Z_Object (CanonicalIngestSchema isodate)) v of
        Inl is \<Rightarrow> Inl is
      | Inr d \<Rightarrow> if superRefine d = [] then Inr d else Inl (superRefine d))"

definition looksCanonical :: "jval \<Rightarrow> bool" where
  "looksCanonical body \<longleftrightarrow> jget ''wire_version'' body \<noteq> None"

definition parseIngestBody :: "(string \<Rightarrow> bool) \<Rightarrow> jval \<Rightarrow> issue list + jval" where
  "parseIngestBody isodate body =
     (if looksCanonical body then parse_canonical isodate body else parse LegacyIngestSchema body)"

definition isCanonical :: "jval \<Rightarrow> bool" where
  "isCanonical d \<longleftrightarrow> jget ''wire_version'' d \<noteq> None"

section \<open>The shape of the schema\<close>

fun unwrapToBase :: "schema \<Rightarrow> schema" where
  "unwrapToBase (Z_Optional s) = unwrapToBase s"
| "unwrapToBase (Z_Nullable s) = unwrapToBase s"
| "unwrapToBase (Z_Default s d) = unwrapToBase s"
| "unwrapToBase s = s"

record resolved_field =
  childShape :: "(string \<times> schema) list option"
  isArray :: bool

fun object_shape :: "schema \<Rightarrow> (string \<times> schema) list option" where
  "object_shape (Z_Object sh) = Some sh"
| "object_shape _ = None"

definition resolveField :: "schema \<Rightarrow> resolved_field" where
  "resolveField s =
     (case unwrapToBase s of
        Z_Object sh \<Rightarrow> \<lparr>childShape = Some sh, isArray = False\<rparr>
      | Z_Array _ _ e \<Rightarrow> \<lparr>childShape = object_shape (unwrapToBase e), isArray = True\<rparr>
      | _ \<Rightarrow> \<lparr>childShape = None, isArray = False\<rparr>)"

lemma unwrap_size: "size (unwrapToBase s) \<le> size s"
  by (induction s rule: unwrapToBase.induct) auto

definition shape_size :: "(string \<times> schema) list \<Rightarrow> nat" where
  "shape_size sh = size_list (size_prod (\<lambda>_. 0) size) sh"

lemma object_shape_size: "object_shape s = Some sh \<Longrightarrow> shape_size sh < size s"
  by (induction s rule: object_shape.induct) (auto simp: shape_size_def)

lemma child_size:
  assumes "childShape (resolveField s) = Some sh"
  shows "shape_size sh < size s"
proof (cases "unwrapToBase s")
  case (Z_Object sh')
  with assms have "sh' = sh" by (simp add: resolveField_def)
  with Z_Object unwrap_size[of s] show ?thesis by (simp add: shape_size_def)
next
  case (Z_Array a b e)
  with assms have "object_shape (unwrapToBase e) = Some sh" by (simp add: resolveField_def)
  from object_shape_size[OF this] unwrap_size[of e] unwrap_size[of s] Z_Array show ?thesis by simp
qed (use assms in \<open>simp_all add: resolveField_def\<close>)

function collectLeafPaths :: "(string \<times> schema) list \<Rightarrow> string \<Rightarrow> string list" where
  "collectLeafPaths sh pre =
     concat (map (\<lambda>(key, s).
       (let p = (if pre = [] then key else pre @ ''.'' @ key); r = resolveField s
        in if isArray r
           then (case childShape r of
                   Some ch \<Rightarrow> collectLeafPaths ch (p @ ''[]'')
                 | None \<Rightarrow> [p @ ''[]''])
           else (case childShape r of
                   Some ch \<Rightarrow> collectLeafPaths ch p
                 | None \<Rightarrow> [p]))) sh)"
  by pat_completeness auto
termination
proof (relation "measure (\<lambda>(sh, _). shape_size sh)", goal_cases)
  case 1
  then show ?case by simp
next
  case (2 sh pre x key s p r ch)
  from 2(1,2) have "size s \<le> shape_size sh"
    using field_size[of key s sh] by (auto simp: shape_size_def)
  with child_size[of s ch] 2 show ?case by simp
next
  case (3 sh pre x key s p r ch)
  from 3(1,2) have "size s \<le> shape_size sh"
    using field_size[of key s sh] by (auto simp: shape_size_def)
  with child_size[of s ch] 3 show ?case by simp
qed

definition CONTENT_FIELD_PATHS :: "string list" where
  "CONTENT_FIELD_PATHS = [''turns[].text'', ''events[].text'', ''events[].evidence'']"

definition KNOWN_STRUCTURAL_FIELD_PATHS :: "string list" where
  "KNOWN_STRUCTURAL_FIELD_PATHS =
     [''event'', ''session_id'', ''project_id'', ''agent_type'', ''cwd'', ''captured_at'', ''kind'', ''tool'',
      ''capture_source'', ''extract_profile'', ''client_scrub_applied'', ''client_scrub_hits'',
      ''client_version'', ''client_scrub_version'', ''client_scrub_hits_by_label'', ''wire_version'',
      ''turns[].role'', ''turns[].ts'', ''events[].type'', ''events[].importance'', ''events[].confidence'',
      ''events[].occurred_at'', ''proxy_usage.provider'', ''proxy_usage.model'', ''proxy_usage.input_tokens'',
      ''proxy_usage.output_tokens'', ''proxy_usage.total_tokens'',
      ''proxy_usage.cache_creation_input_tokens'', ''proxy_usage.cache_read_input_tokens'',
      ''proxy_usage.stop_reason'', ''proxy_usage.truncated'', ''platform'', ''meeting_id'',
      ''consent_disclosed'', ''turns[].speaker'']"

section \<open>Redaction along the schema\<close>

text \<open>
  \<open>red\<close> is the redaction of one text. The shape is a plain object, so reading a key of it also finds
  the names every object inherits: \<open>inherited\<close> (\<open>constructor\<close>, \<open>toString\<close>, ...), which resolve
  to a field without children. Assigning to \<open>__proto__\<close> sets no key.
\<close>

definition shape_field :: "(string \<Rightarrow> bool) \<Rightarrow> (string \<times> schema) list option \<Rightarrow> string \<Rightarrow> resolved_field option" where
  "shape_field inherited shape key =
     (case shape of
        None \<Rightarrow> None
      | Some sh \<Rightarrow>
          (case map_of sh key of
             Some s \<Rightarrow> Some (resolveField s)
           | None \<Rightarrow> if inherited key then Some \<lparr>childShape = None, isArray = False\<rparr> else None))"

definition item_field :: "resolved_field option \<Rightarrow> resolved_field option" where
  "item_field known =
     (case known of
        None \<Rightarrow> None
      | Some r \<Rightarrow>
          (if isArray r \<and> childShape r \<noteq> None then Some \<lparr>childShape = childShape r, isArray = False\<rparr> else None))"

definition known_shape :: "resolved_field option \<Rightarrow> (string \<times> schema) list option" where
  "known_shape known = (case known of None \<Rightarrow> None | Some r \<Rightarrow> childShape r)"

definition child_path :: "string \<Rightarrow> string \<Rightarrow> string" where
  "child_path path key = (if path = [] then key else path @ ''.'' @ key)"

lemma entry_size [termination_simp]:
  "(k, v) \<in> set kvs \<Longrightarrow> size v < Suc (size_list (size_prod (\<lambda>_. 0) size) (kvs :: (string \<times> jval) list))"
  by (induction kvs) auto

fun walk ::
  "(string \<Rightarrow> bool) \<Rightarrow> (string \<Rightarrow> string) \<Rightarrow> resolved_field option \<Rightarrow> string \<Rightarrow> jval \<Rightarrow> jval" where
  "walk inherited red known path (V_Str t) =
     (if path \<in> set CONTENT_FIELD_PATHS then V_Str (red t)
      else if known \<noteq> None then V_Str t
      else V_Str (red t))"
| "walk inherited red known path (V_Arr vs) =
     V_Arr (map (walk inherited red (item_field known) (path @ ''[]'')) vs)"
| "walk inherited red known path (V_Obj kvs) =
     V_Obj (map (\<lambda>(k, v). (k, walk inherited red (shape_field inherited (known_shape known) k) (child_path path k) v))
              (filter (\<lambda>(k, _). k \<noteq> ''__proto__'') kvs))"
| "walk inherited red known path v = v"

definition envelope_field :: "(string \<Rightarrow> bool) \<Rightarrow> resolved_field" where
  "envelope_field isodate = \<lparr>childShape = Some (CanonicalIngestSchema isodate), isArray = False\<rparr>"

definition redactSpooledEnvelope ::
  "(string \<Rightarrow> bool) \<Rightarrow> (string \<Rightarrow> bool) \<Rightarrow> (string \<Rightarrow> string) \<Rightarrow> jval \<Rightarrow> jval" where
  "redactSpooledEnvelope inherited isodate red v = walk inherited red (Some (envelope_field isodate)) [] v"

text \<open>The walk of quarantined files, with its bound on the nesting.\<close>

definition MAX_WALK_DEPTH :: nat where "MAX_WALK_DEPTH = 200"

fun deep :: "nat \<Rightarrow> (string \<Rightarrow> string) \<Rightarrow> jval \<Rightarrow> jval option" where
  "deep depth red (V_Str t) = (if MAX_WALK_DEPTH < depth then None else Some (V_Str (red t)))"
| "deep depth red (V_Arr vs) =
     (if MAX_WALK_DEPTH < depth then None
      else map_option V_Arr (those (map (deep (Suc depth) red) vs)))"
| "deep depth red (V_Obj kvs) =
     (if MAX_WALK_DEPTH < depth then None
      else map_option V_Obj (those (map (\<lambda>(k, v). map_option (Pair k) (deep (Suc depth) red v))
             (filter (\<lambda>(k, _). k \<noteq> ''__proto__'') kvs))))"
| "deep depth red v = (if MAX_WALK_DEPTH < depth then None else Some v)"

definition redactValuesDeep :: "(string \<Rightarrow> string) \<Rightarrow> jval \<Rightarrow> jval option" where
  "redactValuesDeep red v = deep 0 red v"

lemma paths_classified:
  "set (collectLeafPaths (CanonicalIngestSchema isodate) []) = set CONTENT_FIELD_PATHS \<union> set KNOWN_STRUCTURAL_FIELD_PATHS"
  by (simp add: CanonicalIngestSchema_def TranscriptTurnSchema_def CanonicalEventItemSchema_def proxy_usage_schema_def
    resolveField_def any_string_def nonempty_string_def unit_number_def count_number_def
    CONTENT_FIELD_PATHS_def KNOWN_STRUCTURAL_FIELD_PATHS_def insert_commute)

section \<open>Redaction before and after validation\<close>

lemma collect_map:
  assumes "\<And>x. x \<in> set xs \<Longrightarrow> r' x = map_ok g (r x)"
  shows "collect (map r' xs) = map_ok (map g) (collect (map r xs))"
  using assms
proof (induction xs)
  case (Cons x xs)
  then have "collect (map r' xs) = map_ok (map g) (collect (map r xs))" by simp
  moreover have "r' x = map_ok g (r x)" using Cons.prems by simp
  ultimately show ?case by (cases "r x"; cases "collect (map r xs)") simp_all
qed simp

lemma collect_InrD: "collect (map r xs) = Inr ys \<Longrightarrow> y \<in> set ys \<Longrightarrow> \<exists>x \<in> set xs. r x = Inr y"
  by (induction xs arbitrary: ys) (auto split: sum.splits)

lemma map_ok_InrE: "map_ok f r = Inr w \<Longrightarrow> (\<And>v. r = Inr v \<Longrightarrow> w = f v \<Longrightarrow> Q) \<Longrightarrow> Q"
  by (cases r) auto

lemma below_InrE: "below sg r = Inr w \<Longrightarrow> (r = Inr w \<Longrightarrow> Q) \<Longrightarrow> Q"
  by (cases r) auto

lemma below_map [simp]: "below sg (map_ok g r) = map_ok g (below sg r)"
  by (cases r) simp_all

lemma map_ok_comp [simp]: "map_ok g (map_ok h r) = map_ok (g \<circ> h) r"
  by (cases r) simp_all

lemma walk_null [simp]: "walk inherited red known path v = V_Null \<longleftrightarrow> v = V_Null"
  by (cases v) auto

lemma resolve_wrapped [simp]:
  "resolveField (Z_Optional s) = resolveField s" "resolveField (Z_Nullable s) = resolveField s"
  "resolveField (Z_Default s d) = resolveField s"
  by (simp_all add: resolveField_def)

text \<open>
  What a schema must satisfy for the redaction not to change its verdict: a string check at a content
  path is stable under redaction, no enumeration or default sits there, the items of arrays are
  objects, records hold numbers.
\<close>

function redaction_stable :: "(string \<Rightarrow> string) \<Rightarrow> schema \<Rightarrow> string \<Rightarrow> bool" where
  "redaction_stable red (Z_String P) path \<longleftrightarrow> (path \<in> set CONTENT_FIELD_PATHS \<longrightarrow> (\<forall>t. P (red t) = P t))"
| "redaction_stable red (Z_Enum names) path \<longleftrightarrow> path \<notin> set CONTENT_FIELD_PATHS"
| "redaction_stable red (Z_Number P) path \<longleftrightarrow> True"
| "redaction_stable red Z_Boolean path \<longleftrightarrow> True"
| "redaction_stable red (Z_Array mn mx s) path \<longleftrightarrow>
     object_shape (unwrapToBase s) \<noteq> None \<and> redaction_stable red s (path @ ''[]'')"
| "redaction_stable red (Z_Object sh) path \<longleftrightarrow>
     distinct (map fst sh) \<and> ''__proto__'' \<notin> fst ` set sh \<and>
     (\<forall>(k, s) \<in> set sh. redaction_stable red s (child_path path k))"
| "redaction_stable red (Z_Record s) path \<longleftrightarrow> (\<exists>P. s = Z_Number P)"
| "redaction_stable red (Z_Optional s) path \<longleftrightarrow> redaction_stable red s path"
| "redaction_stable red (Z_Nullable s) path \<longleftrightarrow> redaction_stable red s path"
| "redaction_stable red (Z_Default s d) path \<longleftrightarrow>
     (\<exists>t. d = V_Str t) \<and> path \<notin> set CONTENT_FIELD_PATHS \<and> redaction_stable red s path"
  by pat_completeness auto
termination
  by (relation "measure (\<lambda>(_, s, _). size s)") (auto simp: field_size)

lemma item_field_array:
  "object_shape (unwrapToBase s) \<noteq> None \<Longrightarrow>
   item_field (Some (resolveField (Z_Array mn mx s))) = Some (resolveField s)"
  by (cases "unwrapToBase s") (auto simp: item_field_def resolveField_def)

lemma shape_field_object:
  "distinct (map fst sh) \<Longrightarrow> (k, s) \<in> set sh \<Longrightarrow>
   shape_field inherited (known_shape (Some (resolveField (Z_Object sh)))) k = Some (resolveField s)"
  by (simp add: shape_field_def known_shape_def resolveField_def)

lemma map_of_walked:
  "k \<noteq> ''__proto__'' \<Longrightarrow>
   map_of (map (\<lambda>(k, v). (k, f k v)) (filter (\<lambda>(k, _). k \<noteq> ''__proto__'') kvs)) k = map_option (f k) (map_of kvs k)"
  by (induction kvs) auto

lemma absent_walked:
  "redaction_stable red s path \<Longrightarrow>
   absent s = map_ok (map_option (walk inherited red (Some (resolveField s)) path)) (absent s)"
  by (induction s rule: absent.induct) auto

lemma walk_number [simp]:
  "parse (Z_Number P) (walk inherited red known path v) = parse (Z_Number P) v"
  "map_ok (walk inherited red known path) (parse (Z_Number P) v) = parse (Z_Number P) v"
  by (cases v; simp)+

lemma parse_walk:
  "redaction_stable red s path \<Longrightarrow>
   parse s (walk inherited red (Some (resolveField s)) path v) =
   map_ok (walk inherited red (Some (resolveField s)) path) (parse s v)"
proof (induction s v arbitrary: path rule: parse.induct)
  case (5 mn mx s vs)
  let ?w = "walk inherited red (Some (resolveField s)) (path @ ''[]'')"
  have it: "item_field (Some (resolveField (Z_Array mn mx s))) = Some (resolveField s)"
    using 5(2) by (intro item_field_array) simp
  have st: "redaction_stable red s (path @ ''[]'')" using 5(2) by simp
  show ?case
  proof (cases "length vs < mn \<or> (case mx of None \<Rightarrow> False | Some n \<Rightarrow> n < length vs)")
    case True
    then have "length (map ?w vs) < mn \<or> (case mx of None \<Rightarrow> False | Some n \<Rightarrow> n < length (map ?w vs))" unfolding length_map .
    with True show ?thesis by (simp only: parse.simps walk.simps it if_True map_ok.simps)
  next
    case False
    have one: "parse s (?w v) = map_ok ?w (parse s v)" if "(i, v) \<in> set (enumerate 0 vs)" for i v
      using 5(1)[OF False that refl st] .
    have en: "enumerate 0 (map ?w vs) = map (\<lambda>(i, v). (i, ?w v)) (enumerate 0 vs)"
      by (simp add: enumerate_eq_zip zip_map2 case_prod_unfold)
    have "collect (map (\<lambda>(i, v). below (Idx i) (parse s v)) (enumerate 0 (map ?w vs))) =
      collect (map (\<lambda>(i, v). below (Idx i) (parse s (?w v))) (enumerate 0 vs))"
      unfolding en map_map by (intro arg_cong[where f = collect] map_cong) auto
    also have "\<dots> = map_ok (map ?w) (collect (map (\<lambda>(i, v). below (Idx i) (parse s v)) (enumerate 0 vs)))"
      by (rule collect_map) (auto simp: one)
    finally have "map_ok V_Arr (collect (map (\<lambda>(i, v). below (Idx i) (parse s v)) (enumerate 0 (map ?w vs)))) =
      map_ok (walk inherited red (Some (resolveField (Z_Array mn mx s))) path)
        (map_ok V_Arr (collect (map (\<lambda>(i, v). below (Idx i) (parse s v)) (enumerate 0 vs))))"
      by (simp add: it comp_def)
    then show ?thesis by (simp only: parse.simps walk.simps it length_map if_not_P[OF False])
  qed
next
  case (6 sh kvs)
  let ?kn = "\<lambda>k. shape_field inherited (known_shape (Some (resolveField (Z_Object sh)))) k"
  let ?f = "\<lambda>k. walk inherited red (?kn k) (child_path path k)"
  let ?field = "\<lambda>kvs (k, s). below (Key k)
          (case map_of kvs k of
             Some v \<Rightarrow> map_ok (\<lambda>w. [(k, w)]) (parse s v)
           | None \<Rightarrow> map_ok (\<lambda>w. case w of None \<Rightarrow> [] | Some d \<Rightarrow> [(k, d)]) (absent s))"
  let ?kvs = "map (\<lambda>(k, v). (k, ?f k v)) (filter (\<lambda>(k, _). k \<noteq> ''__proto__'') kvs)"
  have d: "distinct (map fst sh)" "''__proto__'' \<notin> fst ` set sh"
    and st: "\<And>k s. (k, s) \<in> set sh \<Longrightarrow> redaction_stable red s (child_path path k)"
    using 6(2) by auto
  have one: "?field ?kvs (k, s) = map_ok (map (\<lambda>(k, w). (k, ?f k w))) (?field kvs (k, s))"
    if ks: "(k, s) \<in> set sh" for k s
  proof -
    have k: "k \<noteq> ''__proto__''" using d(2) ks by force
    have kn: "?kn k = Some (resolveField s)" using shape_field_object[OF d(1) ks] .
    show ?thesis
    proof (cases "map_of kvs k")
      case None
      have "absent s = map_ok (map_option (?f k)) (absent s)"
        using absent_walked[OF st[OF ks], of inherited] by (simp add: kn)
      then have "?f k d = d" if "absent s = Inr (Some d)" for d using that by simp
      with None show ?thesis
        by (cases "absent s") (auto simp: map_of_walked[OF k] simp del: walk.simps split: option.splits)
    next
      case (Some v)
      have "parse s (?f k v) = map_ok (?f k) (parse s v)"
        using 6(1)[OF ks refl Some st[OF ks]] by (simp add: kn)
      with Some show ?thesis by (simp add: map_of_walked[OF k] comp_def)
    qed
  qed
  have "collect (map (?field ?kvs) sh) = map_ok (map (map (\<lambda>(k, w). (k, ?f k w)))) (collect (map (?field kvs) sh))"
    by (rule collect_map) (use one in auto)
  moreover have "filter (\<lambda>(k, _). k \<noteq> ''__proto__'') (concat fields) = concat fields"
    if "collect (map (?field kvs) sh) = Inr fields" for fields
  proof (rule filter_True, safe)
    fix v
    assume "(''__proto__'', v) \<in> set (concat fields)"
    then obtain f where f: "f \<in> set fields" "(''__proto__'', v) \<in> set f" by auto
    from collect_InrD[OF that f(1)] obtain k s where ks: "(k, s) \<in> set sh" "?field kvs (k, s) = Inr f" by auto
    from ks(2) f(2) have "k = ''__proto__''"
      by (auto split: option.splits elim!: below_InrE map_ok_InrE)
    with ks(1) d(2) show False by force
  qed
  ultimately show ?case
    by (cases "collect (map (?field kvs) sh)") (simp_all add: map_concat)
next
  case (7 s kvs)
  then obtain P where s: "s = Z_Number P" by auto
  let ?kn = "\<lambda>k. shape_field inherited (known_shape (Some (resolveField (Z_Record s)))) k"
  let ?f = "\<lambda>k. walk inherited red (?kn k) (child_path path k)"
  let ?fs = "filter (\<lambda>(k, _). k \<noteq> ''__proto__'') kvs"
  let ?r = "\<lambda>(k, v). below (Key k) (map_ok (Pair k) (parse s v))"
  have fs: "filter (\<lambda>(k, _). k \<noteq> ''__proto__'') (map (\<lambda>(k, v). (k, ?f k v)) ?fs) = map (\<lambda>(k, v). (k, ?f k v)) ?fs"
    by (rule filter_True) auto
  have "collect (map ?r (map (\<lambda>(k, v). (k, ?f k v)) ?fs)) =
      collect (map (\<lambda>(k, v). below (Key k) (map_ok (Pair k) (parse s (?f k v)))) ?fs)"
    unfolding map_map by (intro arg_cong[where f = collect] map_cong) auto
  also have "\<dots> = map_ok (map (\<lambda>(k, w). (k, ?f k w))) (collect (map ?r ?fs))"
  proof (rule collect_map)
    fix x
    assume "x \<in> set ?fs"
    obtain k v where [simp]: "x = (k, v)" by (cases x)
    have "parse s (?f k v) = map_ok (?f k) (parse s v)" by (simp add: s)
    then show "(case x of (k, v) \<Rightarrow> below (Key k) (map_ok (Pair k) (parse s (?f k v)))) =
      map_ok (\<lambda>(k, w). (k, ?f k w)) (?r x)"
      by (cases "parse s v") simp_all
  qed
  finally have "collect (map ?r (map (\<lambda>(k, v). (k, ?f k v)) ?fs)) = map_ok (map (\<lambda>(k, w). (k, ?f k w))) (collect (map ?r ?fs))" .
  moreover have "filter (\<lambda>(k, _). k \<noteq> ''__proto__'') kws = kws" if "collect (map ?r ?fs) = Inr kws" for kws
  proof (rule filter_True, safe)
    fix v
    assume "(''__proto__'', v) \<in> set kws"
    from collect_InrD[OF that this] show False
      by (auto elim!: below_InrE map_ok_InrE)
  qed
  ultimately show ?case
    by (cases "collect (map ?r ?fs)") (simp_all add: fs)
qed (auto simp: resolveField_def)

text \<open>The strings at content paths redacted, everything else as it is.\<close>

fun at_content :: "(string \<Rightarrow> string) \<Rightarrow> string \<Rightarrow> jval \<Rightarrow> jval" where
  "at_content red path (V_Str t) = V_Str (if path \<in> set CONTENT_FIELD_PATHS then red t else t)"
| "at_content red path (V_Arr vs) = V_Arr (map (at_content red (path @ ''[]'')) vs)"
| "at_content red path (V_Obj kvs) = V_Obj (map (\<lambda>(k, v). (k, at_content red (child_path path k) v)) kvs)"
| "at_content red path v = v"

lemma parsed_keys:
  assumes "parse (Z_Object sh) (V_Obj kvs) = Inr d"
  obtains kws where "d = V_Obj kws"
    and "\<And>k w. (k, w) \<in> set kws \<Longrightarrow> \<exists>s. (k, s) \<in> set sh \<and> ((\<exists>v. map_of kvs k = Some v \<and> parse s v = Inr w) \<or> absent s = Inr (Some w))"
proof -
  let ?field = "\<lambda>(k, s). below (Key k)
          (case map_of kvs k of
             Some v \<Rightarrow> map_ok (\<lambda>w. [(k, w)]) (parse s v)
           | None \<Rightarrow> map_ok (\<lambda>w. case w of None \<Rightarrow> [] | Some d \<Rightarrow> [(k, d)]) (absent s))"
  from assms obtain fields where f: "collect (map ?field sh) = Inr fields" and d: "d = V_Obj (concat fields)"
    by (auto elim!: map_ok_InrE)
  have "\<exists>s. (k, s) \<in> set sh \<and> ((\<exists>v. map_of kvs k = Some v \<and> parse s v = Inr w) \<or> absent s = Inr (Some w))"
    if "(k, w) \<in> set (concat fields)" for k w
  proof -
    from that obtain g where g: "g \<in> set fields" "(k, w) \<in> set g" by auto
    from collect_InrD[OF f g(1)] obtain l s where l: "(l, s) \<in> set sh" "?field (l, s) = Inr g" by auto
    show ?thesis
    proof (cases "map_of kvs l")
      case None
      with l(2) obtain a where "absent s = Inr a" "g = (case a of None \<Rightarrow> [] | Some d \<Rightarrow> [(l, d)])"
        by (auto elim!: below_InrE map_ok_InrE)
      with g(2) l(1) show ?thesis by (auto split: option.splits)
    next
      case (Some v)
      with l(2) obtain a where "parse s v = Inr a" "g = [(l, a)]" by (auto elim!: below_InrE map_ok_InrE)
      with g(2) l(1) Some show ?thesis by auto
    qed
  qed
  with d show thesis using that by blast
qed

lemma absent_content:
  "redaction_stable red s path \<Longrightarrow> absent s = Inr (Some w) \<Longrightarrow>
   walk inherited red (Some (resolveField s)) path w = at_content red path w"
  by (induction s rule: absent.induct) auto

lemma parsed_walk:
  "redaction_stable red s path \<Longrightarrow> parse s v = Inr d \<Longrightarrow>
   walk inherited red (Some (resolveField s)) path d = at_content red path d"
proof (induction s v arbitrary: path d rule: parse.induct)
  case (5 mn mx s vs)
  from 5(3) obtain ws where ok: "\<not> (length vs < mn \<or> (case mx of None \<Rightarrow> False | Some n \<Rightarrow> n < length vs))"
    and ws: "collect (map (\<lambda>(i, v). below (Idx i) (parse s v)) (enumerate 0 vs)) = Inr ws" and d: "d = V_Arr ws"
    by (auto split: if_splits elim!: map_ok_InrE)
  have st: "redaction_stable red s (path @ ''[]'')" using 5(2) by simp
  have "walk inherited red (Some (resolveField s)) (path @ ''[]'') w = at_content red (path @ ''[]'') w"
    if "w \<in> set ws" for w
  proof -
    from collect_InrD[OF ws that] obtain x where x: "x \<in> set (enumerate 0 vs)"
      "(case x of (i, v) \<Rightarrow> below (Idx i) (parse s v)) = Inr w" by blast
    obtain i v where [simp]: "x = (i, v)" by (cases x)
    have "parse s v = Inr w" using x(2) by (auto elim: below_InrE)
    from 5(1)[OF ok x(1) \<open>x = (i, v)\<close>[symmetric] st this] show ?thesis .
  qed
  moreover have "item_field (Some (resolveField (Z_Array mn mx s))) = Some (resolveField s)"
    using 5(2) by (intro item_field_array) simp
  ultimately show ?case by (simp add: d)
next
  case (6 sh kvs)
  obtain kws where d: "d = V_Obj kws" and kws: "\<And>k w. (k, w) \<in> set kws \<Longrightarrow> \<exists>s. (k, s) \<in> set sh \<and>
    ((\<exists>v. map_of kvs k = Some v \<and> parse s v = Inr w) \<or> absent s = Inr (Some w))"
    using parsed_keys[OF 6(3)] by blast
  have ds: "distinct (map fst sh)" "''__proto__'' \<notin> fst ` set sh"
    and st: "\<And>k s. (k, s) \<in> set sh \<Longrightarrow> redaction_stable red s (child_path path k)"
    using 6(2) by auto
  have one: "walk inherited red (shape_field inherited (known_shape (Some (resolveField (Z_Object sh)))) k) (child_path path k) w =
      at_content red (child_path path k) w" if kw: "(k, w) \<in> set kws" for k w
  proof -
    from kws[OF kw] obtain s where s: "(k, s) \<in> set sh"
      and c: "(\<exists>v. map_of kvs k = Some v \<and> parse s v = Inr w) \<or> absent s = Inr (Some w)" by blast
    have kn: "shape_field inherited (known_shape (Some (resolveField (Z_Object sh)))) k = Some (resolveField s)"
      using shape_field_object[OF ds(1) s] .
    from c show ?thesis
    proof
      assume "\<exists>v. map_of kvs k = Some v \<and> parse s v = Inr w"
      then obtain v where "map_of kvs k = Some v" "parse s v = Inr w" by blast
      from 6(1)[OF s refl this(1) st[OF s] this(2)] show ?thesis by (simp add: kn)
    next
      assume "absent s = Inr (Some w)"
      from absent_content[OF st[OF s] this] show ?thesis by (simp add: kn)
    qed
  qed
  have np: "filter (\<lambda>(k, _). k \<noteq> ''__proto__'') kws = kws"
    using kws ds(2) by (intro filter_True) force
  show ?case using one by (simp add: d np) (force intro!: map_cong)
next
  case (7 s kvs)
  then obtain P where s: "s = Z_Number P" by auto
  let ?fs = "filter (\<lambda>(k, _). k \<noteq> ''__proto__'') kvs"
  from 7(3) obtain kws where kws: "collect (map (\<lambda>(k, v). below (Key k) (map_ok (Pair k) (parse s v))) ?fs) = Inr kws"
    and d: "d = V_Obj kws" by (auto elim!: map_ok_InrE)
  have num: "\<exists>x. w = V_Num x" and np: "k \<noteq> ''__proto__''" if "(k, w) \<in> set kws" for k w
  proof -
    from collect_InrD[OF kws that] obtain v where "(k, v) \<in> set ?fs" "parse s v = Inr w"
      by (auto elim!: below_InrE map_ok_InrE)
    then show "\<exists>x. w = V_Num x" "k \<noteq> ''__proto__''"
      by (auto simp: s elim!: parse.elims split: if_splits)
  qed
  have "filter (\<lambda>(k, _). k \<noteq> ''__proto__'') kws = kws" using np by (intro filter_True) force
  then show ?case using num by (force simp: d intro!: map_cong)
qed (auto simp: resolveField_def split: if_splits)

lemma canonical_stable:
  assumes "\<And>t. red t = [] \<longleftrightarrow> t = []"
  shows "redaction_stable red (Z_Object (CanonicalIngestSchema isodate)) []"
  using assms
  by (simp add: CanonicalIngestSchema_def TranscriptTurnSchema_def CanonicalEventItemSchema_def proxy_usage_schema_def
    any_string_def nonempty_string_def unit_number_def count_number_def CONTENT_FIELD_PATHS_def child_path_def)

lemma jget_at_content: "jget k (at_content red [] d) = map_option (at_content red k) (jget k d)"
proof (cases d)
  case (V_Obj kvs)
  then show ?thesis by (induction kvs arbitrary: d) (auto simp: child_path_def)
qed auto

lemma at_content_str [simp]:
  "path \<notin> set CONTENT_FIELD_PATHS \<Longrightarrow> at_content red path v = V_Str t \<longleftrightarrow> v = V_Str t"
  "at_content red path v = V_Bool b \<longleftrightarrow> v = V_Bool b" "at_content red path v = V_Arr [] \<longleftrightarrow> v = V_Arr []"
  by (cases v; auto)+

lemma superRefine_at_content: "superRefine (at_content red [] d) = superRefine d"
proof -
  have n: "''kind'' \<notin> set CONTENT_FIELD_PATHS" "''capture_source'' \<notin> set CONTENT_FIELD_PATHS"
    by (simp_all add: CONTENT_FIELD_PATHS_def)
  show ?thesis by (simp add: superRefine_def no_items_def jget_at_content n)
qed

text \<open>
  C24: Redacting an envelope before it is spooled changes nothing the daemon decides on. Whatever the
  JSON value, the schema accepts the redacted envelope exactly when it accepts the original one and
  raises the same issues otherwise; and the accepted envelope is the original one with the texts at
  the three content paths redacted - identifiers, enumerations, timestamps and telemetry are intact.
\<close>

theorem spooled_redaction_is_transparent:
  assumes "\<And>t. red t = [] \<longleftrightarrow> t = []"
  shows "parse_canonical isodate (redactSpooledEnvelope inherited isodate red v) =
    map_ok (at_content red []) (parse_canonical isodate v)"
proof -
  let ?s = "Z_Object (CanonicalIngestSchema isodate)"
  have st: "redaction_stable red ?s []" using assms by (rule canonical_stable)
  have "resolveField ?s = envelope_field isodate" by (simp add: resolveField_def envelope_field_def)
  then have "parse ?s (redactSpooledEnvelope inherited isodate red v) = map_ok (redactSpooledEnvelope inherited isodate red) (parse ?s v)"
    and d: "\<And>d. parse ?s v = Inr d \<Longrightarrow> redactSpooledEnvelope inherited isodate red d = at_content red [] d"
    using parse_walk[OF st, of inherited v] parsed_walk[OF st, of v _ inherited]
    by (simp_all add: redactSpooledEnvelope_def[abs_def])
  then show ?thesis
    by (cases "parse ?s v") (simp_all add: parse_canonical_def superRefine_at_content)
qed

definition demo_envelope :: jval where
  "demo_envelope = V_Obj
     [(''event'', V_Str ''session_end''), (''session_id'', V_Str ''s-1''), (''project_id'', V_Str ''wt-7''),
      (''cwd'', V_Str ''/home/me/shop-worktrees/wt-7''), (''captured_at'', V_Str ''2026-01-02T03:04:05Z''),
      (''turns'', V_Arr [V_Obj [(''role'', V_Str ''user''), (''text'', V_Str ''key'')]]),
      (''client_scrub_applied'', V_Bool False), (''client_scrub_hits'', V_Num 0),
      (''client_version'', V_Str ''1''), (''client_scrub_version'', V_Str ''1''),
      (''wire_version'', V_Str ''v1.0''), (''debug'', V_Str ''key'')]"

definition demo_data :: "string \<Rightarrow> jval" where
  "demo_data text1 = V_Obj
     [(''event'', V_Str ''session_end''), (''session_id'', V_Str ''s-1''), (''project_id'', V_Str ''wt-7''),
      (''cwd'', V_Str ''/home/me/shop-worktrees/wt-7''), (''captured_at'', V_Str ''2026-01-02T03:04:05Z''),
      (''kind'', V_Str ''transcript''),
      (''turns'', V_Arr [V_Obj [(''role'', V_Str ''user''), (''text'', V_Str text1)]]),
      (''client_scrub_applied'', V_Bool False), (''client_scrub_hits'', V_Num 0),
      (''client_version'', V_Str ''1''), (''client_scrub_version'', V_Str ''1''),
      (''wire_version'', V_Str ''v1.0'')]"

definition crosses :: "string \<Rightarrow> string" where "crosses t = map (\<lambda>_. CHR ''x'') t"

lemmas schema_defs = CanonicalIngestSchema_def TranscriptTurnSchema_def CanonicalEventItemSchema_def
  proxy_usage_schema_def any_string_def nonempty_string_def unit_number_def count_number_def

lemma demo_wire: "wire_version_ok ''v1.0''"
  by (simp add: wire_version_ok_def plain_number_def is_digit_def)

lemma demo_parsed: "parse_canonical (\<lambda>_. True) demo_envelope = Inr (demo_data ''key'')"
  by (simp add: parse_canonical_def schema_defs demo_envelope_def demo_data_def superRefine_def no_items_def demo_wire
    enumerate_eq_zip)

theorem spooled_redaction_is_transparent_witness:
  "parse_canonical (\<lambda>_. True) (redactSpooledEnvelope (\<lambda>_. False) (\<lambda>_. True) crosses demo_envelope) = Inr (demo_data ''xxx'')"
proof -
  have e: "(crosses t = []) = (t = [])" for t by (simp add: crosses_def)
  have k: "crosses ''key'' = ''xxx''" by (simp add: crosses_def)
  from spooled_redaction_is_transparent[OF e, of "\<lambda>_. True" "\<lambda>_. False" demo_envelope]
  show ?thesis by (simp add: demo_parsed demo_data_def k CONTENT_FIELD_PATHS_def child_path_def)
qed

section \<open>What the redaction covers\<close>

text \<open>Every string redacted, as under a key the schema does not know.\<close>

fun all_strings :: "(string \<Rightarrow> string) \<Rightarrow> jval \<Rightarrow> jval" where
  "all_strings red (V_Str t) = V_Str (red t)"
| "all_strings red (V_Arr vs) = V_Arr (map (all_strings red) vs)"
| "all_strings red (V_Obj kvs) =
     V_Obj (map (\<lambda>(k, v). (k, all_strings red v)) (filter (\<lambda>(k, _). k \<noteq> ''__proto__'') kvs))"
| "all_strings red v = v"

lemma unknown_is_redacted: "walk inherited red None path v = all_strings red v"
proof (induction red v arbitrary: path rule: all_strings.induct)
  case (3 red kvs)
  then show ?case by (force simp: shape_field_def known_shape_def intro!: map_cong)
qed (auto simp: item_field_def)

lemma unknown_fields_are_redacted:
  assumes "(k, v) \<in> set kvs" and "map_of (CanonicalIngestSchema isodate) k = None" and "\<not> inherited k"
    and "k \<noteq> ''__proto__''" and "redactSpooledEnvelope inherited isodate red (V_Obj kvs) = V_Obj kvs'"
  shows "(k, all_strings red v) \<in> set kvs'"
  using assms
  by (force simp: redactSpooledEnvelope_def envelope_field_def known_shape_def shape_field_def unknown_is_redacted)

text \<open>
  Two ways around it. A string where the schema has an object or an array is taken for structure, so
  an envelope whose turns are plain strings is spooled as it is; and a key every JavaScript object
  inherits counts as known.
\<close>

lemma reshaped_turns_are_kept:
  "redactSpooledEnvelope inherited isodate red (V_Obj [(''turns'', V_Arr [V_Str secret])]) =
     V_Obj [(''turns'', V_Arr [V_Str secret])]"
  by (simp add: redactSpooledEnvelope_def envelope_field_def known_shape_def shape_field_def item_field_def resolveField_def
    schema_defs CONTENT_FIELD_PATHS_def child_path_def)

lemma inherited_names_are_kept:
  "inherited ''constructor'' \<Longrightarrow>
   redactSpooledEnvelope inherited isodate red (V_Obj [(''constructor'', V_Str secret)]) = V_Obj [(''constructor'', V_Str secret)]"
  by (simp add: redactSpooledEnvelope_def envelope_field_def known_shape_def shape_field_def schema_defs
    CONTENT_FIELD_PATHS_def child_path_def)

lemma those_map_Some: "those (map f xs) = Some ys \<Longrightarrow> (\<And>x y. x \<in> set xs \<Longrightarrow> f x = Some y \<Longrightarrow> y = g x) \<Longrightarrow> ys = map g xs"
  by (induction xs arbitrary: ys) (auto split: option.splits)

lemma redactValuesDeep_all: "redactValuesDeep red v = Some w \<Longrightarrow> w = all_strings red v"
proof -
  have "deep n red v = Some w \<Longrightarrow> w = all_strings red v" for n w
  proof (induction red v arbitrary: n w rule: all_strings.induct)
    case (2 red vs)
    then obtain ws where "those (map (deep (Suc n) red) vs) = Some ws" "w = V_Arr ws" by (auto split: if_splits)
    with those_map_Some[OF this(1), of "all_strings red"] 2(1) show ?case by simp
  next
    case (3 red kvs)
    let ?fs = "filter (\<lambda>(k, _). k \<noteq> ''__proto__'') kvs"
    from 3(2) obtain ws where ws: "those (map (\<lambda>(k, v). map_option (Pair k) (deep (Suc n) red v)) ?fs) = Some ws"
      "w = V_Obj ws" by (auto split: if_splits)
    have "y = (case x of (k, v) \<Rightarrow> (k, all_strings red v))"
      if x: "x \<in> set ?fs" and y: "(case x of (k, v) \<Rightarrow> map_option (Pair k) (deep (Suc n) red v)) = Some y" for x y
    proof -
      obtain k v where kv: "x = (k, v)" by (cases x)
      with y obtain u where u: "deep (Suc n) red v = Some u" "y = (k, u)" by auto
      from 3(1)[OF x kv[symmetric] u(1)] u(2) kv show ?thesis by simp
    qed
    from those_map_Some[OF ws(1) this] ws(2) show ?case by simp
  qed (auto split: if_splits)
  then show "redactValuesDeep red v = Some w \<Longrightarrow> w = all_strings red v" by (simp add: redactValuesDeep_def)
qed

end
