(* ===== verification/Ingest.thy ===== *)
theory Ingest
  imports Envelope Jobs Lifecycle
begin

text \<open>
  Ingesting an envelope: \<open>src/src/server/routes/ingest.ts\<close> (the shared transaction of the route and the
  spool, the events kind, the legacy envelope, the idempotency keys and the HTTP answers), with
  \<open>storage/ingest-idempotency.ts\<close>, \<open>storage/redaction-log.ts\<close>, \<open>server/lib/stable-stringify.ts\<close> and the
  derivation of a session's project (\<open>pipeline/derive-project.ts\<close>, \<open>pipeline/cwd-basename.ts\<close>,
  \<open>tag-hygiene/derive-repo.ts\<close>). The data of an envelope is the JSON value its schema has accepted.
\<close>

section \<open>The project of a session\<close>

definition is_sep :: "char \<Rightarrow> bool" where
  "is_sep c \<longleftrightarrow> c = CHR ''/'' \<or> c = CHR 0x5C"

fun split_at :: "(char \<Rightarrow> bool) \<Rightarrow> string \<Rightarrow> string list" where
  "split_at P [] = [[]]"
| "split_at P (c # cs) =
     (if P c then [] # split_at P cs
      else (case split_at P cs of [] \<Rightarrow> [[c]] | w # ws \<Rightarrow> (c # w) # ws))"

text \<open>\<open>cwd.replace(/[\\/]+$/, '')\<close>, then the non-empty segments.\<close>

definition trim_separators :: "string \<Rightarrow> string" where
  "trim_separators s = rev (dropWhile is_sep (rev s))"

definition path_segments :: "string \<Rightarrow> string list" where
  "path_segments cwd = filter (\<lambda>w. w \<noteq> []) (split_at is_sep (trim_separators cwd))"

definition plainBasename :: "string option \<Rightarrow> string option" where
  "plainBasename cwd =
     (case cwd of
        None \<Rightarrow> None
      | Some c \<Rightarrow> (case rev (path_segments c) of [] \<Rightarrow> None | seg # _ \<Rightarrow> Some seg))"

text \<open>\<open>/^(.+)-worktrees$/i\<close>.\<close>

definition worktrees_parent :: "string \<Rightarrow> string option" where
  "worktrees_parent seg =
     (let n = length seg - 10
      in if 10 < length seg \<and> js_lower (drop n seg) = ''-worktrees'' \<and>
            list_all (\<lambda>c. c \<notin> set [CHR 0x0A, CHR 0x0D]) (take n seg)
         then Some (take n seg) else None)"

definition deriveWorktreeSafeBasename :: "string option \<Rightarrow> string option" where
  "deriveWorktreeSafeBasename cwd =
     (case cwd of
        None \<Rightarrow> None
      | Some c \<Rightarrow>
          (case rev (path_segments c) of
             [] \<Rightarrow> None
           | seg # up \<Rightarrow>
               (case up of
                  worktrees # claude # repo # _ \<Rightarrow>
                    (if claude = ''.claude'' \<and> worktrees = ''worktrees'' then Some repo
                     else (case worktrees_parent worktrees of Some r \<Rightarrow> Some r | None \<Rightarrow> Some seg))
                | parent # _ \<Rightarrow> (case worktrees_parent parent of Some r \<Rightarrow> Some r | None \<Rightarrow> Some seg)
                | [] \<Rightarrow> Some seg)))"

datatype override_source = Git_Common_Dir | String_Heuristic

text \<open>An empty string counts as missing wherever the code tests for truth.\<close>

definition truthy :: "string option \<Rightarrow> string option" where
  "truthy x = (if x = Some [] then None else x)"

text \<open>The project to store, and the source of the override when there is one.\<close>

definition reconcileIngestProject ::
  "string option \<Rightarrow> string option \<Rightarrow> string option \<Rightarrow> string option \<times> override_source option" where
  "reconcileIngestProject projectId cwd repo =
     (if truthy projectId = None then (projectId, None)
      else if plainBasename cwd = None \<or> projectId \<noteq> plainBasename cwd then (projectId, None)
      else (let derived = (case truthy repo of Some r \<Rightarrow> Some r | None \<Rightarrow> deriveWorktreeSafeBasename cwd);
                src = (if truthy repo \<noteq> None then Git_Common_Dir else String_Heuristic)
            in if truthy derived = None \<or> derived = projectId then (projectId, None)
               else (derived, Some src)))"

text \<open>\<open>git\<close> is the answer of \<open>git rev-parse\<close> for a directory, if it has one.\<close>

definition deriveRepoFromCwd :: "(string option \<Rightarrow> string option) \<Rightarrow> string option \<Rightarrow> string option" where
  "deriveRepoFromCwd git cwd =
     (case git cwd of Some r \<Rightarrow> Some r | None \<Rightarrow> deriveWorktreeSafeBasename cwd)"

section \<open>The tables\<close>

record session_row =
  sess_id :: string
  sess_repo :: "string option"
  sess_project :: "string option"
  sess_branch :: "string option"
  sess_agent :: "string option"
  sess_cwd :: "string option"
  sess_started :: epoch_ms

datatype transcript_content = Json_Text jval | Raw_Text string

record transcript_row =
  tr_id :: string
  tr_session :: string
  tr_source :: string
  tr_content :: transcript_content
  tr_ingested :: epoch_ms
  tr_event :: "jval option"
  tr_captured :: "epoch_ms option"
  tr_scrub_applied :: "jval option"
  tr_scrub_hits :: "jval option"
  tr_scrub_version :: "jval option"
  tr_scrub_by_label :: "jval option"
  tr_client_version :: "jval option"
  tr_wire_version :: string
  tr_capture_source :: "jval option"
  tr_proxy_usage :: "jval option"
  tr_extract_profile :: "string option"
  tr_local_date :: "string option"
  tr_platform :: "jval option"
  tr_meeting :: "jval option"
  tr_consent :: "jval option"

record idem_row =
  idem_key :: string
  idem_hash :: string
  idem_target :: "string option"
  idem_created :: epoch_ms

record redaction_row =
  rd_type :: string
  rd_count :: nat
  rd_session :: "string option"
  rd_created :: epoch_ms

record ingest_db =
  in_store :: store
  in_jobs :: jobs
  sessions :: "session_row list"
  transcripts :: "transcript_row list"
  idempotency :: "idem_row list"
  redaction_log :: "redaction_row list"

datatype ingest_error =
    Requires_Turns
  | MeetingCaptionsDisabled
  | IdempotencyConflict string
  | IdempotentReplay "string option"
  | Sqlite_Constraint

text \<open>
  What a call takes from outside: the clock, the two fresh identifiers, SHA-256 of the JSON text of a
  value, the redaction of a text with the types of what it found, git's answer, the reading of an
  ISO date, the JSON text of a job payload, and the switch of the configuration.
\<close>

record ingest_env =
  ie_now :: epoch_ms
  ie_log_now :: epoch_ms
  ie_transcript :: string
  ie_job :: string
  ie_hash :: "jval \<Rightarrow> string"
  ie_redact :: "string \<Rightarrow> string \<times> string list"
  ie_git :: "string option \<Rightarrow> string option"
  ie_epoch :: "string \<Rightarrow> epoch_ms"
  ie_payload :: "string \<Rightarrow> string \<Rightarrow> string"
  ie_meetings :: bool

section \<open>The statements\<close>

definition coalesce :: "'a option \<Rightarrow> 'a option \<Rightarrow> 'a option" where
  "coalesce x y = (case x of None \<Rightarrow> y | Some v \<Rightarrow> Some v)"

definition upsert_session :: "session_row \<Rightarrow> ingest_db \<Rightarrow> ingest_db" where
  "upsert_session r d =
     (if get_row sess_id (sess_id r) (sessions d) = None then d\<lparr>sessions := sessions d @ [r]\<rparr>
      else d\<lparr>sessions := update_rows (\<lambda>x. sess_id x = sess_id r)
             (\<lambda>x. x\<lparr>sess_repo := coalesce (sess_repo r) (sess_repo x),
                     sess_project := coalesce (sess_project r) (sess_project x),
                     sess_branch := coalesce (sess_branch r) (sess_branch x),
                     sess_agent := coalesce (sess_agent r) (sess_agent x),
                     sess_cwd := coalesce (sess_cwd r) (sess_cwd x)\<rparr>) (sessions d)\<rparr>)"

definition insert_transcript :: "transcript_row \<Rightarrow> ingest_db \<Rightarrow> ingest_error + ingest_db" where
  "insert_transcript r d =
     (if get_row tr_id (tr_id r) (transcripts d) \<noteq> None then Inl Sqlite_Constraint
      else Inr (d\<lparr>transcripts := transcripts d @ [r]\<rparr>))"

text \<open>The raw statement of the route: it names no priority, so the column default applies.\<close>

definition JOBS_PRIORITY_COLUMN_DEFAULT :: int where "JOBS_PRIORITY_COLUMN_DEFAULT = 3"

definition insert_job_row :: "job_kind \<Rightarrow> string \<Rightarrow> string \<Rightarrow> epoch_ms \<Rightarrow> ingest_db \<Rightarrow> ingest_error + ingest_db" where
  "insert_job_row k i payload now d =
     (if get_row job_id i (in_jobs d) \<noteq> None then Inl Sqlite_Constraint
      else Inr (d\<lparr>in_jobs := in_jobs d @ [\<lparr>job_id = i, kind = k, payload_json = payload, state = Pending,
                    attempts = 0, last_error = None, priority = JOBS_PRIORITY_COLUMN_DEFAULT,
                    created_at = now, updated_at = now\<rparr>]\<rparr>))"

definition insert_idempotency :: "string \<Rightarrow> string \<Rightarrow> string \<Rightarrow> epoch_ms \<Rightarrow> ingest_db \<Rightarrow> ingest_db" where
  "insert_idempotency k h target now d =
     (if get_row idem_key k (idempotency d) \<noteq> None then d
      else d\<lparr>idempotency := idempotency d @ [\<lparr>idem_key = k, idem_hash = h, idem_target = Some target, idem_created = now\<rparr>]\<rparr>)"

definition delete_idempotency :: "string \<Rightarrow> ingest_db \<Rightarrow> ingest_db" where
  "delete_idempotency k d = d\<lparr>idempotency := delete_rows (\<lambda>r. idem_key r = k) (idempotency d)\<rparr>"

text \<open>Counts per type, in the order of first occurrence.\<close>

definition aggregateRedactionEvents :: "string list \<Rightarrow> (string \<times> nat) list" where
  "aggregateRedactionEvents types =
     fold (\<lambda>t counts. obj_set t ((case map_of counts t of None \<Rightarrow> 0 | Some n \<Rightarrow> n) + 1) counts) types []"

definition recordRedactionEvents :: "string list \<Rightarrow> string option \<Rightarrow> epoch_ms \<Rightarrow> ingest_db \<Rightarrow> ingest_db" where
  "recordRedactionEvents types session now d =
     (if types = [] then d
      else d\<lparr>redaction_log := redaction_log d @
        map (\<lambda>(t, n). \<lparr>rd_type = t, rd_count = n, rd_session = session, rd_created = now\<rparr>) (aggregateRedactionEvents types)\<rparr>)"

section \<open>Idempotency\<close>

text \<open>\<open>stableStringify\<close>: the value with the keys of every object sorted; the text is its image.\<close>

fun stableStringify :: "jval \<Rightarrow> jval" where
  "stableStringify (V_Arr vs) = V_Arr (map stableStringify vs)"
| "stableStringify (V_Obj kvs) = V_Obj (sort_key fst (map (\<lambda>(k, v). (k, stableStringify v)) kvs))"
| "stableStringify v = v"

definition PENDING_TARGET :: string where "PENDING_TARGET = ''__pending__''"

definition target_exists :: "string option \<Rightarrow> ingest_db \<Rightarrow> bool" where
  "target_exists target d \<longleftrightarrow>
     (case target of
        None \<Rightarrow> False
      | Some i \<Rightarrow> get_row tr_id i (transcripts d) \<noteq> None \<or> get_memory i (in_store d) \<noteq> None)"

definition claimIdempotencySlot :: "string \<Rightarrow> string \<Rightarrow> epoch_ms \<Rightarrow> ingest_db \<Rightarrow> ingest_error + ingest_db" where
  "claimIdempotencySlot k h now d =
     (let d1 = insert_idempotency k h PENDING_TARGET now d
      in case get_row idem_key k (idempotency d1) of
           None \<Rightarrow> Inr d1
         | Some row \<Rightarrow>
             (if idem_target row = Some PENDING_TARGET then Inr d1
              else if idem_hash row \<noteq> h then Inl (IdempotencyConflict k)
              else if \<not> target_exists (idem_target row) d1
              then Inr (insert_idempotency k h PENDING_TARGET now (delete_idempotency k d1))
              else Inl (IdempotentReplay (idem_target row))))"

definition finalizeIdempotencySlot :: "string \<Rightarrow> string \<Rightarrow> string \<Rightarrow> epoch_ms \<Rightarrow> ingest_db \<Rightarrow> ingest_db" where
  "finalizeIdempotencySlot k h target now d = insert_idempotency k h target now (delete_idempotency k d)"

definition claim_if :: "string option \<Rightarrow> string \<Rightarrow> epoch_ms \<Rightarrow> ingest_db \<Rightarrow> ingest_error + ingest_db" where
  "claim_if key h now d = (case key of None \<Rightarrow> Inr d | Some k \<Rightarrow> claimIdempotencySlot k h now d)"

definition finalize_if :: "string option \<Rightarrow> string \<Rightarrow> string \<Rightarrow> epoch_ms \<Rightarrow> ingest_db \<Rightarrow> ingest_db" where
  "finalize_if key h target now d = (case key of None \<Rightarrow> d | Some k \<Rightarrow> finalizeIdempotencySlot k h target now d)"

definition backfillSummaryMemoryId :: "string \<Rightarrow> string \<Rightarrow> ingest_db \<Rightarrow> ingest_db" where
  "backfillSummaryMemoryId transcriptId memoryId d =
     d\<lparr>idempotency := update_rows (\<lambda>r. idem_target r = Some transcriptId)
                        (\<lambda>r. r\<lparr>idem_target := Some memoryId\<rparr>) (idempotency d)\<rparr>"

definition day_ms :: int where "day_ms = 86400000"

definition pruneIngestIdempotency :: "int \<Rightarrow> epoch_ms \<Rightarrow> ingest_db \<Rightarrow> nat \<times> ingest_db" where
  "pruneIngestIdempotency retentionDays now d =
     (let old = (\<lambda>r. idem_created r < now - retentionDays * day_ms)
      in (count_rows old (idempotency d), d\<lparr>idempotency := delete_rows old (idempotency d)\<rparr>))"

section \<open>Reading the data\<close>

definition str_field :: "string \<Rightarrow> jval \<Rightarrow> string option" where
  "str_field k d = (case jget k d of Some (V_Str t) \<Rightarrow> Some t | _ \<Rightarrow> None)"

definition str_or_empty :: "string \<Rightarrow> jval \<Rightarrow> string" where
  "str_or_empty k d = (case str_field k d of Some t \<Rightarrow> t | None \<Rightarrow> [])"

definition items :: "string \<Rightarrow> jval \<Rightarrow> jval list" where
  "items k d = (case jget k d of Some (V_Arr vs) \<Rightarrow> vs | _ \<Rightarrow> [])"

definition jset :: "string \<Rightarrow> jval \<Rightarrow> jval \<Rightarrow> jval" where
  "jset k v d = (case d of V_Obj kvs \<Rightarrow> V_Obj (obj_set k v kvs) | _ \<Rightarrow> d)"

text \<open>A boolean column holds 0 or 1.\<close>

definition bool_column :: "jval option \<Rightarrow> jval option" where
  "bool_column v = map_option (\<lambda>w. if w = V_Bool True then V_Num 1 else V_Num 0) v"

definition redact_turn :: "(string \<Rightarrow> string \<times> string list) \<Rightarrow> jval \<Rightarrow> jval \<times> string list" where
  "redact_turn red turn =
     (let (t, types) = red (str_or_empty ''text'' turn) in (jset ''text'' (V_Str t) turn, types))"

definition redact_event :: "(string \<Rightarrow> string \<times> string list) \<Rightarrow> jval \<Rightarrow> jval \<times> string list" where
  "redact_event red ev =
     (let (t, types) = red (str_or_empty ''text'' ev);
          ev1 = jset ''text'' (V_Str t) ev
      in case str_field ''evidence'' ev of
           None \<Rightarrow> (ev1, types)
         | Some e \<Rightarrow> (let (e1, more) = red e in (jset ''evidence'' (V_Str e1) ev1, types @ more)))"

definition applyProjectOverride :: "(string option \<Rightarrow> string option) \<Rightarrow> jval \<Rightarrow> string option" where
  "applyProjectOverride git data =
     fst (reconcileIngestProject (str_field ''project_id'' data) (str_field ''cwd'' data) (git (str_field ''cwd'' data)))"

section \<open>Ingesting\<close>

text \<open>
  \<open>sessionRepo\<close> and the project are computed before the transaction. The route passes the repo it
  has resolved; the spool leaves it to the call.
\<close>

definition session_of :: "ingest_env \<Rightarrow> string option \<Rightarrow> jval \<Rightarrow> session_row" where
  "session_of env sessionRepo data =
     \<lparr>sess_id = str_or_empty ''session_id'' data, sess_repo = sessionRepo,
      sess_project = applyProjectOverride (ie_git env) data, sess_branch = None,
      sess_agent = str_field ''agent_type'' data, sess_cwd = str_field ''cwd'' data, sess_started = ie_now env\<rparr>"

text \<open>The thirteen columns both kinds write.\<close>

definition base_row :: "ingest_env \<Rightarrow> string \<Rightarrow> jval list \<Rightarrow> jval \<Rightarrow> transcript_row" where
  "base_row env src content data =
     \<lparr>tr_id = ie_transcript env, tr_session = str_or_empty ''session_id'' data, tr_source = src,
      tr_content = Json_Text (V_Arr content), tr_ingested = ie_now env, tr_event = jget ''event'' data,
      tr_captured = Some (ie_epoch env (str_or_empty ''captured_at'' data)),
      tr_scrub_applied = bool_column (jget ''client_scrub_applied'' data),
      tr_scrub_hits = jget ''client_scrub_hits'' data, tr_scrub_version = jget ''client_scrub_version'' data,
      tr_scrub_by_label = jget ''client_scrub_hits_by_label'' data, tr_client_version = jget ''client_version'' data,
      tr_wire_version = str_or_empty ''wire_version'' data, tr_capture_source = None, tr_proxy_usage = None,
      tr_extract_profile = None, tr_local_date = None, tr_platform = None, tr_meeting = None, tr_consent = None\<rparr>"

definition is_meeting :: "jval \<Rightarrow> bool" where
  "is_meeting data \<longleftrightarrow> str_field ''capture_source'' data = Some ''meeting_captions''"

definition transcript_row_of :: "ingest_env \<Rightarrow> jval list \<Rightarrow> jval \<Rightarrow> transcript_row" where
  "transcript_row_of env content data =
     (base_row env (''claude-code-'' @ str_or_empty ''event'' data) content data)
       \<lparr>tr_capture_source := jget ''capture_source'' data, tr_proxy_usage := jget ''proxy_usage'' data,
        tr_extract_profile := (case str_field ''extract_profile'' data of
            Some p \<Rightarrow> Some p | None \<Rightarrow> if is_meeting data then Some ''conversational'' else None),
        tr_local_date := Some (take 10 (str_or_empty ''captured_at'' data)),
        tr_platform := jget ''platform'' data, tr_meeting := jget ''meeting_id'' data,
        tr_consent := bool_column (jget ''consent_disclosed'' data)\<rparr>"

text \<open>The transaction: claim the key, session, transcript, redaction log, job, key. It commits as a whole.\<close>

definition ingest_tx ::
  "ingest_env \<Rightarrow> string option \<Rightarrow> string \<Rightarrow> session_row \<Rightarrow> transcript_row \<Rightarrow> string list \<Rightarrow> job_kind \<Rightarrow> ingest_db \<Rightarrow>
   ingest_error + ingest_db" where
  "ingest_tx env key h sess row types k d =
     (case claim_if key h (ie_now env) d of
        Inl e \<Rightarrow> Inl e
      | Inr d1 \<Rightarrow>
          (case insert_transcript row (upsert_session sess d1) of
             Inl e \<Rightarrow> Inl e
           | Inr d2 \<Rightarrow>
               (case insert_job_row k (ie_job env) (ie_payload env (tr_id row) (sess_id sess)) (ie_now env)
                       (recordRedactionEvents types (Some (sess_id sess)) (ie_log_now env) d2) of
                  Inl e \<Rightarrow> Inl e
                | Inr d3 \<Rightarrow> Inr (finalize_if key h (tr_id row) (ie_now env) d3))))"

definition ingestCanonicalTranscript ::
  "ingest_env \<Rightarrow> string option option \<Rightarrow> string option \<Rightarrow> jval \<Rightarrow> ingest_db \<Rightarrow>
   ingest_error + (string \<times> string \<times> nat) \<times> ingest_db" where
  "ingestCanonicalTranscript env resolvedRepo key data d =
     (if jget ''kind'' data = Some (V_Str ''events'') \<or> items ''turns'' data = [] then Inl Requires_Turns
      else if is_meeting data \<and> \<not> ie_meetings env then Inl MeetingCaptionsDisabled
      else (let redacted = map (redact_turn (ie_redact env)) (items ''turns'' data);
                types = concat (map snd redacted);
                h = ie_hash env (stableStringify data);
                repo = (case resolvedRepo of Some r \<Rightarrow> r
                        | None \<Rightarrow> deriveRepoFromCwd (ie_git env) (str_field ''cwd'' data))
            in case ingest_tx env key h (session_of env repo data) (transcript_row_of env (map fst redacted) data)
                      types Distill d of
                 Inl e \<Rightarrow> Inl e
               | Inr d1 \<Rightarrow> Inr ((ie_transcript env, ie_job env, length types), d1)))"

definition ingest_events ::
  "ingest_env \<Rightarrow> string option \<Rightarrow> jval \<Rightarrow> ingest_db \<Rightarrow> ingest_error + (string \<times> string \<times> nat) \<times> ingest_db" where
  "ingest_events env key data d =
     (let redacted = map (redact_event (ie_redact env)) (items ''events'' data);
          types = concat (map snd redacted);
          h = ie_hash env (stableStringify data);
          label = (case truthy (str_field ''tool'' data) of Some t \<Rightarrow> t @ ''-events'' | None \<Rightarrow> ''events'');
          repo = deriveRepoFromCwd (ie_git env) (str_field ''cwd'' data)
      in case ingest_tx env key h (session_of env repo data) (base_row env label (map fst redacted) data)
                types Distill_Events d of
           Inl e \<Rightarrow> Inl e
         | Inr d1 \<Rightarrow> Inr ((ie_transcript env, ie_job env, length types), d1))"

definition ingest_legacy :: "ingest_env \<Rightarrow> jval \<Rightarrow> ingest_db \<Rightarrow> ingest_error + ingest_db" where
  "ingest_legacy env data d =
     (let (content, types) = ie_redact env (str_or_empty ''content'' data);
          sid = str_or_empty ''session_id'' data;
          repo = str_field ''repo'' data;
          sess = \<lparr>sess_id = sid, sess_repo = repo,
                  sess_project = fst (reconcileIngestProject (str_field ''project'' data) None repo),
                  sess_branch = str_field ''branch'' data, sess_agent = str_field ''agent'' data,
                  sess_cwd = None, sess_started = ie_now env\<rparr>;
          row = \<lparr>tr_id = ie_transcript env, tr_session = sid, tr_source = str_or_empty ''source'' data,
                 tr_content = Raw_Text content, tr_ingested = ie_now env, tr_event = None, tr_captured = None,
                 tr_scrub_applied = None, tr_scrub_hits = None, tr_scrub_version = None, tr_scrub_by_label = None,
                 tr_client_version = None, tr_wire_version = ''v0.0'', tr_capture_source = None,
                 tr_proxy_usage = None, tr_extract_profile = None, tr_local_date = None, tr_platform = None,
                 tr_meeting = None, tr_consent = None\<rparr>
      in ingest_tx env None [] sess row types Distill d)"

section \<open>The route\<close>

datatype ingest_response =
    Invalid bool "issue list"
  | Ingested string string nat "string list"
  | Replayed "string option"
  | Conflict_409 string
  | Captions_Disabled
  | Legacy_Ok
  | Server_Error

definition ALL_ATOM_TYPES :: "string list" where
  "ALL_ATOM_TYPES = [''decision'', ''fact'', ''lesson'', ''command'', ''todo'', ''note'', ''event'']"

text \<open>The answer to a refused transaction; a constraint violation is answered as a replay.\<close>

definition refusal :: "string option \<Rightarrow> ingest_error \<Rightarrow> ingest_db \<Rightarrow> ingest_response" where
  "refusal key e d =
     (case e of
        IdempotentReplay t \<Rightarrow> Replayed t
      | IdempotencyConflict k \<Rightarrow> Conflict_409 k
      | MeetingCaptionsDisabled \<Rightarrow> Captions_Disabled
      | Requires_Turns \<Rightarrow> Server_Error
      | Sqlite_Constraint \<Rightarrow>
          Replayed (case get_row idem_key (case key of None \<Rightarrow> [] | Some k \<Rightarrow> k) (idempotency d) of
                      None \<Rightarrow> None | Some r \<Rightarrow> idem_target r))"

definition post_ingest ::
  "(string \<Rightarrow> bool) \<Rightarrow> ingest_env \<Rightarrow> string option \<Rightarrow> jval \<Rightarrow> ingest_db \<Rightarrow> ingest_response \<times> ingest_db" where
  "post_ingest isodate env key body d =
     (case parseIngestBody isodate body of
        Inl issues \<Rightarrow> (Invalid (looksCanonical body) issues, d)
      | Inr data \<Rightarrow>
          (if isCanonical data
           then (if jget ''kind'' data = Some (V_Str ''events'')
                 then (case ingest_events env key data d of
                         Inl e \<Rightarrow> (refusal key e d, d)
                       | Inr ((t, j, n), d1) \<Rightarrow>
                           (Ingested t j n (rev (remdups (rev (map (str_or_empty ''type'') (items ''events'' data))))), d1))
                 else (case ingestCanonicalTranscript env (Some (deriveRepoFromCwd (ie_git env) (str_field ''cwd'' data))) key data d of
                         Inl e \<Rightarrow> (refusal key e d, d)
                       | Inr ((t, j, n), d1) \<Rightarrow> (Ingested t j n ALL_ATOM_TYPES, d1)))
           else (case ingest_legacy env data d of Inl e \<Rightarrow> (Server_Error, d) | Inr d1 \<Rightarrow> (Legacy_Ok, d1))))"

section \<open>Operations and the invariant\<close>

datatype ingest_op =
    Post "string \<Rightarrow> bool" ingest_env "string option" jval
  | Drain_One ingest_env string jval
  | Backfill string string
  | Prune int epoch_ms
  | Memories_Become store

fun ingest_step :: "ingest_op \<Rightarrow> ingest_db \<Rightarrow> ingest_db" where
  "ingest_step (Post isodate env key body) d = snd (post_ingest isodate env key body d)"
| "ingest_step (Drain_One env key data) d =
     commit d (case ingestCanonicalTranscript env None (Some key) data d of Inl e \<Rightarrow> Inl e | Inr (_, d1) \<Rightarrow> Inr d1)"
| "ingest_step (Backfill t m) d = backfillSummaryMemoryId t m d"
| "ingest_step (Prune days now) d = snd (pruneIngestIdempotency days now d)"
| "ingest_step (Memories_Become s) d = d\<lparr>in_store := s\<rparr>"

text \<open>No identifier is the placeholder of a claimed key.\<close>

fun fresh_enough :: "ingest_op \<Rightarrow> bool" where
  "fresh_enough (Post isodate env key body) \<longleftrightarrow> ie_transcript env \<noteq> PENDING_TARGET"
| "fresh_enough (Drain_One env key data) \<longleftrightarrow> ie_transcript env \<noteq> PENDING_TARGET"
| "fresh_enough (Backfill t m) \<longleftrightarrow> m \<noteq> PENDING_TARGET"
| "fresh_enough _ \<longleftrightarrow> True"

definition ingest_inv :: "ingest_db \<Rightarrow> bool" where
  "ingest_inv d \<longleftrightarrow>
     distinct (map tr_id (transcripts d)) \<and> distinct (map sess_id (sessions d)) \<and>
     distinct (map idem_key (idempotency d)) \<and> distinct (map job_id (in_jobs d)) \<and>
     tr_session ` set (transcripts d) \<subseteq> sess_id ` set (sessions d) \<and>
     Some PENDING_TARGET \<notin> idem_target ` set (idempotency d)"

interpretation idem_rows: keyed_rows idem_key .
interpretation transcript_rows: keyed_rows tr_id .
interpretation session_rows: keyed_rows sess_id .

lemma upsert_session_tables [simp]:
  "transcripts (upsert_session r d) = transcripts d" "idempotency (upsert_session r d) = idempotency d"
  "in_store (upsert_session r d) = in_store d" "in_jobs (upsert_session r d) = in_jobs d"
  by (simp_all add: upsert_session_def)

lemma insert_idempotency_tables [simp]:
  "transcripts (insert_idempotency k h t now d) = transcripts d" "sessions (insert_idempotency k h t now d) = sessions d"
  "in_store (insert_idempotency k h t now d) = in_store d" "in_jobs (insert_idempotency k h t now d) = in_jobs d"
  "redaction_log (insert_idempotency k h t now d) = redaction_log d"
  by (simp_all add: insert_idempotency_def)

lemma delete_idempotency_tables [simp]:
  "transcripts (delete_idempotency k d) = transcripts d" "sessions (delete_idempotency k d) = sessions d"
  "in_store (delete_idempotency k d) = in_store d" "in_jobs (delete_idempotency k d) = in_jobs d"
  "redaction_log (delete_idempotency k d) = redaction_log d"
  by (simp_all add: delete_idempotency_def)

lemma finalize_if_tables [simp]:
  "transcripts (finalize_if key h t now d) = transcripts d" "sessions (finalize_if key h t now d) = sessions d"
  "in_store (finalize_if key h t now d) = in_store d" "in_jobs (finalize_if key h t now d) = in_jobs d"
  "redaction_log (finalize_if key h t now d) = redaction_log d"
  by (simp_all add: finalize_if_def finalizeIdempotencySlot_def split: option.splits)

lemma recordRedactionEvents_tables [simp]:
  "transcripts (recordRedactionEvents ts s now d) = transcripts d" "sessions (recordRedactionEvents ts s now d) = sessions d"
  "in_store (recordRedactionEvents ts s now d) = in_store d" "in_jobs (recordRedactionEvents ts s now d) = in_jobs d"
  "idempotency (recordRedactionEvents ts s now d) = idempotency d"
  by (simp_all add: recordRedactionEvents_def)

lemma claim_tables:
  assumes "claim_if key h now d = Inr d1"
  shows "transcripts d1 = transcripts d" "sessions d1 = sessions d" "in_store d1 = in_store d" "in_jobs d1 = in_jobs d"
    "redaction_log d1 = redaction_log d"
  using assms
  by (auto simp: claim_if_def claimIdempotencySlot_def Let_def split: option.splits if_splits)

text \<open>What a committed transaction has done.\<close>

lemma ingest_tx_InrD:
  assumes "ingest_tx env key h sess row types k d = Inr d'"
  shows "transcripts d' = transcripts d @ [row]" "tr_id row \<notin> tr_id ` set (transcripts d)"
    "sessions d' = sessions (upsert_session sess d)" "in_store d' = in_store d"
    "ie_job env \<notin> job_id ` set (in_jobs d)"
    "in_jobs d' = in_jobs d @ [\<lparr>job_id = ie_job env, kind = k, payload_json = ie_payload env (tr_id row) (sess_id sess),
       state = Pending, attempts = 0, last_error = None, priority = JOBS_PRIORITY_COLUMN_DEFAULT,
       created_at = ie_now env, updated_at = ie_now env\<rparr>]"
    "\<exists>d1. claim_if key h (ie_now env) d = Inr d1 \<and>
       idempotency d' = idempotency (finalize_if key h (tr_id row) (ie_now env) d1)"
proof -
  from assms obtain d1 d2 d3 where d1: "claim_if key h (ie_now env) d = Inr d1"
    and d2: "insert_transcript row (upsert_session sess d1) = Inr d2"
    and d3: "insert_job_row k (ie_job env) (ie_payload env (tr_id row) (sess_id sess)) (ie_now env)
               (recordRedactionEvents types (Some (sess_id sess)) (ie_log_now env) d2) = Inr d3"
    and d': "d' = finalize_if key h (tr_id row) (ie_now env) d3"
    by (auto simp: ingest_tx_def split: sum.splits)
  note t1 = claim_tables[OF d1]
  have t2: "d2 = (upsert_session sess d1)\<lparr>transcripts := transcripts d1 @ [row]\<rparr>" "get_row tr_id (tr_id row) (transcripts d1) = None"
    using d2 by (auto simp: insert_transcript_def split: if_splits)
  have t3: "d3 = (recordRedactionEvents types (Some (sess_id sess)) (ie_log_now env) d2)\<lparr>in_jobs := in_jobs d2 @
      [\<lparr>job_id = ie_job env, kind = k, payload_json = ie_payload env (tr_id row) (sess_id sess),
       state = Pending, attempts = 0, last_error = None, priority = JOBS_PRIORITY_COLUMN_DEFAULT,
       created_at = ie_now env, updated_at = ie_now env\<rparr>]\<rparr>" "get_row job_id (ie_job env) (in_jobs d2) = None"
    using d3 by (auto simp: insert_job_row_def split: if_splits)
  show "transcripts d' = transcripts d @ [row]" using t1 t2 t3 d' by simp
  show "tr_id row \<notin> tr_id ` set (transcripts d)" using t2(2) t1 by (simp add: get_row_None_iff)
  show "sessions d' = sessions (upsert_session sess d)" using t1 t2 t3 d' by (simp add: upsert_session_def)
  show "in_store d' = in_store d" using t1 t2 t3 d' by simp
  show "ie_job env \<notin> job_id ` set (in_jobs d)" using t3(2) t1 t2 by (simp add: get_row_None_iff)
  show "in_jobs d' = in_jobs d @ [\<lparr>job_id = ie_job env, kind = k, payload_json = ie_payload env (tr_id row) (sess_id sess),
       state = Pending, attempts = 0, last_error = None, priority = JOBS_PRIORITY_COLUMN_DEFAULT,
       created_at = ie_now env, updated_at = ie_now env\<rparr>]" using t1 t2 t3 d' by simp
  have "idempotency d3 = idempotency d1" using t2 t3 by simp
  then have "idempotency d' = idempotency (finalize_if key h (tr_id row) (ie_now env) d1)"
    by (auto simp: d' finalize_if_def finalizeIdempotencySlot_def insert_idempotency_def delete_idempotency_def split: option.splits)
  with d1 show "\<exists>d1. claim_if key h (ie_now env) d = Inr d1 \<and>
       idempotency d' = idempotency (finalize_if key h (tr_id row) (ie_now env) d1)" by blast
qed

text \<open>The row of a key after the transaction, and the rows of the other keys.\<close>

lemma get_insert_idempotency:
  "get_row idem_key l (idempotency (insert_idempotency k h t now d)) =
     (case get_row idem_key l (idempotency d) of
        Some r \<Rightarrow> Some r
      | None \<Rightarrow> if l = k then Some \<lparr>idem_key = k, idem_hash = h, idem_target = Some t, idem_created = now\<rparr> else None)"
  by (auto simp: insert_idempotency_def get_row_append split: option.splits)

lemma get_delete_idempotency:
  "get_row idem_key l (idempotency (delete_idempotency k d)) = (if l = k then None else get_row idem_key l (idempotency d))"
  by (simp add: delete_idempotency_def idem_rows.get_delete_key)

lemma get_finalized:
  "get_row idem_key l (idempotency (finalize_if (Some k) h t now d)) =
     (if l = k then Some \<lparr>idem_key = k, idem_hash = h, idem_target = Some t, idem_created = now\<rparr>
      else get_row idem_key l (idempotency d))"
  by (auto simp: finalize_if_def finalizeIdempotencySlot_def get_insert_idempotency get_delete_idempotency split: option.splits)

lemma claim_other:
  assumes "claim_if key h now d = Inr d1" and "key \<noteq> Some l"
  shows "get_row idem_key l (idempotency d1) = get_row idem_key l (idempotency d)"
proof (cases key)
  case None
  with assms show ?thesis by (simp add: claim_if_def)
next
  case (Some k)
  with assms have "l \<noteq> k" by auto
  with assms Some show ?thesis
    by (auto simp: claim_if_def claimIdempotencySlot_def Let_def get_insert_idempotency get_delete_idempotency
        split: option.splits if_splits)
qed

lemma tx_other_key:
  assumes "ingest_tx env key h sess row types k d = Inr d'" and "key \<noteq> Some l"
  shows "get_row idem_key l (idempotency d') = get_row idem_key l (idempotency d)"
proof -
  from ingest_tx_InrD(7)[OF assms(1)] obtain d1 where d1: "claim_if key h (ie_now env) d = Inr d1"
    and i: "idempotency d' = idempotency (finalize_if key h (tr_id row) (ie_now env) d1)" by blast
  have "get_row idem_key l (idempotency d') = get_row idem_key l (idempotency d1)"
  proof (cases key)
    case None
    with i show ?thesis by (simp add: finalize_if_def)
  next
    case (Some k')
    with assms(2) i show ?thesis by (simp add: get_finalized)
  qed
  with claim_other[OF d1 assms(2)] show ?thesis by simp
qed

lemma ingest_row_id [simp]:
  "tr_id (base_row env src content data) = ie_transcript env" "tr_session (base_row env src content data) = str_or_empty ''session_id'' data"
  "tr_id (transcript_row_of env content data) = ie_transcript env"
  "tr_session (transcript_row_of env content data) = str_or_empty ''session_id'' data"
  "sess_id (session_of env repo data) = str_or_empty ''session_id'' data"
  by (simp_all add: base_row_def transcript_row_of_def session_of_def)

text \<open>Every way of ingesting is one such transaction.\<close>

lemma ingest_is_tx:
  assumes "ingestCanonicalTranscript env repo key data d = Inr (res, d')"
  obtains sess row types where "ingest_tx env key (ie_hash env (stableStringify data)) sess row types Distill d = Inr d'"
    "tr_id row = ie_transcript env" "tr_session row = sess_id sess" "res = (ie_transcript env, ie_job env, length types)"
  using assms
  by (auto simp: ingestCanonicalTranscript_def Let_def split: if_splits sum.splits intro: that)

lemma events_is_tx:
  assumes "ingest_events env key data d = Inr (res, d')"
  obtains sess row types where "ingest_tx env key (ie_hash env (stableStringify data)) sess row types Distill_Events d = Inr d'"
    "tr_id row = ie_transcript env" "tr_session row = sess_id sess" "res = (ie_transcript env, ie_job env, length types)"
  using assms
  by (auto simp: ingest_events_def Let_def split: sum.splits intro: that)

lemma legacy_is_tx:
  assumes "ingest_legacy env data d = Inr d'"
  obtains sess row types where "ingest_tx env None [] sess row types Distill d = Inr d'"
    "tr_id row = ie_transcript env" "tr_session row = sess_id sess"
  using assms
  by (auto simp: ingest_legacy_def Let_def case_prod_beta intro: that)

lemma post_cases:
  obtains "snd (post_ingest isodate env key body d) = d"
  | k h sess row types kd where "ingest_tx env k h sess row types kd d = Inr (snd (post_ingest isodate env key body d))"
      "tr_id row = ie_transcript env" "tr_session row = sess_id sess" "k = key \<or> k = None"
proof (cases "parseIngestBody isodate body")
  case (Inl a)
  then show thesis using that(1) by (simp add: post_ingest_def)
next
  case (Inr data)
  show thesis
  proof (cases "isCanonical data")
    case True
    show thesis
    proof (cases "jget ''kind'' data = Some (V_Str ''events'')")
      case ev: True
      show thesis
      proof (cases "ingest_events env key data d")
        case (Inl e)
        then show thesis using that(1) Inr True ev by (simp add: post_ingest_def)
      next
        case (Inr r)
        obtain res d' where r: "r = (res, d')" by (cases r)
        from events_is_tx[OF Inr[unfolded r]] obtain sess row types where
          tx: "ingest_tx env key (ie_hash env (stableStringify data)) sess row types Distill_Events d = Inr d'"
            "tr_id row = ie_transcript env" "tr_session row = sess_id sess" by metis
        have "snd (post_ingest isodate env key body d) = d'"
          using \<open>parseIngestBody isodate body = Inr data\<close> True ev Inr r
          by (simp add: post_ingest_def case_prod_beta)
        with tx show thesis using that(2) by metis
      qed
    next
      case tr: False
      let ?r = "Some (deriveRepoFromCwd (ie_git env) (str_field ''cwd'' data))"
      show thesis
      proof (cases "ingestCanonicalTranscript env ?r key data d")
        case (Inl e)
        then show thesis using that(1) Inr True tr by (simp add: post_ingest_def)
      next
        case (Inr r)
        obtain res d' where r: "r = (res, d')" by (cases r)
        from ingest_is_tx[OF Inr[unfolded r]] obtain sess row types where
          tx: "ingest_tx env key (ie_hash env (stableStringify data)) sess row types Distill d = Inr d'"
            "tr_id row = ie_transcript env" "tr_session row = sess_id sess" by metis
        have "snd (post_ingest isodate env key body d) = d'"
          using \<open>parseIngestBody isodate body = Inr data\<close> True tr Inr r
          by (simp add: post_ingest_def case_prod_beta)
        with tx show thesis using that(2) by metis
      qed
    qed
  next
    case False
    show thesis
    proof (cases "ingest_legacy env data d")
      case (Inl e)
      then show thesis using that(1) Inr False by (simp add: post_ingest_def)
    next
      case (Inr d')
      from legacy_is_tx[OF Inr] obtain sess row types where
        tx: "ingest_tx env None [] sess row types Distill d = Inr d'"
          "tr_id row = ie_transcript env" "tr_session row = sess_id sess" by metis
      have "snd (post_ingest isodate env key body d) = d'"
        using \<open>parseIngestBody isodate body = Inr data\<close> False Inr by (simp add: post_ingest_def)
      with tx show thesis using that(2) by metis
    qed
  qed
qed

lemma drain_cases:
  obtains "ingest_step (Drain_One env key data) d = d"
  | h sess row types where "ingest_tx env (Some key) h sess row types Distill d = Inr (ingest_step (Drain_One env key data) d)"
      "tr_id row = ie_transcript env" "tr_session row = sess_id sess"
proof (cases "ingestCanonicalTranscript env None (Some key) data d")
  case (Inl e)
  then show thesis using that(1) by simp
next
  case (Inr r)
  obtain res d' where r: "r = (res, d')" by (cases r)
  from ingest_is_tx[OF Inr[unfolded r]] show thesis using that(2) Inr r by (metis ingest_step.simps(2) commit_simps(2) old.prod.case sum.case(2))
qed

lemma upsert_session_keys:
  "map sess_id (sessions (upsert_session r d)) =
     (if sess_id r \<in> sess_id ` set (sessions d) then map sess_id (sessions d) else map sess_id (sessions d) @ [sess_id r])"
  by (simp add: upsert_session_def get_row_None_iff session_rows.keys_update)

lemma claim_keys:
  assumes "claim_if key h now d = Inr d1" and "distinct (map idem_key (idempotency d))"
  shows "distinct (map idem_key (idempotency d1))"
  using assms
  by (auto simp: claim_if_def claimIdempotencySlot_def Let_def insert_idempotency_def delete_idempotency_def get_row_None_iff
      idem_rows.distinct_delete image_iff set_delete_rows split: option.splits if_splits)

lemma claim_pending:
  assumes "claim_if key h now d = Inr d1" and "Some PENDING_TARGET \<notin> idem_target ` set (idempotency d)"
    and "distinct (map idem_key (idempotency d))"
    and "r \<in> set (idempotency d1)" and "idem_target r = Some PENDING_TARGET"
  shows "key = Some (idem_key r)"
proof (rule ccontr)
  assume "key \<noteq> Some (idem_key r)"
  from claim_other[OF assms(1) this] have "get_row idem_key (idem_key r) (idempotency d) = Some r"
    using idem_rows.get_in[OF claim_keys[OF assms(1,3)] assms(4)] by simp
  with assms(2,5) show False by (metis get_row_SomeD image_eqI)
qed

lemma tx_inv:
  assumes "ingest_tx env key h sess row types k d = Inr d'" and "ingest_inv d"
    and "tr_session row = sess_id sess" and "tr_id row \<noteq> PENDING_TARGET"
  shows "ingest_inv d'"
proof -
  note tx = ingest_tx_InrD[OF assms(1)]
  from assms(2) have inv: "distinct (map tr_id (transcripts d))" "distinct (map sess_id (sessions d))"
     "distinct (map idem_key (idempotency d))" "distinct (map job_id (in_jobs d))"
     "tr_session ` set (transcripts d) \<subseteq> sess_id ` set (sessions d)"
     "Some PENDING_TARGET \<notin> idem_target ` set (idempotency d)" by (auto simp: ingest_inv_def)
  have keys: "sess_id ` set (sessions d') = insert (sess_id sess) (sess_id ` set (sessions d))"
    and sd: "distinct (map sess_id (sessions d'))"
    using inv(2) upsert_session_keys[of sess d] unfolding tx(3) set_map[symmetric] by (auto split: if_splits)
  from tx(7) obtain d1 where d1: "claim_if key h (ie_now env) d = Inr d1"
    and i: "idempotency d' = idempotency (finalize_if key h (tr_id row) (ie_now env) d1)" by blast
  have k1: "distinct (map idem_key (idempotency d1))" by (rule claim_keys[OF d1 inv(3)])
  have "distinct (map idem_key (idempotency d'))" and "Some PENDING_TARGET \<notin> idem_target ` set (idempotency d')"
  proof -
    show "distinct (map idem_key (idempotency d'))"
      using k1 by (auto simp: i finalize_if_def finalizeIdempotencySlot_def insert_idempotency_def delete_idempotency_def
        get_row_None_iff idem_rows.distinct_delete set_delete_rows image_iff split: option.splits)
    show "Some PENDING_TARGET \<notin> idem_target ` set (idempotency d')"
    proof
      assume "Some PENDING_TARGET \<in> idem_target ` set (idempotency d')"
      then obtain r where r: "r \<in> set (idempotency d')" "idem_target r = Some PENDING_TARGET" by force
      show False
      proof (cases key)
        case None
        with r(1) i have "r \<in> set (idempotency d1)" by (simp add: finalize_if_def)
        from claim_pending[OF d1 inv(6,3) this r(2)] None show False by simp
      next
        case (Some k')
        have g: "get_row idem_key (idem_key r) (idempotency d') = Some r"
          using idem_rows.get_in[OF \<open>distinct (map idem_key (idempotency d'))\<close> r(1)] .
        show False
        proof (cases "idem_key r = k'")
          case True
          with g i Some r(2) assms(4) show False by (auto simp: get_finalized)
        next
          case False
          with g i Some have "get_row idem_key (idem_key r) (idempotency d1) = Some r" by (simp add: get_finalized)
          from get_row_SomeD[OF this] claim_pending[OF d1 inv(6,3) _ r(2)] Some False show False by auto
        qed
      qed
    qed
  qed
  then show ?thesis
    using inv(1,4,5) tx(1,2,5,6) keys sd assms(3) by (auto simp: ingest_inv_def)
qed

lemma step_inv: "ingest_inv d \<Longrightarrow> fresh_enough a \<Longrightarrow> ingest_inv (ingest_step a d)"
proof (cases a)
  case (Post isodate env key body)
  assume i: "ingest_inv d" and f: "fresh_enough a"
  show ?thesis
    by (rule post_cases[of isodate env key body d]) (use i f Post in \<open>auto intro: tx_inv\<close>)
next
  case (Drain_One env key data)
  assume i: "ingest_inv d" and f: "fresh_enough a"
  show ?thesis
    by (rule drain_cases[of env key data d]) (use i f Drain_One in \<open>auto simp del: ingest_step.simps intro: tx_inv\<close>)
next
  case (Backfill t m)
  assume i: "ingest_inv d" and f: "fresh_enough a"
  then show ?thesis using Backfill
    by (auto simp: ingest_inv_def backfillSummaryMemoryId_def idem_rows.keys_update set_update_rows split: if_splits)
next
  case (Prune days now)
  assume i: "ingest_inv d" and f: "fresh_enough a"
  then show ?thesis using Prune
    by (auto simp: ingest_inv_def pruneIngestIdempotency_def Let_def idem_rows.distinct_delete)
next
  case (Memories_Become s)
  assume i: "ingest_inv d" and f: "fresh_enough a"
  then show ?thesis using Memories_Become by (simp add: ingest_inv_def)
qed

definition checked_step :: "ingest_op \<Rightarrow> ingest_db \<Rightarrow> ingest_db" where
  "checked_step a d = (if fresh_enough a then ingest_step a d else d)"

interpretation ingest: op_system ingest_inv checked_step
  by unfold_locales (simp add: checked_step_def step_inv)

section \<open>A key is ingested once\<close>

text \<open>The key has been ingested with this body, and what came of it is still there.\<close>

definition answered :: "string \<Rightarrow> string \<Rightarrow> ingest_db \<Rightarrow> bool" where
  "answered k h d \<longleftrightarrow>
     (case get_row idem_key k (idempotency d) of
        None \<Rightarrow> False
      | Some row \<Rightarrow> idem_hash row = h \<and> idem_target row \<noteq> Some PENDING_TARGET \<and> target_exists (idem_target row) d)"

text \<open>
  What the other operations must not do to it: the row is not pruned, a backfill names a memory that
  exists, and the memory it names is not removed.
\<close>

fun harmless :: "string \<Rightarrow> ingest_op \<Rightarrow> ingest_db \<Rightarrow> bool" where
  "harmless k (Backfill t m) d \<longleftrightarrow> get_memory m (in_store d) \<noteq> None"
| "harmless k (Prune days now) d \<longleftrightarrow>
     (case get_row idem_key k (idempotency d) of None \<Rightarrow> True | Some r \<Rightarrow> now - days * day_ms \<le> idem_created r)"
| "harmless k (Memories_Become s) d \<longleftrightarrow>
     (case get_row idem_key k (idempotency d) of None \<Rightarrow> True | Some r \<Rightarrow> target_exists (idem_target r) (d\<lparr>in_store := s\<rparr>))"
| "harmless k _ d \<longleftrightarrow> True"

fun undisturbed :: "string \<Rightarrow> ingest_op list \<Rightarrow> ingest_db \<Rightarrow> bool" where
  "undisturbed k [] d \<longleftrightarrow> True"
| "undisturbed k (a # as) d \<longleftrightarrow> fresh_enough a \<and> harmless k a d \<and> undisturbed k as (ingest_step a d)"

lemma answered_claim:
  assumes "answered k h d"
  shows "\<exists>t. claimIdempotencySlot k h' now d = Inl (if h' = h then IdempotentReplay t else IdempotencyConflict k)"
proof -
  from assms obtain row where r: "get_row idem_key k (idempotency d) = Some row" "idem_hash row = h"
    "idem_target row \<noteq> Some PENDING_TARGET" "target_exists (idem_target row) d"
    by (auto simp: answered_def split: option.splits)
  then have "insert_idempotency k h' PENDING_TARGET now d = d" by (simp add: insert_idempotency_def)
  with r show ?thesis by (auto simp: claimIdempotencySlot_def Let_def)
qed

lemma answered_tx: "answered k h d \<Longrightarrow> ingest_tx env (Some k) h' sess row types kd d \<noteq> Inr d'"
  using answered_claim[of k h d h' "ie_now env"] by (auto simp: ingest_tx_def claim_if_def)

lemma tx_answered:
  assumes "ingest_tx env key h sess row types kd d = Inr d'" and "answered k h' d"
  shows "answered k h' d'"
proof -
  have "key \<noteq> Some k" using answered_tx[OF assms(2)] assms(1) by blast
  from tx_other_key[OF assms(1) this] ingest_tx_InrD(1,4)[OF assms(1)] assms(2) show ?thesis
    by (auto simp: answered_def target_exists_def get_row_append split: option.splits)
qed

lemma step_answered:
  assumes "answered k h d" and "fresh_enough a" and "harmless k a d" and "ingest_inv d"
  shows "answered k h (ingest_step a d)"
proof (cases a)
  case (Post isodate env key body)
  show ?thesis by (rule post_cases[of isodate env key body d]) (use Post assms in \<open>auto intro: tx_answered\<close>)
next
  case (Drain_One env key data)
  show ?thesis
    by (rule drain_cases[of env key data d]) (use Drain_One assms in \<open>auto simp del: ingest_step.simps intro: tx_answered\<close>)
next
  case (Backfill t m)
  with assms show ?thesis
    by (auto simp: answered_def backfillSummaryMemoryId_def target_exists_def idem_rows.get_update split: option.splits)
next
  case (Prune days now)
  with assms show ?thesis
    by (auto simp: answered_def pruneIngestIdempotency_def Let_def target_exists_def ingest_inv_def idem_rows.get_delete
        split: option.splits)
next
  case (Memories_Become s)
  with assms show ?thesis by (auto simp: answered_def split: option.splits)
qed

lemma run_answered:
  "answered k h d \<Longrightarrow> ingest_inv d \<Longrightarrow> undisturbed k as d \<Longrightarrow>
   answered k h (fold ingest_step as d) \<and> ingest_inv (fold ingest_step as d)"
  by (induction as arbitrary: d) (simp_all add: step_answered step_inv)

lemma tx_answers:
  assumes "ingest_tx env (Some k) h sess row types kd d = Inr d'" and "tr_id row \<noteq> PENDING_TARGET"
  shows "answered k h d'"
proof -
  from ingest_tx_InrD(7)[OF assms(1)] obtain d1 where
    i: "idempotency d' = idempotency (finalize_if (Some k) h (tr_id row) (ie_now env) d1)" by blast
  have "get_row tr_id (tr_id row) (transcripts d') \<noteq> None"
    using ingest_tx_InrD(1)[OF assms(1)] by (simp add: get_row_None_iff)
  with i assms(2) show ?thesis by (simp add: answered_def get_finalized target_exists_def)
qed

lemma step_keeps_transcripts: "tr_id ` set (transcripts d) \<subseteq> tr_id ` set (transcripts (ingest_step a d))"
proof (cases a)
  case (Post isodate env key body)
  show ?thesis
    by (rule post_cases[of isodate env key body d]) (use Post in \<open>auto dest!: ingest_tx_InrD(1)\<close>)
next
  case (Drain_One env key data)
  show ?thesis
    by (rule drain_cases[of env key data d]) (use Drain_One in \<open>auto simp del: ingest_step.simps dest!: ingest_tx_InrD(1)\<close>)
qed (simp_all add: backfillSummaryMemoryId_def pruneIngestIdempotency_def Let_def)

lemma run_keeps_transcripts: "tr_id ` set (transcripts d) \<subseteq> tr_id ` set (transcripts (fold ingest_step as d))"
  using step_keeps_transcripts by (induction as arbitrary: d) (simp_all, blast)

text \<open>
  C9: An envelope is ingested once per idempotency key. After a first success, whatever else is
  ingested, backfilled, pruned or changed among the memories - as long as the key's row and the row it
  names survive - the same body is answered as a replay and another body as a conflict, nothing is
  stored, and the transcript of the first ingest is still there.
\<close>

theorem a_key_is_ingested_once:
  assumes "ingest_inv d" and "ingestCanonicalTranscript env repo (Some k) data d = Inr ((t, j, n), d1)"
    and "ie_transcript env \<noteq> PENDING_TARGET" and "undisturbed k ops d1"
  shows "t \<in> tr_id ` set (transcripts (fold ingest_step ops d1)) \<and>
    (case ingestCanonicalTranscript env' repo' (Some k) data' (fold ingest_step ops d1) of
       Inr _ \<Rightarrow> False
     | Inl e \<Rightarrow> e = Requires_Turns \<or> e = MeetingCaptionsDisabled \<or>
         (if ie_hash env' (stableStringify data') = ie_hash env (stableStringify data)
          then (\<exists>t'. e = IdempotentReplay t') else e = IdempotencyConflict k))"
proof -
  let ?h = "ie_hash env (stableStringify data)" and ?d2 = "fold ingest_step ops d1"
  from ingest_is_tx[OF assms(2)] obtain sess row types where
    tx: "ingest_tx env (Some k) ?h sess row types Distill d = Inr d1" and id: "tr_id row = ie_transcript env"
      "tr_session row = sess_id sess" "t = ie_transcript env" by (metis Pair_inject)
  have inv: "ingest_inv d1" using tx_inv[OF tx assms(1)] id assms(3) by simp
  have "answered k ?h d1" using tx_answers[OF tx] id assms(3) by simp
  from run_answered[OF this inv assms(4)] have a: "answered k ?h ?d2" by blast
  have "t \<in> tr_id ` set (transcripts d1)" using ingest_tx_InrD(1)[OF tx] id by simp
  then have "t \<in> tr_id ` set (transcripts ?d2)" using run_keeps_transcripts by blast
  moreover from answered_claim[OF a, of "ie_hash env' (stableStringify data')" "ie_now env'"] obtain t' where
    "claim_if (Some k) (ie_hash env' (stableStringify data')) (ie_now env') ?d2 =
       Inl (if ie_hash env' (stableStringify data') = ?h then IdempotentReplay t' else IdempotencyConflict k)"
    by (auto simp: claim_if_def)
  then have "ingest_tx env' (Some k) (ie_hash env' (stableStringify data')) ss rw ts kd ?d2 =
       Inl (if ie_hash env' (stableStringify data') = ?h then IdempotentReplay t' else IdempotencyConflict k)" for ss rw ts kd
    by (simp add: ingest_tx_def)
  then have "case ingestCanonicalTranscript env' repo' (Some k) data' ?d2 of
       Inr _ \<Rightarrow> False
     | Inl e \<Rightarrow> e = Requires_Turns \<or> e = MeetingCaptionsDisabled \<or>
         (if ie_hash env' (stableStringify data') = ?h then (\<exists>t'. e = IdempotentReplay t') else e = IdempotencyConflict k)"
    by (auto simp: ingestCanonicalTranscript_def Let_def)
  ultimately show ?thesis by blast
qed

definition demo_ingest_env :: ingest_env where
  "demo_ingest_env = \<lparr>ie_now = 100, ie_log_now = 100, ie_transcript = ''t1'', ie_job = ''j1'', ie_hash = (\<lambda>_. ''h''),
     ie_redact = (\<lambda>t. (crosses t, [''custom''])), ie_git = (\<lambda>_. None), ie_epoch = (\<lambda>_. 90),
     ie_payload = (\<lambda>t s. t @ '' '' @ s), ie_meetings = False\<rparr>"

definition demo_ingest_db :: ingest_db where
  "demo_ingest_db = \<lparr>in_store = demo_store, in_jobs = [], sessions = [], transcripts = [], idempotency = [], redaction_log = []\<rparr>"

lemma demo_ingest_inv: "ingest_inv demo_ingest_db"
  by (simp add: ingest_inv_def demo_ingest_db_def)

lemma demo_project: "applyProjectOverride (\<lambda>_. None) (demo_data ''key'') = Some ''shop''"
  by (simp add: applyProjectOverride_def demo_data_def str_field_def reconcileIngestProject_def plainBasename_def path_segments_def
    trim_separators_def is_sep_def deriveWorktreeSafeBasename_def worktrees_parent_def truthy_def js_lower_def js_lower_char_def)

lemma demo_ingested: "\<exists>d1. ingestCanonicalTranscript demo_ingest_env None (Some ''k'') (demo_data ''key'') demo_ingest_db = Inr ((''t1'', ''j1'', 1), d1)"
  by (simp add: ingestCanonicalTranscript_def demo_data_def demo_ingest_env_def items_def is_meeting_def str_field_def Let_def
    ingest_tx_def claim_if_def claimIdempotencySlot_def insert_idempotency_def demo_ingest_db_def get_row_append
    insert_transcript_def upsert_session_def insert_job_row_def recordRedactionEvents_def redact_turn_def
    transcript_row_of_def base_row_def case_prod_beta)

theorem a_key_is_ingested_once_witness:
  "\<exists>d1. ingestCanonicalTranscript demo_ingest_env None (Some ''k'') (demo_data ''key'') demo_ingest_db = Inr ((''t1'', ''j1'', 1), d1) \<and>
     ''t1'' \<in> tr_id ` set (transcripts (fold ingest_step [Prune 7 200] d1))"
proof -
  from demo_ingested obtain d1 where
    d1: "ingestCanonicalTranscript demo_ingest_env None (Some ''k'') (demo_data ''key'') demo_ingest_db = Inr ((''t1'', ''j1'', 1), d1)" by blast
  from ingest_is_tx[OF d1] obtain sess row types where
    tx: "ingest_tx demo_ingest_env (Some ''k'') (ie_hash demo_ingest_env (stableStringify (demo_data ''key''))) sess row types Distill demo_ingest_db = Inr d1"
    by metis
  from ingest_tx_InrD(7)[OF tx] obtain d2 where
    i: "idempotency d1 = idempotency (finalize_if (Some ''k'') (ie_hash demo_ingest_env (stableStringify (demo_data ''key''))) (tr_id row) (ie_now demo_ingest_env) d2)"
    by blast
  have u: "undisturbed ''k'' [Prune 7 200] d1"
    by (simp add: i get_finalized demo_ingest_env_def day_ms_def)
  have p: "ie_transcript demo_ingest_env \<noteq> PENDING_TARGET" by (simp add: demo_ingest_env_def PENDING_TARGET_def)
  show ?thesis using d1 a_key_is_ingested_once[OF demo_ingest_inv d1 p u] by blast
qed

section \<open>What a first ingest leaves behind\<close>

lemma coalesce_simps [simp]: "coalesce None y = y" "coalesce (Some v) y = Some v"
  by (simp_all add: coalesce_def)

lemma get_upserted:
  "get_row sess_id i (sessions (upsert_session r d)) =
     (if i = sess_id r
      then Some (case get_row sess_id i (sessions d) of
                   None \<Rightarrow> r
                 | Some x \<Rightarrow> x\<lparr>sess_repo := coalesce (sess_repo r) (sess_repo x), sess_project := coalesce (sess_project r) (sess_project x),
                       sess_branch := coalesce (sess_branch r) (sess_branch x), sess_agent := coalesce (sess_agent r) (sess_agent x),
                       sess_cwd := coalesce (sess_cwd r) (sess_cwd x)\<rparr>)
      else get_row sess_id i (sessions d))"
  by (auto simp: upsert_session_def get_row_append session_rows.get_update_key split: option.splits)



section \<open>Where the code does not do what it says\<close>

text \<open>The gate of meeting captions stands in one of the two paths: an events envelope does not pass it.\<close>

lemma captions_gate_is_skipped_by_events:
  "ingest_events (env\<lparr>ie_meetings := b\<rparr>) key data d = ingest_events env key data d"
proof -
  have "ingest_tx (env\<lparr>ie_meetings := b\<rparr>) k h sess row types kd d = ingest_tx env k h sess row types kd d" for k h sess row types kd
    by (simp add: ingest_tx_def cong: sum.case_cong)
  moreover have "session_of (env\<lparr>ie_meetings := b\<rparr>) = session_of env" "base_row (env\<lparr>ie_meetings := b\<rparr>) = base_row env"
    by (simp_all add: fun_eq_iff session_of_def base_row_def)
  ultimately show ?thesis by (simp add: ingest_events_def Let_def cong: sum.case_cong)
qed

text \<open>
  Once the key points at a memory, removing that memory opens the key again, although the transcript
  is still stored: the same body is ingested a second time.
\<close>

lemma erased_memory_opens_the_key:
  assumes "get_row idem_key k (idempotency d) = Some row" and "idem_target row = Some m" and "m \<noteq> PENDING_TARGET"
    and "get_memory m (in_store d) = None" and "m \<notin> tr_id ` set (transcripts d)"
  shows "\<exists>d1. claimIdempotencySlot k (idem_hash row) now d = Inr d1 \<and> transcripts d1 = transcripts d"
  using assms
  by (simp add: claimIdempotencySlot_def insert_idempotency_def Let_def target_exists_def get_row_None_iff)

text \<open>
  The jobs of the ingest path carry the default priority, not the one of their kind: no consolidation
  yields to them, while a job that \<open>enqueue\<close> inserts makes it yield.
\<close>

lemma ingested_jobs_do_not_preempt:
  assumes "ingestCanonicalTranscript env repo key data d = Inr (res, d')"
  shows "hasPendingAbovePriority (the (JOB_PRIORITY Consolidate)) (in_jobs d') =
         hasPendingAbovePriority (the (JOB_PRIORITY Consolidate)) (in_jobs d)"
proof -
  from ingest_is_tx[OF assms] obtain h sess row types where "ingest_tx env key h sess row types Distill d = Inr d'" by metis
  from ingest_tx_InrD(6)[OF this] show ?thesis
    by (simp add: hasPendingAbovePriority_def JOBS_PRIORITY_COLUMN_DEFAULT_def)
qed

lemma enqueued_jobs_do_preempt:
  "enqueue u now Distill payload js = Inr js' \<Longrightarrow> hasPendingAbovePriority (the (JOB_PRIORITY Consolidate)) js'"
  by (auto simp: enqueue_def hasPendingAbovePriority_def split: if_splits)

text \<open>The order in which a client writes the keys does not change the body's hash.\<close>

lemma stable_ignores_key_order:
  assumes "mset kvs = mset kvs'" and "distinct (map fst kvs)"
  shows "stableStringify (V_Obj kvs) = stableStringify (V_Obj kvs')"
proof -
  define xs where "xs = map (\<lambda>(k, v). (k, stableStringify v)) kvs"
  define ys where "ys = map (\<lambda>(k, v). (k, stableStringify v)) kvs'"
  have m: "mset xs = mset ys" unfolding xs_def ys_def using assms(1) by (metis mset_map)
  have x: "distinct (map fst xs)" using assms(2) by (simp add: xs_def comp_def case_prod_beta)
  have y: "distinct (map fst ys)" using x m by (metis mset_eq_imp_distinct_iff mset_map)
  have "sort_key fst xs = sort_key fst ys"
  proof (rule map_sorted_distinct_set_unique)
    have "set (sort_key fst xs) \<union> set (sort_key fst ys) = set xs" using mset_eq_setD[OF m] by simp
    with x show "inj_on fst (set (sort_key fst xs) \<union> set (sort_key fst ys))" by (simp add: distinct_map)
    have "mset (map fst (sort_key fst xs)) = mset (map fst xs)" "mset (map fst (sort_key fst ys)) = mset (map fst ys)" by simp_all
    with x y show "distinct (map fst (sort_key fst xs))" "distinct (map fst (sort_key fst ys))"
      using mset_eq_imp_distinct_iff by blast+
    show "set (sort_key fst xs) = set (sort_key fst ys)" using mset_eq_setD[OF m] by simp
  qed simp_all
  then show ?thesis by (simp add: xs_def ys_def)
qed

end
