(* ===== verification/Spool.thy ===== *)
theory Spool
  imports Ingest
begin

text \<open>
  The durable spool: \<open>src/src/ingest/spool.ts\<close> (the write under a temporary name, the listing, the
  quarantine, its retention and its redaction, the counters) and \<open>src/src/ingest/spool-drain.ts\<close> (the
  drain tick). A directory is the list of its entries in the order \<open>readdir\<close> gives them; which system
  calls succeed, the clock and \<open>JSON.parse\<close> are parameters of a tick, and each ingest goes through the
  transaction of \<open>Ingest\<close>. The lemmas show that a tick neither loses a file nor keeps a poisoned one
  forever.
\<close>

section \<open>Directories\<close>

record sfile =
  sf_content :: string
  sf_size :: nat
  sf_mtime :: epoch_ms

text \<open>A directory lists its entries in the order \<open>readdir\<close> gives them; \<open>map_of\<close> reads a file.\<close>

type_synonym dir = "(string \<times> sfile) list"

definition dir_del :: "string \<Rightarrow> dir \<Rightarrow> dir" where
  "dir_del n d = filter (\<lambda>(m, _). m \<noteq> n) d"

definition entries :: "dir option \<Rightarrow> dir" where
  "entries d = (case d of None \<Rightarrow> [] | Some es \<Rightarrow> es)"

datatype stats_file = Stats_Missing | Stats_Corrupt | Stats_Saved nat nat

text \<open>
  The spool directory, its \<open>.quarantine\<close> subdirectory (each may be missing), and the counters beside
  the spooled files.
\<close>

record spool_fs =
  spool_files :: "dir option"
  quarantine :: "dir option"
  spool_counters :: stats_file

text \<open>Which system calls succeed, per file name.\<close>

record faults =
  can_stat :: "string \<Rightarrow> bool"
  can_read :: "string \<Rightarrow> bool"
  can_rename :: "string \<Rightarrow> bool"
  can_unlink :: "string \<Rightarrow> bool"
  can_write :: "string \<Rightarrow> bool"

section \<open>The counters\<close>

definition readSpoolStats :: "spool_fs \<Rightarrow> nat \<times> nat \<times> bool" where
  "readSpoolStats fs =
     (case spool_counters fs of
        Stats_Saved a b \<Rightarrow> (a, b, True)
      | _ \<Rightarrow> (0, 0, entries (spool_files fs) = [] \<and> quarantine fs = None))"

definition bump_spooled :: "faults \<Rightarrow> spool_fs \<Rightarrow> spool_fs" where
  "bump_spooled flt fs =
     (let (a, b, _) = readSpoolStats fs
      in if can_write flt ''.stats.json'' then fs\<lparr>spool_counters := Stats_Saved (a + 1) b\<rparr> else fs)"

definition bump_quarantined :: "faults \<Rightarrow> spool_fs \<Rightarrow> spool_fs" where
  "bump_quarantined flt fs =
     (let (a, b, _) = readSpoolStats fs
      in if can_write flt ''.stats.json'' then fs\<lparr>spool_counters := Stats_Saved a (b + 1)\<rparr> else fs)"

section \<open>Writing\<close>

definition spool_name :: "string \<Rightarrow> string" where "spool_name key = key @ ''.json''"

definition is_hex :: "char \<Rightarrow> bool" where
  "is_hex c \<longleftrightarrow> is_digit c \<or> (CHR ''a'' \<le> c \<and> c \<le> CHR ''f'')"

definition digest_ok :: "string \<Rightarrow> bool" where
  "digest_ok key \<longleftrightarrow> length key = 64 \<and> list_all is_hex key"

text \<open>
  The bytes go to a hidden temporary file first; the rename makes them visible. \<open>suffix_id\<close> is the
  process id and the clock of the temporary name, \<open>file\<close> the text of the redacted envelope.
\<close>

definition write_tmp :: "string \<Rightarrow> string \<Rightarrow> sfile \<Rightarrow> spool_fs \<Rightarrow> spool_fs" where
  "write_tmp key suffix_id file fs =
     fs\<lparr>spool_files := Some (obj_set (''.'' @ key @ ''.'' @ suffix_id @ ''.tmp'') file (entries (spool_files fs)))\<rparr>"

definition rename_tmp :: "string \<Rightarrow> string \<Rightarrow> sfile \<Rightarrow> spool_fs \<Rightarrow> spool_fs" where
  "rename_tmp key suffix_id file fs =
     fs\<lparr>spool_files := Some (obj_set (spool_name key) file
           (dir_del (''.'' @ key @ ''.'' @ suffix_id @ ''.tmp'') (entries (spool_files fs))))\<rparr>"

datatype spool_error = Bad_Idempotency_Key string | Write_Failed

definition writeToSpool ::
  "faults \<Rightarrow> string \<Rightarrow> string \<Rightarrow> (jval \<Rightarrow> sfile) \<Rightarrow> (string \<Rightarrow> bool) \<Rightarrow> (string \<Rightarrow> bool) \<Rightarrow> (string \<Rightarrow> string) \<Rightarrow> jval \<Rightarrow>
   spool_fs \<Rightarrow> spool_error option \<times> spool_fs" where
  "writeToSpool flt suffix_id key file_of inherited isodate red body fs =
     (if \<not> digest_ok key then (Some (Bad_Idempotency_Key key), fs)
      else (let file = file_of (redactSpooledEnvelope inherited isodate red body)
            in if \<not> can_write flt (spool_name key) then (Some Write_Failed, fs)
               else (let fs1 = write_tmp key suffix_id file fs
                     in if \<not> can_rename flt (spool_name key) then (Some Write_Failed, fs1)
                        else (None, bump_spooled flt (rename_tmp key suffix_id file fs1)))))"

section \<open>Listing and moving\<close>

record spool_file =
  sp_key :: string
  sp_size :: nat

definition ends_with :: "string \<Rightarrow> string \<Rightarrow> bool" where
  "ends_with suf n \<longleftrightarrow> length suf \<le> length n \<and> drop (length n - length suf) n = suf"

definition stem :: "string \<Rightarrow> string" where "stem n = take (length n - 5) n"

definition spooled_name :: "string \<Rightarrow> bool" where
  "spooled_name n \<longleftrightarrow> take 1 n \<noteq> ''.'' \<and> ends_with ''.json'' n"

text \<open>\<open>key_le\<close> is \<open>localeCompare\<close>.\<close>

definition listSpoolFiles :: "(string \<Rightarrow> string \<Rightarrow> bool) \<Rightarrow> faults \<Rightarrow> spool_fs \<Rightarrow> spool_file list" where
  "listSpoolFiles key_le flt fs =
     sort_by (\<lambda>a b. key_le (sp_key a) (sp_key b))
       (map (\<lambda>(n, f). \<lparr>sp_key = stem n, sp_size = sf_size f\<rparr>)
          (filter (\<lambda>(n, _). spooled_name n \<and> can_stat flt n) (entries (spool_files fs))))"

definition quarantineSpoolFile :: "faults \<Rightarrow> epoch_ms \<Rightarrow> string \<Rightarrow> string \<Rightarrow> spool_fs \<Rightarrow> spool_fs" where
  "quarantineSpoolFile flt now key reason fs =
     (let fs0 = fs\<lparr>quarantine := Some (entries (quarantine fs))\<rparr>; n = spool_name key
      in case map_of (entries (spool_files fs)) n of
           None \<Rightarrow> fs0
         | Some f \<Rightarrow>
             (if \<not> can_rename flt n then fs0
              else (let fs1 = fs0\<lparr>spool_files := Some (dir_del n (entries (spool_files fs))),
                                  quarantine := Some (obj_set n f (entries (quarantine fs)))\<rparr>;
                        r = key @ ''.reason.txt'';
                        fs2 = (if can_write flt r
                               then fs1\<lparr>quarantine := Some (obj_set r \<lparr>sf_content = reason @ [CHR 0x0A], sf_size = length reason + 1, sf_mtime = now\<rparr>
                                          (entries (quarantine fs1)))\<rparr>
                               else fs1)
                    in bump_quarantined flt fs2)))"

definition deleteSpoolFile :: "faults \<Rightarrow> string \<Rightarrow> spool_fs \<Rightarrow> spool_fs" where
  "deleteSpoolFile flt key fs =
     (if can_unlink flt (spool_name key)
      then fs\<lparr>spool_files := map_option (dir_del (spool_name key)) (spool_files fs)\<rparr> else fs)"

definition DEFAULT_QUARANTINE_TTL_MS :: int where "DEFAULT_QUARANTINE_TTL_MS = 7 * 24 * 60 * 60 * 1000"

definition prune_key :: "faults \<Rightarrow> epoch_ms \<Rightarrow> int \<Rightarrow> string \<Rightarrow> nat \<times> dir \<Rightarrow> nat \<times> dir" where
  "prune_key flt now maxAge key acc =
     (let (removed, d) = acc; n = spool_name key
      in case map_of d n of
           None \<Rightarrow> acc
         | Some f \<Rightarrow>
             (if \<not> can_stat flt n \<or> now - sf_mtime f \<le> maxAge \<or> \<not> can_unlink flt n then acc
              else (let d1 = dir_del n d; r = key @ ''.reason.txt''
                    in (removed + 1, if can_unlink flt r then dir_del r d1 else d1))))"

text \<open>The \<open>.json\<close> names and their number.\<close>

definition json_names :: "dir \<Rightarrow> string list" where
  "json_names d = filter (ends_with ''.json'') (map fst d)"

definition pruneExpiredQuarantine :: "faults \<Rightarrow> epoch_ms \<Rightarrow> int \<Rightarrow> spool_fs \<Rightarrow> (nat \<times> nat) \<times> spool_fs" where
  "pruneExpiredQuarantine flt now maxAge fs =
     (case quarantine fs of
        None \<Rightarrow> ((0, 0), fs)
      | Some d \<Rightarrow>
          (let (removed, d1) = fold (prune_key flt now maxAge) (map stem (json_names d)) (0, d)
           in ((removed, length (json_names d1)), fs\<lparr>quarantine := Some d1\<rparr>)))"

section \<open>The drain\<close>

definition MAX_DRAIN_ATTEMPTS :: nat where "MAX_DRAIN_ATTEMPTS = 5"

record spool_state =
  sps_fs :: spool_fs
  sps_db :: ingest_db
  failureCounts :: "string \<Rightarrow> nat"

record drain_state = spool_state +
  drained :: nat
  quarantined :: nat

text \<open>
  What a tick takes from outside: the clock, the limit of the configuration, the order of the
  listing, the faults, \<open>JSON.parse\<close>, the date check, and what each ingest takes.
\<close>

record tick_env =
  te_now :: epoch_ms
  te_max_bytes :: nat
  te_key_le :: "string \<Rightarrow> string \<Rightarrow> bool"
  te_faults :: faults
  te_parse :: "string \<Rightarrow> jval option"
  te_isodate :: "string \<Rightarrow> bool"
  te_ingest :: "string \<Rightarrow> ingest_env"

definition forget :: "string \<Rightarrow> drain_state \<Rightarrow> drain_state" where
  "forget key ds = ds\<lparr>failureCounts := (failureCounts ds)(key := 0)\<rparr>"

definition quarantine_file :: "tick_env \<Rightarrow> string \<Rightarrow> string \<Rightarrow> drain_state \<Rightarrow> drain_state" where
  "quarantine_file env key reason ds =
     (forget key ds)\<lparr>sps_fs := quarantineSpoolFile (te_faults env) (te_now env) key reason (sps_fs ds),
                     quarantined := quarantined ds + 1\<rparr>"

text \<open>
  A missing count reads as zero, so deleting one sets it to zero. The reasons are abbreviated: nothing
  reads them.
\<close>

definition recordFailureOrQuarantine :: "tick_env \<Rightarrow> string \<Rightarrow> string \<Rightarrow> drain_state \<Rightarrow> drain_state" where
  "recordFailureOrQuarantine env key reason ds =
     (let attempts = failureCounts ds key + 1
      in if MAX_DRAIN_ATTEMPTS \<le> attempts then quarantine_file env key (''poison: '' @ reason) ds
         else ds\<lparr>failureCounts := (failureCounts ds)(key := attempts)\<rparr>)"

definition finish_drained :: "tick_env \<Rightarrow> string \<Rightarrow> drain_state \<Rightarrow> drain_state" where
  "finish_drained env key ds =
     (forget key ds)\<lparr>sps_fs := deleteSpoolFile (te_faults env) key (sps_fs ds), drained := drained ds + 1\<rparr>"

definition read_spool_file :: "faults \<Rightarrow> string \<Rightarrow> spool_fs \<Rightarrow> string option" where
  "read_spool_file flt key fs =
     (if can_read flt (spool_name key)
      then map_option sf_content (map_of (entries (spool_files fs)) (spool_name key)) else None)"

definition drain_file :: "tick_env \<Rightarrow> spool_file \<Rightarrow> drain_state \<Rightarrow> drain_state" where
  "drain_file env file ds =
     (let key = sp_key file
      in if te_max_bytes env < sp_size file then quarantine_file env key ''oversize'' ds
         else (case read_spool_file (te_faults env) key (sps_fs ds) of
             None \<Rightarrow> ds
           | Some raw \<Rightarrow>
               (case te_parse env raw of
                  None \<Rightarrow> recordFailureOrQuarantine env key ''unparsable JSON'' ds
                | Some envelope \<Rightarrow>
                    (case parse_canonical (te_isodate env) envelope of
                       Inl issues \<Rightarrow> recordFailureOrQuarantine env key ''schema validation failed'' ds
                     | Inr data \<Rightarrow>
                         (case ingestCanonicalTranscript (te_ingest env key) None (Some key) data (sps_db ds) of
                            Inr (res, db) \<Rightarrow> finish_drained env key (ds\<lparr>sps_db := db\<rparr>)
                          | Inl (IdempotentReplay t) \<Rightarrow> finish_drained env key ds
                          | Inl (IdempotencyConflict k) \<Rightarrow> quarantine_file env key ''idempotency conflict'' ds
                          | Inl _ \<Rightarrow> recordFailureOrQuarantine env key ''ingest failed'' ds)))))"

text \<open>The state the tick starts its loop with: the expired quarantine is pruned first.\<close>

definition tick_start :: "tick_env \<Rightarrow> spool_state \<Rightarrow> drain_state" where
  "tick_start env s =
     spool_state.extend (s\<lparr>sps_fs := snd (pruneExpiredQuarantine (te_faults env) (te_now env) DEFAULT_QUARANTINE_TTL_MS (sps_fs s))\<rparr>)
       \<lparr>drained = 0, quarantined = 0\<rparr>"

definition tick_files :: "tick_env \<Rightarrow> spool_fs \<Rightarrow> spool_file list" where
  "tick_files env fs = listSpoolFiles (te_key_le env) (te_faults env) fs"

definition drainIngestSpool :: "nat \<Rightarrow> tick_env \<Rightarrow> spool_state \<Rightarrow> (nat \<times> nat \<times> nat) \<times> spool_state" where
  "drainIngestSpool maxPerTick env s =
     (let ds0 = tick_start env s;
          ds = fold (drain_file env) (take maxPerTick (tick_files env (sps_fs ds0))) ds0
      in ((drained ds, quarantined ds, length (tick_files env (sps_fs ds))), spool_state.truncate ds))"

definition drain_tick :: "nat \<Rightarrow> tick_env \<Rightarrow> spool_state \<Rightarrow> spool_state" where
  "drain_tick maxPerTick env s = snd (drainIngestSpool maxPerTick env s)"

section \<open>Redacting an old quarantine\<close>

record sweep_result =
  sw_scanned :: nat
  sw_redacted :: nat
  sw_unparseable :: nat
  sw_failed :: nat
  sw_unwalkable :: nat

text \<open>\<open>to_text\<close> is \<open>JSON.stringify\<close>, \<open>sized\<close> the file a text is written to.\<close>

definition redact_quarantined ::
  "faults \<Rightarrow> (string \<Rightarrow> jval option) \<Rightarrow> (jval \<Rightarrow> string) \<Rightarrow> (string \<Rightarrow> sfile) \<Rightarrow> (string \<Rightarrow> string) \<Rightarrow>
   string \<Rightarrow> sweep_result \<times> dir \<Rightarrow> sweep_result \<times> dir" where
  "redact_quarantined flt parse_json to_text sized red n acc =
     (let (r0, d) = acc; r = r0\<lparr>sw_scanned := sw_scanned r0 + 1\<rparr>
      in case (if can_read flt n then map_of d n else None) of
           None \<Rightarrow> (r\<lparr>sw_failed := sw_failed r + 1\<rparr>, d)
         | Some f \<Rightarrow>
             (let parsed = parse_json (sf_content f);
                  rewritten = (case parsed of None \<Rightarrow> Some (red (sf_content f))
                               | Some v \<Rightarrow> map_option to_text (redactValuesDeep red v))
              in case rewritten of
                   None \<Rightarrow> (r\<lparr>sw_unwalkable := sw_unwalkable r + 1\<rparr>, d)
                 | Some t \<Rightarrow>
                     (if t = sf_content f then (r, d)
                      else if can_write flt n \<and> can_rename flt n
                      then (r\<lparr>sw_redacted := sw_redacted r + 1,
                              sw_unparseable := (if parsed = None then sw_unparseable r + 1 else sw_unparseable r)\<rparr>,
                            obj_set n (sized t) d)
                      else (r\<lparr>sw_failed := sw_failed r + 1\<rparr>, d))))"

definition sweepQuarantineRedaction ::
  "faults \<Rightarrow> (string \<Rightarrow> jval option) \<Rightarrow> (jval \<Rightarrow> string) \<Rightarrow> (string \<Rightarrow> sfile) \<Rightarrow> (string \<Rightarrow> string) \<Rightarrow>
   spool_fs \<Rightarrow> sweep_result \<times> spool_fs" where
  "sweepQuarantineRedaction flt parse_json to_text sized red fs =
     (let zero = \<lparr>sw_scanned = 0, sw_redacted = 0, sw_unparseable = 0, sw_failed = 0, sw_unwalkable = 0\<rparr>
      in case quarantine fs of
           None \<Rightarrow> (zero, fs)
         | Some d \<Rightarrow>
             (let (r, d1) = fold (redact_quarantined flt parse_json to_text sized red) (json_names d) (zero, d)
              in (r, fs\<lparr>quarantine := Some d1\<rparr>)))"

section \<open>No envelope is lost\<close>

lemma map_of_dir_del [simp]: "map_of (dir_del n d) m = (if m = n then None else map_of d m)"
  by (induction d) (auto simp: dir_del_def)

lemma entries_Some [simp]: "entries (Some d) = d" "entries None = []"
  by (simp_all add: entries_def)

lemma names_differ [simp]: "spool_name k \<noteq> k' @ ''.reason.txt''" "k' @ ''.reason.txt'' \<noteq> spool_name k"
proof -
  have "last (spool_name k) \<noteq> last (k' @ ''.reason.txt'')" by (simp add: spool_name_def)
  then show "spool_name k \<noteq> k' @ ''.reason.txt''" "k' @ ''.reason.txt'' \<noteq> spool_name k" by metis+
qed

lemma spool_name_eq [simp]: "spool_name k = spool_name l \<longleftrightarrow> k = l"
  by (simp add: spool_name_def)

lemma bump_dirs [simp]:
  "spool_files (bump_quarantined flt fs) = spool_files fs" "quarantine (bump_quarantined flt fs) = quarantine fs"
  "spool_files (bump_spooled flt fs) = spool_files fs" "quarantine (bump_spooled flt fs) = quarantine fs"
  by (simp_all add: bump_quarantined_def bump_spooled_def case_prod_beta Let_def)

lemma quarantined_spool:
  "map_of (entries (spool_files (quarantineSpoolFile flt now key reason fs))) n =
     (if n = spool_name key \<and> can_rename flt n then None else map_of (entries (spool_files fs)) n)"
  by (auto simp: quarantineSpoolFile_def Let_def split: option.splits)

lemma quarantined_quarantine:
  "map_of (entries (quarantine (quarantineSpoolFile flt now key reason fs))) (spool_name k) =
     (if k = key \<and> can_rename flt (spool_name key) \<and> map_of (entries (spool_files fs)) (spool_name key) \<noteq> None
      then map_of (entries (spool_files fs)) (spool_name key)
      else map_of (entries (quarantine fs)) (spool_name k))"
  by (auto simp: quarantineSpoolFile_def Let_def obj_set_lookup split: option.splits)

lemma deleted_spool:
  "map_of (entries (spool_files (deleteSpoolFile flt key fs))) n =
     (if n = spool_name key \<and> can_unlink flt n then None else map_of (entries (spool_files fs)) n)"
  by (cases "spool_files fs") (auto simp: deleteSpoolFile_def)

lemma deleted_quarantine [simp]: "quarantine (deleteSpoolFile flt key fs) = quarantine fs"
  by (simp add: deleteSpoolFile_def)

text \<open>The file is in the spool, or it has been moved to the quarantine.\<close>

definition kept :: "string \<Rightarrow> sfile \<Rightarrow> spool_fs \<Rightarrow> bool" where
  "kept key f fs \<longleftrightarrow>
     map_of (entries (spool_files fs)) (spool_name key) = Some f \<or>
     (map_of (entries (spool_files fs)) (spool_name key) = None \<and>
      map_of (entries (quarantine fs)) (spool_name key) = Some f)"

text \<open>What it holds has been ingested under its key.\<close>

definition ingested_from ::
  "(string \<Rightarrow> jval option) \<Rightarrow> (string \<Rightarrow> bool) \<Rightarrow> (jval \<Rightarrow> string) \<Rightarrow> string \<Rightarrow> sfile \<Rightarrow> ingest_db \<Rightarrow> bool" where
  "ingested_from parse_json isodate hash key f d \<longleftrightarrow>
     (case parse_json (sf_content f) of
        None \<Rightarrow> False
      | Some v \<Rightarrow> (case parse_canonical isodate v of Inl _ \<Rightarrow> False | Inr data \<Rightarrow> answered key (hash (stableStringify data)) d))"

text \<open>Ticks that read JSON, check dates and hash alike, and whose identifiers are fresh.\<close>

definition consistent :: "(string \<Rightarrow> jval option) \<Rightarrow> (string \<Rightarrow> bool) \<Rightarrow> (jval \<Rightarrow> string) \<Rightarrow> tick_env \<Rightarrow> bool" where
  "consistent parse_json isodate hash env \<longleftrightarrow>
     te_parse env = parse_json \<and> te_isodate env = isodate \<and>
     (\<forall>k. ie_hash (te_ingest env k) = hash \<and> ie_transcript (te_ingest env k) \<noteq> PENDING_TARGET)"

lemma tx_tail_error:
  "(case insert_transcript row d of Inl e \<Rightarrow> Inl e
    | Inr d2 \<Rightarrow> (case insert_job_row kd j p now (g d2) of Inl e \<Rightarrow> Inl e | Inr d3 \<Rightarrow> Inr (h d3))) = Inl e \<Longrightarrow> e = Sqlite_Constraint"
  by (cases "insert_transcript row d"; simp add: insert_transcript_def split: if_splits;
      cases "insert_job_row kd j p now (g (d\<lparr>transcripts := transcripts d @ [row]\<rparr>))";
      simp add: insert_job_row_def split: if_splits)

lemma replay_answered:
  assumes "ingestCanonicalTranscript env repo (Some k) data d = Inl (IdempotentReplay t)" and "ingest_inv d"
  shows "answered k (ie_hash env (stableStringify data)) d"
proof -
  let ?h = "ie_hash env (stableStringify data)"
  have "\<exists>sess row types kd. ingest_tx env (Some k) ?h sess row types kd d = Inl (IdempotentReplay t)"
    using assms(1) by (auto simp: ingestCanonicalTranscript_def Let_def split: if_splits sum.splits)
  then have c: "claimIdempotencySlot k ?h (ie_now env) d = Inl (IdempotentReplay t)"
    by (cases "claimIdempotencySlot k ?h (ie_now env) d") (auto simp: ingest_tx_def claim_if_def dest!: tx_tail_error)
  show ?thesis
  proof (cases "get_row idem_key k (idempotency d)")
    case None
    with c show ?thesis by (simp add: claimIdempotencySlot_def insert_idempotency_def get_row_append Let_def)
  next
    case (Some row)
    have "idem_target row \<noteq> Some PENDING_TARGET"
      using get_row_SomeD[OF Some] assms(2) by (force simp: ingest_inv_def)
    with Some c show ?thesis
      by (auto simp: claimIdempotencySlot_def insert_idempotency_def Let_def answered_def split: if_splits)
  qed
qed

lemma success_answered:
  assumes "ingestCanonicalTranscript env repo (Some k) data d = Inr (res, d')" and "ie_transcript env \<noteq> PENDING_TARGET"
  shows "answered k (ie_hash env (stableStringify data)) d'"
  using ingest_is_tx[OF assms(1)] tx_answers assms(2) by metis

text \<open>The database of one step of the loop.\<close>

lemma drain_file_db:
  obtains "sps_db (drain_file env fl ds) = sps_db ds"
  | data where "sps_db (drain_file env fl ds) = ingest_step (Drain_One (te_ingest env (sp_key fl)) (sp_key fl) data) (sps_db ds)"
proof (cases "\<exists>data res db. ingestCanonicalTranscript (te_ingest env (sp_key fl)) None (Some (sp_key fl)) data (sps_db ds) = Inr (res, db) \<and>
    sps_db (drain_file env fl ds) = db")
  case True
  then obtain data res db where
    "ingestCanonicalTranscript (te_ingest env (sp_key fl)) None (Some (sp_key fl)) data (sps_db ds) = Inr (res, db)"
    "sps_db (drain_file env fl ds) = db" by blast
  then have "sps_db (drain_file env fl ds) = ingest_step (Drain_One (te_ingest env (sp_key fl)) (sp_key fl) data) (sps_db ds)"
    by simp
  then show thesis by (rule that(2))
next
  case False
  have "sps_db (drain_file env fl ds) = sps_db ds"
    using False
    by (auto simp: drain_file_def Let_def quarantine_file_def forget_def recordFailureOrQuarantine_def finish_drained_def
        split: option.splits sum.splits ingest_error.splits)
  then show thesis by (rule that(1))
qed

lemma drain_file_inv:
  assumes "ingest_inv (sps_db ds)" and "ie_transcript (te_ingest env (sp_key fl)) \<noteq> PENDING_TARGET"
  shows "ingest_inv (sps_db (drain_file env fl ds))"
  by (rule drain_file_db[of env fl ds]) (use assms step_inv in \<open>auto simp del: ingest_step.simps\<close>)

lemma drain_file_answered:
  assumes "answered k h (sps_db ds)" and "ingest_inv (sps_db ds)" and "ie_transcript (te_ingest env (sp_key fl)) \<noteq> PENDING_TARGET"
  shows "answered k h (sps_db (drain_file env fl ds))"
  by (rule drain_file_db[of env fl ds]) (use assms step_answered in \<open>auto simp del: ingest_step.simps\<close>)

text \<open>One step leaves the files of the other keys alone.\<close>

lemma drain_file_other:
  assumes "sp_key fl \<noteq> k"
  shows "map_of (entries (spool_files (sps_fs (drain_file env fl ds)))) (spool_name k) = map_of (entries (spool_files (sps_fs ds))) (spool_name k)"
    "map_of (entries (quarantine (sps_fs (drain_file env fl ds)))) (spool_name k) = map_of (entries (quarantine (sps_fs ds))) (spool_name k)"
  using assms
  by (auto simp: drain_file_def Let_def quarantine_file_def forget_def recordFailureOrQuarantine_def finish_drained_def
      quarantined_spool quarantined_quarantine deleted_spool split: option.splits sum.splits ingest_error.splits)

lemma kept_quarantined: "kept key f fs \<Longrightarrow> kept key f (quarantineSpoolFile flt now key reason fs)"
  by (auto simp: kept_def quarantined_spool quarantined_quarantine)

lemma kept_failed: "kept key f (sps_fs ds) \<Longrightarrow> kept key f (sps_fs (recordFailureOrQuarantine env key reason ds))"
  by (simp add: recordFailureOrQuarantine_def quarantine_file_def forget_def Let_def kept_quarantined)

lemma drain_file_same:
  assumes "kept (sp_key fl) f (sps_fs ds)" and "ingest_inv (sps_db ds)" and "consistent p isodate hash env"
  shows "kept (sp_key fl) f (sps_fs (drain_file env fl ds)) \<or>
    ingested_from p isodate hash (sp_key fl) f (sps_db (drain_file env fl ds))"
proof (cases "te_max_bytes env < sp_size fl")
  case True
  with assms(1) show ?thesis by (simp add: drain_file_def quarantine_file_def forget_def kept_quarantined Let_def)
next
  case small: False
  let ?k = "sp_key fl"
  show ?thesis
  proof (cases "read_spool_file (te_faults env) ?k (sps_fs ds)")
    case None
    with small assms(1) show ?thesis by (simp add: drain_file_def Let_def)
  next
    case raw: (Some raw)
    then have "map_of (entries (spool_files (sps_fs ds))) (spool_name ?k) \<noteq> None"
      by (auto simp: read_spool_file_def split: if_splits)
    with assms(1) have f: "map_of (entries (spool_files (sps_fs ds))) (spool_name ?k) = Some f" by (simp add: kept_def)
    with raw have content: "raw = sf_content f" by (auto simp: read_spool_file_def split: if_splits)
    note w = assms(3)[unfolded consistent_def]
    show ?thesis
    proof (cases "te_parse env raw")
      case None
      with small raw kept_failed[OF assms(1)] show ?thesis by (simp add: drain_file_def Let_def)
    next
      case v: (Some v)
      show ?thesis
      proof (cases "parse_canonical (te_isodate env) v")
        case (Inl issues)
        with small raw v kept_failed[OF assms(1)] show ?thesis by (simp add: drain_file_def Let_def)
      next
        case data: (Inr data)
        have ing: "ingested_from p isodate hash ?k f d \<longleftrightarrow> answered ?k (hash (stableStringify data)) d" for d
          using v data content w by (simp add: ingested_from_def)
        show ?thesis
        proof (cases "ingestCanonicalTranscript (te_ingest env ?k) None (Some ?k) data (sps_db ds)")
          case (Inr r)
          obtain res db where r: "r = (res, db)" by (cases r)
          have "answered ?k (hash (stableStringify data)) db" using success_answered[OF Inr[unfolded r]] w by simp
          moreover have "sps_db (drain_file env fl ds) = db"
            using small raw v data Inr r by (simp add: drain_file_def finish_drained_def forget_def Let_def)
          ultimately show ?thesis using ing by simp
        next
          case (Inl e)
          show ?thesis
          proof (cases e)
            case (IdempotentReplay t)
            have "answered ?k (hash (stableStringify data)) (sps_db ds)"
              using replay_answered[OF Inl[unfolded IdempotentReplay] assms(2)] w by simp
            moreover have "sps_db (drain_file env fl ds) = sps_db ds"
              using small raw v data Inl IdempotentReplay by (simp add: drain_file_def finish_drained_def forget_def Let_def)
            ultimately show ?thesis using ing by simp
          next
            case (IdempotencyConflict k)
            with small raw v data Inl kept_quarantined[OF assms(1)] show ?thesis
              by (simp add: drain_file_def quarantine_file_def forget_def Let_def)
          qed (use small raw v data Inl kept_failed[OF assms(1)] in \<open>simp_all add: drain_file_def\<close>)
        qed
      qed
    qed
  qed
qed

definition accounted ::
  "(string \<Rightarrow> jval option) \<Rightarrow> (string \<Rightarrow> bool) \<Rightarrow> (jval \<Rightarrow> string) \<Rightarrow> string \<Rightarrow> sfile \<Rightarrow> spool_fs \<Rightarrow> ingest_db \<Rightarrow> bool" where
  "accounted p isodate hash key f fs d \<longleftrightarrow> kept key f fs \<or> ingested_from p isodate hash key f d"

lemma drain_file_accounted:
  assumes "accounted p isodate hash key f (sps_fs ds) (sps_db ds)" and "ingest_inv (sps_db ds)" and "consistent p isodate hash env"
  shows "accounted p isodate hash key f (sps_fs (drain_file env fl ds)) (sps_db (drain_file env fl ds))"
proof -
  have fr: "ie_transcript (te_ingest env (sp_key fl)) \<noteq> PENDING_TARGET" using assms(3) by (simp add: consistent_def)
  show ?thesis
  proof (cases "ingested_from p isodate hash key f (sps_db ds)")
    case True
    then have "ingested_from p isodate hash key f (sps_db (drain_file env fl ds))"
      using drain_file_answered[OF _ assms(2) fr] by (auto simp: ingested_from_def split: option.splits sum.splits)
    then show ?thesis by (simp add: accounted_def)
  next
    case False
    with assms(1) have k: "kept key f (sps_fs ds)" by (simp add: accounted_def)
    show ?thesis
    proof (cases "sp_key fl = key")
      case True
      with drain_file_same[of fl f ds p isodate hash env] k assms(2,3) show ?thesis by (simp add: accounted_def)
    next
      case False
      with k drain_file_other[OF False] show ?thesis by (simp add: accounted_def kept_def)
    qed
  qed
qed

lemma loop_accounted:
  assumes "accounted p isodate hash key f (sps_fs ds) (sps_db ds)" and "ingest_inv (sps_db ds)" and "consistent p isodate hash env"
  shows "accounted p isodate hash key f (sps_fs (fold (drain_file env) fls ds)) (sps_db (fold (drain_file env) fls ds)) \<and>
    ingest_inv (sps_db (fold (drain_file env) fls ds))"
  using assms(1,2)
proof (induction fls arbitrary: ds)
  case (Cons fl fls)
  have "ie_transcript (te_ingest env (sp_key fl)) \<noteq> PENDING_TARGET" using assms(3) by (simp add: consistent_def)
  with Cons.IH[OF drain_file_accounted[OF Cons.prems assms(3)] drain_file_inv[OF Cons.prems(2)]] show ?case by simp
qed simp

lemma prune_key_lookup:
  assumes "map_of (snd acc) (spool_name key) = Some f"
  shows "map_of (snd (prune_key flt now maxAge k acc)) (spool_name key) = Some f \<or> maxAge < now - sf_mtime f"
  using assms by (auto simp: prune_key_def case_prod_beta Let_def split: option.splits)

lemma prune_fold_lookup:
  "map_of (snd acc) (spool_name key) = Some f \<Longrightarrow>
   map_of (snd (fold (prune_key flt now maxAge) ks acc)) (spool_name key) = Some f \<or> maxAge < now - sf_mtime f"
proof (induction ks arbitrary: acc)
  case (Cons k ks)
  from prune_key_lookup[OF Cons.prems, of flt now maxAge k] Cons.IH[of "prune_key flt now maxAge k acc"] show ?case by auto
qed simp

lemma pruned_files [simp]: "spool_files (snd (pruneExpiredQuarantine flt now maxAge fs)) = spool_files fs"
  by (simp add: pruneExpiredQuarantine_def case_prod_beta Let_def split: option.splits)

lemma pruned_kept:
  assumes "kept key f fs"
  shows "kept key f (snd (pruneExpiredQuarantine flt now maxAge fs)) \<or> maxAge < now - sf_mtime f"
proof (cases "quarantine fs")
  case None
  with assms show ?thesis by (simp add: pruneExpiredQuarantine_def)
next
  case (Some d)
  have "quarantine (snd (pruneExpiredQuarantine flt now maxAge fs)) = Some (snd (fold (prune_key flt now maxAge) (map stem (json_names d)) (0, d)))"
    by (simp add: pruneExpiredQuarantine_def Some case_prod_beta Let_def)
  with prune_fold_lookup[of "(0, d)" key f flt now maxAge] assms Some show ?thesis by (auto simp: kept_def)
qed

lemma tick_state:
  "sps_fs (drain_tick n env s) = sps_fs (fold (drain_file env) (take n (tick_files env (sps_fs (tick_start env s)))) (tick_start env s))"
  "sps_db (drain_tick n env s) = sps_db (fold (drain_file env) (take n (tick_files env (sps_fs (tick_start env s)))) (tick_start env s))"
  "failureCounts (drain_tick n env s) = failureCounts (fold (drain_file env) (take n (tick_files env (sps_fs (tick_start env s)))) (tick_start env s))"
  by (simp_all add: drain_tick_def drainIngestSpool_def Let_def spool_state.defs)

lemma tick_start_simps [simp]:
  "sps_db (tick_start env s) = sps_db s" "failureCounts (tick_start env s) = failureCounts s"
  "sps_fs (tick_start env s) = snd (pruneExpiredQuarantine (te_faults env) (te_now env) DEFAULT_QUARANTINE_TTL_MS (sps_fs s))"
  by (simp_all add: tick_start_def spool_state.defs)

lemma tick_accounted:
  assumes "accounted p isodate hash key f (sps_fs s) (sps_db s)" and "ingest_inv (sps_db s)" and "consistent p isodate hash env"
  shows "ingest_inv (sps_db (drain_tick n env s)) \<and>
    (accounted p isodate hash key f (sps_fs (drain_tick n env s)) (sps_db (drain_tick n env s)) \<or>
     DEFAULT_QUARANTINE_TTL_MS < te_now env - sf_mtime f)"
proof -
  let ?fls = "take n (tick_files env (sps_fs (tick_start env s)))"
  have fr: "\<And>k. ie_transcript (te_ingest env k) \<noteq> PENDING_TARGET" using assms(3) by (simp add: consistent_def)
  have "ingest_inv (sps_db (fold (drain_file env) fls ds))" if "ingest_inv (sps_db ds)" for fls ds
    using that by (induction fls arbitrary: ds) (simp_all add: drain_file_inv fr)
  then have inv: "ingest_inv (sps_db (drain_tick n env s))" using assms(2) by (simp add: tick_state)
  show ?thesis
  proof (cases "DEFAULT_QUARANTINE_TTL_MS < te_now env - sf_mtime f")
    case True
    with inv show ?thesis by simp
  next
    case False
    with assms(1) pruned_kept[of key f "sps_fs s" "te_faults env" "te_now env" DEFAULT_QUARANTINE_TTL_MS] have "accounted p isodate hash key f (sps_fs (tick_start env s)) (sps_db (tick_start env s))"
      by (auto simp: accounted_def)
    from loop_accounted[OF this _ assms(3), of ?fls] assms(2) inv show ?thesis by (simp add: tick_state)
  qed
qed

text \<open>
  C6: No spooled envelope is lost. Whatever files are in the spool, whichever system calls fail, and
  however often the drain runs with whatever limit: a spooled file is afterwards still in the spool,
  or in the quarantine as it was, or its envelope has been ingested under its key - unless it had
  already passed the retention time of the quarantine at one of the ticks.
\<close>

theorem no_envelope_is_lost:
  fixes maxPerTick :: nat and envs :: "tick_env list" and s :: spool_state
  assumes "ingest_inv (sps_db s)" and "map_of (entries (spool_files (sps_fs s))) (spool_name key) = Some f"
    and "list_all (consistent p isodate hash) envs"
  defines "s' \<equiv> fold (drain_tick maxPerTick) envs s"
  shows "ingest_inv (sps_db s') \<and>
    (map_of (entries (spool_files (sps_fs s'))) (spool_name key) = Some f \<or>
     map_of (entries (quarantine (sps_fs s'))) (spool_name key) = Some f \<or>
     ingested_from p isodate hash key f (sps_db s') \<or>
     list_ex (\<lambda>env. DEFAULT_QUARANTINE_TTL_MS < te_now env - sf_mtime f) envs)"
proof -
  have "ingest_inv (sps_db (fold (drain_tick maxPerTick) es t)) \<and>
      (accounted p isodate hash key f (sps_fs (fold (drain_tick maxPerTick) es t)) (sps_db (fold (drain_tick maxPerTick) es t)) \<or>
       list_ex (\<lambda>env. DEFAULT_QUARANTINE_TTL_MS < te_now env - sf_mtime f) es)"
    if "ingest_inv (sps_db t)" "accounted p isodate hash key f (sps_fs t) (sps_db t)" "list_all (consistent p isodate hash) es" for es t
    using that
  proof (induction es arbitrary: t)
    case (Cons e es)
    have c: "consistent p isodate hash e" "list_all (consistent p isodate hash) es" using Cons.prems(3) by simp_all
    note one = tick_accounted[OF Cons.prems(2,1) c(1), of maxPerTick]
    have inv: "ingest_inv (sps_db (fold (drain_tick maxPerTick) es u))" if "ingest_inv (sps_db u)" for u
      using that c(2)
    proof (induction es arbitrary: u)
      case (Cons e' es')
      have "ingest_inv (sps_db (drain_tick maxPerTick e' u))"
        using Cons.prems by (auto simp: tick_state consistent_def intro!: fold_invariant[where P = "\<lambda>ds. ingest_inv (sps_db ds)" and Q = "\<lambda>_. True"] drain_file_inv)
      with Cons show ?case by simp
    qed simp
    from one consider "accounted p isodate hash key f (sps_fs (drain_tick maxPerTick e t)) (sps_db (drain_tick maxPerTick e t))"
      | "DEFAULT_QUARANTINE_TTL_MS < te_now e - sf_mtime f" by blast
    then show ?case
    proof cases
      case 1
      with Cons.IH[OF _ 1 c(2)] one show ?thesis by auto
    next
      case 2
      with inv one show ?thesis by simp
    qed
  qed simp
  from this[OF assms(1) _ assms(3)] assms(2) show ?thesis
    unfolding s'_def by (auto simp: accounted_def kept_def)
qed

section \<open>The spool drains\<close>

definition faultless :: faults where
  "faultless = \<lparr>can_stat = (\<lambda>_. True), can_read = (\<lambda>_. True), can_rename = (\<lambda>_. True), can_unlink = (\<lambda>_. True), can_write = (\<lambda>_. True)\<rparr>"

definition spooled :: "spool_fs \<Rightarrow> string set" where
  "spooled fs = {n \<in> fst ` set (entries (spool_files fs)). spooled_name n}"

lemma finite_spooled [simp]: "finite (spooled fs)" by (simp add: spooled_def)

lemma stem_spool_name [simp]: "stem (spool_name k) = k"
  by (simp add: stem_def spool_name_def)

lemma spool_name_stem:
  assumes "spooled_name n"
  shows "spool_name (stem n) = n"
proof -
  have "drop (length n - 5) n = ''.json''" using assms by (simp add: spooled_name_def ends_with_def eval_nat_numeral)
  moreover have "take (length n - 5) n @ drop (length n - 5) n = n" by (rule append_take_drop_id)
  ultimately show ?thesis by (simp add: spool_name_def stem_def)
qed

lemma dir_del_names: "fst ` set (dir_del n d) = fst ` set d - {n}"
  by (force simp: dir_del_def)

lemma spooled_del: "spool_files fs' = Some (dir_del n (entries (spool_files fs))) \<Longrightarrow> spooled fs' = spooled fs - {n}"
  by (simp add: spooled_def dir_del_names) blast

lemma spooled_quarantined:
  "spooled (quarantineSpoolFile faultless now key reason fs) = spooled fs - {spool_name key}"
proof (cases "map_of (entries (spool_files fs)) (spool_name key)")
  case None
  then have "spool_name key \<notin> spooled fs" by (auto simp: spooled_def map_of_eq_None_iff)
  moreover have "spooled (quarantineSpoolFile faultless now key reason fs) = spooled fs"
    using None by (simp add: quarantineSpoolFile_def spooled_def)
  ultimately show ?thesis by simp
next
  case (Some f)
  then show ?thesis
    by (intro spooled_del) (simp add: quarantineSpoolFile_def faultless_def Let_def)
qed

lemma spooled_deleted: "spooled (deleteSpoolFile faultless key fs) = spooled fs - {spool_name key}"
proof (cases "spool_files fs")
  case None
  then show ?thesis by (simp add: deleteSpoolFile_def spooled_def)
next
  case (Some d)
  then show ?thesis by (intro spooled_del) (simp add: deleteSpoolFile_def faultless_def)
qed

text \<open>One step either takes its file out of the spool or counts one more failure below the limit.\<close>

lemma drain_file_effect:
  assumes "te_faults env = faultless"
  obtains "spooled (sps_fs (drain_file env fl ds)) = spooled (sps_fs ds) - {spool_name (sp_key fl)}"
      "failureCounts (drain_file env fl ds) = (failureCounts ds)(sp_key fl := 0)"
  | "spooled (sps_fs (drain_file env fl ds)) = spooled (sps_fs ds)"
      "failureCounts (drain_file env fl ds) = (failureCounts ds)(sp_key fl := failureCounts ds (sp_key fl) + 1)"
      "failureCounts ds (sp_key fl) + 1 < MAX_DRAIN_ATTEMPTS"
  | "drain_file env fl ds = ds" "spool_name (sp_key fl) \<notin> spooled (sps_fs ds)"
proof (cases "te_max_bytes env < sp_size fl")
  case True
  then show thesis using that(1) assms
    by (simp add: drain_file_def quarantine_file_def forget_def spooled_quarantined Let_def)
next
  case small: False
  let ?k = "sp_key fl"
  note drain_out = that(1) and drain_again = that(2)
  have failed: thesis if "drain_file env fl ds = recordFailureOrQuarantine env ?k reason ds" for reason
  proof (cases "MAX_DRAIN_ATTEMPTS \<le> failureCounts ds ?k + 1")
    case True
    with \<open>drain_file env fl ds = _\<close> assms show thesis
      by (intro drain_out) (simp_all add: recordFailureOrQuarantine_def quarantine_file_def forget_def spooled_quarantined)
  next
    case False
    with \<open>drain_file env fl ds = _\<close> show thesis
      by (intro drain_again) (simp_all add: recordFailureOrQuarantine_def)
  qed
  show thesis
  proof (cases "read_spool_file (te_faults env) ?k (sps_fs ds)")
    case None
    then have "map_of (entries (spool_files (sps_fs ds))) (spool_name ?k) = None"
      using assms by (simp add: read_spool_file_def faultless_def)
    then have "spool_name ?k \<notin> spooled (sps_fs ds)" by (auto simp: spooled_def map_of_eq_None_iff)
    then show thesis using that(3) small None by (simp add: drain_file_def Let_def)
  next
    case raw: (Some raw)
    show thesis
    proof (cases "te_parse env raw")
      case None
      then show thesis using failed small raw by (simp add: drain_file_def Let_def)
    next
      case v: (Some v)
      show thesis
      proof (cases "parse_canonical (te_isodate env) v")
        case (Inl issues)
        then show thesis using failed small raw v by (simp add: drain_file_def Let_def)
      next
        case data: (Inr data)
        show thesis
        proof (cases "ingestCanonicalTranscript (te_ingest env ?k) None (Some ?k) data (sps_db ds)")
          case (Inr r)
          then show thesis using that(1) small raw v data assms
            by (simp add: drain_file_def Let_def finish_drained_def forget_def spooled_deleted case_prod_beta)
        next
          case (Inl e)
          show thesis
          proof (cases e)
            case (IdempotentReplay t)
            then show thesis using that(1) small raw v data assms Inl
              by (simp add: drain_file_def Let_def finish_drained_def forget_def spooled_deleted)
          next
            case (IdempotencyConflict k)
            then show thesis using that(1) small raw v data assms Inl
              by (simp add: drain_file_def Let_def quarantine_file_def forget_def spooled_quarantined)
          qed (use failed small raw v data Inl in \<open>simp_all add: drain_file_def Let_def\<close>)
        qed
      qed
    qed
  qed
qed

text \<open>The attempts the spooled files have left.\<close>

definition attempts_left :: "spool_state \<Rightarrow> nat" where
  "attempts_left s = (\<Sum>n \<in> spooled (sps_fs s). MAX_DRAIN_ATTEMPTS - failureCounts s (stem n))"

definition within_limit :: "spool_state \<Rightarrow> bool" where
  "within_limit s \<longleftrightarrow> (\<forall>k. failureCounts s k < MAX_DRAIN_ATTEMPTS)"

lemma drain_file_within:
  assumes "te_faults env = faultless" and "\<forall>k. failureCounts ds k < MAX_DRAIN_ATTEMPTS"
  shows "\<forall>k. failureCounts (drain_file env fl ds) k < MAX_DRAIN_ATTEMPTS"
proof (rule drain_file_effect[OF assms(1), of fl ds], goal_cases)
  case 1
  then show ?case using assms(2) by (simp add: MAX_DRAIN_ATTEMPTS_def)
next
  case 2
  then show ?case using assms(2) by simp
next
  case 3
  then show ?case using assms(2) by simp
qed

definition left_of :: "drain_state \<Rightarrow> nat" where
  "left_of ds = (\<Sum>n \<in> spooled (sps_fs ds). MAX_DRAIN_ATTEMPTS - failureCounts ds (stem n))"

lemma stem_eq: "n \<in> spooled fs \<Longrightarrow> stem n = k \<longleftrightarrow> n = spool_name k"
  using spool_name_stem by (auto simp: spooled_def)

lemma left_removed:
  assumes "spooled fs' = spooled fs - {spool_name k}" and "c' = c(k := 0)"
  shows "(\<Sum>n \<in> spooled fs'. MAX_DRAIN_ATTEMPTS - c' (stem n)) + (if spool_name k \<in> spooled fs then MAX_DRAIN_ATTEMPTS - c k else 0) =
    (\<Sum>n \<in> spooled fs. MAX_DRAIN_ATTEMPTS - c (stem n))"
proof -
  have "(\<Sum>n \<in> spooled fs'. MAX_DRAIN_ATTEMPTS - c' (stem n)) = (\<Sum>n \<in> spooled fs - {spool_name k}. MAX_DRAIN_ATTEMPTS - c (stem n))"
    unfolding assms by (rule sum.cong) (auto dest: stem_eq)
  then show ?thesis by (cases "spool_name k \<in> spooled fs") (simp_all add: sum.remove[of _ "spool_name k"])
qed

lemma left_counted:
  assumes "spool_name k \<in> spooled fs" and "c k + 1 < MAX_DRAIN_ATTEMPTS"
  shows "(\<Sum>n \<in> spooled fs. MAX_DRAIN_ATTEMPTS - (c(k := c k + 1)) (stem n)) < (\<Sum>n \<in> spooled fs. MAX_DRAIN_ATTEMPTS - c (stem n))"
proof (rule sum_strict_mono_ex1)
  show "\<forall>n \<in> spooled fs. MAX_DRAIN_ATTEMPTS - (c(k := c k + 1)) (stem n) \<le> MAX_DRAIN_ATTEMPTS - c (stem n)" by auto
  show "\<exists>n \<in> spooled fs. MAX_DRAIN_ATTEMPTS - (c(k := c k + 1)) (stem n) < MAX_DRAIN_ATTEMPTS - c (stem n)"
    using assms by (intro bexI[of _ "spool_name k"]) auto
qed simp

lemma drain_file_left:
  assumes "te_faults env = faultless" and "\<forall>k. failureCounts ds k < MAX_DRAIN_ATTEMPTS"
  shows "left_of (drain_file env fl ds) \<le> left_of ds"
    and "spool_name (sp_key fl) \<in> spooled (sps_fs ds) \<Longrightarrow> left_of (drain_file env fl ds) < left_of ds"
proof -
  have pos: "0 < MAX_DRAIN_ATTEMPTS - failureCounts ds (sp_key fl)" using assms(2) by simp
  have "left_of (drain_file env fl ds) \<le> left_of ds \<and>
      (spool_name (sp_key fl) \<in> spooled (sps_fs ds) \<longrightarrow> left_of (drain_file env fl ds) < left_of ds)"
  proof (rule drain_file_effect[OF assms(1), of fl ds], goal_cases)
    case 1
    with left_removed[OF 1] pos show ?case by (simp add: left_of_def split: if_splits)
  next
    case 2
    show ?case
    proof (cases "spool_name (sp_key fl) \<in> spooled (sps_fs ds)")
      case True
      with left_counted[of "sp_key fl" "sps_fs ds" "failureCounts ds"] 2 show ?thesis by (simp add: left_of_def)
    next
      case False
      then have other: "n \<in> spooled (sps_fs ds) \<Longrightarrow> stem n \<noteq> sp_key fl" for n using stem_eq by metis
      have "left_of (drain_file env fl ds) = left_of ds"
        unfolding left_of_def 2(1,2) by (rule sum.cong) (simp_all add: other)
      with False show ?thesis by simp
    qed
  next
    case 3
    then show ?case by simp
  qed
  then show "left_of (drain_file env fl ds) \<le> left_of ds"
    "spool_name (sp_key fl) \<in> spooled (sps_fs ds) \<Longrightarrow> left_of (drain_file env fl ds) < left_of ds" by blast+
qed

lemma loop_left:
  assumes "te_faults env = faultless" and "\<forall>k. failureCounts ds k < MAX_DRAIN_ATTEMPTS"
  shows "left_of (fold (drain_file env) fls ds) \<le> left_of ds \<and> (\<forall>k. failureCounts (fold (drain_file env) fls ds) k < MAX_DRAIN_ATTEMPTS)"
  using assms(2)
proof (induction fls arbitrary: ds)
  case (Cons fl fls)
  from Cons.IH[OF drain_file_within[OF assms(1) Cons.prems, of fl]] drain_file_left(1)[OF assms(1) Cons.prems, of fl]
  show ?case by (auto intro: order_trans)
qed simp

lemma tick_files_spooled: "te_faults env = faultless \<Longrightarrow> fl \<in> set (tick_files env fs) \<Longrightarrow> spool_name (sp_key fl) \<in> spooled fs"
  by (force simp: tick_files_def listSpoolFiles_def spooled_def spool_name_stem)

lemma tick_files_empty: "te_faults env = faultless \<Longrightarrow> tick_files env fs = [] \<longleftrightarrow> spooled fs = {}"
proof -
  assume "te_faults env = faultless"
  then have "set (tick_files env fs) = (\<lambda>(n, f). \<lparr>sp_key = stem n, sp_size = sf_size f\<rparr>) ` {(n, f) \<in> set (entries (spool_files fs)). spooled_name n}"
    by (auto simp: tick_files_def listSpoolFiles_def faultless_def)
  then have "tick_files env fs = [] \<longleftrightarrow> {(n, f) \<in> set (entries (spool_files fs)). spooled_name n} = {}"
    by (metis (no_types, lifting) image_is_empty set_empty)
  then show ?thesis by (force simp: spooled_def)
qed

lemma tick_left:
  assumes "te_faults env = faultless" and "0 < n" and "within_limit s"
  shows "within_limit (drain_tick n env s) \<and>
    (if spooled (sps_fs s) = {} then spooled (sps_fs (drain_tick n env s)) = {}
     else attempts_left (drain_tick n env s) < attempts_left s)"
proof -
  let ?ds = "tick_start env s"
  have w: "\<forall>k. failureCounts ?ds k < MAX_DRAIN_ATTEMPTS" using assms(3) by (simp add: within_limit_def)
  have sp: "spooled (sps_fs ?ds) = spooled (sps_fs s)" by (simp add: spooled_def)
  have l: "left_of ?ds = attempts_left s" by (simp add: left_of_def attempts_left_def spooled_def)
  let ?fls = "take n (tick_files env (sps_fs ?ds))"
  have al: "attempts_left (drain_tick n env s) = left_of (fold (drain_file env) ?fls ?ds)"
    by (simp add: attempts_left_def left_of_def tick_state)
  have "within_limit (drain_tick n env s)" using loop_left[OF assms(1) w] by (simp add: within_limit_def tick_state)
  moreover have "if spooled (sps_fs s) = {} then spooled (sps_fs (drain_tick n env s)) = {}
     else attempts_left (drain_tick n env s) < attempts_left s"
  proof (cases "spooled (sps_fs s) = {}")
    case True
    then have "tick_files env (sps_fs ?ds) = []" using sp tick_files_empty[OF assms(1)] by blast
    with True sp show ?thesis by (simp add: tick_state)
  next
    case False
    then obtain fl fls where f: "?fls = fl # fls"
      using tick_files_empty[OF assms(1)] sp assms(2) by (cases ?fls) auto
    then have "fl \<in> set (tick_files env (sps_fs ?ds))" by (metis in_set_takeD list.set_intros(1))
    from tick_files_spooled[OF assms(1) this] have "left_of (drain_file env fl ?ds) < left_of ?ds"
      using drain_file_left(2)[OF assms(1) w] by blast
    moreover have "left_of (fold (drain_file env) ?fls ?ds) \<le> left_of (drain_file env fl ?ds)"
      using loop_left[OF assms(1) drain_file_within[OF assms(1) w]] f by simp
    ultimately show ?thesis using False al l by simp
  qed
  ultimately show ?thesis by blast
qed

text \<open>
  C28: The spool empties. When the file system behaves, a poisoned file leaves after five attempts and
  every other file when it is reached: five ticks per spooled file are enough for any limit per tick,
  whatever the files contain and whatever the database answers. Nothing is lost on the way: each of
  the files is then in the quarantine, ingested, or past the retention time.
\<close>

theorem the_spool_empties:
  fixes maxPerTick :: nat and envs :: "tick_env list" and s :: spool_state
  assumes "0 < maxPerTick" and "list_all (\<lambda>e. te_faults e = faultless) envs" and "within_limit s"
    and "MAX_DRAIN_ATTEMPTS * card (spooled (sps_fs s)) \<le> length envs" and "te_faults env = faultless"
  shows "tick_files env (sps_fs (fold (drain_tick maxPerTick) envs s)) = []"
proof -
  have run: "spooled (sps_fs (fold (drain_tick maxPerTick) es t)) = {}"
    if "list_all (\<lambda>e. te_faults e = faultless) es" "within_limit t" "spooled (sps_fs t) = {} \<or> attempts_left t \<le> length es" for es t
    using that
  proof (induction es arbitrary: t)
    case Nil
    then have "spooled (sps_fs t) = {} \<or> attempts_left t = 0" by simp
    moreover have "spooled (sps_fs t) = {}" if "attempts_left t = 0"
    proof (rule ccontr)
      assume "spooled (sps_fs t) \<noteq> {}"
      then obtain m where m: "m \<in> spooled (sps_fs t)" by blast
      with that have "MAX_DRAIN_ATTEMPTS - failureCounts t (stem m) = 0" by (simp add: attempts_left_def)
      moreover have "failureCounts t (stem m) < MAX_DRAIN_ATTEMPTS" using Nil(2) by (simp add: within_limit_def)
      ultimately show False by linarith
    qed
    ultimately show ?case by auto
  next
    case (Cons e es)
    from Cons.prems(1) have e: "te_faults e = faultless" "list_all (\<lambda>e. te_faults e = faultless) es" by simp_all
    note t = tick_left[OF e(1) assms(1) Cons.prems(2)]
    have "spooled (sps_fs (drain_tick maxPerTick e t)) = {} \<or> attempts_left (drain_tick maxPerTick e t) \<le> length es"
      using t Cons.prems(3) by (cases "spooled (sps_fs t) = {}") auto
    with Cons.IH[OF e(2)] t show ?case by simp
  qed
  have "attempts_left s \<le> (\<Sum>n \<in> spooled (sps_fs s). MAX_DRAIN_ATTEMPTS)"
    unfolding attempts_left_def by (rule sum_mono) simp
  with assms(4) have "attempts_left s \<le> length envs" by (simp add: mult.commute)
  with run[OF assms(2,3)] tick_files_empty[OF assms(5)] show ?thesis by blast
qed

section \<open>A small spool\<close>

definition demo_file :: sfile where
  "demo_file = \<lparr>sf_content = ''torn'', sf_size = 4, sf_mtime = 50\<rparr>"

definition demo_spool :: spool_state where
  "demo_spool = \<lparr>sps_fs = \<lparr>spool_files = Some [(''k.json'', demo_file)], quarantine = None, spool_counters = Stats_Missing\<rparr>,
     sps_db = demo_ingest_db, failureCounts = (\<lambda>_. 0)\<rparr>"

definition demo_tick :: "epoch_ms \<Rightarrow> faults \<Rightarrow> tick_env" where
  "demo_tick now flt = \<lparr>te_now = now, te_max_bytes = 100, te_key_le = (\<lambda>_ _. True), te_faults = flt, te_parse = (\<lambda>_. None),
     te_isodate = (\<lambda>_. True), te_ingest = (\<lambda>_. demo_ingest_env)\<rparr>"

lemma demo_consistent: "list_all (consistent (\<lambda>_. None) (\<lambda>_. True) (\<lambda>_. ''h'')) [demo_tick 60 faultless, demo_tick 70 faultless]"
  by (simp add: consistent_def demo_tick_def demo_ingest_env_def PENDING_TARGET_def)

theorem no_envelope_is_lost_witness:
  "let s' = fold (drain_tick 3) [demo_tick 60 faultless, demo_tick 70 faultless] demo_spool
   in map_of (entries (spool_files (sps_fs s'))) (spool_name ''k'') = Some demo_file \<or>
      map_of (entries (quarantine (sps_fs s'))) (spool_name ''k'') = Some demo_file"
proof -
  have inv: "ingest_inv (sps_db demo_spool)" by (simp add: demo_spool_def demo_ingest_inv)
  have f: "map_of (entries (spool_files (sps_fs demo_spool))) (spool_name ''k'') = Some demo_file"
    by (simp add: demo_spool_def spool_name_def)
  show ?thesis
    using no_envelope_is_lost[OF inv f demo_consistent, of 3]
    by (auto simp: Let_def ingested_from_def demo_tick_def demo_file_def DEFAULT_QUARANTINE_TTL_MS_def)
qed

theorem the_spool_empties_witness:
  "tick_files (demo_tick 99 faultless) (sps_fs (fold (drain_tick 1) (replicate 5 (demo_tick 60 faultless)) demo_spool)) = []"
proof (rule the_spool_empties)
  have "spooled (sps_fs demo_spool) = {''k.json''}"
    by (auto simp: spooled_def demo_spool_def spooled_name_def ends_with_def)
  then show "MAX_DRAIN_ATTEMPTS * card (spooled (sps_fs demo_spool)) \<le> length (replicate 5 (demo_tick 60 faultless))"
    by (simp add: MAX_DRAIN_ATTEMPTS_def)
qed (simp_all add: demo_tick_def demo_spool_def within_limit_def MAX_DRAIN_ATTEMPTS_def eval_nat_numeral)

section \<open>What the drain does not do\<close>

lemma sort_by_hidden: "\<not> spooled_name n \<Longrightarrow>
   filter (\<lambda>(n, _). spooled_name n \<and> can_stat flt n) (obj_set n f d) = filter (\<lambda>(n, _). spooled_name n \<and> can_stat flt n) d"
  by (induction d) (simp_all split: prod.splits if_splits)

text \<open>A crash between the two writes leaves a file the listing does not show.\<close>

lemma torn_write_is_invisible:
  "listSpoolFiles le flt (write_tmp key suffix_id f fs) = listSpoolFiles le flt fs"
proof -
  have "\<not> spooled_name (''.'' @ key @ ''.'' @ suffix_id @ ''.tmp'')" by (simp add: spooled_name_def)
  from sort_by_hidden[OF this, simplified, of flt f] show ?thesis by (simp add: listSpoolFiles_def write_tmp_def)
qed

text \<open>
  Files that cannot be read are skipped without a count. When they fill the limit of a tick, the
  tick does nothing, and so does every later one: the files behind them are never reached.
\<close>

lemma unreadable_head_stalls:
  assumes "list_all (\<lambda>fl. sp_size fl \<le> te_max_bytes env \<and> \<not> can_read (te_faults env) (spool_name (sp_key fl)))
      (take n (tick_files env (sps_fs s)))"
  shows "spool_files (sps_fs (drain_tick n env s)) = spool_files (sps_fs s) \<and> sps_db (drain_tick n env s) = sps_db s \<and>
    failureCounts (drain_tick n env s) = failureCounts s"
proof -
  have skip: "fold (drain_file env) fls ds = ds"
    if "list_all (\<lambda>fl. sp_size fl \<le> te_max_bytes env \<and> \<not> can_read (te_faults env) (spool_name (sp_key fl))) fls" for fls ds
    using that by (induction fls) (simp_all add: drain_file_def read_spool_file_def Let_def)
  have "tick_files env (sps_fs (tick_start env s)) = tick_files env (sps_fs s)"
    by (simp add: tick_files_def listSpoolFiles_def)
  with assms show ?thesis by (simp add: tick_state skip)
qed

text \<open>
  The rename keeps the modification time, so the retention of the quarantine counts from the capture:
  a file that waited longer than it is deleted by the first tick after the one that quarantined it.
\<close>

definition old_spool :: spool_state where
  "old_spool = demo_spool\<lparr>failureCounts := (\<lambda>_. 4)\<rparr>"

lemma old_capture_is_pruned_at_once:
  "quarantine (sps_fs (drain_tick 50 (demo_tick 700000000 faultless) old_spool)) \<noteq> None \<and>
   map_of (entries (quarantine (sps_fs (drain_tick 50 (demo_tick 700000000 faultless) old_spool)))) ''k.json'' = Some demo_file \<and>
   map_of (entries (quarantine (sps_fs (drain_tick 50 (demo_tick 700030000 faultless)
     (drain_tick 50 (demo_tick 700000000 faultless) old_spool))))) ''k.json'' = None"
  by code_simp

end
