(* ===== verification/Retention.thy ===== *)
theory Retention
  imports Distill_Text
begin

text \<open>
  Retention of files: \<open>src/src/storage/retention.ts\<close> (the tiers, the guard on the kind directories, the
  scan, the pass and its summary), the governance of its settings in \<open>src/src/config/config.ts\<close>, and the
  pruning of backups in \<open>src/src/backup/retention.ts\<close>. Paths are resolved as on a POSIX system, without
  symbolic links; a directory lists its entries in the order \<open>readdir\<close> gives them, and which calls
  succeed is a parameter. The lemmas show that a pass stays below the artifacts directory and that
  pruning keeps the newest backups.
\<close>

section \<open>The settings\<close>

text \<open>
  The settings are scalars of a file without a schema: where the code computes with a number, a text
  that is none reads as \<open>NaN\<close>, which no comparison holds for.
\<close>

datatype js_number = Number int | NaN

fun js_max :: "int \<Rightarrow> js_number \<Rightarrow> js_number" where
  "js_max a (Number b) = Number (max a b)"
| "js_max a NaN = NaN"

fun js_min :: "int \<Rightarrow> js_number \<Rightarrow> js_number" where
  "js_min a (Number b) = Number (min a b)"
| "js_min a NaN = NaN"

fun js_at_least :: "int \<Rightarrow> js_number \<Rightarrow> bool" where
  "js_at_least a (Number b) \<longleftrightarrow> b \<le> a"
| "js_at_least a NaN \<longleftrightarrow> False"

fun js_less :: "int \<Rightarrow> js_number \<Rightarrow> bool" where
  "js_less a (Number b) \<longleftrightarrow> a < b"
| "js_less a NaN \<longleftrightarrow> False"

record retention_cfg =
  rc_mode :: string
  rc_tier :: string
  rc_age :: js_number
  rc_artifacts :: "string option"
  rc_min_size :: js_number
  rc_types :: "string list"
  rc_media :: "string list"
  rc_lean :: "string list"

definition RETENTION_MAX_AGE_DAYS :: int where "RETENTION_MAX_AGE_DAYS = 3650"

definition applyRetentionGovernance :: "retention_cfg \<Rightarrow> retention_cfg" where
  "applyRetentionGovernance r =
     (if rc_mode r \<notin> {''off'', ''dry-run'', ''enabled''} then r\<lparr>rc_mode := ''off''\<rparr>
      else (let g = (if rc_tier r \<in> {''media'', ''lean'', ''all''} then r else r\<lparr>rc_tier := ''media''\<rparr>)
            in g\<lparr>rc_age := js_min RETENTION_MAX_AGE_DAYS (js_max 1 (rc_age g))\<rparr>))"

text \<open>A \<open>Set\<close> keeps the first of equal elements.\<close>

definition js_set :: "'a list \<Rightarrow> 'a list" where "js_set xs = rev (remdups (rev xs))"

definition scopedKinds :: "retention_cfg \<Rightarrow> string \<Rightarrow> string list" where
  "scopedKinds r tier =
     (if tier = ''all'' then js_set (rc_types r)
      else if tier = ''lean'' then js_set (rc_media r @ rc_lean r)
      else js_set (rc_media r))"

section \<open>Paths\<close>

text \<open>\<open>path.resolve\<close> on a POSIX system: \<open>cwd\<close> is the working directory.\<close>

fun norm_segments :: "string list \<Rightarrow> string list \<Rightarrow> string list" where
  "norm_segments acc [] = rev acc"
| "norm_segments acc (w # ws) =
     (if w = [] \<or> w = ''.'' then norm_segments acc ws
      else if w = ''..'' then norm_segments (tl acc) ws
      else norm_segments (w # acc) ws)"

definition is_absolute :: "string \<Rightarrow> bool" where
  "is_absolute p \<longleftrightarrow> (case p of c # _ \<Rightarrow> c = CHR ''/'' | [] \<Rightarrow> False)"

fun path_chain :: "string list \<Rightarrow> string list" where
  "path_chain [] = []"
| "path_chain (p # ps) = (if is_absolute p then split_at_char (CHR ''/'') p else path_chain ps @ split_at_char (CHR ''/'') p)"

text \<open>The arguments from the last to the first, the working directory at the end.\<close>

definition resolve_segments :: "string \<Rightarrow> string list \<Rightarrow> string list" where
  "resolve_segments cwd ps = norm_segments [] (path_chain (rev ps @ [cwd]))"

definition render_path :: "string list \<Rightarrow> string" where
  "render_path ws = (if ws = [] then ''/'' else concat (map (\<lambda>w. ''/'' @ w) ws))"

definition js_resolve :: "string \<Rightarrow> string list \<Rightarrow> string" where
  "js_resolve cwd ps = render_path (resolve_segments cwd ps)"

definition resolveKindDir :: "string \<Rightarrow> string \<Rightarrow> string \<Rightarrow> string option" where
  "resolveKindDir cwd base kind =
     (let resolvedRoot = js_resolve cwd [base]; target = js_resolve cwd [base, kind]
      in if prefix (resolvedRoot @ ''/'') target then Some target else None)"

section \<open>The scan\<close>

record fstat =
  st_file :: bool
  st_size :: int
  st_mtime :: epoch_ms

text \<open>The directories with their entries; a path is a directory and the name of an entry.\<close>

type_synonym art_fs = "string \<Rightarrow> (string \<times> fstat) list option"

definition at_path :: "art_fs \<Rightarrow> string \<times> string \<Rightarrow> fstat option" where
  "at_path fs p = (case fs (fst p) of None \<Rightarrow> None | Some es \<Rightarrow> map_of es (snd p))"

definition unlink :: "string \<times> string \<Rightarrow> art_fs \<Rightarrow> art_fs" where
  "unlink p fs = fs(fst p := map_option (filter (\<lambda>(n, _). n \<noteq> snd p)) (fs (fst p)))"

record art_faults =
  can_list :: "string \<Rightarrow> bool"
  can_stat_path :: "string \<times> string \<Rightarrow> bool"
  can_remove :: "string \<times> string \<Rightarrow> bool"

record candidate =
  cd_kind :: string
  cd_path :: "string \<times> string"
  cd_size :: int
  cd_mtime :: epoch_ms

record retention_scan =
  rs_candidates :: "candidate list"
  rs_total :: int
  rs_by_kind :: "(string \<times> (nat \<times> int)) list"

definition defaultArtifactsDir :: "string \<Rightarrow> string" where
  "defaultArtifactsDir dataDir = dataDir @ ''/artifacts''"

definition artifacts_root :: "string \<Rightarrow> retention_cfg \<Rightarrow> string" where
  "artifacts_root dataDir r = (case rc_artifacts r of Some d \<Rightarrow> d | None \<Rightarrow> defaultArtifactsDir dataDir)"

definition RDAY_MS :: int where "RDAY_MS = 24 * 60 * 60 * 1000"

definition cutoff :: "retention_cfg \<Rightarrow> epoch_ms \<Rightarrow> js_number" where
  "cutoff r now = (case rc_age r of Number a \<Rightarrow> Number (now - a * RDAY_MS) | NaN \<Rightarrow> NaN)"

definition scan_entry ::
  "retention_cfg \<Rightarrow> epoch_ms \<Rightarrow> art_faults \<Rightarrow> art_fs \<Rightarrow> string \<Rightarrow> string \<Rightarrow> string \<Rightarrow> retention_scan \<Rightarrow> retention_scan" where
  "scan_entry r now flt fs kind kindDir n acc =
     (case (if can_stat_path flt (kindDir, n) then at_path fs (kindDir, n) else None) of
        None \<Rightarrow> acc
      | Some st \<Rightarrow>
          (if \<not> st_file st then acc
           else if js_at_least (st_mtime st) (cutoff r now) then acc
           else if js_less (st_size st) (rc_min_size r) then acc
           else (let (c, b) = (case map_of (rs_by_kind acc) kind of Some x \<Rightarrow> x | None \<Rightarrow> (0, 0))
                 in acc\<lparr>rs_candidates := rs_candidates acc @
                          [\<lparr>cd_kind = kind, cd_path = (kindDir, n), cd_size = st_size st, cd_mtime = st_mtime st\<rparr>],
                       rs_total := rs_total acc + st_size st,
                       rs_by_kind := obj_set kind (c + 1, b + st_size st) (rs_by_kind acc)\<rparr>)))"

definition scan_kind ::
  "string \<Rightarrow> string \<Rightarrow> retention_cfg \<Rightarrow> epoch_ms \<Rightarrow> art_faults \<Rightarrow> art_fs \<Rightarrow> string \<Rightarrow> retention_scan \<Rightarrow> retention_scan" where
  "scan_kind cwd base r now flt fs kind acc =
     (case resolveKindDir cwd base kind of
        None \<Rightarrow> acc
      | Some kindDir \<Rightarrow>
          (case fs kindDir of
             None \<Rightarrow> acc
           | Some es \<Rightarrow>
               (if can_list flt kindDir then fold (scan_entry r now flt fs kind kindDir) (map fst es) acc else acc)))"

definition scanRetentionCandidates ::
  "string \<Rightarrow> string \<Rightarrow> retention_cfg \<Rightarrow> string \<Rightarrow> epoch_ms \<Rightarrow> art_faults \<Rightarrow> art_fs \<Rightarrow> retention_scan" where
  "scanRetentionCandidates cwd dataDir r tier now flt fs =
     fold (scan_kind cwd (artifacts_root dataDir r) r now flt fs) (scopedKinds r tier)
       \<lparr>rs_candidates = [], rs_total = 0, rs_by_kind = []\<rparr>"

section \<open>The pass\<close>

record retention_sweep =
  sw_deleted :: "candidate list"
  sw_bytes :: int
  sw_errors :: "(string \<times> string) list"
  sw_fs :: art_fs

definition reclaim :: "art_faults \<Rightarrow> candidate \<Rightarrow> retention_sweep \<Rightarrow> retention_sweep" where
  "reclaim flt c s =
     (if can_remove flt (cd_path c) \<and> at_path (sw_fs s) (cd_path c) \<noteq> None
      then s\<lparr>sw_deleted := sw_deleted s @ [c], sw_bytes := sw_bytes s + cd_size c, sw_fs := unlink (cd_path c) (sw_fs s)\<rparr>
      else s\<lparr>sw_errors := sw_errors s @ [cd_path c]\<rparr>)"

definition runRetentionPass ::
  "string \<Rightarrow> string \<Rightarrow> retention_cfg \<Rightarrow> string \<Rightarrow> epoch_ms \<Rightarrow> art_faults \<Rightarrow> art_fs \<Rightarrow> retention_scan \<times> retention_sweep" where
  "runRetentionPass cwd dataDir r tier now flt fs =
     (let s0 = \<lparr>sw_deleted = [], sw_bytes = 0, sw_errors = [], sw_fs = fs\<rparr>
      in if rc_mode r = ''off'' then (\<lparr>rs_candidates = [], rs_total = 0, rs_by_kind = []\<rparr>, s0)
         else (let scan = scanRetentionCandidates cwd dataDir r tier now flt fs
               in if rc_mode r = ''dry-run'' then (scan, s0)
                  else (scan, fold (reclaim flt) (rs_candidates scan) s0)))"

text \<open>The summary kept for the doctor, in one file that may be missing or torn.\<close>

record sweep_stats =
  ss_tier :: string
  ss_mode :: string
  ss_scanned_at :: epoch_ms
  ss_candidates :: nat
  ss_total :: int
  ss_deleted :: nat
  ss_deleted_bytes :: int
  ss_by_kind :: "(string \<times> (nat \<times> int)) list"
  ss_errors :: nat

datatype sweep_file = Sweep_Missing | Sweep_Unreadable | Sweep_Saved sweep_stats

definition writeSweepStats ::
  "bool \<Rightarrow> string \<Rightarrow> string \<Rightarrow> epoch_ms \<Rightarrow> retention_scan \<times> retention_sweep \<Rightarrow> sweep_file \<Rightarrow> sweep_file" where
  "writeSweepStats writable tier mode now result f =
     (if writable
      then Sweep_Saved \<lparr>ss_tier = tier, ss_mode = mode, ss_scanned_at = now,
        ss_candidates = length (rs_candidates (fst result)), ss_total = rs_total (fst result),
        ss_deleted = length (sw_deleted (snd result)), ss_deleted_bytes = sw_bytes (snd result),
        ss_by_kind = rs_by_kind (fst result), ss_errors = length (sw_errors (snd result))\<rparr>
      else f)"

definition readSweepStats :: "sweep_file \<Rightarrow> sweep_stats option" where
  "readSweepStats f = (case f of Sweep_Saved st \<Rightarrow> Some st | _ \<Rightarrow> None)"

section \<open>Backups\<close>

datatype prune_error = Range_Error int | Io_Error

datatype listing = Listing "(string \<times> epoch_ms) list" | No_Directory | Unreadable_Directory

definition snapshot_name :: "string \<Rightarrow> bool" where
  "snapshot_name n \<longleftrightarrow> 14 \<le> length n \<and> take 7 n = ''memory-'' \<and> drop (length n - 7) n = ''.sqlite'' \<and>
     list_all (\<lambda>c. c \<noteq> CHR 0x0A \<and> c \<noteq> CHR 0x0D) (take (length n - 14) (drop 7 n))"

definition delete_snapshot :: "(string \<Rightarrow> bool) \<Rightarrow> string \<Rightarrow> string list \<times> (string \<times> epoch_ms) list \<Rightarrow>
   string list \<times> (string \<times> epoch_ms) list" where
  "delete_snapshot removable n acc =
     (let (deleted, es) = acc in if removable n then (deleted @ [n], filter (\<lambda>(m, _). m \<noteq> n) es) else acc)"

text \<open>The names kept and deleted, and the directory afterwards.\<close>

definition pruneOldBackups ::
  "(string \<Rightarrow> bool) \<Rightarrow> (string \<Rightarrow> bool) \<Rightarrow> int \<Rightarrow> listing \<Rightarrow>
   prune_error + ((string list \<times> string list) \<times> listing)" where
  "pruneOldBackups statable removable keep dir =
     (if keep < 1 then Inl (Range_Error keep)
      else (case dir of
          No_Directory \<Rightarrow> Inr (([], []), dir)
        | Unreadable_Directory \<Rightarrow> Inl Io_Error
        | Listing es \<Rightarrow>
            (let candidates = sort_by (\<lambda>a b. snd b \<le> snd a)
                   (filter (\<lambda>(n, _). snapshot_name n \<and> statable n) es);
                 kept = map fst (take (nat keep) candidates);
                 (deleted, es') = fold (delete_snapshot removable) (map fst (drop (nat keep) candidates)) ([], es)
             in Inr ((kept, deleted), Listing es'))))"

section \<open>The sandbox\<close>

definition clean :: "string list \<Rightarrow> bool" where
  "clean ws \<longleftrightarrow> (\<forall>w \<in> set ws. w \<noteq> [] \<and> w \<noteq> ''.'' \<and> w \<noteq> ''..'' \<and> CHR ''/'' \<notin> set w)"

lemma clean_simps [simp]:
  "clean []" "clean (w # ws) \<longleftrightarrow> w \<noteq> [] \<and> w \<noteq> ''.'' \<and> w \<noteq> ''..'' \<and> CHR ''/'' \<notin> set w \<and> clean ws"
  by (simp_all add: clean_def)

lemma norm_clean:
  "clean acc \<Longrightarrow> \<forall>w \<in> set ws. CHR ''/'' \<notin> set w \<Longrightarrow> clean (norm_segments acc ws)"
proof (induction acc ws rule: norm_segments.induct)
  case (2 acc w ws)
  from 2(4) have "clean (tl acc)" by (cases acc) simp_all
  with 2 show ?case by (cases "w = [] \<or> w = ''.''"; cases "w = ''..''") simp_all
qed (simp add: clean_def)

lemma chain_clean: "w \<in> set (path_chain ps) \<Longrightarrow> CHR ''/'' \<notin> set w"
  by (induction ps) (auto dest: split_no_sep split: if_splits)

lemma resolved_clean: "clean (resolve_segments cwd ps)"
  unfolding resolve_segments_def by (rule norm_clean) (auto simp: clean_def dest: chain_clean)

definition slashed :: "string list \<Rightarrow> string" where "slashed ws = concat (map (\<lambda>w. ''/'' @ w) ws)"

lemma slashed_Cons [simp]: "slashed [] = []" "slashed (w # ws) = CHR ''/'' # w @ slashed ws"
  by (simp_all add: slashed_def)

lemma render_slashed: "render_path ws = (if ws = [] then ''/'' else slashed ws)"
  by (simp only: render_path_def slashed_def)

lemma slash_free_eq:
  assumes "CHR ''/'' \<notin> set a" and "CHR ''/'' \<notin> set b" and e: "a @ CHR ''/'' # s = b @ CHR ''/'' # t"
  shows "a = b"
proof -
  have "CHR ''/'' \<notin> set xs \<Longrightarrow> takeWhile (\<lambda>c. c \<noteq> CHR ''/'') (xs @ CHR ''/'' # ys) = xs" for xs ys
    by (induction xs) auto
  from this[OF assms(1), of s] this[OF assms(2), of t] e show ?thesis by simp
qed

lemma slashed_prefix:
  "clean r \<Longrightarrow> clean t \<Longrightarrow> prefix (slashed r @ ''/'') (slashed t) \<Longrightarrow> take (length r) t = r \<and> length r < length t"
proof (induction r arbitrary: t)
  case Nil
  then show ?case by (cases t) auto
next
  case (Cons a r)
  from Cons.prems(3) obtain b ts where t: "t = b # ts" by (cases t) auto
  from Cons.prems(1,2) t have free: "CHR ''/'' \<notin> set a" "CHR ''/'' \<notin> set b" and sub: "clean r" "clean ts"
    by simp_all
  obtain s where s: "slashed r @ ''/'' = CHR ''/'' # s" by (cases r) auto
  from Cons.prems(3) obtain z where z: "a @ (slashed r @ ''/'') @ z = b @ slashed ts" by (auto simp: t prefix_def)
  then have z': "a @ CHR ''/'' # (s @ z) = b @ slashed ts" by (simp add: s)
  show ?case
  proof (cases ts)
    case Nil
    with z' free(2) have False by (metis append_Nil2 in_set_conv_decomp slashed_Cons(1))
    then show ?thesis ..
  next
    case (Cons c cs)
    then have "a @ CHR ''/'' # (s @ z) = b @ CHR ''/'' # (c @ slashed cs)" using z' by simp
    from slash_free_eq[OF free this] have "a = b" .
    with z have "slashed ts = (slashed r @ ''/'') @ z" by simp
    then have "prefix (slashed r @ ''/'') (slashed ts)" by (rule prefixI)
    from Cons.IH[OF sub this] \<open>a = b\<close> show ?thesis by (simp add: t)
  qed
qed

text \<open>The check on the texts of the two paths is one on their segments.\<close>

lemma resolveKindDir_below:
  assumes "resolveKindDir cwd base kind = Some d"
  shows "\<exists>ws. d = render_path ws \<and> take (length (resolve_segments cwd [base])) ws = resolve_segments cwd [base] \<and>
    length (resolve_segments cwd [base]) < length ws"
proof -
  let ?r = "resolve_segments cwd [base]" and ?t = "resolve_segments cwd [base, kind]"
  from assms have d: "d = render_path ?t" and p: "prefix (render_path ?r @ ''/'') (render_path ?t)"
    by (auto simp: resolveKindDir_def js_resolve_def Let_def split: if_splits)
  have ne: "?r \<noteq> []"
  proof
    assume "?r = []"
    with p have p2: "prefix ''//'' (render_path ?t)" by (simp add: render_path_def)
    show False
    proof (cases ?t)
      case Nil
      with p2 show False by (simp add: render_path_def)
    next
      case (Cons w ws)
      moreover from this have "w \<noteq> [] \<and> CHR ''/'' \<notin> set w" using resolved_clean[of cwd "[base, kind]"] by simp
      ultimately show False using p2 by (cases w) (auto simp: render_path_def)
    qed
  qed
  have "?t \<noteq> []"
  proof
    assume "?t = []"
    with p ne show False by (cases ?r) (auto simp: render_path_def prefix_Cons)
  qed
  with p ne have "prefix (slashed ?r @ ''/'') (slashed ?t)" by (simp add: render_slashed)
  from slashed_prefix[OF resolved_clean resolved_clean this] d show ?thesis by blast
qed

section \<open>What a pass removes\<close>

lemma at_unlink: "at_path (unlink p fs) q = (if q = p then None else at_path fs q)"
proof -
  have "map_of (filter (\<lambda>(m, _). m \<noteq> n) es) k = (if k = n then None else map_of es k)" for n k and es :: "(string \<times> fstat) list"
    by (induction es) auto
  then show ?thesis
    by (cases p; cases q; cases "fs (fst p)") (auto simp: at_path_def unlink_def)
qed

text \<open>What makes a file a candidate.\<close>

definition old_and_big :: "retention_cfg \<Rightarrow> epoch_ms \<Rightarrow> art_fs \<Rightarrow> string \<times> string \<Rightarrow> bool" where
  "old_and_big r now fs p \<longleftrightarrow>
     (case at_path fs p of None \<Rightarrow> False
      | Some st \<Rightarrow> st_file st \<and> \<not> js_at_least (st_mtime st) (cutoff r now) \<and> \<not> js_less (st_size st) (rc_min_size r))"

definition reclaimable :: "string \<Rightarrow> string \<Rightarrow> retention_cfg \<Rightarrow> string \<Rightarrow> epoch_ms \<Rightarrow> art_fs \<Rightarrow> string \<times> string \<Rightarrow> bool" where
  "reclaimable cwd dataDir r tier now fs p \<longleftrightarrow>
     (\<exists>kind \<in> set (scopedKinds r tier). resolveKindDir cwd (artifacts_root dataDir r) kind = Some (fst p)) \<and> old_and_big r now fs p"

abbreviation candidate_paths :: "retention_scan \<Rightarrow> (string \<times> string) set" where
  "candidate_paths acc \<equiv> cd_path ` set (rs_candidates acc)"

lemma scan_entry_paths:
  "candidate_paths (scan_entry r now flt fs kind d n acc) \<subseteq> candidate_paths acc \<union> {p. fst p = d \<and> old_and_big r now fs p}"
proof (cases "can_stat_path flt (d, n)")
  case True
  show ?thesis
  proof (cases "at_path fs (d, n)")
    case (Some st)
    with True show ?thesis
      by (cases "st_file st"; cases "js_at_least (st_mtime st) (cutoff r now)"; cases "js_less (st_size st) (rc_min_size r)")
        (simp_all add: scan_entry_def case_prod_beta Let_def old_and_big_def)
  qed (simp add: scan_entry_def)
qed (simp add: scan_entry_def)

lemma fold_paths:
  assumes "\<And>x acc. x \<in> set xs \<Longrightarrow> candidate_paths (f x acc) \<subseteq> candidate_paths acc \<union> S"
  shows "candidate_paths (fold f xs acc) \<subseteq> candidate_paths acc \<union> S"
  using assms
proof (induction xs arbitrary: acc)
  case (Cons x xs)
  have "candidate_paths (fold f xs (f x acc)) \<subseteq> candidate_paths (f x acc) \<union> S" by (rule Cons.IH) (simp add: Cons.prems)
  moreover have "candidate_paths (f x acc) \<subseteq> candidate_paths acc \<union> S" by (simp add: Cons.prems)
  ultimately have "candidate_paths (fold f xs (f x acc)) \<subseteq> candidate_paths acc \<union> S" by blast
  then show ?case by simp
qed simp

lemma scan_kind_paths:
  "candidate_paths (scan_kind cwd b r now flt fs kind acc) \<subseteq>
     candidate_paths acc \<union> {p. resolveKindDir cwd b kind = Some (fst p) \<and> old_and_big r now fs p}"
proof (cases "resolveKindDir cwd b kind")
  case (Some d)
  have "candidate_paths (fold (scan_entry r now flt fs kind d) ns acc) \<subseteq> candidate_paths acc \<union> {p. fst p = d \<and> old_and_big r now fs p}" for ns
    by (rule fold_paths) (rule scan_entry_paths)
  moreover have "{p. fst p = d \<and> old_and_big r now fs p} \<subseteq> {p. resolveKindDir cwd b kind = Some (fst p) \<and> old_and_big r now fs p}"
    using Some by auto
  ultimately have ns: "candidate_paths (fold (scan_entry r now flt fs kind d) ns acc) \<subseteq>
      candidate_paths acc \<union> {p. resolveKindDir cwd b kind = Some (fst p) \<and> old_and_big r now fs p}" for ns by blast
  show ?thesis
  proof (cases "fs d")
    case (Some es)
    show ?thesis
    proof (cases "can_list flt d")
      case True
      have "scan_kind cwd b r now flt fs kind acc = fold (scan_entry r now flt fs kind d) (map fst es) acc"
        by (simp add: scan_kind_def \<open>resolveKindDir cwd b kind = Some d\<close> \<open>fs d = Some es\<close> True)
      with ns[of "map fst es"] show ?thesis by (simp only:)
    next
      case False
      have "scan_kind cwd b r now flt fs kind acc = acc"
        by (simp add: scan_kind_def \<open>resolveKindDir cwd b kind = Some d\<close> \<open>fs d = Some es\<close> False)
      then show ?thesis by (simp only: Un_upper1)
    qed
  next
    case None
    have "scan_kind cwd b r now flt fs kind acc = acc"
      by (simp add: scan_kind_def \<open>resolveKindDir cwd b kind = Some d\<close> None)
    then show ?thesis by (simp only: Un_upper1)
  qed
qed (simp add: scan_kind_def)

lemma scan_reclaimable:
  "candidate_paths (scanRetentionCandidates cwd dataDir r tier now flt fs) \<subseteq> {p. reclaimable cwd dataDir r tier now fs p}"
proof -
  let ?b = "artifacts_root dataDir r" and ?acc = "\<lparr>rs_candidates = [], rs_total = 0, rs_by_kind = []\<rparr>"
  have "candidate_paths (fold (scan_kind cwd ?b r now flt fs) (scopedKinds r tier) ?acc) \<subseteq>
      candidate_paths ?acc \<union> {p. reclaimable cwd dataDir r tier now fs p}"
  proof (rule fold_paths)
    fix k acc
    assume "k \<in> set (scopedKinds r tier)"
    then have "{p. resolveKindDir cwd ?b k = Some (fst p) \<and> old_and_big r now fs p} \<subseteq> {p. reclaimable cwd dataDir r tier now fs p}"
      by (auto simp: reclaimable_def)
    with scan_kind_paths[of cwd ?b r now flt fs k acc]
    show "candidate_paths (scan_kind cwd ?b r now flt fs k acc) \<subseteq> candidate_paths acc \<union> {p. reclaimable cwd dataDir r tier now fs p}" by blast
  qed
  then show ?thesis by (simp add: scanRetentionCandidates_def)
qed

lemma reclaim_all:
  "let s' = fold (reclaim flt) cs s in
    (at_path (sw_fs s') p = at_path (sw_fs s) p \<or> at_path (sw_fs s') p = None \<and> p \<in> cd_path ` set cs) \<and>
    length (sw_deleted s') + length (sw_errors s') = length (sw_deleted s) + length (sw_errors s) + length cs \<and>
    sw_bytes s' - sum_list (map cd_size (sw_deleted s')) = sw_bytes s - sum_list (map cd_size (sw_deleted s))"
  unfolding Let_def
proof (induction cs arbitrary: s)
  case (Cons c cs)
  have one: "length (sw_deleted (reclaim flt c s)) + length (sw_errors (reclaim flt c s)) = length (sw_deleted s) + length (sw_errors s) + 1"
    "sw_bytes (reclaim flt c s) - sum_list (map cd_size (sw_deleted (reclaim flt c s))) = sw_bytes s - sum_list (map cd_size (sw_deleted s))"
    "at_path (sw_fs (reclaim flt c s)) p = at_path (sw_fs s) p \<or> at_path (sw_fs (reclaim flt c s)) p = None \<and> p = cd_path c"
    by (simp_all add: reclaim_def at_unlink)
  from Cons[of "reclaim flt c s"] one show ?case by auto
qed simp

lemma governed_age:
  "rc_mode (applyRetentionGovernance r) \<noteq> ''off'' \<Longrightarrow>
   rc_age (applyRetentionGovernance r) = NaN \<or> (\<exists>a. rc_age (applyRetentionGovernance r) = Number a \<and> 1 \<le> a \<and> a \<le> RETENTION_MAX_AGE_DAYS)"
  by (cases "rc_age r") (auto simp: applyRetentionGovernance_def Let_def RETENTION_MAX_AGE_DAYS_def)


text \<open>
  A threshold that is no number, such as \<open>30d\<close>, passes the clamp: no age is at least the cutoff, and
  a file written this moment is deleted.
\<close>

lemma unreadable_threshold_reclaims_all:
  fixes fs :: art_fs
  defines "r \<equiv> applyRetentionGovernance \<lparr>rc_mode = ''enabled'', rc_tier = ''media'', rc_age = NaN, rc_artifacts = Some ''/a'',
    rc_min_size = Number 10, rc_types = [], rc_media = [''audio''], rc_lean = []\<rparr>"
  shows "at_path (sw_fs (snd (runRetentionPass ''/'' ''/d'' r (rc_tier r) 5000
      \<lparr>can_list = \<lambda>_. True, can_stat_path = \<lambda>_. True, can_remove = \<lambda>_. True\<rparr>
      ((\<lambda>_. None)(''/a/audio'' := Some [(''x'', \<lparr>st_file = True, st_size = 10, st_mtime = 5000\<rparr>)]))))) (''/a/audio'', ''x'') = None"
  unfolding r_def by code_simp

section \<open>What pruning keeps\<close>

lemma sorted_insert_by:
  assumes "\<And>a b. le a b \<or> le b a" and "\<And>a b c. le a b \<Longrightarrow> le b c \<Longrightarrow> le a c"
  shows "sorted_wrt le ys \<Longrightarrow> sorted_wrt le (insert_by le x ys)"
proof (induction ys)
  case (Cons y ys)
  have "set (insert_by le x ys) = insert x (set ys)" by (metis mset_insert_by set_mset_add_mset_insert set_mset_mset)
  with Cons assms show ?case by (auto dest: assms(2))
qed simp

lemma sorted_sort_by:
  assumes "\<And>a b. le a b \<or> le b a" and "\<And>a b c. le a b \<Longrightarrow> le b c \<Longrightarrow> le a c"
  shows "sorted_wrt le (sort_by le xs)"
  unfolding sort_by_def by (induction xs) (simp_all add: sorted_insert_by[OF assms])

lemma delete_snapshots:
  "fold (delete_snapshot removable) ns (ds, es) =
     (ds @ filter removable ns, filter (\<lambda>(m, _). m \<notin> set (filter removable ns)) es)"
proof (induction ns arbitrary: ds es)
  case (Cons n ns)
  then show ?case by (auto simp: delete_snapshot_def intro!: filter_cong)
qed simp

text \<open>
  C39: Pruning backups fails only as announced, and keeps the newest. A count below one and a
  directory that cannot be read are errors, and a missing directory is not. Otherwise the first
  \<open>keep\<close> snapshots by age are kept and still there, none of them older than a deleted one; a snapshot
  that cannot be deleted stays; and files that are no snapshots are left alone.
\<close>

theorem backups_keep_the_newest:
  assumes "case dir of Listing es \<Rightarrow> distinct (map fst es) | _ \<Rightarrow> True"
  shows "case pruneOldBackups statable removable keep dir of
      Inl e \<Rightarrow> e = Range_Error keep \<and> keep < 1 \<or> e = Io_Error \<and> dir = Unreadable_Directory
    | Inr ((kept, deleted), dir') \<Rightarrow> 1 \<le> keep \<and>
       (case dir of
          Listing es \<Rightarrow>
            (let snaps = filter (\<lambda>(n, _). snapshot_name n \<and> statable n) es
             in dir' = Listing (filter (\<lambda>(n, _). n \<notin> set deleted) es) \<and>
                length kept = min (nat keep) (length snaps) \<and>
                set deleted \<subseteq> {n. removable n} \<and>
                set kept \<union> set deleted \<subseteq> fst ` set snaps \<and> set kept \<inter> set deleted = {} \<and>
                fst ` set snaps - set kept - set deleted \<subseteq> {n. \<not> removable n} \<and>
                list_all (\<lambda>k. list_all (\<lambda>d. the (map_of es d) \<le> the (map_of es k)) deleted) kept)
        | _ \<Rightarrow> dir = No_Directory \<and> dir' = dir \<and> kept = [] \<and> deleted = [])"
proof (cases dir)
  case (Listing es)
  show ?thesis
  proof (cases "keep < 1")
    case True
    then show ?thesis by (simp add: pruneOldBackups_def)
  next
    case False
    let ?snaps = "filter (\<lambda>(n, _). snapshot_name n \<and> statable n) es"
    let ?c = "sort_by (\<lambda>a b. snd b \<le> snd a) ?snaps" and ?k = "nat keep"
    define kept where "kept = map fst (take ?k ?c)"
    define deleted where "deleted = filter removable (map fst (drop ?k ?c))"
    have run: "pruneOldBackups statable removable keep dir = Inr ((kept, deleted), Listing (filter (\<lambda>(n, _). n \<notin> set deleted) es))"
      using False Listing by (simp add: pruneOldBackups_def Let_def delete_snapshots kept_def deleted_def)
    have des: "distinct (map fst es)" using assms Listing by simp
    then have "distinct (map fst ?c)" by (simp add: distinct_map_filter)
    then have dist: "distinct (map fst (take ?k ?c) @ map fst (drop ?k ?c))" by (simp flip: map_append)
    have "set (take ?k ?c) \<union> set (drop ?k ?c) = set ?c" by (simp only: append_take_drop_id flip: set_append)
    then have parts: "set (map fst (take ?k ?c)) \<union> set (map fst (drop ?k ?c)) = fst ` set ?snaps"
      by (simp only: set_map set_sort_by flip: image_Un)
    have "size (mset ?c) = size (mset ?snaps)" by (simp only: mset_sort_by)
    then have len: "length ?c = length ?snaps" by (simp only: size_mset)
    have sorted: "sorted_wrt (\<lambda>a b. snd b \<le> snd a) ?c" by (rule sorted_sort_by) auto
    have snap_in: "set ?c \<subseteq> set es" by auto
    have mtime_of: "the (map_of es (fst x)) = snd x" if "x \<in> set ?c" for x
    proof -
      from subsetD[OF snap_in that] have "(fst x, snd x) \<in> set es" by simp
      from map_of_is_SomeI[OF des this] show ?thesis by simp
    qed
    have "sorted_wrt (\<lambda>a b. snd b \<le> snd a) (take ?k ?c @ drop ?k ?c)" using sorted by (simp only: append_take_drop_id)
    then have newest: "snd y \<le> snd x" if "x \<in> set (take ?k ?c)" "y \<in> set (drop ?k ?c)" for x y
      using that unfolding sorted_wrt_append by blast
    have ordered: "list_all (\<lambda>k. list_all (\<lambda>d. the (map_of es d) \<le> the (map_of es k)) deleted) kept"
    proof -
      have "the (map_of es d) \<le> the (map_of es k)" if kd: "k \<in> set kept" "d \<in> set deleted" for k d
      proof -
        from kd(1) obtain x where x: "x \<in> set (take ?k ?c)" "k = fst x" by (auto simp: kept_def)
        from kd(2) obtain y where y: "y \<in> set (drop ?k ?c)" "d = fst y" by (auto simp: deleted_def)
        have "the (map_of es k) = snd x" unfolding x(2) by (rule mtime_of[OF in_set_takeD[OF x(1)]])
        moreover have "the (map_of es d) = snd y" unfolding y(2) by (rule mtime_of[OF in_set_dropD[OF y(1)]])
        ultimately show ?thesis using newest[OF x(1) y(1)] by simp
      qed
      then show ?thesis by (simp add: list_all_iff)
    qed
    have disj: "set kept \<inter> set deleted = {}" using dist by (auto simp: kept_def deleted_def)
    have sub: "set kept \<union> set deleted \<subseteq> fst ` set ?snaps" using parts by (auto simp: kept_def deleted_def)
    have rest: "fst ` set ?snaps - set kept - set deleted \<subseteq> {n. \<not> removable n}"
    proof
      fix n
      assume n: "n \<in> fst ` set ?snaps - set kept - set deleted"
      with parts have "n \<in> set (map fst (drop ?k ?c))" by (auto simp: kept_def)
      with n show "n \<in> {n. \<not> removable n}" by (auto simp: deleted_def)
    qed
    have "length kept = min ?k (length ?snaps)" using len by (simp add: kept_def min.commute)
    moreover have "set deleted \<subseteq> {n. removable n}" by (auto simp: deleted_def)
    ultimately show ?thesis using False disj sub rest ordered unfolding run by (simp add: Listing Let_def)
  qed
qed (simp_all add: pruneOldBackups_def)

theorem backups_keep_the_newest_witness:
  "case pruneOldBackups (\<lambda>_. True) (\<lambda>_. True) 1 (Listing [(''memory-1.sqlite'', 1), (''notes.txt'', 0), (''memory-2.sqlite'', 2)]) of
     Inl e \<Rightarrow> False
   | Inr ((kept, deleted), dir') \<Rightarrow> kept = [''memory-2.sqlite''] \<and> set kept \<inter> set deleted = {} \<and>
       dir' = Listing [(''notes.txt'', 0), (''memory-2.sqlite'', 2)]"
proof -
  let ?d = "Listing [(''memory-1.sqlite'', 1), (''notes.txt'', 0), (''memory-2.sqlite'', 2::int)]"
  have run: "pruneOldBackups (\<lambda>_. True) (\<lambda>_. True) 1 ?d =
     Inr (([''memory-2.sqlite''], [''memory-1.sqlite'']), Listing [(''notes.txt'', 0), (''memory-2.sqlite'', 2)])" by code_simp
  have "case ?d of Listing es \<Rightarrow> distinct (map fst es) | _ \<Rightarrow> True" by simp
  note backups_keep_the_newest[OF this, where statable = "\<lambda>_. True" and removable = "\<lambda>_. True" and keep = 1, unfolded run Let_def]
  then show ?thesis unfolding run by simp
qed

text \<open>The summary of a sweep reads back as it was written.\<close>

lemma sweep_stats_roundtrip:
  "readSweepStats (writeSweepStats True tier mode now result f) = Some
     \<lparr>ss_tier = tier, ss_mode = mode, ss_scanned_at = now,
      ss_candidates = length (rs_candidates (fst result)), ss_total = rs_total (fst result),
      ss_deleted = length (sw_deleted (snd result)), ss_deleted_bytes = sw_bytes (snd result),
      ss_by_kind = rs_by_kind (fst result), ss_errors = length (sw_errors (snd result))\<rparr> \<and>
   readSweepStats (writeSweepStats False tier mode now result f) = readSweepStats f"
  by (simp add: readSweepStats_def writeSweepStats_def)

end
