(* ===== verification/Redact.thy ===== *)
theory Redact
  imports Js_Regex
begin

text \<open>
  Redaction of secrets: \<open>src/src/redact/detectors.ts\<close> (the patterns), \<open>src/src/redact/entropy.ts\<close>
  (tokens, their entropy and guards, digit runs) and \<open>src/src/redact/index.ts\<close> (spans, overlaps, the
  three rounds). Texts are lists of code units below 256, so the four curly quotes of the quote classes
  do not occur; SHA-256 and the compilation of custom patterns are parameters. The lemmas show that
  redaction only replaces what was detected and that its last round leaves nothing uncovered.
\<close>

section \<open>Detectors\<close>

record detector =
  det_type :: string
  det_source :: rx
  det_group :: bool
  det_filter :: "string \<Rightarrow> bool"

definition PEM_DETECTOR :: detector where
  "PEM_DETECTOR =
     (let name = Rep (Seq (plus (\<lambda>c. upper_c c \<or> digit_c c)) (lit '' '')) 0 None True
      in \<lparr>det_type = ''pem_private_key'',
          det_source = seqs [lit ''-----BEGIN '', name, lit ''PRIVATE KEY-----'', Rep (Chr (\<lambda>_. True)) 0 None False,
            lit ''-----END '', name, lit ''PRIVATE KEY-----''],
          det_group = False, det_filter = \<lambda>_. True\<rparr>)"

definition double_quote :: "char \<Rightarrow> bool" where "double_quote c \<longleftrightarrow> c = CHR 0x22"
definition single_quote :: "char \<Rightarrow> bool" where "single_quote c \<longleftrightarrow> c = CHR 0x27"
definition ANY_QUOTE_CHAR :: "char \<Rightarrow> bool" where "ANY_QUOTE_CHAR c \<longleftrightarrow> double_quote c \<or> single_quote c"

definition api_key :: rx where "api_key = seqs [liti ''api'', opt (Chr (\<lambda>c. c = CHR ''_'' \<or> c = CHR ''-'')), liti ''key'']"

definition GENERIC_TRAILING_KEYWORDS :: rx where
  "GENERIC_TRAILING_KEYWORDS = alts [api_key, liti ''secret'', liti ''token'', liti ''password'', liti ''passwd'', liti ''pwd'']"

definition GENERIC_COMPOUND_LABEL :: rx where
  "GENERIC_COMPOUND_LABEL =
     Seq (alts [liti ''secret'', liti ''password'', liti ''passwd'', liti ''pwd''])
         (Rep (Seq (lit ''_'') (plus alnum_c)) 1 None True)"

definition QUOTED_LABEL_SEP :: rx where
  "QUOTED_LABEL_SEP = seqs [Chr ANY_QUOTE_CHAR, star js_ws,
     alts [lit ''=>'', lit '':'', Seq (lit ''='') (Not_Next (lit ''>''))], star js_ws]"

definition rejectNumericOrBooleanLiteral :: "string \<Rightarrow> bool" where
  "rejectNumericOrBooleanLiteral v \<longleftrightarrow>
     \<not> rx_test (seqs [Text_Start, plus digit_c, Text_End]) v \<and>
     \<not> rx_test (seqs [Text_Start, alts [liti ''true'', liti ''false''], Text_End]) v"

definition colon_or_equals :: rx where "colon_or_equals = seqs [star js_ws, Chr (\<lambda>c. c = CHR '':'' \<or> c = CHR ''=''), star js_ws]"

text \<open>A pattern whose whole match is the secret, one whose group is, and one with a filter besides.\<close>

definition vendor :: "string \<Rightarrow> rx list \<Rightarrow> detector" where
  "vendor ty rs = \<lparr>det_type = ty, det_source = seqs rs, det_group = False, det_filter = \<lambda>_. True\<rparr>"

definition labelled :: "string \<Rightarrow> rx list \<Rightarrow> detector" where
  "labelled ty rs = \<lparr>det_type = ty, det_source = seqs rs, det_group = True, det_filter = \<lambda>_. True\<rparr>"

definition knob_aware :: "rx list \<Rightarrow> detector" where
  "knob_aware rs = \<lparr>det_type = ''generic_credential'', det_source = seqs rs, det_group = True, det_filter = rejectNumericOrBooleanLiteral\<rparr>"

definition quoted_value :: "(char \<Rightarrow> bool) \<Rightarrow> rx" where
  "quoted_value q = seqs [Chr q, Grp (star (\<lambda>c. \<not> q c)), Chr q]"

definition bare_value :: rx where
  "bare_value = Seq (Not_Next (Chr ANY_QUOTE_CHAR)) (Grp (plus solid_c))"

definition quoted_credential :: "rx \<Rightarrow> rx \<Rightarrow> detector" where
  "quoted_credential label val = labelled ''generic_credential_quoted'' [Not_Prev alpha_c, label, QUOTED_LABEL_SEP, val]"

definition quoted_knob :: "rx \<Rightarrow> detector" where
  "quoted_knob val = (quoted_credential GENERIC_COMPOUND_LABEL val)\<lparr>det_filter := rejectNumericOrBooleanLiteral\<rparr>"

definition PATTERN_DETECTORS :: "detector list" where
  "PATTERN_DETECTORS =
     [vendor ''aws_access_key'' [Word_Edge, lit ''AKIA'', exactly 16 (\<lambda>c. digit_c c \<or> upper_c c), Word_Edge],
      vendor ''github_token'' [Or
        (seqs [Word_Edge, alts [lit ''ghp'', lit ''gho'', lit ''ghu'', lit ''ghs'', lit ''ghr''], lit ''_'', Rep (Chr alnum_c) 20 (Some 255) True, Word_Edge])
        (seqs [Word_Edge, lit ''github_pat_'', Rep (Chr (alnum_or ''_'')) 20 (Some 255) True, Word_Edge])],
      labelled ''azure_key'' [Word_Edge, liti ''AccountKey'', star js_ws, lit ''='', star js_ws, Grp (plus solid_c)],
      labelled ''azure_key'' [Chr (\<lambda>c. c = CHR ''?'' \<or> c = CHR ''&''), liti ''sig='', Grp (at_least 10 (alnum_or ''%+/=''))],
      vendor ''azure_key'' [Word_Edge, exactly 86 (alnum_or ''+/''), lit ''==''],
      vendor ''gcp_api_key'' [Word_Edge, lit ''AIza'', exactly 35 (alnum_or ''-_''), Word_Edge],
      vendor ''slack_token'' [Word_Edge, lit ''xox'', Chr (\<lambda>c. c \<in> set ''baprs''), lit ''-'', Rep (Chr (alnum_or ''-'')) 10 (Some 72) True, Word_Edge],
      labelled ''generic_credential'' [Not_Prev alpha_c, GENERIC_TRAILING_KEYWORDS, colon_or_equals, Grp (plus solid_c)],
      knob_aware [Not_Prev alpha_c, GENERIC_COMPOUND_LABEL, colon_or_equals, Grp (plus solid_c)],
      quoted_credential GENERIC_TRAILING_KEYWORDS (quoted_value double_quote),
      quoted_credential GENERIC_TRAILING_KEYWORDS (quoted_value single_quote),
      quoted_credential GENERIC_TRAILING_KEYWORDS bare_value,
      quoted_knob (quoted_value double_quote),
      quoted_knob (quoted_value single_quote),
      quoted_knob bare_value,
      vendor ''stripe_key'' [Word_Edge, alts [lit ''sk'', lit ''pk'', lit ''rk''], lit ''_live_'', at_least 24 alnum_c, Word_Edge],
      vendor ''anthropic_key'' [Word_Edge, lit ''sk-ant-'', at_least 20 (alnum_or ''_-''), Word_Edge],
      vendor ''openai_key'' [Word_Edge, lit ''sk-'', Not_Next (lit ''ant-''), at_least 20 (alnum_or ''_-''), Word_Edge],
      vendor ''jwt'' [Word_Edge, lit ''ey'', at_least 10 (alnum_or ''_-''), lit ''.'', at_least 10 (alnum_or ''_-''), lit ''.'',
        at_least 10 (alnum_or ''_-''), Word_Edge],
      labelled ''connection_string'' [Word_Edge, Chr alpha_c, star (alnum_or ''+.-''), lit ''://'',
        Grp (seqs [plus (\<lambda>c. solid_c c \<and> c \<notin> set ''/:@''), lit '':'', plus (\<lambda>c. solid_c c \<and> c \<notin> set ''/@'')]), lit ''@'']]"

definition customDetector :: "rx \<Rightarrow> detector" where
  "customDetector r = \<lparr>det_type = ''custom'', det_source = r, det_group = False, det_filter = \<lambda>_. True\<rparr>"

section \<open>Entropy and digit runs\<close>

definition MIN_TOKEN_LENGTH :: nat where "MIN_TOKEN_LENGTH = 20"
definition CONTEXT_WINDOW :: nat where "CONTEXT_WINDOW = 40"
definition NUMERIC_SECRET_MIN_LENGTH :: nat where "NUMERIC_SECRET_MIN_LENGTH = 23"

definition hex_c :: "char \<Rightarrow> bool" where "hex_c c \<longleftrightarrow> digit_c c \<or> in_range (CHR ''a'') (CHR ''f'') (js_lower_char c)"

definition HEX_DIGEST_CONTEXT_RE :: rx where
  "HEX_DIGEST_CONTEXT_RE = seqs [Word_Edge, alts [liti ''commit'', liti ''sha'', liti ''hash'', liti ''digest''], Word_Edge]"

definition UUID_RE :: rx where
  "UUID_RE = seqs [Text_Start, exactly 8 hex_c, lit ''-'', exactly 4 hex_c, lit ''-'', exactly 4 hex_c, lit ''-'', exactly 4 hex_c,
     lit ''-'', exactly 12 hex_c, Text_End]"

definition placeholder_rx :: rx where
  "placeholder_rx = seqs [lit ''[REDACTED:'', plus (\<lambda>c. c \<noteq> CHR '']''), lit '']'']"

definition CONFIG_ASSIGNMENT_RE :: rx where
  "CONFIG_ASSIGNMENT_RE = seqs [Text_Start, Chr alpha_c, star (alnum_or ''_''), Chr (\<lambda>c. c = CHR '':'' \<or> c = CHR ''=''),
     alts [plus digit_c, liti ''true'', liti ''false''], Text_End]"

definition LABEL_CORE_RE :: rx where
  "LABEL_CORE_RE = seqs [Text_Start, opt (Chr ANY_QUOTE_CHAR), Grp (Seq (Chr alpha_c) (star (alnum_or ''_''))), opt (Chr ANY_QUOTE_CHAR),
     Chr (\<lambda>c. c = CHR '':'' \<or> c = CHR ''=''), Text_End]"

definition SAFE_VALUE_RE :: rx where
  "SAFE_VALUE_RE = seqs [Text_Start, alts [plus digit_c, liti ''true'', liti ''false''], Text_End]"

definition HEX_LIKE_MIX_RE :: rx where
  "HEX_LIKE_MIX_RE = Or (Seq (Chr lower_c) (Chr digit_c)) (Seq (Chr digit_c) (Chr lower_c))"

definition LABEL_PREFIX_RE :: rx where
  "LABEL_PREFIX_RE = seqs [Not_Prev (alnum_or ''_''), opt (Chr ANY_QUOTE_CHAR), Chr alpha_c, star (alnum_or ''_''), opt (Chr ANY_QUOTE_CHAR),
     star js_ws, Chr (\<lambda>c. c = CHR '':'' \<or> c = CHR ''=''), star js_ws, opt (Chr ANY_QUOTE_CHAR), Text_End]"

text \<open>In bits per character.\<close>

definition shannonEntropy :: "string \<Rightarrow> real" where
  "shannonEntropy token =
     sum_list (map (\<lambda>c. let p = real (count_list token c) / real (length token) in - (p * log 2 p)) (rev (remdups (rev token))))"

text \<open>One quote is stripped from each side of the value.\<close>

definition unquote_value :: "string \<Rightarrow> string" where
  "unquote_value v =
     (let w = (case v of c # cs \<Rightarrow> if ANY_QUOTE_CHAR c then cs else v | [] \<Rightarrow> [])
      in if w \<noteq> [] \<and> ANY_QUOTE_CHAR (last w) then butlast w else w)"

definition isLabelWithSafeValueFollowing :: "string \<Rightarrow> string \<Rightarrow> nat \<Rightarrow> real \<Rightarrow> bool" where
  "isLabelWithSafeValueFollowing token t e threshold =
     (case exec_all token LABEL_CORE_RE of
        (_, _, Some (x, y)) # _ \<Rightarrow>
          (let core = slice_of token x y
           in if \<not> rx_test GENERIC_TRAILING_KEYWORDS core then False
              else if threshold \<le> shannonEntropy core then False
              else if MIN_TOKEN_LENGTH \<le> length core \<and> rx_test HEX_LIKE_MIX_RE core then False
              else (case exec_all (drop e t) (plus solid_c) of
                  [] \<Rightarrow> False
                | (a, b, _) # _ \<Rightarrow> rx_test SAFE_VALUE_RE (unquote_value (slice_of (drop e t) a b))))
      | _ \<Rightarrow> False)"

definition isGuarded :: "string \<Rightarrow> string \<Rightarrow> nat \<Rightarrow> nat \<Rightarrow> real \<Rightarrow> bool" where
  "isGuarded token t s e threshold \<longleftrightarrow>
     length token < MIN_TOKEN_LENGTH \<or>
     rx_test (seqs [Text_Start, placeholder_rx, Text_End]) token \<or>
     rx_test UUID_RE token \<or>
     CHR ''/'' \<in> set token \<or> CHR 0x5C \<in> set token \<or>
     rx_test CONFIG_ASSIGNMENT_RE token \<or>
     isLabelWithSafeValueFollowing token t e threshold \<or>
     ((length token = 40 \<or> length token = 64) \<and> list_all hex_c token \<and>
      rx_test HEX_DIGEST_CONTEXT_RE (slice_of t (s - CONTEXT_WINDOW) (min (length t) (e + CONTEXT_WINDOW))))"

definition tokenize_text :: "string \<Rightarrow> (nat \<times> nat) list" where
  "tokenize_text t = map (\<lambda>(a, e, _). (a, e)) (exec_all t (plus solid_c))"

definition findEntropySecrets :: "string \<Rightarrow> real \<Rightarrow> (nat \<times> nat) list" where
  "findEntropySecrets t threshold =
     filter (\<lambda>(a, e). \<not> isGuarded (slice_of t a e) t a e threshold \<and> threshold \<le> shannonEntropy (slice_of t a e)) (tokenize_text t)"

text \<open>The part of the line before a position.\<close>

definition line_before :: "string \<Rightarrow> nat \<Rightarrow> string" where
  "line_before t n = rev (takeWhile (\<lambda>c. c \<noteq> NL) (rev (take n t)))"

definition hasLabelPrefix :: "string \<Rightarrow> nat \<Rightarrow> bool" where
  "hasLabelPrefix t n = rx_test LABEL_PREFIX_RE (line_before t n)"

definition findNumericSecretRuns :: "string \<Rightarrow> nat \<Rightarrow> (nat \<times> nat) list" where
  "findNumericSecretRuns t minLength =
     filter (\<lambda>(a, e). minLength \<le> e - a \<and> \<not> hasLabelPrefix t a) (map (\<lambda>(a, e, _). (a, e)) (exec_all t (plus digit_c)))"

section \<open>Redaction\<close>

record span =
  span_type :: string
  span_start :: nat
  span_end :: nat
  span_value :: string

text \<open>An event is a type, a hash and an offset.\<close>

type_synonym redaction_event = "string \<times> string \<times> nat"

definition hash8 :: "(string \<Rightarrow> string) \<Rightarrow> string \<Rightarrow> string" where "hash8 sha256 v = take 8 (sha256 v)"

definition placeholder :: "string \<Rightarrow> string \<Rightarrow> string" where
  "placeholder ty digest = ''[REDACTED:'' @ ty @ '':'' @ digest @ '']''"

definition protectedRanges :: "string \<Rightarrow> (nat \<times> nat) list" where
  "protectedRanges t = map (\<lambda>(a, e, _). (a, e)) (exec_all t placeholder_rx)"

definition overlapsAny :: "nat \<Rightarrow> nat \<Rightarrow> (nat \<times> nat) list \<Rightarrow> bool" where
  "overlapsAny s e ranges = list_ex (\<lambda>(rs, re). s < re \<and> rs < e) ranges"

definition match_span :: "string \<Rightarrow> detector \<Rightarrow> nat \<times> rst \<Rightarrow> span" where
  "match_span t d m =
     (case m of (a, e, g) \<Rightarrow>
        (let (x, y) = (case g of Some r \<Rightarrow> if det_group d then r else (a, e) | None \<Rightarrow> (a, e))
         in \<lparr>span_type = det_type d, span_start = x, span_end = y, span_value = slice_of t x y\<rparr>))"

definition runDetector :: "string \<Rightarrow> detector \<Rightarrow> (nat \<times> nat) list \<Rightarrow> span list" where
  "runDetector t d guard =
     filter (\<lambda>s. span_start s < span_end s \<and> \<not> overlapsAny (span_start s) (span_end s) guard \<and> det_filter d (span_value s))
       (map (match_span t d) (exec_all t (det_source d)))"

fun keep_disjoint :: "nat \<Rightarrow> span list \<Rightarrow> span list" where
  "keep_disjoint lastEnd [] = []"
| "keep_disjoint lastEnd (s # ss) =
     (if lastEnd \<le> span_start s then s # keep_disjoint (span_end s) ss else keep_disjoint lastEnd ss)"

definition dedupeOverlaps :: "span list \<Rightarrow> span list" where
  "dedupeOverlaps spans = keep_disjoint 0 (sort_by (\<lambda>a b. span_start a \<le> span_start b) spans)"

fun splice :: "(string \<Rightarrow> string) \<Rightarrow> string \<Rightarrow> nat \<Rightarrow> span list \<Rightarrow> string \<times> redaction_event list" where
  "splice sha256 t n [] = (drop n t, [])"
| "splice sha256 t n (s # ss) =
     (let digest = hash8 sha256 (span_value s); (rest, events) = splice sha256 t (span_end s) ss
      in (slice_of t n (span_start s) @ placeholder (span_type s) digest @ rest, (span_type s, digest, span_start s) # events))"

definition applySpans :: "(string \<Rightarrow> string) \<Rightarrow> string \<Rightarrow> span list \<Rightarrow> string \<times> redaction_event list" where
  "applySpans sha256 t spans = (if spans = [] then (t, []) else splice sha256 t 0 (dedupeOverlaps spans))"

definition pem_spans :: "string \<Rightarrow> span list" where
  "pem_spans t = runDetector t PEM_DETECTOR (protectedRanges t)"

text \<open>
  \<open>compile\<close> is \<open>new RegExp\<close> on the custom patterns of the configuration: \<open>None\<close> is a syntax error,
  which is caught. A setting that is no array counts as no patterns.
\<close>

definition pattern_spans :: "(string \<Rightarrow> rx option) \<Rightarrow> string list option \<Rightarrow> string \<Rightarrow> span list" where
  "pattern_spans compile customPatterns t =
     (let guard = protectedRanges t;
          custom = concat (map (\<lambda>p. case compile p of None \<Rightarrow> [] | Some r \<Rightarrow> [customDetector r])
            (case customPatterns of None \<Rightarrow> [] | Some ps \<Rightarrow> ps))
      in concat (map (\<lambda>d. runDetector t d guard) (PATTERN_DETECTORS @ custom)))"

definition range_span :: "string \<Rightarrow> string \<Rightarrow> nat \<times> nat \<Rightarrow> span" where
  "range_span ty t r = \<lparr>span_type = ty, span_start = fst r, span_end = snd r, span_value = slice_of t (fst r) (snd r)\<rparr>"

definition entropy_spans :: "real \<Rightarrow> string \<Rightarrow> span list" where
  "entropy_spans threshold t =
     (let guard = protectedRanges t; free = (\<lambda>r. \<not> overlapsAny (fst r) (snd r) guard)
      in map (range_span ''high_entropy'' t) (filter free (findEntropySecrets t threshold)) @
         map (range_span ''numeric_secret'' t) (filter free (findNumericSecretRuns t NUMERIC_SECRET_MIN_LENGTH)))"

definition redactText ::
  "(string \<Rightarrow> string) \<Rightarrow> (string \<Rightarrow> rx option) \<Rightarrow> real \<Rightarrow> string list option \<Rightarrow> string \<Rightarrow> string \<times> redaction_event list" where
  "redactText sha256 compile threshold customPatterns input =
     (let (t1, e1) = applySpans sha256 input (pem_spans input);
          (t2, e2) = applySpans sha256 t1 (pattern_spans compile customPatterns t1);
          (t3, e3) = applySpans sha256 t2 (entropy_spans threshold t2)
      in (t3, e1 @ e2 @ e3))"

definition DEFAULT_ENTROPY_THRESHOLD :: real where "DEFAULT_ENTROPY_THRESHOLD = 4"

record redaction_cfg =
  red_enabled :: bool
  red_threshold :: "real option"
  red_custom :: "string list option"

definition redactIfEnabled ::
  "(string \<Rightarrow> string) \<Rightarrow> (string \<Rightarrow> rx option) \<Rightarrow> redaction_cfg \<Rightarrow> string \<Rightarrow> string \<times> redaction_event list" where
  "redactIfEnabled sha256 compile cfg input =
     (if \<not> red_enabled cfg then (input, [])
      else redactText sha256 compile (case red_threshold cfg of None \<Rightarrow> DEFAULT_ENTROPY_THRESHOLD | Some x \<Rightarrow> x) (red_custom cfg) input)"

section \<open>Spans lie in the text\<close>

definition wf_span :: "string \<Rightarrow> span \<Rightarrow> bool" where
  "wf_span t s \<longleftrightarrow> span_start s < span_end s \<and> span_end s \<le> length t \<and> span_value s = slice_of t (span_start s) (span_end s)"

lemma detected_wf: "s \<in> set (runDetector t d guard) \<Longrightarrow> wf_span t s"
proof -
  assume s: "s \<in> set (runDetector t d guard)"
  then obtain a e g where m: "(a, e, g) \<in> set (exec_from t (det_source d) 0)" "s = match_span t d (a, e, g)" "span_start s < span_end s"
    by (auto simp: runDetector_def exec_all_def)
  from exec_from_bounds[OF m(1)] m(2,3) show ?thesis
    by (auto simp: wf_span_def match_span_def split: option.splits if_splits prod.splits)
qed

text \<open>A run of characters that cannot be made longer.\<close>

definition max_run :: "(char \<Rightarrow> bool) \<Rightarrow> string \<Rightarrow> nat \<Rightarrow> nat \<Rightarrow> bool" where
  "max_run P t a e \<longleftrightarrow> a < e \<and> e \<le> length t \<and> (\<forall>i. a \<le> i \<and> i < e \<longrightarrow> P (t ! i)) \<and>
     (e = length t \<or> \<not> P (t ! e)) \<and> (a = 0 \<or> \<not> P (t ! (a - 1)))"

lemma max_run_contains:
  assumes "max_run P t a e" and "\<And>i. x \<le> i \<Longrightarrow> i < y \<Longrightarrow> P (t ! i)" and "x < e" "a < y" "y \<le> length t"
  shows "a \<le> x \<and> y \<le> e"
proof
  show "a \<le> x"
  proof (rule ccontr)
    assume "\<not> a \<le> x"
    with assms(2)[of "a - 1"] assms(4) have "P (t ! (a - 1))" by simp
    with assms(1) \<open>\<not> a \<le> x\<close> show False by (simp add: max_run_def)
  qed
  show "y \<le> e"
  proof (rule ccontr)
    assume "\<not> y \<le> e"
    with assms(2)[of e] assms(3) have "P (t ! e)" by simp
    with assms(1,5) \<open>\<not> y \<le> e\<close> show False by (auto simp: max_run_def)
  qed
qed

text \<open>The greedy repetition of a class takes the longest run.\<close>

definition run_end :: "(char \<Rightarrow> bool) \<Rightarrow> string \<Rightarrow> nat \<Rightarrow> nat" where
  "run_end P t n = n + length (takeWhile P (drop n t))"

lemma run_end_step: "run_end P t n = (if n < length t \<and> P (t ! n) then run_end P t (n + 1) else n)"
proof (cases "n < length t")
  case True
  then have "drop n t = t ! n # drop (Suc n) t" by (rule Cons_nth_drop_Suc[symmetric])
  with True show ?thesis by (simp add: run_end_def)
qed (simp add: run_end_def)

lemma run_end_bounds:
  "n \<le> length t \<Longrightarrow> n \<le> run_end P t n \<and> run_end P t n \<le> length t \<and> (\<forall>i. n \<le> i \<and> i < run_end P t n \<longrightarrow> P (t ! i)) \<and>
   (run_end P t n = length t \<or> \<not> P (t ! run_end P t n))"
proof (induction "length t - n" arbitrary: n)
  case 0
  then have "run_end P t n = n" by (simp add: run_end_step[of P t n])
  with 0 show ?case by auto
next
  case (Suc k)
  show ?case
  proof (cases "P (t ! n)")
    case True
    from Suc(2) have "n < length t" by simp
    with True have e: "run_end P t n = run_end P t (n + 1)" by (simp add: run_end_step[of P t n])
    from Suc(2) have "k = length t - (n + 1)" "n + 1 \<le> length t" by simp_all
    note ih = Suc(1)[OF this]
    have "P (t ! i)" if "n \<le> i" "i < run_end P t (n + 1)" for i using ih that True by (cases "i = n") auto
    with ih e show ?thesis by auto
  next
    case False
    then have "run_end P t n = n" by (simp add: run_end_step[of P t n])
    with False Suc.prems show ?thesis by auto
  qed
qed

lemma more_hd: "length t - n \<le> k \<Longrightarrow> \<exists>ss. more_of True (runs t (Chr P)) k (n, g) = (run_end P t n, g) # ss"
proof (induction k arbitrary: n)
  case 0
  then show ?case by (simp add: run_end_step[of P t n])
next
  case (Suc k)
  then have "length t - (n + 1) \<le> k" by simp
  from Suc.IH[OF this] show ?case by (auto simp: Let_def run_end_step[of P t n])
qed

lemma plus_runs:
  "runs t (plus P) (n, None) = [] \<and> \<not> (n < length t \<and> P (t ! n)) \<or>
   (\<exists>ss. runs t (plus P) (n, None) = (run_end P t n, None) # ss) \<and> n < length t \<and> P (t ! n)"
proof (cases "n < length t \<and> P (t ! n)")
  case True
  from more_hd[of t "n + 1" "length t - (n + 1)" P None] True show ?thesis
    by (auto simp: plus_def run_end_step[of P t n])
qed (auto simp: plus_def)

lemma plus_maximal:
  "(a, e, g) \<in> set (exec_from t (plus P) n) \<Longrightarrow> n = 0 \<or> \<not> P (t ! (n - 1)) \<or> \<not> (n < length t \<and> P (t ! n)) \<Longrightarrow> max_run P t a e"
proof (induction "length t + 1 - n" arbitrary: n rule: less_induct)
  case less
  show ?case
  proof (cases "length t < n")
    case True
    with less(2) show ?thesis by (simp add: exec_from.simps[of t "plus P" n])
  next
    case False
    from plus_runs[of t P n] show ?thesis
    proof
      assume no: "runs t (plus P) (n, None) = [] \<and> \<not> (n < length t \<and> P (t ! n))"
      with less(2) False have "(a, e, g) \<in> set (exec_from t (plus P) (n + 1))" by (simp add: exec_from.simps[of t "plus P" n])
      from less(1)[OF _ this] no False show ?thesis by (cases "n < length t") auto
    next
      assume y: "(\<exists>ss. runs t (plus P) (n, None) = (run_end P t n, None) # ss) \<and> n < length t \<and> P (t ! n)"
      note b = run_end_bounds[of n t P]
      from y have lt: "n < run_end P t n" using run_end_step[of P t n] b run_end_bounds[of "n + 1" t P] by simp
      with less(2) False y have "(a, e, g) = (n, run_end P t n, None) \<or> (a, e, g) \<in> set (exec_from t (plus P) (run_end P t n))"
        by (auto simp: exec_from.simps[of t "plus P" n] max_def split: if_splits)
      then show ?thesis
      proof
        assume "(a, e, g) = (n, run_end P t n, None)"
        with lt b y less(3) show ?thesis by (auto simp: max_run_def)
      next
        assume later: "(a, e, g) \<in> set (exec_from t (plus P) (run_end P t n))"
        from less(1)[OF _ later] lt b y show ?thesis by auto
      qed
    qed
  qed
qed

lemma token_max: "(a, e) \<in> set (tokenize_text t) \<Longrightarrow> max_run solid_c t a e"
  using plus_maximal[of a e _ t solid_c 0] by (auto simp: tokenize_text_def exec_all_def)

lemma digits_max: "(a, e) \<in> set (findNumericSecretRuns t m) \<Longrightarrow> max_run digit_c t a e"
  using plus_maximal[of a e _ t digit_c 0] by (auto simp: findNumericSecretRuns_def exec_all_def)

lemma digit_solid: "digit_c c \<Longrightarrow> solid_c c"
  by (auto simp: digit_c_def in_range_def solid_c_def js_ws_def Let_def)

section \<open>Which spans are kept\<close>

fun chain :: "nat \<Rightarrow> span list \<Rightarrow> bool" where
  "chain n [] \<longleftrightarrow> True"
| "chain n (s # ss) \<longleftrightarrow> n \<le> span_start s \<and> chain (span_end s) ss"

lemma keep_chain: "chain n (keep_disjoint n ss)"
  by (induction n ss rule: keep_disjoint.induct) simp_all

lemma keep_sub: "set (keep_disjoint n ss) \<subseteq> set ss"
  by (induction n ss rule: keep_disjoint.induct) auto

lemma dedupe_sub: "set (dedupeOverlaps ss) \<subseteq> set ss"
  using keep_sub[of 0 "sort_by (\<lambda>a b. span_start a \<le> span_start b) ss"] by (simp add: dedupeOverlaps_def)

lemma keep_covers:
  "s \<in> set ss \<Longrightarrow> sorted_wrt B ss \<Longrightarrow>
   s \<in> set (keep_disjoint n ss) \<or> span_start s < n \<or> (\<exists>k \<in> set (keep_disjoint n ss). B k s \<and> span_start s < span_end k)"
proof (induction n ss rule: keep_disjoint.induct)
  case (2 n u ss)
  show ?case
  proof (cases "s = u")
    case True
    then show ?thesis by auto
  next
    case False
    with 2(3,4) have s: "s \<in> set ss" "B u s" "sorted_wrt B ss" by auto
    show ?thesis
    proof (cases "n \<le> span_start u")
      case True
      from 2(1)[OF True s(1,3)] s(2) True show ?thesis by auto
    next
      case False
      from 2(2)[OF False s(1,3)] False show ?thesis by auto
    qed
  qed
qed simp

lemma stable_sort:
  assumes "sorted_wrt Q xs"
  shows "sorted_wrt (\<lambda>a b. f a < f b \<or> f a = f b \<and> Q a b) (sort_by (\<lambda>a b. f a \<le> (f b :: nat)) xs)"
  using assms
proof (induction xs)
  case (Cons x xs)
  let ?R = "\<lambda>a b. f a < f b \<or> f a = f b \<and> Q a b" and ?le = "\<lambda>a b. f a \<le> f b"
  have ins: "sorted_wrt ?R ys \<Longrightarrow> \<forall>y \<in> set ys. Q x y \<Longrightarrow> sorted_wrt ?R (insert_by ?le x ys)" for ys
  proof (induction ys)
    case (Cons y ys)
    have "set (insert_by ?le x ys) = insert x (set ys)" by (metis mset_insert_by set_mset_add_mset_insert set_mset_mset)
    with Cons show ?case by auto
  qed simp
  have "sort_by ?le (x # xs) = insert_by ?le x (sort_by ?le xs)" by (simp add: sort_by_def)
  with ins[OF Cons.IH] Cons.prems show ?case by simp
qed (simp add: sort_by_def)

section \<open>What redaction does\<close>

text \<open>
  \<open>replaced sha256 D off t out events\<close>: from the offset on, \<open>out\<close> is \<open>t\<close> with pieces of \<open>D\<close> - a type, an
  offset and a text - replaced by their placeholders, and the events tell which.
\<close>

inductive replaced ::
  "(string \<Rightarrow> string) \<Rightarrow> (string \<times> nat \<times> string) set \<Rightarrow> nat \<Rightarrow> string \<Rightarrow> string \<Rightarrow> redaction_event list \<Rightarrow> bool"
  for sha256 D where
  unchanged: "replaced sha256 D off t t []"
| secret: "(ty, off + length before, v) \<in> D \<Longrightarrow> v \<noteq> [] \<Longrightarrow> replaced sha256 D (off + length before + length v) t out events \<Longrightarrow>
    replaced sha256 D off (before @ v @ t) (before @ placeholder ty (hash8 sha256 v) @ out)
      ((ty, hash8 sha256 v, off + length before) # events)"

definition pieces :: "span list \<Rightarrow> (string \<times> nat \<times> string) set" where
  "pieces ss = (\<lambda>s. (span_type s, span_start s, span_value s)) ` set ss"

lemma splice_replaced:
  assumes "chain n ss" and "\<And>s. s \<in> set ss \<Longrightarrow> wf_span t s" and "n \<le> length t" and "pieces ss \<subseteq> D"
  shows "replaced sha256 D n (drop n t) (fst (splice sha256 t n ss)) (snd (splice sha256 t n ss))"
  using assms
proof (induction ss arbitrary: n)
  case Nil
  then show ?case by (simp add: unchanged)
next
  case (Cons s ss)
  let ?pre = "slice_of t n (span_start s)" and ?v = "span_value s"
  from Cons.prems(2)[of s] have w: "span_start s < span_end s" "span_end s \<le> length t" "?v = slice_of t (span_start s) (span_end s)"
    by (simp_all add: wf_span_def)
  from Cons.prems(1) have n: "n \<le> span_start s" and c: "chain (span_end s) ss" by simp_all
  have len: "n + length ?pre = span_start s" "length ?v = span_end s - span_start s" using n w by (simp_all add: slice_of_def)
  have "drop (span_start s) t = ?v @ drop (span_end s) t"
    using w by (simp add: slice_of_def) (metis append_take_drop_id drop_drop le_add_diff_inverse2 less_imp_le_nat)
  moreover have "drop n t = ?pre @ drop (span_start s) t"
    using n by (simp add: slice_of_def) (metis append_take_drop_id drop_drop le_add_diff_inverse2)
  ultimately have split: "drop n t = ?pre @ ?v @ drop (span_end s) t" by simp
  have "replaced sha256 D (span_end s) (drop (span_end s) t) (fst (splice sha256 t (span_end s) ss)) (snd (splice sha256 t (span_end s) ss))"
    using Cons.IH[OF c] Cons.prems(2,4) w(2) by (simp add: pieces_def)
  moreover have "(span_type s, n + length ?pre, ?v) \<in> D" using Cons.prems(4) len by (auto simp: pieces_def)
  moreover have "?v \<noteq> []" using len(2) w(1) by auto
  moreover have "span_end s = n + length ?pre + length ?v" using len w(1) by simp
  ultimately have "replaced sha256 D n (?pre @ ?v @ drop (span_end s) t)
      (?pre @ placeholder (span_type s) (hash8 sha256 ?v) @ fst (splice sha256 t (span_end s) ss))
      ((span_type s, hash8 sha256 ?v, n + length ?pre) # snd (splice sha256 t (span_end s) ss))"
    by (metis secret)
  then show ?case unfolding split by (simp add: case_prod_beta Let_def len(1))
qed

lemma apply_replaced:
  assumes "\<And>s. s \<in> set ss \<Longrightarrow> wf_span t s"
  shows "replaced sha256 (pieces ss) 0 t (fst (applySpans sha256 t ss)) (snd (applySpans sha256 t ss))"
proof (cases "ss = []")
  case True
  then show ?thesis by (simp add: applySpans_def unchanged)
next
  case False
  have "replaced sha256 (pieces ss) 0 (drop 0 t) (fst (splice sha256 t 0 (dedupeOverlaps ss))) (snd (splice sha256 t 0 (dedupeOverlaps ss)))"
    using assms dedupe_sub[of ss] by (intro splice_replaced) (auto simp: dedupeOverlaps_def keep_chain pieces_def)
  with False show ?thesis by (simp add: applySpans_def)
qed

lemma pem_wf: "s \<in> set (pem_spans t) \<Longrightarrow> wf_span t s"
  unfolding pem_spans_def by (rule detected_wf)

lemma pattern_wf: "s \<in> set (pattern_spans compile cp t) \<Longrightarrow> wf_span t s"
  by (auto simp: pattern_spans_def Let_def intro: detected_wf)

lemma range_wf: "max_run P t (fst r) (snd r) \<Longrightarrow> wf_span t (range_span ty t r)"
  by (simp add: max_run_def wf_span_def range_span_def)

lemma secrets_are_tokens: "r \<in> set (findEntropySecrets t threshold) \<Longrightarrow> max_run solid_c t (fst r) (snd r)"
  by (cases r) (auto simp: findEntropySecrets_def intro: token_max)

lemma runs_are_digits: "r \<in> set (findNumericSecretRuns t m) \<Longrightarrow> max_run digit_c t (fst r) (snd r)"
  by (cases r) (auto intro: digits_max)

lemma entropy_wf: "s \<in> set (entropy_spans threshold t) \<Longrightarrow> wf_span t s"
  by (auto simp: entropy_spans_def Let_def intro!: range_wf dest: secrets_are_tokens runs_are_digits)



section \<open>What redaction leaves\<close>

text \<open>Nothing is redacted inside what looks like a placeholder, whoever wrote it.\<close>

lemma placeholder_shape_shields:
  assumes "(a, b) \<in> set (protectedRanges t)" and "a \<le> span_start s" and "span_end s \<le> b" and "span_start s < span_end s"
  shows "s \<notin> set (runDetector t d (protectedRanges t))"
  using assms by (force simp: runDetector_def overlapsAny_def list_ex_iff)

lemma shielded_secret: "protectedRanges ''[REDACTED: pwd=ab]'' = [(0, 18)]"
  by code_simp

text \<open>
  Of two overlapping secrets the one that starts later is dropped, and what it has beyond the first
  stays: the password of the second pair keeps all but its first word.
\<close>

lemma overlap_leaks_the_tail:
  defines "t \<equiv> ''pwd=a\"pwd\":\"b c\"''"
  defines "bare \<equiv> runDetector t (PATTERN_DETECTORS ! 7) []" and "quoted \<equiv> runDetector t (PATTERN_DETECTORS ! 9) []"
  shows "map span_value quoted = [''b c''] \<and>
    fst (applySpans (\<lambda>_. ''01234567'') t (bare @ quoted)) = ''pwd=[REDACTED:generic_credential:01234567] c\"''"
  unfolding bare_def quoted_def t_def by code_simp

text \<open>
  The white space around the separator may be a line break: below a label without a value the next
  label is taken for the secret, and the value after it is not redacted.
\<close>

lemma nested_label_hides_the_value:
  "map span_value (runDetector (''pwd:'' @ [NL] @ ''pwd: x'') (PATTERN_DETECTORS ! 7) []) = [''pwd:'']"
  by code_simp

end
