(* ===== verification/Instance_Lock.thy ===== *)
theory Instance_Lock
  imports Prelude
begin

text \<open>
  The single-instance lock: \<open>src/src/service/instance-lock.ts\<close>. One launcher's decision is a function of
  what the system answers (processes, start times, probes, ports); launchers side by side are a step
  machine over the lock file, the sentinel of the acquire mutex and the phase of each process, with one
  step per system call or synchronous stretch. Process identifiers are not reused, except as the answers
  say; the reading of a start time from the operating system is a parameter.
\<close>

section \<open>The lock file\<close>

type_synonym pid = nat

text \<open>\<open>li_started\<close> is the recorded start, \<open>None\<close> when it is missing or no date.\<close>

record lock_info =
  li_pid :: pid
  li_started :: "epoch_ms option"
  li_port :: nat
  li_version :: string

datatype lock_file = No_Lock | Corrupt_Lock | Lock lock_info

fun readLock :: "lock_file \<Rightarrow> lock_info option" where
  "readLock (Lock i) = Some i"
| "readLock _ = None"

text \<open>
  What the system answers while one launcher decides: which processes live and when they started,
  the health probes of the holder's port, the clock, whether the signal was sent, the probes after it
  with their times, and which ports are in use.
\<close>

record answers =
  an_alive :: "pid \<Rightarrow> bool"
  an_start :: "pid \<Rightarrow> epoch_ms option"
  an_health :: "bool list"
  an_now :: epoch_ms
  an_signal :: bool
  an_polls :: "(epoch_ms \<times> bool) list"
  an_busy :: "nat \<Rightarrow> bool"

section \<open>Identity and stopping\<close>

definition IDENTITY_TOLERANCE_MS :: int where "IDENTITY_TOLERANCE_MS = 60000"
definition ZOMBIE_BOOT_GRACE_MS :: int where "ZOMBIE_BOOT_GRACE_MS = 30000"
definition STOP_WAIT_MS :: int where "STOP_WAIT_MS = 5000"

datatype identity = Holder_Dead | No_Recorded_Start | Query_Failed | Mismatch | Match

definition checkHolderIdentity :: "answers \<Rightarrow> pid \<Rightarrow> epoch_ms option \<Rightarrow> identity" where
  "checkHolderIdentity an p started =
     (if \<not> an_alive an p then Holder_Dead
      else (case started of
          None \<Rightarrow> No_Recorded_Start
        | Some t \<Rightarrow>
            (case an_start an p of
               None \<Rightarrow> Query_Failed
             | Some actual \<Rightarrow> if IDENTITY_TOLERANCE_MS < \<bar>actual - t\<bar> then Mismatch else Match)))"

datatype stop_reason = Identity_Unverifiable | Identity_Mismatch | Signal_Failed | Stop_Timeout

datatype stop_result = Stopped | Refused stop_reason

text \<open>The wait after the signal: a probe per poll until one fails or the deadline has passed.\<close>

fun went_down :: "epoch_ms \<Rightarrow> (epoch_ms \<times> bool) list \<Rightarrow> bool" where
  "went_down deadline [] \<longleftrightarrow> False"
| "went_down deadline ((t, healthy) # ps) \<longleftrightarrow> (if deadline \<le> t then False else if \<not> healthy then True else went_down deadline ps)"

definition removeConfirmedStaleLock :: "lock_info \<Rightarrow> lock_file \<Rightarrow> lock_file" where
  "removeConfirmedStaleLock h f =
     (case readLock f of Some c \<Rightarrow> if li_pid c = li_pid h \<and> li_started c = li_started h then No_Lock else f | None \<Rightarrow> f)"

text \<open>The result, the process that was signalled, and the lock file.\<close>

definition stopLockHolder :: "answers \<Rightarrow> bool \<Rightarrow> lock_file \<Rightarrow> stop_result \<times> pid option \<times> lock_file" where
  "stopLockHolder an force f =
     (case readLock f of
        None \<Rightarrow> (Stopped, None, f)
      | Some h \<Rightarrow>
          (let stop = (if \<not> an_signal an then (Refused Signal_Failed, None, f)
                       else if went_down (an_now an + STOP_WAIT_MS) (an_polls an)
                       then (Stopped, Some (li_pid h), removeConfirmedStaleLock h f)
                       else (Refused Stop_Timeout, Some (li_pid h), f))
           in case checkHolderIdentity an (li_pid h) (li_started h) of
                Holder_Dead \<Rightarrow> (Stopped, None, removeConfirmedStaleLock h f)
              | No_Recorded_Start \<Rightarrow> (Refused Identity_Unverifiable, None, f)
              | Query_Failed \<Rightarrow> (Refused Identity_Unverifiable, None, f)
              | Mismatch \<Rightarrow> if force then stop else (Refused Identity_Mismatch, None, f)
              | Match \<Rightarrow> stop))"

section \<open>The decision\<close>

datatype boot_error =
    AlreadyRunning lock_info
  | StillBooting lock_info int
  | ZombieLockTakeover lock_info stop_reason

text \<open>Whether the lock may be written, and if so whether by exclusive creation.\<close>

definition decide :: "answers \<Rightarrow> pid \<Rightarrow> lock_file \<Rightarrow> (boot_error + bool) \<times> pid option \<times> lock_file" where
  "decide an self f =
     (if f = No_Lock then (Inr True, None, f)
      else (case readLock f of
          None \<Rightarrow> (Inr False, None, f)
        | Some h \<Rightarrow>
            (if \<not> an_alive an (li_pid h) \<or> li_pid h = self then (Inr False, None, f)
             else if list_ex id (take 3 (an_health an)) then (Inl (AlreadyRunning h), None, f)
             else (case li_started h of
                 Some t \<Rightarrow> if an_now an - t < ZOMBIE_BOOT_GRACE_MS then (Inl (StillBooting h (an_now an - t)), None, f)
                           else (case stopLockHolder an False f of
                               (Stopped, sig, f') \<Rightarrow> (Inr False, sig, f')
                             | (Refused r, sig, f') \<Rightarrow> (if an_busy an (li_port h) then Inl (ZombieLockTakeover h r) else Inr False, sig, f'))
               | None \<Rightarrow> (case stopLockHolder an False f of
                     (Stopped, sig, f') \<Rightarrow> (Inr False, sig, f')
                   | (Refused r, sig, f') \<Rightarrow> (if an_busy an (li_port h) then Inl (ZombieLockTakeover h r) else Inr False, sig, f'))))))"

text \<open>A file that cannot be read stands for a holder nobody knows; the code gives it the pid -1.\<close>

definition unknown_holder :: "nat \<Rightarrow> lock_info" where
  "unknown_holder port = \<lparr>li_pid = 0, li_started = None, li_port = port, li_version = []\<rparr>"

definition writeLock :: "lock_info \<Rightarrow> bool \<Rightarrow> lock_file \<Rightarrow> (boot_error option) \<times> lock_file" where
  "writeLock info exclusive f =
     (if exclusive \<and> f \<noteq> No_Lock
      then (Some (AlreadyRunning (case readLock f of Some h \<Rightarrow> h | None \<Rightarrow> unknown_holder (li_port info))), f)
      else (None, Lock info))"

definition release_lock :: "pid \<Rightarrow> lock_file \<Rightarrow> lock_file" where
  "release_lock p f = (case readLock f of Some c \<Rightarrow> if li_pid c = p then No_Lock else f | None \<Rightarrow> f)"

section \<open>Launchers side by side\<close>

text \<open>
  The sentinel of the acquire mutex: created empty, then filled with the creator and its time.
\<close>

datatype sentinel = Absent | Torn pid | Held pid "epoch_ms option"

datatype phase =
    Down | Waiting | Contended | Saw sentinel | Stealing
  | Opened | Deciding epoch_ms | Writing epoch_ms bool | Binding | Bound | Leaving
  | Serving

record world =
  w_sentinel :: sentinel
  w_lock :: lock_file
  w_phase :: "pid \<Rightarrow> phase"

datatype boot_event =
    Start pid | Open pid | Look pid | Judge pid answers | Unlink pid | Give_Up pid
  | Fill pid epoch_ms | Decide pid answers | Write pid nat string | Bind pid bool | Release pid
  | Shutdown pid | Crash pid

definition goto :: "pid \<Rightarrow> phase \<Rightarrow> world \<Rightarrow> world" where
  "goto p ph w = w\<lparr>w_phase := (w_phase w)(p := ph)\<rparr>"

text \<open>A sentinel that is unreadable, or whose writer is gone, is stale.\<close>

definition stale_sentinel :: "answers \<Rightarrow> sentinel \<Rightarrow> bool" where
  "stale_sentinel an s \<longleftrightarrow>
     (case s of Held q t \<Rightarrow> checkHolderIdentity an q t \<in> {Holder_Dead, Mismatch} | _ \<Rightarrow> True)"

text \<open>
  One system call or one synchronous stretch is one step; an event whose process is elsewhere does
  nothing. \<open>Start\<close> to \<open>Fill\<close> are the loop of \<open>acquireMutex\<close>; \<open>Decide\<close>, \<open>Write\<close> and \<open>Bind\<close> the critical section;
  \<open>Release\<close> is the \<open>finally\<close> of \<open>acquireInstanceLock\<close> and \<open>Shutdown\<close> the release of the lock. The write
  of the sentinel goes to the file the process created, whatever the path names by then.
\<close>

fun boot_step :: "boot_event \<Rightarrow> world \<Rightarrow> world" where
  "boot_step (Start p) w = (if w_phase w p = Down then goto p Waiting w else w)"
| "boot_step (Open p) w =
     (if w_phase w p \<noteq> Waiting then w
      else if w_sentinel w = Absent then goto p Opened (w\<lparr>w_sentinel := Torn p\<rparr>)
      else goto p Contended w)"
| "boot_step (Look p) w = (if w_phase w p = Contended then goto p (Saw (w_sentinel w)) w else w)"
| "boot_step (Judge p an) w =
     (case w_phase w p of Saw s \<Rightarrow> goto p (if stale_sentinel an s then Stealing else Waiting) w | _ \<Rightarrow> w)"
| "boot_step (Unlink p) w = (if w_phase w p = Stealing then goto p Waiting (w\<lparr>w_sentinel := Absent\<rparr>) else w)"
| "boot_step (Give_Up p) w = (if w_phase w p = Waiting then goto p Down w else w)"
| "boot_step (Fill p t) w =
     (if w_phase w p = Opened
      then goto p (Deciding t) (if w_sentinel w = Torn p then w\<lparr>w_sentinel := Held p (Some t)\<rparr> else w) else w)"
| "boot_step (Decide p an) w =
     (case w_phase w p of
        Deciding t \<Rightarrow>
          (case decide an p (w_lock w) of
             (Inl e, sig, f) \<Rightarrow> goto p Leaving (w\<lparr>w_lock := f\<rparr>)
           | (Inr ex, sig, f) \<Rightarrow> goto p (Writing t ex) (w\<lparr>w_lock := f\<rparr>))
      | _ \<Rightarrow> w)"
| "boot_step (Write p port version) w =
     (case w_phase w p of
        Writing t ex \<Rightarrow>
          (case writeLock \<lparr>li_pid = p, li_started = Some t, li_port = port, li_version = version\<rparr> ex (w_lock w) of
             (Some e, f) \<Rightarrow> goto p Leaving w
           | (None, f) \<Rightarrow> goto p Binding (w\<lparr>w_lock := f\<rparr>))
      | _ \<Rightarrow> w)"
| "boot_step (Bind p ok) w =
     (if w_phase w p \<noteq> Binding then w
      else if ok then goto p Bound w
      else goto p Leaving (w\<lparr>w_lock := release_lock p (w_lock w)\<rparr>))"
| "boot_step (Release p) w =
     (if w_phase w p = Bound \<or> w_phase w p = Leaving
      then goto p (if w_phase w p = Bound then Serving else Down)
             (case w_sentinel w of Held q t \<Rightarrow> if q = p then w\<lparr>w_sentinel := Absent\<rparr> else w | _ \<Rightarrow> w)
      else w)"
| "boot_step (Shutdown p) w =
     (if w_phase w p = Serving then goto p Down (w\<lparr>w_lock := release_lock p (w_lock w)\<rparr>) else w)"
| "boot_step (Crash p) w = goto p Down w"

definition in_section :: "phase \<Rightarrow> bool" where
  "in_section ph \<longleftrightarrow> (case ph of Opened \<Rightarrow> True | Deciding _ \<Rightarrow> True | Writing _ _ \<Rightarrow> True | Binding \<Rightarrow> True | Bound \<Rightarrow> True
     | Leaving \<Rightarrow> True | _ \<Rightarrow> False)"

definition serving :: "phase \<Rightarrow> bool" where "serving ph \<longleftrightarrow> ph = Bound \<or> ph = Serving"

section \<open>When a lock is taken over\<close>

lemma stop_signals:
  "stopLockHolder an force f = (res, Some p, f') \<Longrightarrow>
   \<exists>h. readLock f = Some h \<and> p = li_pid h \<and>
     (checkHolderIdentity an p (li_started h) = Match \<or> force \<and> checkHolderIdentity an p (li_started h) = Mismatch)"
  by (auto simp: stopLockHolder_def Let_def split: option.splits identity.splits if_splits)

lemma stop_confirmed:
  "stopLockHolder an False f = (Stopped, sig, f') \<Longrightarrow> readLock f = Some h \<Longrightarrow>
   \<not> an_alive an (li_pid h) \<or> sig = Some (li_pid h) \<and> went_down (an_now an + STOP_WAIT_MS) (an_polls an)"
  by (auto simp: stopLockHolder_def Let_def checkHolderIdentity_def split: option.splits identity.splits if_splits)

lemma stop_lock:
  "stopLockHolder an force f = (res, sig, f') \<Longrightarrow> f' = f \<or> f' = No_Lock"
  by (auto simp: stopLockHolder_def removeConfirmedStaleLock_def Let_def split: option.splits identity.splits if_splits)


definition wedged_answers :: answers where
  "wedged_answers = \<lparr>an_alive = \<lambda>_. True, an_start = \<lambda>_. Some 1000, an_health = [False, False, False], an_now = 100000,
     an_signal = True, an_polls = [(100250, True), (100500, False)], an_busy = \<lambda>_. True\<rparr>"


section \<open>One launcher at a time\<close>

text \<open>
  The probes of a run are honest when a launcher that decides finds the holder of the lock alive and
  answering whenever that holder is serving. A run is undisputed when in addition nobody removes a
  sentinel as stale.
\<close>

definition honest :: "answers \<Rightarrow> world \<Rightarrow> bool" where
  "honest an w \<longleftrightarrow>
     (case readLock (w_lock w) of None \<Rightarrow> True
      | Some h \<Rightarrow> (if serving (w_phase w (li_pid h)) then an_alive an (li_pid h) \<and> list_ex id (take 3 (an_health an)) else True))"

fun undisputed :: "boot_event list \<Rightarrow> world \<Rightarrow> bool" where
  "undisputed [] w \<longleftrightarrow> True"
| "undisputed (e # es) w \<longleftrightarrow>
     (case e of Unlink p \<Rightarrow> False | Decide p an \<Rightarrow> honest an w | _ \<Rightarrow> True) \<and> undisputed es (boot_step e w)"

definition owns :: "pid \<Rightarrow> phase \<Rightarrow> sentinel \<Rightarrow> bool" where
  "owns p ph s \<longleftrightarrow> (if ph = Opened then s = Torn p else (\<exists>t. s = Held p t))"

definition about_to_serve :: "phase \<Rightarrow> bool" where
  "about_to_serve ph \<longleftrightarrow> (case ph of Writing _ _ \<Rightarrow> True | Binding \<Rightarrow> True | _ \<Rightarrow> False)"

definition names :: "lock_file \<Rightarrow> pid \<Rightarrow> bool" where
  "names f p \<longleftrightarrow> (\<exists>i. f = Lock i \<and> li_pid i = p)"

definition lock_inv :: "world \<Rightarrow> bool" where
  "lock_inv w \<longleftrightarrow>
     (\<forall>p. (in_section (w_phase w p) \<longrightarrow> owns p (w_phase w p) (w_sentinel w)) \<and>
          (serving (w_phase w p) \<or> w_phase w p = Binding \<longrightarrow> names (w_lock w) p) \<and>
          (about_to_serve (w_phase w p) \<longrightarrow> (\<forall>q. \<not> serving (w_phase w q))))"

lemma phase_simps [simp]:
  "in_section Opened" "in_section (Deciding t)" "in_section (Writing t ex)" "in_section Binding" "in_section Bound" "in_section Leaving"
  "\<not> in_section Down" "\<not> in_section Waiting" "\<not> in_section Contended" "\<not> in_section (Saw s)" "\<not> in_section Stealing" "\<not> in_section Serving"
  "\<not> serving Opened" "\<not> serving (Deciding t)" "\<not> serving (Writing t ex)" "\<not> serving Binding" "serving Bound" "\<not> serving Leaving"
  "\<not> serving Down" "\<not> serving Waiting" "\<not> serving Contended" "\<not> serving (Saw s)" "\<not> serving Stealing" "serving Serving"
  "\<not> about_to_serve Opened" "\<not> about_to_serve (Deciding t)" "about_to_serve (Writing t ex)" "about_to_serve Binding" "\<not> about_to_serve Bound"
  "\<not> about_to_serve Leaving" "\<not> about_to_serve Down" "\<not> about_to_serve Serving"
  by (simp_all add: in_section_def serving_def about_to_serve_def)

lemma owns_simps [simp]:
  "owns p Opened s \<longleftrightarrow> s = Torn p" "owns p (Deciding t) s \<longleftrightarrow> (\<exists>t. s = Held p t)" "owns p (Writing t ex) s \<longleftrightarrow> (\<exists>t. s = Held p t)"
  "owns p Binding s \<longleftrightarrow> (\<exists>t. s = Held p t)" "owns p Bound s \<longleftrightarrow> (\<exists>t. s = Held p t)" "owns p Leaving s \<longleftrightarrow> (\<exists>t. s = Held p t)"
  by (simp_all add: owns_def)

lemma inv_owns: "lock_inv w \<Longrightarrow> in_section (w_phase w p) \<Longrightarrow> owns p (w_phase w p) (w_sentinel w)"
  by (simp add: lock_inv_def)

lemma inv_quiet: "lock_inv w \<Longrightarrow> about_to_serve (w_phase w p) \<Longrightarrow> \<not> serving (w_phase w q)"
  by (auto simp: lock_inv_def)

lemma inv_binding: "lock_inv w \<Longrightarrow> w_phase w p = Binding \<Longrightarrow> names (w_lock w) p"
  by (simp add: lock_inv_def)

lemma owner_unique: "owns p ph s \<Longrightarrow> owns q ph' s \<Longrightarrow> p = q"
  by (auto simp: owns_def split: if_splits)

lemma section_unique: "lock_inv w \<Longrightarrow> in_section (w_phase w p) \<Longrightarrow> in_section (w_phase w q) \<Longrightarrow> p = q"
  using owner_unique inv_owns by blast

lemma about_in_section: "about_to_serve ph \<Longrightarrow> in_section ph"
  by (cases ph) (simp_all add: about_to_serve_def)

lemma phase_goto [simp]: "w_phase (goto p ph w) = (w_phase w)(p := ph)" "w_sentinel (goto p ph w) = w_sentinel w" "w_lock (goto p ph w) = w_lock w"
  by (simp_all add: goto_def)

text \<open>A process may always move to a phase that claims nothing.\<close>

lemma inv_idle:
  assumes "lock_inv w" and "\<not> in_section ph" and "ph \<noteq> Serving"
  shows "lock_inv (goto p ph w)"
proof -
  have ph: "\<not> serving ph" "ph \<noteq> Binding" "\<not> about_to_serve ph"
    using assms(2,3) by (cases ph; simp add: about_to_serve_def)+
  show ?thesis
    unfolding lock_inv_def
  proof (intro allI conjI impI)
    fix q
    assume "in_section (w_phase (goto p ph w) q)"
    then have "q \<noteq> p \<and> in_section (w_phase w q)" using assms(2) by (cases "q = p") simp_all
    with assms(1) show "owns q (w_phase (goto p ph w) q) (w_sentinel (goto p ph w))" by (simp add: lock_inv_def)
  next
    fix q
    assume "serving (w_phase (goto p ph w) q) \<or> w_phase (goto p ph w) q = Binding"
    then have "serving (w_phase w q) \<or> w_phase w q = Binding" using ph by (cases "q = p") simp_all
    with assms(1) show "names (w_lock (goto p ph w)) q" by (auto simp: lock_inv_def)
  next
    fix q r
    assume "about_to_serve (w_phase (goto p ph w) q)"
    then have "about_to_serve (w_phase w q)" using ph by (cases "q = p") simp_all
    with assms(1) have "\<not> serving (w_phase w r)" by (auto simp: lock_inv_def)
    then show "\<not> serving (w_phase (goto p ph w) r)" using ph by simp
  qed
qed

lemma inv_names: "lock_inv w \<Longrightarrow> serving (w_phase w p) \<Longrightarrow> names (w_lock w) p"
  by (simp add: lock_inv_def)

lemma names_unique: "names f p \<Longrightarrow> names f q \<Longrightarrow> p = q"
  by (auto simp: names_def)

lemma release_lock_other: "names f q \<Longrightarrow> q \<noteq> p \<Longrightarrow> names (release_lock p f) q"
  by (auto simp: names_def release_lock_def)

text \<open>Inside the section nobody else is, so only the process itself and those serving matter.\<close>

lemma inv_section:
  assumes inv: "lock_inv w" and p: "in_section (w_phase w p)"
    and ph: "in_section ph" "owns p ph s'"
    and serve: "\<And>q. q \<noteq> p \<Longrightarrow> w_phase w q = Serving \<Longrightarrow> names f' q"
    and self: "serving ph \<or> ph = Binding \<Longrightarrow> names f' p"
    and quiet: "about_to_serve ph \<Longrightarrow> (\<And>q. q \<noteq> p \<Longrightarrow> w_phase w q \<noteq> Serving)"
  shows "lock_inv (goto p ph (w\<lparr>w_sentinel := s', w_lock := f'\<rparr>))"
proof -
  have other: "\<not> in_section (w_phase w q)" if "q \<noteq> p" for q using section_unique[OF inv p] that by auto
  have serving_iff: "serving (w_phase w q) \<longleftrightarrow> w_phase w q = Serving" if "q \<noteq> p" for q
    using other[OF that] by (auto simp: serving_def in_section_def)
  have nb: "w_phase w q \<noteq> Binding" if "q \<noteq> p" for q using other[OF that] by (auto simp: in_section_def)
  have na: "\<not> about_to_serve (w_phase w q)" if "q \<noteq> p" for q using other[OF that] about_in_section by blast
  have ns: "about_to_serve ph \<Longrightarrow> \<not> serving ph" by (cases ph) (simp_all add: about_to_serve_def)
  show ?thesis
    unfolding lock_inv_def
  proof (intro allI conjI impI)
    fix q
    assume "in_section (w_phase (goto p ph (w\<lparr>w_sentinel := s', w_lock := f'\<rparr>)) q)"
    then show "owns q (w_phase (goto p ph (w\<lparr>w_sentinel := s', w_lock := f'\<rparr>)) q) (w_sentinel (goto p ph (w\<lparr>w_sentinel := s', w_lock := f'\<rparr>)))"
      using other ph by (cases "q = p") auto
  next
    fix q
    assume "serving (w_phase (goto p ph (w\<lparr>w_sentinel := s', w_lock := f'\<rparr>)) q) \<or> w_phase (goto p ph (w\<lparr>w_sentinel := s', w_lock := f'\<rparr>)) q = Binding"
    then show "names (w_lock (goto p ph (w\<lparr>w_sentinel := s', w_lock := f'\<rparr>))) q"
      using self serve serving_iff nb by (cases "q = p") auto
  next
    fix q r
    assume "about_to_serve (w_phase (goto p ph (w\<lparr>w_sentinel := s', w_lock := f'\<rparr>)) q)"
    then have "about_to_serve ph" using na by (cases "q = p") auto
    then show "\<not> serving (w_phase (goto p ph (w\<lparr>w_sentinel := s', w_lock := f'\<rparr>)) r)"
      using quiet ns serving_iff by (cases "r = p") auto
  qed
qed

text \<open>A decision against a live, answering holder fails.\<close>

lemma honest_refuses:
  assumes "readLock f = Some h" and "an_alive an (li_pid h)" and "list_ex id (take 3 (an_health an))" and "li_pid h \<noteq> p"
  shows "decide an p f = (Inl (AlreadyRunning h), None, f)"
proof -
  from assms(1) have "f \<noteq> No_Lock" by auto
  with assms show ?thesis by (simp add: decide_def)
qed

lemma world_eta: "w\<lparr>w_sentinel := w_sentinel w, w_lock := w_lock w\<rparr> = w" by simp

lemma step_decide:
  assumes "lock_inv w" and "honest an w"
  shows "lock_inv (boot_step (Decide p an) w)"
proof (cases "\<exists>t. w_phase w p = Deciding t")
  case False
  then show ?thesis using assms(1) by (cases "w_phase w p") auto
next
  case True
  then obtain t where t: "w_phase w p = Deciding t" by blast
  obtain res sig f' where d: "decide an p (w_lock w) = (res, sig, f')" by (cases "decide an p (w_lock w)") auto
  have sec: "in_section (w_phase w p)" and own: "owns p (Writing u ex) (w_sentinel w)" "owns p Leaving (w_sentinel w)" for u ex
    using inv_owns[OF assms(1), of p] t by simp_all
  have served: "\<exists>e. res = Inl e" "names f' q" if q: "q \<noteq> p" "w_phase w q = Serving" for q
  proof -
    have "serving (w_phase w q)" using q by (simp add: serving_def)
    with inv_names[OF assms(1)] obtain h where h: "w_lock w = Lock h" "li_pid h = q" by (auto simp: names_def)
    with assms(2) q have "an_alive an (li_pid h)" "list_ex id (take 3 (an_health an))" by (simp_all add: honest_def serving_def)
    from honest_refuses[of "w_lock w" h an p, OF _ this] h q d
    have "res = Inl (AlreadyRunning h)" "f' = w_lock w" by simp_all
    with h show "\<exists>e. res = Inl e" "names f' q" by (auto simp: names_def)
  qed
  show ?thesis
  proof (cases res)
    case (Inl e)
    have "lock_inv (goto p Leaving (w\<lparr>w_sentinel := w_sentinel w, w_lock := f'\<rparr>))"
      using served own(2) by (intro inv_section[OF assms(1) sec]) auto
    with t d Inl show ?thesis by simp
  next
    case (Inr ex)
    have "lock_inv (goto p (Writing t ex) (w\<lparr>w_sentinel := w_sentinel w, w_lock := f'\<rparr>))"
      using served(1) Inr own(1) by (intro inv_section[OF assms(1) sec]) auto
    with t d Inr show ?thesis by simp
  qed
qed

lemma step_write:
  assumes "lock_inv w"
  shows "lock_inv (boot_step (Write p port version) w)"
proof (cases "\<exists>t ex. w_phase w p = Writing t ex")
  case False
  then show ?thesis using assms by (cases "w_phase w p") auto
next
  case True
  then obtain t ex where t: "w_phase w p = Writing t ex" by blast
  let ?i = "\<lparr>li_pid = p, li_started = Some t, li_port = port, li_version = version\<rparr>"
  have sec: "in_section (w_phase w p)" and own: "owns p Binding (w_sentinel w)" "owns p Leaving (w_sentinel w)"
    and none: "\<And>q. w_phase w q \<noteq> Serving"
    using inv_owns[OF assms, of p] inv_quiet[OF assms, of p] t by (auto simp: serving_def)
  obtain r f' where wl: "writeLock ?i ex (w_lock w) = (r, f')" by (cases "writeLock ?i ex (w_lock w)")
  show ?thesis
  proof (cases r)
    case None
    with wl have "names f' p" by (auto simp: writeLock_def names_def split: if_splits)
    then have "lock_inv (goto p Binding (w\<lparr>w_sentinel := w_sentinel w, w_lock := f'\<rparr>))"
      using none own(1) by (intro inv_section[OF assms sec]) auto
    with t wl None show ?thesis by simp
  next
    case (Some e)
    have "lock_inv (goto p Leaving (w\<lparr>w_sentinel := w_sentinel w, w_lock := w_lock w\<rparr>))"
      using none own(2) by (intro inv_section[OF assms sec]) auto
    with t wl Some show ?thesis by simp
  qed
qed

lemma step_bind:
  assumes "lock_inv w"
  shows "lock_inv (boot_step (Bind p ok) w)"
proof (cases "w_phase w p = Binding")
  case True
  have sec: "in_section (w_phase w p)" and own: "owns p Bound (w_sentinel w)" "owns p Leaving (w_sentinel w)"
    and none: "\<And>q. w_phase w q \<noteq> Serving" and nm: "names (w_lock w) p"
    using inv_owns[OF assms, of p] inv_quiet[OF assms, of p] inv_binding[OF assms True] True by (auto simp: serving_def)
  have "lock_inv (goto p Bound (w\<lparr>w_sentinel := w_sentinel w, w_lock := w_lock w\<rparr>))"
    using none own(1) nm by (intro inv_section[OF assms sec]) auto
  moreover have "lock_inv (goto p Leaving (w\<lparr>w_sentinel := w_sentinel w, w_lock := release_lock p (w_lock w)\<rparr>))"
    using none own(2) by (intro inv_section[OF assms sec]) auto
  ultimately show ?thesis using True by simp
qed (simp add: assms)

lemma step_fill:
  assumes "lock_inv w"
  shows "lock_inv (boot_step (Fill p t) w)"
proof (cases "w_phase w p = Opened")
  case True
  have sec: "in_section (w_phase w p)" and torn: "w_sentinel w = Torn p"
    using inv_owns[OF assms, of p] True by simp_all
  have "lock_inv (goto p (Deciding t) (w\<lparr>w_sentinel := Held p (Some t), w_lock := w_lock w\<rparr>))"
    using inv_names[OF assms] by (intro inv_section[OF assms sec]) auto
  with True torn show ?thesis by simp
qed (simp add: assms)

text \<open>Opening the sentinel needs it absent, so nobody is in the section.\<close>

lemma step_open:
  assumes "lock_inv w"
  shows "lock_inv (boot_step (Open p) w)"
proof (cases "w_phase w p = Waiting")
  case True
  show ?thesis
  proof (cases "w_sentinel w = Absent")
    case absent: True
    have empty: "\<not> in_section (w_phase w q)" for q
      using inv_owns[OF assms, of q] absent by (auto simp: owns_def split: if_splits)
    have "lock_inv (goto p Opened (w\<lparr>w_sentinel := Torn p\<rparr>))"
      unfolding lock_inv_def
    proof (intro allI conjI impI)
      fix q
      assume "in_section (w_phase (goto p Opened (w\<lparr>w_sentinel := Torn p\<rparr>)) q)"
      then have "q = p" using empty by (cases "q = p") simp_all
      then show "owns q (w_phase (goto p Opened (w\<lparr>w_sentinel := Torn p\<rparr>)) q) (w_sentinel (goto p Opened (w\<lparr>w_sentinel := Torn p\<rparr>)))"
        by (simp add: owns_def)
    next
      fix q
      assume "serving (w_phase (goto p Opened (w\<lparr>w_sentinel := Torn p\<rparr>)) q) \<or> w_phase (goto p Opened (w\<lparr>w_sentinel := Torn p\<rparr>)) q = Binding"
      then show "names (w_lock (goto p Opened (w\<lparr>w_sentinel := Torn p\<rparr>))) q"
        using inv_names[OF assms, of q] inv_binding[OF assms, of q] by (cases "q = p") auto
    next
      fix q r
      assume "about_to_serve (w_phase (goto p Opened (w\<lparr>w_sentinel := Torn p\<rparr>)) q)"
      then show "\<not> serving (w_phase (goto p Opened (w\<lparr>w_sentinel := Torn p\<rparr>)) r)"
        using empty about_in_section by (cases "q = p") auto
    qed
    with True absent show ?thesis by simp
  next
    case False
    with True show ?thesis using inv_idle[OF assms, of Contended p] by simp
  qed
qed (simp add: assms)

lemma step_release:
  assumes "lock_inv w"
  shows "lock_inv (boot_step (Release p) w)"
proof (cases "w_phase w p = Bound \<or> w_phase w p = Leaving")
  case True
  then have sec: "in_section (w_phase w p)" by auto
  from inv_owns[OF assms this] True obtain t where held: "w_sentinel w = Held p t" by auto
  have other: "\<not> in_section (w_phase w q)" if "q \<noteq> p" for q using section_unique[OF assms sec] that by auto
  let ?ph = "if w_phase w p = Bound then Serving else Down"
  let ?w = "goto p ?ph (w\<lparr>w_sentinel := Absent\<rparr>)"
  have "lock_inv ?w"
    unfolding lock_inv_def
  proof (intro allI conjI impI)
    fix q
    assume "in_section (w_phase ?w q)"
    then show "owns q (w_phase ?w q) (w_sentinel ?w)" using other by (cases "q = p") (auto split: if_splits)
  next
    fix q
    assume "serving (w_phase ?w q) \<or> w_phase ?w q = Binding"
    then have "serving (w_phase w q) \<or> w_phase w q = Binding" using True by (cases "q = p") (auto split: if_splits)
    then show "names (w_lock ?w) q" using inv_names[OF assms, of q] inv_binding[OF assms, of q] by auto
  next
    fix q r
    assume "about_to_serve (w_phase ?w q)"
    then have False using other about_in_section by (cases "q = p") (auto split: if_splits)
    then show "\<not> serving (w_phase ?w r)" ..
  qed
  with True held show ?thesis by simp
qed (simp add: assms)

lemma step_shutdown:
  assumes "lock_inv w"
  shows "lock_inv (boot_step (Shutdown p) w)"
proof (cases "w_phase w p = Serving")
  case True
  then have sv: "serving (w_phase w p)" by simp
  have na: "\<not> about_to_serve (w_phase w q)" for q using inv_quiet[OF assms] sv by blast
  have only: "\<not> serving (w_phase w q) \<and> w_phase w q \<noteq> Binding" if "q \<noteq> p" for q
    using that inv_names[OF assms sv] inv_names[OF assms, of q] inv_binding[OF assms, of q] names_unique by blast
  let ?w = "goto p Down (w\<lparr>w_lock := release_lock p (w_lock w)\<rparr>)"
  have "lock_inv ?w"
    unfolding lock_inv_def
  proof (intro allI conjI impI)
    fix q
    assume "in_section (w_phase ?w q)"
    then show "owns q (w_phase ?w q) (w_sentinel ?w)" using inv_owns[OF assms, of q] by (cases "q = p") auto
  next
    fix q
    assume "serving (w_phase ?w q) \<or> w_phase ?w q = Binding"
    then show "names (w_lock ?w) q" using only by (cases "q = p") auto
  next
    fix q r
    assume "about_to_serve (w_phase ?w q)"
    then show "\<not> serving (w_phase ?w r)" using na by (cases "q = p") auto
  qed
  with True show ?thesis by simp
qed (simp add: assms)

lemma step_keeps:
  assumes "lock_inv w" and "case e of Unlink p \<Rightarrow> False | Decide p an \<Rightarrow> honest an w | _ \<Rightarrow> True"
  shows "lock_inv (boot_step e w)"
proof (cases e)
  case (Judge p an)
  with assms(1) show ?thesis by (cases "w_phase w p") (auto intro!: inv_idle)
qed (use assms in \<open>auto simp: step_decide step_write step_bind step_fill step_open step_release step_shutdown
      simp del: boot_step.simps(2,7,8,9,10,11,12) intro!: inv_idle\<close>)

text \<open>
  C7: One launcher decides and one daemon serves. From any state in which nobody is starting or
  serving - with whatever lock file and sentinel earlier crashes left - and for every interleaving of
  any number of launchers, crashes and shutdowns included: as long as no sentinel is removed as stale
  and a serving daemon answers its probes, at most one process is between creating the sentinel and
  releasing it, and the only process that serves is the one the lock names.
\<close>

theorem one_daemon_serves:
  assumes "\<And>p. \<not> in_section (w_phase w p) \<and> w_phase w p \<noteq> Serving" and "undisputed es w"
  defines "w' \<equiv> fold boot_step es w"
  shows "(\<exists>p. {q. in_section (w_phase w' q)} \<subseteq> {p}) \<and>
    {q. serving (w_phase w' q)} \<subseteq> (case readLock (w_lock w') of None \<Rightarrow> {} | Some i \<Rightarrow> {li_pid i})"
proof -
  have start: "lock_inv w"
    using assms(1) about_in_section phase_simps(4,5) unfolding lock_inv_def serving_def by metis
  have run: "undisputed es v \<Longrightarrow> lock_inv v \<Longrightarrow> lock_inv (fold boot_step es v)" for v
  proof (induction es arbitrary: v)
    case (Cons e es)
    then show ?case using step_keeps[of v e] by simp
  qed simp
  from run[OF assms(2) start] have inv: "lock_inv w'" by (simp add: w'_def)
  have "\<exists>p. {q. in_section (w_phase w' q)} \<subseteq> {p}" using section_unique[OF inv] by blast
  moreover have "q \<in> (case readLock (w_lock w') of None \<Rightarrow> {} | Some i \<Rightarrow> {li_pid i})" if "serving (w_phase w' q)" for q
    using inv_names[OF inv that] by (auto simp: names_def)
  ultimately show ?thesis by blast
qed

definition idle_world :: "sentinel \<Rightarrow> lock_file \<Rightarrow> world" where
  "idle_world s f = \<lparr>w_sentinel = s, w_lock = f, w_phase = \<lambda>_. Down\<rparr>"

definition boot_of :: "pid \<Rightarrow> answers \<Rightarrow> boot_event list" where
  "boot_of p an = [Start p, Open p, Fill p 50000, Decide p an, Write p 80 ''1.0'', Bind p True, Release p]"

text \<open>A second launcher finds the first daemon serving and gives way.\<close>

definition healthy_answers :: answers where
  "healthy_answers = wedged_answers\<lparr>an_health := [True]\<rparr>"

theorem one_daemon_serves_witness:
  "let w' = fold boot_step (boot_of 1 healthy_answers @ boot_of 2 healthy_answers) (idle_world Absent No_Lock)
   in {q. serving (w_phase w' q)} \<subseteq> {1} \<and> w_phase w' 1 = Serving \<and> w_phase w' 2 = Down"
proof -
  let ?es = "boot_of 1 healthy_answers @ boot_of 2 healthy_answers" and ?w = "idle_world Absent No_Lock"
  have start: "\<not> in_section (w_phase ?w p) \<and> w_phase ?w p \<noteq> Serving" for p by (simp add: idle_world_def)
  have run: "undisputed ?es ?w"
    by (simp add: boot_of_def idle_world_def goto_def decide_def writeLock_def honest_def healthy_answers_def wedged_answers_def)
  have last: "readLock (w_lock (fold boot_step ?es ?w)) = Some \<lparr>li_pid = 1, li_started = Some 50000, li_port = 80, li_version = ''1.0''\<rparr>"
    "w_phase (fold boot_step ?es ?w) 1 = Serving" "w_phase (fold boot_step ?es ?w) 2 = Down"
    by (simp_all add: boot_of_def idle_world_def goto_def decide_def writeLock_def healthy_answers_def wedged_answers_def)
  from one_daemon_serves[OF start run] last show ?thesis by (simp add: Let_def)
qed

section \<open>How a steal breaks the mutex\<close>

text \<open>
  Removing a stale sentinel is not atomic with judging it. After a crash that left sentinel and lock
  of process 9 behind, two launchers read the sentinel and judge it stale; the second removes the one
  the first has created since, and both take over the dead lock and serve.
\<close>

definition after_crash :: answers where
  "after_crash = wedged_answers\<lparr>an_alive := \<lambda>q. q \<noteq> 9\<rparr>"

definition dead_lock :: lock_file where
  "dead_lock = Lock \<lparr>li_pid = 9, li_started = Some 0, li_port = 80, li_version = ''1.0''\<rparr>"

definition both_take_over :: "boot_event list" where
  "both_take_over = [Decide 1 after_crash, Decide 2 after_crash, Write 1 80 ''1.0'', Write 2 81 ''1.0'', Bind 1 True, Bind 2 True, Release 1, Release 2]"

lemma stale_sentinel_is_stolen_twice:
  "let w' = fold boot_step ([Start 1, Start 2, Open 1, Open 2, Look 1, Look 2, Judge 1 after_crash, Judge 2 after_crash,
      Unlink 1, Open 1, Fill 1 50000, Unlink 2, Open 2, Fill 2 50000] @ both_take_over) (idle_world (Held 9 (Some 0)) dead_lock)
   in w_phase w' 1 = Serving \<and> w_phase w' 2 = Serving"
  by (simp add: both_take_over_def idle_world_def dead_lock_def goto_def decide_def writeLock_def after_crash_def wedged_answers_def
    stale_sentinel_def checkHolderIdentity_def Let_def)

text \<open>
  No crash of a launcher is needed: a sentinel is created empty and filled afterwards, and who reads
  it in between takes it for stale.
\<close>

lemma torn_sentinel_is_stolen:
  "let w' = fold boot_step ([Start 1, Start 2, Open 1, Open 2, Look 2, Judge 2 after_crash, Fill 1 50000,
      Unlink 2, Open 2, Fill 2 50000] @ both_take_over) (idle_world Absent dead_lock)
   in w_phase w' 1 = Serving \<and> w_phase w' 2 = Serving"
  by (simp add: both_take_over_def idle_world_def dead_lock_def goto_def decide_def writeLock_def after_crash_def wedged_answers_def
    stale_sentinel_def Let_def)

end
