(* ===== verification/Spec2Isabelle.thy ===== *)
theory Spec2Isabelle
  imports Worker Sync_Merge Ship Spending Distill_Text Distill_Atoms Fusion Pack Providers Usefulness
    Consolidate_Safety Spool Retention Redact Instance_Lock
begin

text \<open>
  A verification development for astramem-local, a local memory daemon: it ingests transcripts of
  AI sessions, distils them into memories with language models, stores them in SQLite, serves them
  to prompts, and synchronises them with a cloud ledger. All paths below are under \<open>src/src/\<close>.

  \<^bold>\<open>How the parts interact.\<close> A captured transcript is an envelope, redacted and written to a spool
  directory; the drain and the HTTP route parse it with one schema and ingest it in one transaction,
  which redacts its texts again, guards it by an idempotency key, and adds a \<open>distill\<close> job to the job
  queue. The worker claims
  jobs under the lane budget of a load governor and settles each by the outcome of its handler. The
  distill handler cleans and chunks the text, calls providers for each chunk under spending limits,
  merges and filters the extracted atoms, and inserts the survivors as memories. Every change of a
  memory goes through the event log, which is also the queue of the shipper; the puller applies the
  events of other devices with a conflict rule. Search fuses the scores of its two candidate lists;
  the pack selects and renders memories for a prompt and records what it served; the recorded
  events feed the ranking and the archival policy, and are pruned without touching the queue. A
  consolidation pass compares the memories of each group, merges near duplicates by superseding one
  with the other, and leaves the doubtful pairs as proposals for a person or a judge.

  \<^bold>\<open>Theories.\<close>
  \<^item> \<open>Prelude\<close>: tables as lists of rows in rowid order (\<open>update_rows\<close>, \<open>delete_rows\<close>,
    \<open>get_row\<close>), the locale \<open>keyed_rows\<close> of a table with a key, step machines with a locale for
    their invariants, rounding and lower case of JavaScript, insertion-ordered maps.
  \<^item> \<open>Jobs\<close> (\<open>pipeline/job-repo.ts\<close>, \<open>contracts/job.ts\<close>): the queue and all its operations. The
    claim takes a least job in aged priority, an aged job is eventually claimed, each job is
    claimed once. The SQL quotient of the aging term is a parameter, governed by a locale.
  \<^item> \<open>Governor\<close> (\<open>pipeline/backpressure.ts\<close>): the lane budget stays between one and the lane count.
  \<^item> \<open>Worker\<close> (\<open>pipeline/worker.ts\<close>, \<open>failure-classifier.ts\<close>, \<open>errors.ts\<close>): lanes, the batch
    loop, timers, settling and shutdown as a step relation. A running job belongs to exactly one
    lane, failed jobs are retried, the third failure poisons.
  \<^item> \<open>Memory_Store\<close> (\<open>storage/memories.ts\<close>, \<open>memory-links.ts\<close>, \<open>sql-utils.ts\<close>): the tables, as a
    record of lists, and the row operations.
  \<^item> \<open>Lifecycle\<close> (\<open>storage/memory-events.ts\<close>, \<open>archival.ts\<close>): the life of a memory. An abstract
    machine of six modes is refined by the operations; the store invariant holds after any sequence
    of operations; reversals restore rows, erasure is final, every change is logged.
  \<^item> \<open>Sync_Merge\<close> (\<open>sync/puller.ts\<close>, \<open>conflict-resolve.ts\<close>): pulling is atomic and idempotent per
    page, and the conflict rule is independent of the order of arrival where the code makes it so;
    the divergences found are stated as theorems.
  \<^item> \<open>Ship\<close> (\<open>sync/shipper.ts\<close>, \<open>backfill.ts\<close>): what leaves the device respects the scopes, every
    shipped event is settled once, repeated rounds drain the log, JSON text is storable on the other
    side (16-bit code units as words).
  \<^item> \<open>Spending\<close> (\<open>budget/tracker.ts\<close>, \<open>util/run-cap-tracker.ts\<close>, \<open>distill/cost-cap.ts\<close>,
    \<open>distill/concurrency.ts\<close> and the guards of \<open>distill/stages/04-compact.ts\<close>, \<open>05-extract.ts\<close>):
    the concurrent fan-out terminates and is complete, and how far it can exceed the caps.
  \<^item> \<open>Distill_Text\<close> (\<open>distill/stages/01-cleanup.ts\<close>, \<open>03-chunk.ts\<close>): normal form of the cleanup,
    and chunking as a partition of the text.
  \<^item> \<open>Distill_Atoms\<close> (\<open>distill/dedup-merge.ts\<close>, \<open>stages/06-reduce.ts\<close>, \<open>evidence-verify.ts\<close>,
    \<open>evidence-gate.ts\<close>): merging loses no statement, reduction keeps the best atom, the evidence gate
    is sound in both directions.
  \<^item> \<open>Fusion\<close> (\<open>search/fuse.ts\<close>): the fused list is valid on the wire and respects dominance.
  \<^item> \<open>Pack\<close> (\<open>recall/pack.ts\<close>, \<open>recall/policy.ts\<close>, recording in \<open>storage/usefulness.ts\<close>): what is
    injected, within which budget, and what is logged; a memory text cannot leave its list item.
  \<^item> \<open>Usefulness\<close> (\<open>storage/usefulness.ts\<close>): scores, rates, the implicit-positive sweep and pruning.
  \<^item> \<open>Providers\<close> (\<open>providers/llm/health-tracking.ts\<close>, \<open>quota-breaker.ts\<close>, \<open>rate-limited.ts\<close>,
    \<open>retry-after.ts\<close>, \<open>pipeline/oversize.ts\<close>, \<open>oversize-scanner.ts\<close>): a quota storm is bounded, the
    token bucket bounds the rate, the repair scan is idempotent.

  \<^item> \<open>Proposals\<close> (\<open>consolidate/proposals.ts\<close>, \<open>command-guard.ts\<close>, \<open>routes/consolidation.ts\<close>, the
    batch tool of \<open>mcp/server.ts\<close>): the queue of merge and contradiction proposals, its resolution
    one by one or in a batch, and the merge of two memories. A proposal is resolved once, an accept
    merges exactly its pair, a batch accounts for every match.
  \<^item> \<open>Consolidate\<close> (\<open>consolidate/consolidate.ts\<close>, \<open>dup-judge.ts\<close>, \<open>contradiction-judge.ts\<close>,
    \<open>storage/consolidation-cursor.ts\<close>): a consolidation pass: the paged load, the groups and their
    rotation, the candidate pairs, the tiers of a pair, the containment sweep, the duplicate judge.
  \<^item> \<open>Consolidate_Safety\<close>: what a pass may do. Every merge of a pass is a step of one relation, from
    which the safety of the pass follows: no memory is lost, the command guard holds, the cursor
    reaches every group, the judge acts only on confident verdicts.
  \<^item> \<open>Envelope\<close> (the schemas of \<open>server/routes/ingest.ts\<close>, \<open>ingest/spool-schema-guard.ts\<close>,
    \<open>redactValuesDeep\<close> of \<open>ingest/spool.ts\<close>): JSON values, the schema language, validation and the
    redaction of an envelope by its schema, which commutes with validating it.
  \<^item> \<open>Ingest\<close> (\<open>server/routes/ingest.ts\<close>, \<open>storage/ingest-idempotency.ts\<close>, \<open>storage/redaction-log.ts\<close>,
    \<open>server/lib/stable-stringify.ts\<close>, \<open>pipeline/derive-project.ts\<close>): the transaction, the other kinds of
    envelopes and the HTTP answers. A key is ingested once, a first ingest records everything.
  \<^item> \<open>Spool\<close> (\<open>ingest/spool.ts\<close>, \<open>ingest/spool-drain.ts\<close>): the spool, its quarantine and the drain
    tick over a file system whose calls may fail. No envelope is lost, and the spool empties.
  \<^item> \<open>Retention\<close> (\<open>storage/retention.ts\<close>, \<open>backup/retention.ts\<close>, the governance in
    \<open>config/config.ts\<close>): what is deleted lies in the sandbox, and the newest backups stay.
  \<^item> \<open>Js_Regex\<close>: a backtracking matcher for the patterns of the code, and its soundness.
  \<^item> \<open>Redact\<close> (\<open>redact/index.ts\<close>, \<open>redact/detectors.ts\<close>, \<open>redact/entropy.ts\<close>): all detectors as
    patterns, the three rounds of redaction, and what they replace and leave. The other theories take
    redaction as a parameter, so their theorems hold for this one.
  \<^item> \<open>Instance_Lock\<close> (\<open>service/instance-lock.ts\<close>): which launcher may take over the lock of the data
    directory, and launchers side by side. One daemon serves as long as no sentinel is stolen; two
    traces show how a steal lets two of them serve.

  \<^bold>\<open>Conventions.\<close> Every operation takes its clock reading and the identifiers \<open>randomUUID\<close> gives it
  as arguments. Errors are values: the left side of a sum, or \<open>None\<close>. A synchronous SQLite
  transaction is one step; an \<open>await\<close> splits an operation in two, so that others can interleave.
  Strings are lists of 8-bit characters (Latin-1). Amounts, weights and scores are reals, so floating
  point rounding is not modelled, except where the code rounds. Epoch milliseconds are integers.
  External code is a parameter: SHA-256, the cloud, the language models and embedding providers,
  \<open>Date.parse\<close>, SQLite's JSON functions and the order of rows a query leaves open.

  \<^bold>\<open>Bounds and fuel.\<close> Recursions are structural or have a measure. The two loops of the code that are
  bounded by nothing but their data are the conflict resolution along superseding chains, whose fuel
  stands for the call stack (a cycle exhausts any fuel, which is a theorem), and the worker's
  scheduling, which is a relation without fuel.

  \<^bold>\<open>Not modelled.\<close> Retrieval and reranking in \<open>search/search.ts\<close>, whose core is FTS5 and a vector
  extension; the driver of the distill pipeline with its prompts and the repair of model answers; the
  cost files and cost events; entities; most of the configuration; migrations; the keystore; the
  HTTP, MCP and command line front ends; the doctor; the service manager and the capture of
  transcripts. Front ends, operating-system glue and append-only observability tables have no state
  of their own that the modelled components read.
\<close>

end
